(* ===== verification/Prelude.thy ===== *)
theory Prelude
  imports Main "HOL-Library.Word"
begin

text \<open>
  Shared vocabulary of the development: the machine integer types of an LP64 platform
  (\<open>unsigned int\<close> is 32 bits, \<open>size_t\<close> and pointers are 64 bits), the collections of
  simplification rules the component theories extend, and generic lemmas on words and lists.
\<close>

unbundle bit_operations_syntax

type_synonym u8 = "8 word"
type_synonym u16 = "16 word"
type_synonym u32 = "32 word"
type_synonym u64 = "64 word"

named_theorems flag_simps \<open>tests and updates of the flag bits of a tail word\<close>

section \<open>Chains of list neighbours\<close>

text \<open>
  \<open>linked f xs\<close>: \<open>f\<close> maps every element of \<open>xs\<close> but the last one to its successor in \<open>xs\<close>.
  \<open>consecutive f xs\<close>: along \<open>xs\<close> the values of \<open>f\<close> count up by one.
\<close>

abbreviation linked :: "('a \<Rightarrow> 'a) \<Rightarrow> 'a list \<Rightarrow> bool" where
  "linked f \<equiv> successively (\<lambda>x y. f x = y)"

abbreviation consecutive :: "('a \<Rightarrow> nat) \<Rightarrow> 'a list \<Rightarrow> bool" where
  "consecutive f \<equiv> successively (\<lambda>x y. f y = Suc (f x))"

lemmas succ_simps = successively_Cons successively_append_iff

lemma linked_cong:
  "\<lbrakk>linked f xs; \<And>x. x \<in> set (butlast xs) \<Longrightarrow> g x = f x\<rbrakk> \<Longrightarrow> linked g xs"
  by (induction xs rule: induct_list012) auto

lemma consecutive_last_le: "consecutive f (x # xs) \<Longrightarrow> f x \<le> f (last (x # xs))"
proof (induction xs arbitrary: x)
  case (Cons y ys)
  then have "f x \<le> f y" and "consecutive f (y # ys)" by auto
  with Cons.IH [of y] show ?case by auto
qed simp

lemma consecutive_cong:
  "\<lbrakk>consecutive f xs; \<And>x. x \<in> set xs \<Longrightarrow> g x = f x\<rbrakk> \<Longrightarrow> consecutive g xs"
  by (induction xs rule: induct_list012) auto

lemma last_notin_butlast: "distinct xs \<Longrightarrow> xs \<noteq> [] \<Longrightarrow> last xs \<notin> set (butlast xs)"
  by (induction xs) auto

section \<open>Words\<close>

lemma unat_mask_cut: "x AND NOT (mask k :: 'a::len word) = push_bit k (drop_bit k x)"
  by (rule bit_word_eqI) (auto simp: bit_simps)

lemma unat_and_not_mask:
  fixes x :: "'a::len word"
  shows "unat (x AND NOT (mask k)) = unat x div 2 ^ k * 2 ^ k"
proof -
  have "unat x div 2 ^ k * 2 ^ k \<le> unat x" by simp
  also have "unat x < 2 ^ LENGTH('a)" by (rule unsigned_less)
  finally have less: "unat x div 2 ^ k * 2 ^ k < 2 ^ LENGTH('a)" .
  have "unat (push_bit k (drop_bit k x)) = take_bit LENGTH('a) (push_bit k (unat (drop_bit k x)))"
    by (simp add: unsigned_push_bit_eq)
  also have "\<dots> = take_bit LENGTH('a) (unat x div 2 ^ k * 2 ^ k)"
    by (simp only: unat_drop_bit_eq) (simp only: push_bit_eq_mult drop_bit_eq_div)
  also have "\<dots> = unat x div 2 ^ k * 2 ^ k"
    using less by (simp add: take_bit_nat_eq_self)
  finally show ?thesis by (simp add: unat_mask_cut)
qed

lemma unat_mask_word:
  assumes "k \<le> LENGTH('a)"
  shows "unat (mask k :: 'a::len word) = 2 ^ k - 1"
proof -
  have "unat (mask k :: 'a word) = nat (mask k)"
    using assms by (simp add: uint_mask_eq min_def flip: nat_uint_eq)
  also have "\<dots> = mask k" by (rule nat_mask_eq)
  also have "\<dots> = 2 ^ k - 1" by (rule mask_eq_exp_minus_1)
  finally show ?thesis .
qed

lemma unat_plus_if_less:
  fixes x y :: "'a::len word"
  shows "unat x + unat y < 2 ^ LENGTH('a) \<Longrightarrow> unat (x + y) = unat x + unat y"
  by (simp add: unat_add_lem [symmetric])

lemma unat_ucast_wide: "unat (ucast (k :: u32) :: u64) = unat k"
  by (simp add: unsigned_ucast_eq take_bit_nat_eq_self_iff order.strict_trans2 [OF unsigned_less])

lemma sint_of_nat_small: "m < 2 ^ 31 \<Longrightarrow> sint (of_nat m :: u32) = int m"
  by (simp add: signed_of_nat signed_take_bit_int_eq_self)

end
