(* ===== verification/Rtipc_Types.thy ===== *)
theory Rtipc_Types
  imports Prelude
begin

text \<open>
  The public data types of \<open>include/rtipc/rtipc.h\<close>: attributes of channels and groups, and the result
  codes of the queue operations. A pointer to a block of memory that the code only reads is the
  list of the elements that may be read through it, or \<open>None\<close> for \<open>NULL\<close>; reading past the list is
  undefined in C and is an explicit failure (\<open>None\<close>) of the functions that walk it.
\<close>

record ri_info =
  i_size :: u64
  i_data :: "u8 list option"

record ri_channel_attr =
  a_msg_size :: u64
  a_add_msgs :: u32
  a_eventfd :: bool
  a_info :: ri_info

record ri_group_attr =
  g_consumers :: "ri_channel_attr list option"
  g_producers :: "ri_channel_attr list option"
  g_info :: ri_info

datatype ri_pop_result =
    RI_POP_RESULT_ERROR
  | RI_POP_RESULT_NO_MSG
  | RI_POP_RESULT_NO_UPDATE
  | RI_POP_RESULT_SUCCESS
  | RI_POP_RESULT_DISCARDED

datatype ri_force_push_result =
    RI_FORCE_PUSH_RESULT_ERROR
  | RI_FORCE_PUSH_RESULT_SUCCESS
  | RI_FORCE_PUSH_RESULT_DISCARDED

datatype ri_try_push_result =
    RI_TRY_PUSH_RESULT_ERROR
  | RI_TRY_PUSH_RESULT_FAIL
  | RI_TRY_PUSH_RESULT_SUCCESS

text \<open>The initialiser \<open>{ 0 }\<close> of the two attribute structures.\<close>

definition info_zero :: ri_info where
  "info_zero = \<lparr>i_size = 0, i_data = None\<rparr>"

definition channel_attr_zero :: ri_channel_attr where
  "channel_attr_zero = \<lparr>a_msg_size = 0, a_add_msgs = 0, a_eventfd = False, a_info = info_zero\<rparr>"

text \<open>
  The numeric values of the result codes, as the header assigns them; \<open>ri_consumer_pop\<close> and the
  push operations are compared by these values across the language bindings.
\<close>

fun pop_code :: "ri_pop_result \<Rightarrow> int" where
  "pop_code RI_POP_RESULT_ERROR = -2"
| "pop_code RI_POP_RESULT_NO_MSG = -1"
| "pop_code RI_POP_RESULT_NO_UPDATE = 0"
| "pop_code RI_POP_RESULT_SUCCESS = 1"
| "pop_code RI_POP_RESULT_DISCARDED = 2"

text \<open>
  The result of a function that may be undefined in C (an access outside an object, a null pointer
  dereferenced), may report an error code, or returns normally.
\<close>

datatype 'a outcome = Undefined | Fails int | Returns 'a

fun and_then :: "'a outcome \<Rightarrow> ('a \<Rightarrow> 'b outcome) \<Rightarrow> 'b outcome" where
  "and_then Undefined k = Undefined"
| "and_then (Fails e) k = Fails e"
| "and_then (Returns x) k = k x"

definition ENOMEM :: int where
  "ENOMEM = 12"

definition EINVAL :: int where
  "EINVAL = 22"

end
