(* ===== verification/Index.thy ===== *)
theory Index
  imports Prelude
begin

text \<open>
  The index words of a queue (\<open>src/index.h\<close>): an unsigned 32-bit word whose two top bits are
  flags and whose value \<open>UINT_MAX\<close> stands for "no index". The lemmas say how the flag
  operations of the queue code act on words that hold a valid index.
\<close>

type_synonym ri_index = u32

definition UINT_MAX :: u32 where
  "UINT_MAX = - 1"

definition RI_INDEX_INVALID :: ri_index where
  "RI_INDEX_INVALID = UINT_MAX"

definition RI_CONSUMED_FLAG :: ri_index where
  "RI_CONSUMED_FLAG = UINT_MAX - UINT_MAX div 2"

definition RI_FIRST_FLAG :: ri_index where
  "RI_FIRST_FLAG = drop_bit 1 RI_CONSUMED_FLAG"

definition RI_ORIGIN_MASK :: ri_index where
  "RI_ORIGIN_MASK = RI_CONSUMED_FLAG"

definition RI_INDEX_MASK :: ri_index where
  "RI_INDEX_MASK = NOT (RI_ORIGIN_MASK OR RI_FIRST_FLAG)"

text \<open>The truth value of \<open>x & flag\<close> in a C condition.\<close>

definition flagged :: "ri_index \<Rightarrow> ri_index \<Rightarrow> bool" where
  "flagged x flag \<longleftrightarrow> x AND flag \<noteq> 0"

section \<open>The values of the constants\<close>

lemma invalid_eq: "RI_INDEX_INVALID = 0xFFFFFFFF"
  by (simp add: RI_INDEX_INVALID_def UINT_MAX_def)

lemma consumed_eq: "RI_CONSUMED_FLAG = 0x80000000"
  by (simp add: RI_CONSUMED_FLAG_def UINT_MAX_def)

lemma first_eq: "RI_FIRST_FLAG = 0x40000000"
  by (simp add: RI_FIRST_FLAG_def consumed_eq)

lemma index_mask_eq: "RI_INDEX_MASK = 0x3FFFFFFF"
  by (simp add: RI_INDEX_MASK_def RI_ORIGIN_MASK_def consumed_eq first_eq)

lemmas index_consts = invalid_eq consumed_eq first_eq index_mask_eq

lemma bit_consumed: "bit RI_CONSUMED_FLAG n \<longleftrightarrow> n = 31"
proof -
  have "RI_CONSUMED_FLAG = push_bit 31 1" by (simp add: consumed_eq)
  then have "bit RI_CONSUMED_FLAG n \<longleftrightarrow> bit (push_bit 31 1 :: u32) n" by (simp only:)
  also have "\<dots> \<longleftrightarrow> n = 31"
    unfolding bit_push_bit_iff bit_1_iff by auto
  finally show ?thesis .
qed

lemma bit_first: "bit RI_FIRST_FLAG n \<longleftrightarrow> n = 30"
proof -
  have "RI_FIRST_FLAG = push_bit 30 1" by (simp add: first_eq)
  then have "bit RI_FIRST_FLAG n \<longleftrightarrow> bit (push_bit 30 1 :: u32) n" by (simp only:)
  also have "\<dots> \<longleftrightarrow> n = 30"
    unfolding bit_push_bit_iff bit_1_iff by auto
  finally show ?thesis .
qed

lemma index_mask_mask: "RI_INDEX_MASK = mask 30"
  by (simp add: index_mask_eq mask_eq_exp_minus_1)

lemma flagged_consumed: "flagged x RI_CONSUMED_FLAG \<longleftrightarrow> bit x 31"
proof -
  have "RI_CONSUMED_FLAG = push_bit 31 1" by (simp add: consumed_eq)
  then show ?thesis by (simp only: flagged_def bit_iff_and_push_bit_not_eq_0)
qed

lemma flagged_first: "flagged x RI_FIRST_FLAG \<longleftrightarrow> bit x 30"
proof -
  have "RI_FIRST_FLAG = push_bit 30 1" by (simp add: first_eq)
  then show ?thesis by (simp only: flagged_def bit_iff_and_push_bit_not_eq_0)
qed

section \<open>Flag arithmetic\<close>

text \<open>\<open>x AND RI_INDEX_MASK\<close> keeps the low 30 bits.\<close>

lemma index_mask_take_bit: "x AND RI_INDEX_MASK = take_bit 30 x"
  by (simp add: index_mask_mask take_bit_eq_mask)

lemma bit_index_mask: "bit (x AND RI_INDEX_MASK) n \<longleftrightarrow> bit x n \<and> n < 30"
  by (auto simp: index_mask_take_bit bit_simps)

lemma flagged_or_consumed [flag_simps]: "flagged (x OR RI_CONSUMED_FLAG) RI_CONSUMED_FLAG"
  by (simp add: flagged_consumed bit_consumed bit_or_iff)

lemma flagged_or_first [flag_simps]: "flagged (x OR RI_FIRST_FLAG) RI_FIRST_FLAG"
  by (simp add: flagged_first bit_first bit_or_iff)

lemma first_or_consumed [flag_simps]:
  "flagged (x OR RI_CONSUMED_FLAG) RI_FIRST_FLAG = flagged x RI_FIRST_FLAG"
  by (auto simp: flagged_first bit_consumed bit_or_iff)

lemma consumed_or_first [flag_simps]:
  "flagged (x OR RI_FIRST_FLAG) RI_CONSUMED_FLAG = flagged x RI_CONSUMED_FLAG"
  by (auto simp: flagged_consumed bit_first bit_or_iff)

lemma mask_or_consumed [flag_simps]: "(x OR RI_CONSUMED_FLAG) AND RI_INDEX_MASK = x AND RI_INDEX_MASK"
  by (rule bit_word_eqI) (auto simp: bit_index_mask bit_consumed bit_or_iff)

lemma mask_or_first [flag_simps]: "(x OR RI_FIRST_FLAG) AND RI_INDEX_MASK = x AND RI_INDEX_MASK"
  by (rule bit_word_eqI) (auto simp: bit_index_mask bit_first bit_or_iff)

lemma or_consumed_idem [flag_simps]: "flagged x RI_CONSUMED_FLAG \<Longrightarrow> x OR RI_CONSUMED_FLAG = x"
  by (rule bit_word_eqI) (auto simp: flagged_consumed bit_consumed bit_or_iff)

lemma invalid_or [flag_simps]: "RI_INDEX_INVALID OR x = RI_INDEX_INVALID"
  by (simp add: RI_INDEX_INVALID_def UINT_MAX_def)

section \<open>Words that hold a valid index\<close>

text \<open>
  A queue has at most \<open>2 ^ 30 - 1\<close> messages, so that every message index fits under the
  flags and \<open>RI_INDEX_INVALID AND RI_INDEX_MASK\<close> is no message index.
\<close>

lemma unat_invalid [simp]: "unat RI_INDEX_INVALID = 0xFFFFFFFF"
  by (simp add: invalid_eq)

lemma unat_take_bit_self: "unat x < 2 ^ n \<Longrightarrow> take_bit n x = (x :: u32)"
  by (simp add: word_unat_eq_iff unsigned_take_bit_eq take_bit_nat_eq_self)

lemma small_mask: "unat x < 2 ^ 30 \<Longrightarrow> x AND RI_INDEX_MASK = x"
  by (simp add: index_mask_take_bit unat_take_bit_self)

lemma small_bit: "unat x < 2 ^ 30 \<Longrightarrow> 30 \<le> n \<Longrightarrow> \<not> bit (x :: u32) n"
  by (metis bit_index_mask linorder_not_less small_mask)

lemma small_flags:
  "unat x < 2 ^ 30 \<Longrightarrow> \<not> flagged x RI_CONSUMED_FLAG \<and> \<not> flagged x RI_FIRST_FLAG"
  by (simp add: flagged_consumed flagged_first small_bit)

lemma unat_index_mask: "unat (x AND RI_INDEX_MASK) < 2 ^ 30"
proof -
  have "unat (x AND RI_INDEX_MASK) = take_bit 30 (unat x)"
    by (simp add: index_mask_take_bit unsigned_take_bit_eq)
  also have "\<dots> < 2 ^ 30" by (rule take_bit_nat_less_exp)
  finally show ?thesis .
qed

lemma invalid_mask: "unat (RI_INDEX_INVALID AND RI_INDEX_MASK) = 0x3FFFFFFF"
  by (simp add: invalid_eq index_mask_eq)

text \<open>A word is determined by its index and its two flags.\<close>

lemma index_word_eqI:
  assumes "x AND RI_INDEX_MASK = y AND RI_INDEX_MASK"
    and "flagged x RI_CONSUMED_FLAG = flagged y RI_CONSUMED_FLAG"
    and "flagged x RI_FIRST_FLAG = flagged y RI_FIRST_FLAG"
  shows "x = y"
proof (rule bit_word_eqI)
  fix n assume n: "n < LENGTH(32)"
  consider "n < 30" | "n = 30" | "n = 31" using n by fastforce
  then show "bit x n = bit y n"
  proof cases
    case 1
    then show ?thesis using assms(1) by (metis bit_index_mask)
  qed (use assms(2,3) in \<open>auto simp: flagged_consumed flagged_first\<close>)
qed

lemma plain_eq_mask:
  "\<not> flagged x RI_CONSUMED_FLAG \<Longrightarrow> \<not> flagged x RI_FIRST_FLAG \<Longrightarrow> x AND RI_INDEX_MASK = x"
  by (rule index_word_eqI)
    (auto simp: small_mask unat_index_mask small_flags flagged_consumed flagged_first bit_index_mask)

lemma or_consumed_eq_invalid: "x OR RI_CONSUMED_FLAG = RI_INDEX_INVALID \<Longrightarrow>
    unat (x AND RI_INDEX_MASK) = 0x3FFFFFFF"
  by (metis invalid_mask mask_or_consumed)

end
