(* ===== verification/Mem_Utils.thy ===== *)
theory Mem_Utils
  imports Prelude
begin

text \<open>
  \<open>src/mem_utils.h\<close> and \<open>src/mem_utils.c\<close>: alignment and address arithmetic on 64-bit sizes and
  pointers, and the detection of the data cache line size from sysfs. The cache line size that
  \<open>cacheline_size()\<close> returns is a parameter \<open>cls\<close> of every definition that uses it: it is either the
  macro \<open>RI_CACHELINE_SIZE\<close> of the build or what \<open>get_cls\<close> finds.
\<close>

section \<open>Alignment\<close>

definition mem_align :: "u64 \<Rightarrow> u64 \<Rightarrow> u64" where
  "mem_align sz alignment = (sz + alignment - 1) AND NOT (alignment - 1)"

definition mem_offset :: "u64 \<Rightarrow> u64 \<Rightarrow> u64" where
  "mem_offset p offset = p + offset"

definition cacheline_aligned :: "u64 \<Rightarrow> u64 \<Rightarrow> u64" where
  "cacheline_aligned cls sz = mem_align sz cls"

text \<open>\<open>alignof(max_align_t)\<close> is 16 on the LP64 ABIs.\<close>

definition max_align :: u64 where
  "max_align = 16"

definition mem_maxalign :: "u64 \<Rightarrow> u64" where
  "mem_maxalign sz = mem_align sz max_align"

section \<open>Cache line detection\<close>

datatype cache_type_t =
    CACHE_TYPE_UNKNOWN
  | CACHE_TYPE_DATA
  | CACHE_TYPE_INSTRUCTION
  | CACHE_TYPE_UNIFIED

record cache_t =
  cache_size :: u64
  cache_cls :: u64
  cache_level :: u32
  cache_type :: cache_type_t

definition MAX_SANE_CACHE_LINE_SIZE :: int where
  "MAX_SANE_CACHE_LINE_SIZE = 0x1000"

text \<open>
  What reading a sysfs attribute of cache \<open>index\<close> of CPU 0 gives. For the attribute \<open>type\<close> the code
  looks at the first character only; \<open>None\<close> is a file that does not open, \<open>Some None\<close> an empty one.
  For a number, \<open>fscanf\<close> may fail at end of file, may match nothing (then the variable keeps
  whatever it held, here \<open>Unset g\<close> with an arbitrary \<open>g\<close>), or may store a number.
\<close>

datatype scan = Not_Opened | Eof | Unset int | Number int

record sysfs =
  fs_type :: "nat \<Rightarrow> char option option"
  fs_size :: "nat \<Rightarrow> scan"
  fs_level :: "nat \<Rightarrow> scan"
  fs_cls :: "nat \<Rightarrow> scan"

definition cache_read_type :: "sysfs \<Rightarrow> nat \<Rightarrow> cache_type_t" where
  "cache_read_type fs index =
     (case fs_type fs index of
        None \<Rightarrow> CACHE_TYPE_UNKNOWN
      | Some None \<Rightarrow> CACHE_TYPE_UNKNOWN
      | Some (Some c) \<Rightarrow>
          if c = CHR ''D'' then CACHE_TYPE_DATA
          else if c = CHR ''I'' then CACHE_TYPE_INSTRUCTION
          else if c = CHR ''U'' then CACHE_TYPE_UNIFIED
          else CACHE_TYPE_UNKNOWN)"

fun cache_read_long :: "scan \<Rightarrow> int" where
  "cache_read_long Not_Opened = -1"
| "cache_read_long Eof = -1"
| "cache_read_long (Unset g) = g"
| "cache_read_long (Number v) = v"

definition read_cache :: "sysfs \<Rightarrow> nat \<Rightarrow> cache_t option" where
  "read_cache fs index =
     (let sz = cache_read_long (fs_size fs index) in
      if sz \<le> 0 then None else
      let level = cache_read_long (fs_level fs index) in
      if level \<le> 0 then None else
      let cls = cache_read_long (fs_cls fs index) in
      if cls \<le> 0 \<or> cls > MAX_SANE_CACHE_LINE_SIZE then None else
      let type = cache_read_type fs index in
      if type = CACHE_TYPE_UNKNOWN then None else
      Some \<lparr>cache_size = word_of_int sz, cache_cls = word_of_int cls,
            cache_level = word_of_int level, cache_type = type\<rparr>)"

fun get_cls_loop :: "sysfs \<Rightarrow> nat list \<Rightarrow> u64 \<Rightarrow> u64" where
  "get_cls_loop fs [] cls = cls"
| "get_cls_loop fs (i # is) cls =
     (case read_cache fs i of
        None \<Rightarrow> get_cls_loop fs is cls
      | Some cache \<Rightarrow>
          if cache_type cache \<noteq> CACHE_TYPE_DATA then get_cls_loop fs is cls
          else if cache_level cache \<ge> 1 \<and> cache_level cache \<le> 2 then
            (if cache_cls cache > cls then get_cls_loop fs is (cache_cls cache)
             else get_cls_loop fs is cls)
          else get_cls_loop fs is cls)"

definition get_cls :: "sysfs \<Rightarrow> u64 \<Rightarrow> u64" where
  "get_cls fs mincls = get_cls_loop fs [0, 1, 2, 3] mincls"

text \<open>
  \<open>cacheline_size()\<close> without the build macro: the value found once is kept in the static
  \<open>s_cls\<close>. The result is the size and the new content of the static.
\<close>

definition cacheline_size :: "sysfs \<Rightarrow> u64 \<Rightarrow> u64 \<times> u64" where
  "cacheline_size fs s_cls =
     (if s_cls \<noteq> 0 then (s_cls, s_cls)
      else let cls = get_cls fs max_align in (cls, cls))"

section \<open>Alignment rounds up to a multiple\<close>

lemma unat_mem_align:
  assumes "k < 64" and "unat sz + 2 ^ k \<le> 2 ^ 64"
  shows "unat (mem_align sz (2 ^ k)) = (unat sz + 2 ^ k - 1) div 2 ^ k * 2 ^ k"
proof -
  have m: "(2 ^ k :: u64) - 1 = mask k"
    by (simp add: mask_eq_exp_minus_1)
  have "unat (mask k :: u64) = 2 ^ k - 1"
    using assms(1) by (simp add: unat_mask_word)
  moreover have "0 < (2::nat) ^ k" by simp
  ultimately have "unat (sz + mask k) = unat sz + 2 ^ k - 1"
    using assms(2) by (subst unat_plus_if_less) auto
  then show ?thesis
    unfolding mem_align_def add_diff_eq [symmetric] m by (simp only: unat_and_not_mask)
qed

lemma round_up_bounds:
  fixes n a :: nat
  assumes "0 < a"
  shows "n \<le> (n + a - 1) div a * a" and "(n + a - 1) div a * a < n + a"
proof -
  have "(n + a - 1) div a * a = n + a - 1 - (n + a - 1) mod a"
    by (simp add: minus_mod_eq_div_mult)
  moreover have "(n + a - 1) mod a < a" using assms by simp
  ultimately show "n \<le> (n + a - 1) div a * a" and "(n + a - 1) div a * a < n + a"
    using assms by linarith+
qed

lemma mem_align_bounds:
  assumes "k < 64" and "unat sz + 2 ^ k \<le> 2 ^ 64"
  shows "unat sz \<le> unat (mem_align sz (2 ^ k))"
    and "unat (mem_align sz (2 ^ k)) < unat sz + 2 ^ k"
    and "2 ^ k dvd unat (mem_align sz (2 ^ k))"
  unfolding unat_mem_align [OF assms] using round_up_bounds [of "2 ^ k" "unat sz"] by simp_all

lemma get_cls_loop_range:
  "\<lbrakk>x = get_cls_loop fs is m; 0 < m\<rbrakk> \<Longrightarrow> m \<le> x \<and> (x = m \<or> x \<le> 0x1000)"
proof (induction "is" arbitrary: m)
  case Nil
  then show ?case by simp
next
  case (Cons i "is")
  have sane: "cache_cls c \<le> 0x1000" if "read_cache fs i = Some c" for c
  proof -
    let ?v = "cache_read_long (fs_cls fs i)"
    from that have "0 < ?v" "?v \<le> 0x1000" and "cache_cls c = word_of_int ?v"
      by (auto simp: read_cache_def Let_def MAX_SANE_CACHE_LINE_SIZE_def split: if_splits)
    then show ?thesis by (simp add: word_le_def uint_word_of_int)
  qed
  show ?case
  proof (cases "read_cache fs i")
    case None
    with Cons show ?thesis by simp
  next
    case (Some c)
    show ?thesis
    proof (cases "cache_type c = CACHE_TYPE_DATA \<and> 1 \<le> cache_level c \<and> cache_level c \<le> 2
        \<and> m < cache_cls c")
      case True
      with Some Cons.prems have "x = get_cls_loop fs is (cache_cls c)" by simp
      moreover have "0 < cache_cls c" using True by (metis word_gt_0 word_not_simps(1))
      ultimately have "cache_cls c \<le> x \<and> (x = cache_cls c \<or> x \<le> 0x1000)" by (rule Cons.IH)
      with True sane [OF Some] show ?thesis by (meson order.strict_implies_order order_trans)
    next
      case False
      with Some Cons.prems have "x = get_cls_loop fs is m" by (auto split: if_splits)
      then show ?thesis using Cons.prems(2) by (rule Cons.IH)
    qed
  qed
qed

end
