(* ===== verification/Queue.thy ===== *)
theory Queue
  imports Rtipc_Types Index Mem_Utils
begin

text \<open>
  The queue in shared memory (\<open>src/queue.h\<close>, \<open>src/queue.c\<close>, and the size computations of
  \<open>src/channel.h\<close> and \<open>src/channel.c\<close>).

  A queue object holds the addresses of its parts in the mapped region; \<open>ri_queue_init\<close> computes
  them. The atomic words themselves are a record \<open>shared\<close>: the tail, the head and the
  chain. Every access the code makes to them is one of the operations
  \<open>ri_queue_tail_load\<close>, \<dots>, \<open>ri_queue_chain_store\<close>; all are sequentially consistent C11 atomics, so one
  access is one indivisible step. A chain access outside the array is undefined in C and is \<open>None\<close>.
\<close>

section \<open>Layout\<close>

record ri_queue =
  q_n_msgs :: u32
  q_msg_size :: u64
  q_msg_size_aligned :: u64
  q_msgs :: u64
  q_tail :: u64
  q_head :: u64
  q_chain :: u64

definition sizeof_ri_atomic_index :: u64 where
  "sizeof_ri_atomic_index = 4"

definition RI_CHANNEL_MIN_MSGS :: u32 where
  "RI_CHANNEL_MIN_MSGS = 3"

definition ri_channel_queue_len :: "ri_channel_attr \<Rightarrow> u32" where
  "ri_channel_queue_len attr = RI_CHANNEL_MIN_MSGS + a_add_msgs attr"

text \<open>The addition is on \<open>unsigned\<close>, the product on \<open>size_t\<close>.\<close>

definition ri_calc_queue_size :: "u64 \<Rightarrow> u32 \<Rightarrow> u64" where
  "ri_calc_queue_size cls n_msgs =
     (let n = n_msgs + 2 in cacheline_aligned cls (ucast n * sizeof_ri_atomic_index))"

definition ri_calc_data_size :: "u64 \<Rightarrow> u32 \<Rightarrow> u64 \<Rightarrow> u64" where
  "ri_calc_data_size cls n_msgs msg_size = ucast n_msgs * cacheline_aligned cls msg_size"

definition ri_calc_channel_shm_size :: "u64 \<Rightarrow> u32 \<Rightarrow> u64 \<Rightarrow> u64" where
  "ri_calc_channel_shm_size cls n_msgs msg_size =
     ri_calc_queue_size cls n_msgs + ri_calc_data_size cls n_msgs msg_size"

definition ri_channel_queue_size :: "u64 \<Rightarrow> ri_channel_attr \<Rightarrow> u64" where
  "ri_channel_queue_size cls attr = ri_calc_queue_size cls (ri_channel_queue_len attr)"

definition ri_channel_shm_size :: "u64 \<Rightarrow> ri_channel_attr \<Rightarrow> u64" where
  "ri_channel_shm_size cls attr =
     ri_calc_channel_shm_size cls (ri_channel_queue_len attr) (a_msg_size attr)"

text \<open>The address \<open>&indices[i]\<close> of the i-th atomic word at \<open>shm\<close>.\<close>

definition index_addr :: "u64 \<Rightarrow> u64 \<Rightarrow> u64" where
  "index_addr shm i = shm + i * sizeof_ri_atomic_index"

definition ri_queue_init :: "u64 \<Rightarrow> ri_channel_attr \<Rightarrow> u64 \<Rightarrow> ri_queue" where
  "ri_queue_init cls attr shm =
     \<lparr>q_n_msgs = ri_channel_queue_len attr,
      q_msg_size = a_msg_size attr,
      q_msg_size_aligned = cacheline_aligned cls (a_msg_size attr),
      q_msgs = mem_offset shm (ri_calc_queue_size cls (a_add_msgs attr)),
      q_tail = index_addr shm 0,
      q_head = index_addr shm 1,
      q_chain = index_addr shm 2\<rparr>"

definition ri_queue_index_valid :: "ri_queue \<Rightarrow> ri_index \<Rightarrow> bool" where
  "ri_queue_index_valid queue idx \<longleftrightarrow> idx < q_n_msgs queue"

text \<open>The address of a message, \<open>None\<close> for \<open>NULL\<close>.\<close>

definition ri_queue_get_msg :: "ri_queue \<Rightarrow> ri_index \<Rightarrow> u64 option" where
  "ri_queue_get_msg queue idx =
     (if idx \<ge> q_n_msgs queue then None
      else Some (mem_offset (q_msgs queue) (ucast idx * q_msg_size_aligned queue)))"

section \<open>The atomic words\<close>

record shared =
  sh_tail :: ri_index
  sh_head :: ri_index
  sh_chain :: "ri_index list"

definition ri_queue_tail_load :: "shared \<Rightarrow> ri_index" where
  "ri_queue_tail_load sh = sh_tail sh"

definition ri_queue_tail_store :: "shared \<Rightarrow> ri_index \<Rightarrow> shared" where
  "ri_queue_tail_store sh val = sh\<lparr>sh_tail := val\<rparr>"

definition ri_queue_tail_fetch_or :: "shared \<Rightarrow> ri_index \<Rightarrow> ri_index \<times> shared" where
  "ri_queue_tail_fetch_or sh val = (sh_tail sh, sh\<lparr>sh_tail := sh_tail sh OR val\<rparr>)"

definition ri_queue_tail_compare_exchange ::
    "shared \<Rightarrow> ri_index \<Rightarrow> ri_index \<Rightarrow> bool \<times> shared" where
  "ri_queue_tail_compare_exchange sh expected desired =
     (if sh_tail sh = expected then (True, sh\<lparr>sh_tail := desired\<rparr>) else (False, sh))"

definition ri_queue_head_load :: "shared \<Rightarrow> ri_index" where
  "ri_queue_head_load sh = sh_head sh"

definition ri_queue_head_store :: "shared \<Rightarrow> ri_index \<Rightarrow> shared" where
  "ri_queue_head_store sh val = sh\<lparr>sh_head := val\<rparr>"

definition ri_queue_chain_load :: "shared \<Rightarrow> ri_index \<Rightarrow> ri_index option" where
  "ri_queue_chain_load sh idx =
     (if unat idx < length (sh_chain sh) then Some (sh_chain sh ! unat idx) else None)"

definition ri_queue_chain_store :: "shared \<Rightarrow> ri_index \<Rightarrow> ri_index \<Rightarrow> shared option" where
  "ri_queue_chain_store sh idx val =
     (if unat idx < length (sh_chain sh)
      then Some (sh\<lparr>sh_chain := (sh_chain sh)[unat idx := val]\<rparr>) else None)"

definition ri_queue_init_shm :: "shared \<Rightarrow> shared" where
  "ri_queue_init_shm sh =
     ri_queue_head_store (ri_queue_tail_store sh RI_INDEX_INVALID) RI_INDEX_INVALID"

section \<open>Programs of atomic accesses\<close>

text \<open>
  A function of the producer or the consumer is a program: a tree of atomic accesses, each
  with its continuation, that ends with a result (\<open>Ret\<close>) or with an access that is undefined in C
  (\<open>Fault\<close>). The same tree gives the sequential meaning of the function (\<open>run\<close>) and, taken one
  \<open>astep\<close> at a time, its steps between those of the other process.
\<close>

datatype 'r prog =
    Ret 'r
  | Fault
  | Tail_Load "ri_index \<Rightarrow> 'r prog"
  | Tail_Store ri_index "'r prog"
  | Tail_Fetch_Or ri_index "ri_index \<Rightarrow> 'r prog"
  | Tail_CAS ri_index ri_index "bool \<Rightarrow> 'r prog"
  | Head_Load "ri_index \<Rightarrow> 'r prog"
  | Head_Store ri_index "'r prog"
  | Chain_Load ri_index "ri_index \<Rightarrow> 'r prog"
  | Chain_Store ri_index ri_index "'r prog"

fun astep :: "shared \<Rightarrow> 'r prog \<Rightarrow> (shared \<times> 'r prog) option" where
  "astep sh (Ret r) = None"
| "astep sh Fault = None"
| "astep sh (Tail_Load k) = Some (sh, k (ri_queue_tail_load sh))"
| "astep sh (Tail_Store v p) = Some (ri_queue_tail_store sh v, p)"
| "astep sh (Tail_Fetch_Or v k) =
     (case ri_queue_tail_fetch_or sh v of (old, sh') \<Rightarrow> Some (sh', k old))"
| "astep sh (Tail_CAS e d k) =
     (case ri_queue_tail_compare_exchange sh e d of (b, sh') \<Rightarrow> Some (sh', k b))"
| "astep sh (Head_Load k) = Some (sh, k (ri_queue_head_load sh))"
| "astep sh (Head_Store v p) = Some (ri_queue_head_store sh v, p)"
| "astep sh (Chain_Load i k) =
     (case ri_queue_chain_load sh i of None \<Rightarrow> Some (sh, Fault) | Some v \<Rightarrow> Some (sh, k v))"
| "astep sh (Chain_Store i v p) =
     (case ri_queue_chain_store sh i v of None \<Rightarrow> Some (sh, Fault) | Some sh' \<Rightarrow> Some (sh', p))"

text \<open>Running a program to its end without interference; \<open>None\<close> is an undefined access.\<close>

primrec run :: "'r prog \<Rightarrow> shared \<Rightarrow> (shared \<times> 'r) option" where
  "run (Ret r) sh = Some (sh, r)"
| "run Fault sh = None"
| "run (Tail_Load k) sh = run (k (ri_queue_tail_load sh)) sh"
| "run (Tail_Store v p) sh = run p (ri_queue_tail_store sh v)"
| "run (Tail_Fetch_Or v k) sh =
     run (k (fst (ri_queue_tail_fetch_or sh v))) (snd (ri_queue_tail_fetch_or sh v))"
| "run (Tail_CAS e d k) sh =
     run (k (fst (ri_queue_tail_compare_exchange sh e d)))
       (snd (ri_queue_tail_compare_exchange sh e d))"
| "run (Head_Load k) sh = run (k (ri_queue_head_load sh)) sh"
| "run (Head_Store v p) sh = run p (ri_queue_head_store sh v)"
| "run (Chain_Load i k) sh =
     (case ri_queue_chain_load sh i of None \<Rightarrow> None | Some v \<Rightarrow> run (k v) sh)"
| "run (Chain_Store i v p) sh =
     (case ri_queue_chain_store sh i v of None \<Rightarrow> None | Some sh' \<Rightarrow> run p sh')"

text \<open>\<open>within n p\<close>: whatever values its accesses return, the program ends after at most \<open>n\<close> of them.\<close>

primrec within :: "'r prog \<Rightarrow> nat \<Rightarrow> bool" where
  "within (Ret r) n = True"
| "within Fault n = True"
| "within (Tail_Load k) n = (0 < n \<and> (\<forall>v. within (k v) (n - 1)))"
| "within (Tail_Store v p) n = (0 < n \<and> within p (n - 1))"
| "within (Tail_Fetch_Or v k) n = (0 < n \<and> (\<forall>v. within (k v) (n - 1)))"
| "within (Tail_CAS e d k) n = (0 < n \<and> (\<forall>b. within (k b) (n - 1)))"
| "within (Head_Load k) n = (0 < n \<and> (\<forall>v. within (k v) (n - 1)))"
| "within (Head_Store v p) n = (0 < n \<and> within p (n - 1))"
| "within (Chain_Load i k) n = (0 < n \<and> (\<forall>v. within (k v) (n - 1)))"
| "within (Chain_Store i v p) n = (0 < n \<and> within p (n - 1))"

lemma run_astep: "astep sh p = Some (sh', p') \<Longrightarrow> run p sh = run p' sh'"
  by (cases p) (auto split: prod.splits option.splits)

lemma within_astep: "astep sh p = Some (sh', p') \<Longrightarrow> within p n \<Longrightarrow> 0 < n \<and> within p' (n - 1)"
  by (cases p) (auto split: prod.splits option.splits)

lemma astep_None: "astep sh p = None \<longleftrightarrow> (\<exists>r. p = Ret r) \<or> p = Fault"
  by (cases p) (auto split: prod.splits option.splits)

lemmas shared_ops = ri_queue_tail_load_def ri_queue_tail_store_def ri_queue_tail_fetch_or_def
  ri_queue_tail_compare_exchange_def ri_queue_head_load_def ri_queue_head_store_def
  ri_queue_chain_load_def ri_queue_chain_store_def

end
