(* ===== verification/Producer.thy ===== *)
theory Producer
  imports Queue
begin

text \<open>
  The producer side of a queue (\<open>src/producer.c\<close>). The private structure of the producer is the record
  \<open>ri_producer_queue\<close> (its pointer \<open>shm\<close>, used for reference counting only, belongs to the channel
  model); each function that touches shared memory is a program of atomic accesses that ends with
  the updated structure and the function's result. An access to the private chain array
  outside its bounds is undefined in C and is \<open>Fault\<close>.
\<close>

record ri_producer_queue =
  p_queue :: ri_queue
  p_head :: ri_index
  p_current :: ri_index
  p_overrun :: ri_index
  p_chain :: "ri_index list"

section \<open>The private chain\<close>

definition chain_store ::
    "ri_producer_queue \<Rightarrow> ri_index \<Rightarrow> ri_index \<Rightarrow> (ri_producer_queue \<Rightarrow> 'r prog) \<Rightarrow> 'r prog" where
  "chain_store producer idx val k =
     (if unat idx < length (p_chain producer)
      then let producer = producer\<lparr>p_chain := (p_chain producer)[unat idx := val]\<rparr>
           in Chain_Store idx val (k producer)
      else Fault)"

text \<open>The read \<open>producer->chain[idx]\<close>.\<close>

definition chain_get :: "ri_producer_queue \<Rightarrow> ri_index \<Rightarrow> (ri_index \<Rightarrow> 'r prog) \<Rightarrow> 'r prog" where
  "chain_get producer idx k =
     (if unat idx < length (p_chain producer) then k (p_chain producer ! unat idx) else Fault)"

section \<open>Creation\<close>

definition ri_producer_queue_len :: "ri_producer_queue \<Rightarrow> u32" where
  "ri_producer_queue_len producer = q_n_msgs (p_queue producer)"

definition ri_producer_queue_msg_size :: "ri_producer_queue \<Rightarrow> u64" where
  "ri_producer_queue_msg_size producer = q_msg_size (p_queue producer)"

text \<open>The loop \<open>for (unsigned i = 0; i < queue_len - 1; i++) chain_store(producer, i, i + 1)\<close>.\<close>

fun init_chain ::
    "nat list \<Rightarrow> ri_producer_queue \<Rightarrow> (ri_producer_queue \<Rightarrow> 'r prog) \<Rightarrow> 'r prog" where
  "init_chain [] producer k = k producer"
| "init_chain (i # is) producer k =
     chain_store producer (of_nat i) (of_nat i + 1) (\<lambda>producer. init_chain is producer k)"

text \<open>
  \<open>allocated\<close> says whether \<open>malloc\<close> succeeds, \<open>ptr\<close> is the result of \<open>ri_shm_ptr\<close>; the private array has
  \<open>queue_len\<close> entries whose initial content \<open>raw\<close> is not determined. The result is
  \<open>None\<close> for \<open>NULL\<close>.
\<close>

definition ri_producer_queue_new ::
    "u64 \<Rightarrow> bool \<Rightarrow> (nat \<Rightarrow> ri_index) \<Rightarrow> u64 option \<Rightarrow> ri_channel_attr
       \<Rightarrow> ri_producer_queue option prog" where
  "ri_producer_queue_new cls allocated raw ptr attr =
     (let queue_len = ri_channel_queue_len attr in
      if \<not> allocated then Ret None
      else case ptr of None \<Rightarrow> Ret None
      | Some addr \<Rightarrow>
          init_chain [0..<unat (queue_len - 1)]
            \<lparr>p_queue = ri_queue_init cls attr addr, p_head = RI_INDEX_INVALID, p_current = 0,
             p_overrun = RI_INDEX_INVALID, p_chain = map raw [0..<unat queue_len]\<rparr>
            (\<lambda>producer. chain_store producer (queue_len - 1) 0 (\<lambda>producer. Ret (Some producer))))"

definition ri_producer_queue_init_shm :: "shared \<Rightarrow> shared" where
  "ri_producer_queue_init_shm sh = ri_queue_init_shm sh"

section \<open>Pushing\<close>

definition enqueue_first_msg ::
    "ri_producer_queue \<Rightarrow> (ri_producer_queue \<Rightarrow> 'r prog) \<Rightarrow> 'r prog" where
  "enqueue_first_msg producer k =
     chain_store producer (p_current producer) RI_INDEX_INVALID (\<lambda>producer.
     Tail_Store (p_current producer OR RI_FIRST_FLAG) (
     let producer = producer\<lparr>p_head := p_current producer\<rparr> in
     Head_Store (p_head producer) (k producer)))"

definition enqueue_msg ::
    "ri_producer_queue \<Rightarrow> (ri_producer_queue \<Rightarrow> 'r prog) \<Rightarrow> 'r prog" where
  "enqueue_msg producer k =
     chain_store producer (p_current producer) RI_INDEX_INVALID (\<lambda>producer.
     chain_store producer (p_head producer) (p_current producer) (\<lambda>producer.
     let producer = producer\<lparr>p_head := p_current producer\<rparr> in
     Head_Store (p_head producer) (k producer)))"

definition move_tail ::
    "ri_producer_queue \<Rightarrow> ri_index \<Rightarrow> (bool \<Rightarrow> 'r prog) \<Rightarrow> 'r prog" where
  "move_tail producer tail k =
     chain_get producer (tail AND RI_INDEX_MASK) (\<lambda>next. Tail_CAS tail next k)"

definition overrun ::
    "ri_producer_queue \<Rightarrow> ri_index \<Rightarrow> (ri_producer_queue \<Rightarrow> bool \<Rightarrow> 'r prog) \<Rightarrow> 'r prog" where
  "overrun producer tail k =
     chain_get producer (tail AND RI_INDEX_MASK) (\<lambda>new_current.
     chain_get producer new_current (\<lambda>new_tail.
     Tail_CAS tail new_tail (\<lambda>exchanged.
       if exchanged then
         k (producer\<lparr>p_overrun := tail AND RI_INDEX_MASK, p_current := new_current\<rparr>) True
       else
         k (producer\<lparr>p_current := tail AND RI_INDEX_MASK\<rparr>) False)))"

definition requeue_overrun ::
    "ri_producer_queue \<Rightarrow> ri_index \<Rightarrow> (ri_producer_queue \<Rightarrow> 'r prog) \<Rightarrow> 'r prog" where
  "requeue_overrun producer next k =
     chain_store producer (p_overrun producer) next (\<lambda>producer.
     k (producer\<lparr>p_current := p_overrun producer, p_overrun := RI_INDEX_INVALID\<rparr>))"

definition force_result :: "bool \<Rightarrow> ri_force_push_result" where
  "force_result discarded =
     (if discarded then RI_FORCE_PUSH_RESULT_DISCARDED else RI_FORCE_PUSH_RESULT_SUCCESS)"

definition ri_producer_queue_force_push ::
    "ri_producer_queue \<Rightarrow> (ri_producer_queue \<times> ri_force_push_result) prog" where
  "ri_producer_queue_force_push producer =
     chain_get producer (p_current producer) (\<lambda>next.
     if p_head producer = RI_INDEX_INVALID then
       enqueue_first_msg producer (\<lambda>producer.
         Ret (producer\<lparr>p_current := next\<rparr>, RI_FORCE_PUSH_RESULT_SUCCESS))
     else
       enqueue_msg producer (\<lambda>producer.
       Tail_Load (\<lambda>tail.
       if \<not> ri_queue_index_valid (p_queue producer) (tail AND RI_INDEX_MASK) then
         Ret (producer, RI_FORCE_PUSH_RESULT_ERROR)
       else
         let consumed = flagged tail RI_CONSUMED_FLAG in
         if p_overrun producer \<noteq> RI_INDEX_INVALID then
           if consumed then
             requeue_overrun producer next (\<lambda>producer. Ret (producer, force_result False))
           else
             move_tail producer tail (\<lambda>moved.
               if moved then
                 Ret (producer\<lparr>p_current := tail AND RI_INDEX_MASK\<rparr>, force_result True)
               else
                 requeue_overrun producer next (\<lambda>producer. Ret (producer, force_result False)))
         else
           let full = (next = tail AND RI_INDEX_MASK) in
           if \<not> full then
             Ret (producer\<lparr>p_current := next\<rparr>, force_result False)
           else if \<not> consumed then
             move_tail producer tail (\<lambda>moved.
               if moved then
                 Ret (producer\<lparr>p_current := next\<rparr>, force_result True)
               else
                 overrun producer (tail OR RI_CONSUMED_FLAG) (\<lambda>producer discarded.
                   Ret (producer, force_result discarded)))
           else
             overrun producer tail (\<lambda>producer discarded.
               Ret (producer, force_result discarded)))))"

definition ri_producer_queue_try_push ::
    "ri_producer_queue \<Rightarrow> (ri_producer_queue \<times> ri_try_push_result) prog" where
  "ri_producer_queue_try_push producer =
     chain_get producer (p_current producer) (\<lambda>next.
     if p_head producer = RI_INDEX_INVALID then
       enqueue_first_msg producer (\<lambda>producer.
         Ret (producer\<lparr>p_current := next\<rparr>, RI_TRY_PUSH_RESULT_SUCCESS))
     else
       Tail_Load (\<lambda>tail.
       if \<not> ri_queue_index_valid (p_queue producer) (tail AND RI_INDEX_MASK) then
         Ret (producer, RI_TRY_PUSH_RESULT_ERROR)
       else
         if p_overrun producer \<noteq> RI_INDEX_INVALID then
           let consumed = flagged tail RI_CONSUMED_FLAG in
           if consumed then
             enqueue_msg producer (\<lambda>producer.
             requeue_overrun producer next (\<lambda>producer. Ret (producer, RI_TRY_PUSH_RESULT_SUCCESS)))
           else Ret (producer, RI_TRY_PUSH_RESULT_FAIL)
         else
           let full = (next = tail AND RI_INDEX_MASK) in
           if \<not> full then
             enqueue_msg producer (\<lambda>producer.
               Ret (producer\<lparr>p_current := next\<rparr>, RI_TRY_PUSH_RESULT_SUCCESS))
           else Ret (producer, RI_TRY_PUSH_RESULT_FAIL)))"

section \<open>Queries\<close>

definition ri_producer_queue_full :: "ri_producer_queue \<Rightarrow> bool prog" where
  "ri_producer_queue_full producer =
     (if p_head producer = RI_INDEX_INVALID then Ret False
      else
        Tail_Load (\<lambda>tail.
        if \<not> ri_queue_index_valid (p_queue producer) (tail AND RI_INDEX_MASK) then Ret False
        else
          if p_overrun producer \<noteq> RI_INDEX_INVALID then
            let consumed = flagged tail RI_CONSUMED_FLAG in Ret (\<not> consumed)
          else
            chain_get producer (p_current producer) (\<lambda>next.
            let full = (next = tail AND RI_INDEX_MASK) in Ret (\<not> full))))"

text \<open>
  The counting loop with \<open>left\<close> iterations to go; \<open>queue->chain[next]\<close> is an atomic load of the
  shared chain. The conversions to \<open>int\<close> are two's complement.
\<close>

fun count_loop :: "ri_queue \<Rightarrow> nat \<Rightarrow> u32 \<Rightarrow> ri_index \<Rightarrow> int prog" where
  "count_loop queue 0 cnt next = Ret (sint (q_n_msgs queue))"
| "count_loop queue (Suc left) cnt next =
     (if next = RI_INDEX_INVALID then Ret (sint cnt)
      else Chain_Load next (\<lambda>next. count_loop queue left (cnt + 1) next))"

definition ri_producer_queue_count_msgs :: "ri_producer_queue \<Rightarrow> int prog" where
  "ri_producer_queue_count_msgs producer =
     (if p_head producer = RI_INDEX_INVALID then Ret 0
      else
        Tail_Load (\<lambda>next.
        if \<not> flagged next RI_CONSUMED_FLAG \<and> \<not> flagged next RI_FIRST_FLAG then
          Ret (sint (q_n_msgs (p_queue producer) - 1))
        else
          let next = next AND RI_INDEX_MASK in
          if \<not> ri_queue_index_valid (p_queue producer) next then Ret (-1)
          else count_loop (p_queue producer) (unat (q_n_msgs (p_queue producer))) 0 next))"

definition ri_producer_queue_msg :: "ri_producer_queue \<Rightarrow> u64 option" where
  "ri_producer_queue_msg producer = ri_queue_get_msg (p_queue producer) (p_current producer)"

end
