(* ===== verification/Protocol.thy ===== *)
theory Protocol
  imports Queue "HOL-Library.Multiset"
begin

text \<open>
  The ownership protocol of the queue: what each side is allowed to do to the atomic
  words, stated independently of the code. A \<open>view\<close> is the content of the shared words together with
  the distribution of the message slots that the code only implies: \<open>v_own\<close> is the slot the
  producer writes, \<open>v_q\<close> the chain of slots from the oldest one the producer may
  reclaim to the newest message, \<open>v_ov\<close> the slot the producer has jumped over because
  the consumer was reading it. \<open>v_num\<close> is the number of the message in a slot (messages are numbered in
  the order they are pushed) and \<open>v_cnt\<close> the number of messages linked so far.

  \<open>ptrans\<close> and \<open>ctrans\<close> are the moves of producer and consumer. \<open>view_inv\<close> is kept by both.
\<close>

record view =
  v_tail :: ri_index
  v_head :: ri_index
  v_chain :: "ri_index list"
  v_own :: "ri_index option"
  v_q :: "ri_index list"
  v_ov :: "ri_index option"
  v_num :: "ri_index \<Rightarrow> nat"
  v_cnt :: nat

definition v_shared :: "view \<Rightarrow> shared" where
  "v_shared v = \<lparr>sh_tail = v_tail v, sh_head = v_head v, sh_chain = v_chain v\<rparr>"

definition idx :: "ri_index \<Rightarrow> ri_index" where
  "idx t = t AND RI_INDEX_MASK"

abbreviation consumed :: "ri_index \<Rightarrow> bool" where
  "consumed t \<equiv> flagged t RI_CONSUMED_FLAG"

abbreviation first_msg :: "ri_index \<Rightarrow> bool" where
  "first_msg t \<equiv> flagged t RI_FIRST_FLAG"

definition nxt :: "view \<Rightarrow> ri_index \<Rightarrow> ri_index" where
  "nxt v i = v_chain v ! unat i"

definition opt_list :: "'a option \<Rightarrow> 'a list" where
  "opt_list x = (case x of None \<Rightarrow> [] | Some a \<Rightarrow> [a])"

definition slots :: "view \<Rightarrow> ri_index list" where
  "slots v = opt_list (v_own v) @ v_q v @ opt_list (v_ov v)"

text \<open>The slots are exactly the indices of the chain array, each in one place.\<close>

definition wf_slots :: "view \<Rightarrow> bool" where
  "wf_slots v \<longleftrightarrow> 3 \<le> length (v_chain v) \<and> length (v_chain v) < 2 ^ 30 \<and>
     distinct (slots v) \<and> set (slots v) = {i. unat i < length (v_chain v)} \<and> v_q v \<noteq> [] \<and>
     (\<forall>i. unat i < length (v_chain v) \<longrightarrow>
        nxt v i = RI_INDEX_INVALID \<or> unat (nxt v i) < length (v_chain v))"

text \<open>Nothing pushed yet: the first push has perhaps cut the ring open at the slot it is filling.\<close>

definition empty_inv :: "view \<Rightarrow> bool" where
  "empty_inv v \<longleftrightarrow> v_ov v = None \<and> v_cnt v = 0 \<and>
     nxt v (last (v_q v)) = (case v_own v of Some slot \<Rightarrow> slot | None \<Rightarrow> RI_INDEX_INVALID)"

text \<open>
  The tail points into the chain; from there on the messages are numbered consecutively up to
  the newest. A tail without flags is the oldest slot of the chain, and the
  mark of the first message is gone once a slot has been jumped over.
\<close>

definition tail_splits :: "view \<Rightarrow> ri_index list \<Rightarrow> ri_index list \<Rightarrow> bool" where
  "tail_splits v pre suf \<longleftrightarrow> v_q v = pre @ idx (v_tail v) # suf \<and>
     consecutive (v_num v) (idx (v_tail v) # suf)"

definition queue_inv :: "view \<Rightarrow> bool" where
  "queue_inv v \<longleftrightarrow> nxt v (last (v_q v)) = RI_INDEX_INVALID \<and>
     (\<exists>pre suf. tail_splits v pre suf) \<and> Suc (v_num v (last (v_q v))) = v_cnt v \<and>
     (\<not> consumed (v_tail v) \<longrightarrow> \<not> first_msg (v_tail v) \<longrightarrow> idx (v_tail v) = hd (v_q v)) \<and>
     (first_msg (v_tail v) \<longrightarrow> v_ov v = None)"

definition view_inv :: "view \<Rightarrow> bool" where
  "view_inv v \<longleftrightarrow> wf_slots v \<and> linked (nxt v) (v_q v) \<and>
     (if v_tail v = RI_INDEX_INVALID then empty_inv v else queue_inv v)"

definition set_nxt :: "view \<Rightarrow> ri_index \<Rightarrow> ri_index \<Rightarrow> view" where
  "set_nxt v i x = v\<lparr>v_chain := (v_chain v)[unat i := x]\<rparr>"

section \<open>Moves of the producer\<close>

inductive ptrans :: "view \<Rightarrow> view \<Rightarrow> bool" where
  stutter: "ptrans v v"
| first_cut: "\<lbrakk>v_tail v = RI_INDEX_INVALID; v_own v = Some slot\<rbrakk> \<Longrightarrow>
    ptrans v ((set_nxt v slot RI_INDEX_INVALID)\<lparr>v_own := None, v_q := v_q v @ [slot]\<rparr>)"
| first_publish: "\<lbrakk>v_tail v = RI_INDEX_INVALID; v_own v = None; v_num v (last (v_q v)) = 0\<rbrakk> \<Longrightarrow>
    ptrans v (v\<lparr>v_tail := last (v_q v) OR RI_FIRST_FLAG, v_cnt := 1\<rparr>)"
| detach: "\<lbrakk>v_tail v \<noteq> RI_INDEX_INVALID; v_own v = Some slot\<rbrakk> \<Longrightarrow>
    ptrans v (set_nxt v slot RI_INDEX_INVALID)"
| link: "\<lbrakk>v_tail v \<noteq> RI_INDEX_INVALID; v_own v = Some slot; nxt v slot = RI_INDEX_INVALID;
      v_num v slot = v_cnt v\<rbrakk> \<Longrightarrow>
    ptrans v ((set_nxt v (last (v_q v)) slot)
                \<lparr>v_own := None, v_q := v_q v @ [slot], v_cnt := Suc (v_cnt v)\<rparr>)"
| announce: "v_tail v \<noteq> RI_INDEX_INVALID \<Longrightarrow> ptrans v (v\<lparr>v_head := h\<rparr>)"
| reclaim: "\<lbrakk>v_tail v \<noteq> RI_INDEX_INVALID; v_own v = None; v_q v = slot # q; idx (v_tail v) \<noteq> slot\<rbrakk> \<Longrightarrow>
    ptrans v (v\<lparr>v_own := Some slot, v_q := q\<rparr>)"
| drop: "\<lbrakk>v_tail v \<noteq> RI_INDEX_INVALID; v_own v = None; \<not> consumed (v_tail v);
      v_q v = idx (v_tail v) # new # q\<rbrakk> \<Longrightarrow>
    ptrans v (v\<lparr>v_tail := new, v_own := Some (idx (v_tail v)), v_q := new # q\<rparr>)"
| jump: "\<lbrakk>v_tail v \<noteq> RI_INDEX_INVALID; v_own v = None; v_ov v = None; consumed (v_tail v);
      v_q v = idx (v_tail v) # slot # new # q\<rbrakk> \<Longrightarrow>
    ptrans v (v\<lparr>v_tail := new, v_own := Some slot, v_q := new # q,
                v_ov := Some (idx (v_tail v))\<rparr>)"
| requeue: "\<lbrakk>v_tail v \<noteq> RI_INDEX_INVALID; v_own v = None; v_ov v = Some slot; consumed (v_tail v)\<rbrakk> \<Longrightarrow>
    ptrans v ((set_nxt v slot (hd (v_q v)))\<lparr>v_own := Some slot, v_ov := None\<rparr>)"

text \<open>The consumer also sees the client of the producer write messages into the slot it owns.\<close>

inductive pside :: "view \<Rightarrow> view \<Rightarrow> bool" where
  move: "ptrans v w \<Longrightarrow> pside v w"
| client_write: "v_own v = Some slot \<Longrightarrow> pside v (v\<lparr>v_num := (v_num v)(slot := k)\<rparr>)"

section \<open>Moves of the consumer\<close>

inductive ctrans :: "view \<Rightarrow> view \<Rightarrow> bool" where
  stutter: "ctrans v v"
| mark: "v_tail v \<noteq> RI_INDEX_INVALID \<Longrightarrow> ctrans v (v\<lparr>v_tail := v_tail v OR RI_CONSUMED_FLAG\<rparr>)"
| advance: "\<lbrakk>v_tail v \<noteq> RI_INDEX_INVALID; consumed (v_tail v); v_q v = pre @ idx (v_tail v) # new # suf\<rbrakk> \<Longrightarrow>
    ctrans v (v\<lparr>v_tail := new OR RI_CONSUMED_FLAG\<rparr>)"

lemmas nxt_simps = nxt_def set_nxt_def nth_list_update

section \<open>Facts on slots\<close>

lemma opt_list_simps [simp]: "opt_list None = []" "opt_list (Some a) = [a]"
  by (simp_all add: opt_list_def)

lemma v_shared_simps [simp]:
  "sh_tail (v_shared v) = v_tail v" "sh_head (v_shared v) = v_head v"
  "sh_chain (v_shared v) = v_chain v"
  by (simp_all add: v_shared_def)

lemma set_nxt_simps [simp]:
  "v_tail (set_nxt v i x) = v_tail v" "v_head (set_nxt v i x) = v_head v"
  "v_own (set_nxt v i x) = v_own v" "v_q (set_nxt v i x) = v_q v" "v_ov (set_nxt v i x) = v_ov v"
  "v_num (set_nxt v i x) = v_num v" "v_cnt (set_nxt v i x) = v_cnt v"
  "length (v_chain (set_nxt v i x)) = length (v_chain v)"
  by (simp_all add: set_nxt_def)

lemma nxt_set_nxt:
  "unat i < length (v_chain v) \<Longrightarrow> nxt (set_nxt v i x) j = (if j = i then x else nxt v j)"
  by (simp add: nxt_def set_nxt_def nth_list_update word_unat_eq_iff eq_commute)

lemma nxt_upd [simp]:
  "nxt (v\<lparr>v_tail := t\<rparr>) = nxt v" "nxt (v\<lparr>v_head := t\<rparr>) = nxt v" "nxt (v\<lparr>v_own := ow\<rparr>) = nxt v"
  "nxt (v\<lparr>v_q := q\<rparr>) = nxt v" "nxt (v\<lparr>v_ov := ov\<rparr>) = nxt v" "nxt (v\<lparr>v_num := f\<rparr>) = nxt v"
  "nxt (v\<lparr>v_cnt := k\<rparr>) = nxt v"
  by (simp_all add: fun_eq_iff nxt_def)

lemma idx_simps [flag_simps]:
  "idx (t OR RI_CONSUMED_FLAG) = idx t" "idx (t OR RI_FIRST_FLAG) = idx t"
  by (simp_all add: idx_def flag_simps)

lemma idx_small: "unat i < 2 ^ 30 \<Longrightarrow> idx i = i"
  by (simp add: idx_def small_mask)

lemma wf_in_slots:
  assumes "wf_slots v"
  shows "v_own v = Some i \<Longrightarrow> unat i < length (v_chain v) \<and> i \<notin> set (v_q v) \<and> v_ov v \<noteq> Some i"
    and "i \<in> set (v_q v) \<Longrightarrow> unat i < length (v_chain v) \<and> v_own v \<noteq> Some i \<and> v_ov v \<noteq> Some i"
    and "v_ov v = Some i \<Longrightarrow> unat i < length (v_chain v) \<and> i \<notin> set (v_q v)"
    and "distinct (v_q v)" and "v_q v \<noteq> []"
proof -
  from assms have d: "distinct (slots v)" and s: "set (slots v) = {i. unat i < length (v_chain v)}"
    and "v_q v \<noteq> []" by (auto simp: wf_slots_def)
  then have u: "i \<in> set (slots v) \<Longrightarrow> unat i < length (v_chain v)" by auto
  show "v_own v = Some i \<Longrightarrow> unat i < length (v_chain v) \<and> i \<notin> set (v_q v) \<and> v_ov v \<noteq> Some i"
    and "i \<in> set (v_q v) \<Longrightarrow> unat i < length (v_chain v) \<and> v_own v \<noteq> Some i \<and> v_ov v \<noteq> Some i"
    and "v_ov v = Some i \<Longrightarrow> unat i < length (v_chain v) \<and> i \<notin> set (v_q v)"
    and "distinct (v_q v)" and "v_q v \<noteq> []"
    using d u \<open>v_q v \<noteq> []\<close> by (auto simp: slots_def)
qed

lemma wf_small: "wf_slots v \<Longrightarrow> unat i < length (v_chain v) \<Longrightarrow> unat i < 2 ^ 30"
  by (simp add: wf_slots_def)

lemma wf_length: "wf_slots v \<Longrightarrow>
    length (v_chain v) = length (opt_list (v_own v)) + length (v_q v) + length (opt_list (v_ov v))"
proof -
  assume wf: "wf_slots v"
  then have n: "length (v_chain v) < 2 ^ 32" by (simp add: wf_slots_def)
  have "{i :: u32. unat i < length (v_chain v)} = of_nat ` {..<length (v_chain v)}"
    (is "?A = ?B")
  proof
    show "?A \<subseteq> ?B" by (auto intro!: image_eqI [where x = "unat i" for i :: u32])
    show "?B \<subseteq> ?A" using n by (auto simp: unsigned_of_nat take_bit_nat_eq_self)
  qed
  moreover have "inj_on (of_nat :: nat \<Rightarrow> u32) {..<length (v_chain v)}"
    using n by (auto simp: inj_on_def word_unat_eq_iff unsigned_of_nat take_bit_nat_eq_self)
  ultimately have "card {i :: u32. unat i < length (v_chain v)} = length (v_chain v)"
    by (simp add: card_image)
  moreover have "card (set (slots v)) = length (slots v)"
    using wf by (intro distinct_card) (simp add: wf_slots_def)
  ultimately show ?thesis using wf by (simp add: wf_slots_def slots_def)
qed

lemma nxt_in_range:
  "wf_slots v \<Longrightarrow> unat i < length (v_chain v) \<Longrightarrow> nxt v i \<noteq> RI_INDEX_INVALID \<Longrightarrow>
    unat (nxt v i) < length (v_chain v)"
  by (auto simp: wf_slots_def)

text \<open>Moving slots between the places, and writing a legal value into the chain, keeps \<open>wf_slots\<close>.\<close>

lemma wf_slots_moved:
  assumes "wf_slots v" and "mset (slots w) = mset (slots v)" and "v_chain w = v_chain v"
    and "v_q w \<noteq> []"
  shows "wf_slots w"
proof -
  have "distinct (slots w)" using assms(1,2) by (metis mset_eq_imp_distinct_iff wf_slots_def)
  moreover have "set (slots w) = set (slots v)" using assms(2) by (metis mset_eq_setD)
  moreover have "nxt w = nxt v" using assms(3) by (simp add: fun_eq_iff nxt_def)
  ultimately show ?thesis using assms by (simp add: wf_slots_def)
qed

lemma wf_slots_set_nxt:
  assumes "wf_slots v" and "unat i < length (v_chain v)"
    and "x = RI_INDEX_INVALID \<or> unat x < length (v_chain v)"
  shows "wf_slots (set_nxt v i x)"
  using assms by (auto simp: wf_slots_def slots_def nxt_set_nxt)

section \<open>The invariant is kept\<close>

lemma view_invD:
  assumes "view_inv v"
  shows "wf_slots v" and "linked (nxt v) (v_q v)"
    and "v_tail v = RI_INDEX_INVALID \<Longrightarrow> empty_inv v"
    and "v_tail v \<noteq> RI_INDEX_INVALID \<Longrightarrow> queue_inv v"
  using assms by (auto simp: view_inv_def split: if_splits)

lemma queue_invE:
  assumes "queue_inv v"
  obtains pre suf where "v_q v = pre @ idx (v_tail v) # suf"
    and "consecutive (v_num v) (idx (v_tail v) # suf)"
    and "nxt v (last (v_q v)) = RI_INDEX_INVALID" and "Suc (v_num v (last (v_q v))) = v_cnt v"
  using assms unfolding queue_inv_def tail_splits_def by blast

lemma queue_invI:
  assumes "v_q v = pre @ idx (v_tail v) # suf"
    and "consecutive (v_num v) (idx (v_tail v) # suf)"
    and "nxt v (last (v_q v)) = RI_INDEX_INVALID" and "Suc (v_num v (last (v_q v))) = v_cnt v"
    and "\<not> consumed (v_tail v) \<Longrightarrow> \<not> first_msg (v_tail v) \<Longrightarrow> idx (v_tail v) = hd (v_q v)"
    and "first_msg (v_tail v) \<Longrightarrow> v_ov v = None"
  shows "queue_inv v"
  using assms unfolding queue_inv_def tail_splits_def by blast

lemma queue_invD:
  assumes "queue_inv v"
  shows "nxt v (last (v_q v)) = RI_INDEX_INVALID" and "Suc (v_num v (last (v_q v))) = v_cnt v"
    and "\<not> consumed (v_tail v) \<Longrightarrow> \<not> first_msg (v_tail v) \<Longrightarrow> idx (v_tail v) = hd (v_q v)"
    and "first_msg (v_tail v) \<Longrightarrow> v_ov v = None"
  using assms by (simp_all add: queue_inv_def)

lemma tail_cases:
  assumes "view_inv v" and "v_tail v \<noteq> RI_INDEX_INVALID"
  shows "idx (v_tail v) \<in> set (v_q v)" and "unat (idx (v_tail v)) < length (v_chain v)"
proof -
  from view_invD(4) [OF assms] show "idx (v_tail v) \<in> set (v_q v)" by (auto elim: queue_invE)
  with view_invD(1) [OF assms(1)] show "unat (idx (v_tail v)) < length (v_chain v)"
    by (blast dest: wf_in_slots(2))
qed

lemma slot_word_neq_invalid:
  assumes "wf_slots v" and "unat i < length (v_chain v)"
  shows "i \<noteq> RI_INDEX_INVALID" and "i OR RI_FIRST_FLAG \<noteq> RI_INDEX_INVALID"
    and "\<not> consumed i" and "\<not> first_msg i" and "idx i = i"
proof -
  have n: "length (v_chain v) < 2 ^ 30" using assms(1) by (simp add: wf_slots_def)
  then have s: "unat i < 2 ^ 30" using assms(2) by simp
  then show i: "idx i = i" by (rule idx_small)
  show "\<not> consumed i" and "\<not> first_msg i" using small_flags [OF s] by auto
  show "i \<noteq> RI_INDEX_INVALID" using s by auto
  show "i OR RI_FIRST_FLAG \<noteq> RI_INDEX_INVALID"
  proof
    assume "i OR RI_FIRST_FLAG = RI_INDEX_INVALID"
    then have "consumed (i OR RI_FIRST_FLAG)" by (simp add: flagged_def index_consts)
    with small_flags [OF s] show False by (simp add: flag_simps)
  qed
qed

lemma consumed_word_neq_invalid:
  assumes "wf_slots v" and "unat (idx t) < length (v_chain v)"
  shows "t OR RI_CONSUMED_FLAG \<noteq> RI_INDEX_INVALID"
  using assms or_consumed_eq_invalid [of t] by (auto simp: wf_slots_def idx_def)

lemma inv_client_write:
  assumes "view_inv v" and "v_own v = Some slot"
  shows "view_inv (v\<lparr>v_num := (v_num v)(slot := k)\<rparr>)"
proof -
  let ?w = "v\<lparr>v_num := (v_num v)(slot := k)\<rparr>"
  note D = view_invD [OF assms(1)]
  have notin: "slot \<notin> set (v_q v)" using wf_in_slots(1) [OF D(1) assms(2)] by simp
  have wf: "wf_slots ?w" using D(1) by (simp add: wf_slots_def slots_def)
  show ?thesis
  proof (cases "v_tail v = RI_INDEX_INVALID")
    case True
    with D wf show ?thesis by (simp add: view_inv_def empty_inv_def)
  next
    case False
    then obtain pre suf where q: "v_q v = pre @ idx (v_tail v) # suf"
      and c: "consecutive (v_num v) (idx (v_tail v) # suf)"
      using D(4) by (auto elim: queue_invE)
    have l: "last (v_q v) \<noteq> slot" using notin q by (metis last_in_set append_is_Nil_conv list.distinct(1))
    have "consecutive (v_num ?w) (idx (v_tail v) # suf)"
      using c by (rule consecutive_cong) (use notin q in auto)
    then have "queue_inv ?w"
      by (intro queue_invI [of ?w pre suf]) (use q l queue_invD [OF D(4) [OF False]] in simp_all)
    with D wf False show ?thesis by (simp add: view_inv_def)
  qed
qed

lemma linked_set_nxt:
  assumes "wf_slots v" and "linked (nxt v) (v_q v)" and "unat i < length (v_chain v)"
    and "i \<notin> set (butlast (v_q v))"
  shows "linked (nxt (set_nxt v i x)) (v_q v)"
  using assms(2) by (rule linked_cong) (use assms(3,4) in \<open>auto simp: nxt_set_nxt\<close>)

lemma inv_first_cut:
  assumes "view_inv v" and "v_tail v = RI_INDEX_INVALID" and "v_own v = Some slot"
  shows "view_inv ((set_nxt v slot RI_INDEX_INVALID)\<lparr>v_own := None, v_q := v_q v @ [slot]\<rparr>)"
    (is "view_inv ?w")
proof -
  note D = view_invD [OF assms(1)]
  note own = wf_in_slots(1) [OF D(1) assms(3)]
  have wf: "wf_slots ?w"
    by (rule wf_slots_moved [OF wf_slots_set_nxt [OF D(1), of slot RI_INDEX_INVALID]])
      (use own assms(3) in \<open>auto simp: slots_def\<close>)
  have "linked (nxt (set_nxt v slot RI_INDEX_INVALID)) (v_q v)"
    by (rule linked_set_nxt) (use D own in \<open>auto dest: in_set_butlastD\<close>)
  moreover have "nxt v (last (v_q v)) = slot" and "last (v_q v) \<in> set (v_q v)"
    using D(3) [OF assms(2)] assms(3) wf_in_slots(5) [OF D(1)] by (auto simp: empty_inv_def)
  ultimately have "linked (nxt ?w) (v_q ?w)"
    using own by (auto simp: succ_simps nxt_set_nxt)
  moreover have "empty_inv ?w"
    using D(3) [OF assms(2)] own by (simp add: empty_inv_def nxt_set_nxt)
  ultimately show ?thesis using wf assms(2) by (simp add: view_inv_def)
qed

lemma inv_first_publish:
  assumes "view_inv v" and "v_tail v = RI_INDEX_INVALID" and "v_own v = None"
    and "v_num v (last (v_q v)) = 0"
  shows "view_inv (v\<lparr>v_tail := last (v_q v) OR RI_FIRST_FLAG, v_cnt := 1\<rparr>)" (is "view_inv ?w")
proof -
  note D = view_invD [OF assms(1)]
  have l: "last (v_q v) \<in> set (v_q v)" using wf_in_slots(5) [OF D(1)] by simp
  then have u: "unat (last (v_q v)) < length (v_chain v)"
    by (blast dest: wf_in_slots(2) [OF D(1)])
  note w = slot_word_neq_invalid [OF D(1) u]
  have "wf_slots ?w" using D(1) by (simp add: wf_slots_def slots_def)
  moreover have "tail_splits ?w (butlast (v_q v)) []"
    using w wf_in_slots(5) [OF D(1)] by (simp add: tail_splits_def flag_simps)
  then have "queue_inv ?w"
    using D(3) [OF assms(2)] assms(3,4) w
    by (intro queue_invI [of ?w "butlast (v_q v)" "[]"])
      (simp_all add: tail_splits_def empty_inv_def flag_simps)
  ultimately show ?thesis using D w by (simp add: view_inv_def)
qed

lemma inv_detach:
  assumes "view_inv v" and "v_tail v \<noteq> RI_INDEX_INVALID" and "v_own v = Some slot"
  shows "view_inv (set_nxt v slot RI_INDEX_INVALID)" (is "view_inv ?w")
proof -
  note D = view_invD [OF assms(1)]
  note own = wf_in_slots(1) [OF D(1) assms(3)]
  have "wf_slots ?w" using D(1) own by (auto intro: wf_slots_set_nxt)
  moreover have "linked (nxt ?w) (v_q v)"
    by (rule linked_set_nxt) (use D own in \<open>auto dest: in_set_butlastD\<close>)
  moreover have "last (v_q v) \<noteq> slot" using own wf_in_slots(5) [OF D(1)] by auto
  then have "queue_inv ?w"
    using D(4) [OF assms(2)] own by (simp add: queue_inv_def tail_splits_def nxt_set_nxt)
  ultimately show ?thesis using assms(2) by (simp add: view_inv_def)
qed

lemma inv_link:
  assumes "view_inv v" and "v_tail v \<noteq> RI_INDEX_INVALID" and "v_own v = Some slot"
    and "nxt v slot = RI_INDEX_INVALID" and "v_num v slot = v_cnt v"
  shows "view_inv ((set_nxt v (last (v_q v)) slot)
            \<lparr>v_own := None, v_q := v_q v @ [slot], v_cnt := Suc (v_cnt v)\<rparr>)" (is "view_inv ?w")
proof -
  note D = view_invD [OF assms(1)]
  note own = wf_in_slots(1) [OF D(1) assms(3)]
  note Q = queue_invD [OF D(4) [OF assms(2)]]
  have l: "last (v_q v) \<in> set (v_q v)" using wf_in_slots(5) [OF D(1)] by simp
  then have u: "unat (last (v_q v)) < length (v_chain v)" by (blast dest: wf_in_slots(2) [OF D(1)])
  have ne: "last (v_q v) \<noteq> slot" using l own by auto
  have wf: "wf_slots ?w"
    by (rule wf_slots_moved [OF wf_slots_set_nxt [OF D(1) u, of slot]])
      (use own assms(3) in \<open>auto simp: slots_def\<close>)
  have "linked (nxt (set_nxt v (last (v_q v)) slot)) (v_q v)"
    by (rule linked_set_nxt)
      (use D u wf_in_slots(4,5) [OF D(1)] in \<open>auto simp: last_notin_butlast\<close>)
  then have lk: "linked (nxt ?w) (v_q ?w)" using u by (simp add: succ_simps nxt_set_nxt)
  obtain pre suf where q: "v_q v = pre @ idx (v_tail v) # suf"
    and c: "consecutive (v_num v) (idx (v_tail v) # suf)"
    using D(4) [OF assms(2)] by (rule queue_invE)
  have "last (v_q v) = last (idx (v_tail v) # suf)" using q by simp
  then have "consecutive (v_num v) ((idx (v_tail v) # suf) @ [slot])"
    using c Q(2) assms(5) unfolding successively_append_iff by simp
  then have "queue_inv ?w"
    by (intro queue_invI [of ?w pre "suf @ [slot]"])
      (use q Q assms(4,5) u ne in \<open>auto simp: nxt_set_nxt hd_append\<close>)
  with wf lk assms(2) show ?thesis by (simp add: view_inv_def)
qed

lemma inv_announce:
  assumes "view_inv v" and "v_tail v \<noteq> RI_INDEX_INVALID"
  shows "view_inv (v\<lparr>v_head := h\<rparr>)"
  using assms by (simp add: view_inv_def wf_slots_def slots_def queue_inv_def tail_splits_def)

lemma inv_reclaim:
  assumes "view_inv v" and "v_tail v \<noteq> RI_INDEX_INVALID" and "v_own v = None"
    and "v_q v = slot # q" and "idx (v_tail v) \<noteq> slot"
  shows "view_inv (v\<lparr>v_own := Some slot, v_q := q\<rparr>)" (is "view_inv ?w")
proof -
  note D = view_invD [OF assms(1)]
  note Q = queue_invD [OF D(4) [OF assms(2)]]
  obtain pre suf where "v_q v = pre @ idx (v_tail v) # suf"
    and c: "consecutive (v_num v) (idx (v_tail v) # suf)"
    using D(4) [OF assms(2)] by (rule queue_invE)
  then obtain pre' where q: "q = pre' @ idx (v_tail v) # suf" using assms(4,5) by (cases pre) auto
  have wf: "wf_slots ?w"
    by (rule wf_slots_moved [OF D(1)]) (use assms(3,4) q in \<open>auto simp: slots_def\<close>)
  have "linked (nxt ?w) q" using D(2) assms(4) q by (auto simp: succ_simps)
  moreover have "queue_inv ?w"
    by (rule queue_invI [of ?w pre' suf]) (use q c Q assms(4,5) in auto)
  ultimately show ?thesis using wf assms(2) by (simp add: view_inv_def)
qed

text \<open>A new tail word without flags at the head of what remains of the chain.\<close>

lemma queue_inv_plain_tail:
  assumes "queue_inv v" and "v_q v = front @ new # q" and "idx (v_tail v) \<in> set front"
    and "distinct (v_q v)"
    and "v_tail w = new" and "idx new = new" and "v_q w = new # q" and "nxt w = nxt v"
    and "v_num w = v_num v" and "v_cnt w = v_cnt v" and "\<not> first_msg new"
  shows "queue_inv w"
proof -
  obtain pre suf where q: "v_q v = pre @ idx (v_tail v) # suf"
    and c: "consecutive (v_num v) (idx (v_tail v) # suf)"
    using assms(1) by (rule queue_invE)
  obtain f1 f2 where f: "front = f1 @ idx (v_tail v) # f2"
    using assms(3) by (meson split_list)
  have "suf = f2 @ new # q"
    using q assms(2,4) f
    by (simp add: append_Cons_eq_iff)
      (metis append_Cons_eq_iff distinct.simps(2) distinct_append not_distinct_conv_prefix)
  with c have "consecutive (v_num v) (new # q)"
    by (metis append_Cons successively_append_iff)
  then show ?thesis
    by (intro queue_invI [of w "[]" q]) (use queue_invD [OF assms(1)] assms in auto)
qed

lemma inv_drop:
  assumes "view_inv v" and "v_tail v \<noteq> RI_INDEX_INVALID" and "v_own v = None"
    and "v_q v = idx (v_tail v) # new # q"
  shows "view_inv (v\<lparr>v_tail := new, v_own := Some (idx (v_tail v)), v_q := new # q\<rparr>)"
    (is "view_inv ?w")
proof -
  note D = view_invD [OF assms(1)]
  have "unat new < length (v_chain v)" using wf_in_slots(2) [OF D(1), of new] assms(4) by simp
  note new = slot_word_neq_invalid [OF D(1) this]
  have "wf_slots ?w"
    by (rule wf_slots_moved [OF D(1)]) (use assms(3,4) in \<open>auto simp: slots_def\<close>)
  moreover have "linked (nxt ?w) (new # q)" using D(2) assms(4) by simp
  moreover have "queue_inv ?w"
    by (rule queue_inv_plain_tail [OF D(4) [OF assms(2)], of "[idx (v_tail v)]" new q])
      (use new assms(4) wf_in_slots(4) [OF D(1)] in simp_all)
  ultimately show ?thesis using new by (simp add: view_inv_def)
qed

lemma inv_jump:
  assumes "view_inv v" and "v_tail v \<noteq> RI_INDEX_INVALID" and "v_own v = None" and "v_ov v = None"
    and "v_q v = idx (v_tail v) # slot # new # q"
  shows "view_inv (v\<lparr>v_tail := new, v_own := Some slot, v_q := new # q,
                     v_ov := Some (idx (v_tail v))\<rparr>)" (is "view_inv ?w")
proof -
  note D = view_invD [OF assms(1)]
  have "unat new < length (v_chain v)" using wf_in_slots(2) [OF D(1), of new] assms(5) by simp
  note new = slot_word_neq_invalid [OF D(1) this]
  have "wf_slots ?w"
    by (rule wf_slots_moved [OF D(1)]) (use assms(3-5) in \<open>auto simp: slots_def\<close>)
  moreover have "linked (nxt ?w) (new # q)" using D(2) assms(5) by simp
  moreover have "queue_inv ?w"
    by (rule queue_inv_plain_tail [OF D(4) [OF assms(2)], of "[idx (v_tail v), slot]" new q])
      (use new assms(5) wf_in_slots(4) [OF D(1)] in simp_all)
  ultimately show ?thesis using new by (simp add: view_inv_def)
qed

lemma inv_requeue:
  assumes "view_inv v" and "v_tail v \<noteq> RI_INDEX_INVALID" and "v_own v = None"
    and "v_ov v = Some slot" and "consumed (v_tail v)"
  shows "view_inv ((set_nxt v slot (hd (v_q v)))\<lparr>v_own := Some slot, v_ov := None\<rparr>)"
    (is "view_inv ?w")
proof -
  note D = view_invD [OF assms(1)]
  note ov = wf_in_slots(3) [OF D(1) assms(4)]
  note Q = queue_invD [OF D(4) [OF assms(2)]]
  have h: "unat (hd (v_q v)) < length (v_chain v)" and l: "last (v_q v) \<noteq> slot"
    using wf_in_slots(2) [OF D(1), of "hd (v_q v)"] wf_in_slots(5) [OF D(1)] ov by auto
  have "wf_slots ?w"
    by (rule wf_slots_moved [OF wf_slots_set_nxt [OF D(1), of slot "hd (v_q v)"]])
      (use h ov assms(3,4) wf_in_slots(5) [OF D(1)] in \<open>auto simp: slots_def\<close>)
  moreover have "linked (nxt (set_nxt v slot (hd (v_q v)))) (v_q v)"
    by (rule linked_set_nxt) (use D ov in \<open>auto dest: in_set_butlastD\<close>)
  moreover obtain pre suf where q: "v_q v = pre @ idx (v_tail v) # suf"
    and c: "consecutive (v_num v) (idx (v_tail v) # suf)"
    using D(4) [OF assms(2)] by (rule queue_invE)
  have "queue_inv ?w"
    by (rule queue_invI [of ?w pre suf]) (use q c Q ov l assms(5) in \<open>simp_all add: nxt_set_nxt\<close>)
  ultimately show ?thesis using assms(2) by (simp add: view_inv_def)
qed

lemma inv_mark:
  assumes "view_inv v" and "v_tail v \<noteq> RI_INDEX_INVALID"
  shows "view_inv (v\<lparr>v_tail := v_tail v OR RI_CONSUMED_FLAG\<rparr>)" (is "view_inv ?w")
proof -
  note D = view_invD [OF assms(1)]
  note Q = queue_invD [OF D(4) [OF assms(2)]]
  have ne: "v_tail ?w \<noteq> RI_INDEX_INVALID"
    using consumed_word_neq_invalid [OF D(1) tail_cases(2) [OF assms]] by simp
  obtain pre suf where q: "v_q v = pre @ idx (v_tail v) # suf"
    and c: "consecutive (v_num v) (idx (v_tail v) # suf)"
    using D(4) [OF assms(2)] by (rule queue_invE)
  have "queue_inv ?w"
    by (rule queue_invI [of ?w pre suf]) (use q c Q in \<open>simp_all add: flag_simps\<close>)
  moreover have "wf_slots ?w" using D(1) by (simp add: wf_slots_def slots_def)
  ultimately show ?thesis using D(2) ne by (simp add: view_inv_def)
qed

lemma inv_advance:
  assumes "view_inv v" and "v_tail v \<noteq> RI_INDEX_INVALID"
    and "v_q v = pre @ idx (v_tail v) # new # suf"
  shows "view_inv (v\<lparr>v_tail := new OR RI_CONSUMED_FLAG\<rparr>)" (is "view_inv ?w")
proof -
  note D = view_invD [OF assms(1)]
  note Q = queue_invD [OF D(4) [OF assms(2)]]
  have u: "unat new < length (v_chain v)" using wf_in_slots(2) [OF D(1), of new] assms(3) by simp
  note new = slot_word_neq_invalid [OF D(1) u]
  have ne: "v_tail ?w \<noteq> RI_INDEX_INVALID"
    using consumed_word_neq_invalid [OF D(1), of new] new u by simp
  obtain pre' suf' where q: "v_q v = pre' @ idx (v_tail v) # suf'"
    and c: "consecutive (v_num v) (idx (v_tail v) # suf')"
    using D(4) [OF assms(2)] by (rule queue_invE)
  have "suf' = new # suf" using q assms(3) wf_in_slots(4) [OF D(1)]
    by (metis append_Cons_eq_iff distinct_append disjoint_insert(1) list.simps(15) not_distinct_conv_prefix distinct.simps(2))
  then have "queue_inv ?w"
    by (intro queue_invI [of ?w "pre @ [idx (v_tail v)]" suf])
      (use assms(3) c Q new in \<open>simp_all add: flag_simps\<close>)
  moreover have "wf_slots ?w" using D(1) by (simp add: wf_slots_def slots_def)
  ultimately show ?thesis using D(2) ne by (simp add: view_inv_def)
qed

lemma ptrans_inv: "ptrans v w \<Longrightarrow> view_inv v \<Longrightarrow> view_inv w"
  by (induction rule: ptrans.induct)
    (blast intro: inv_first_cut inv_first_publish inv_detach inv_link
      inv_announce inv_reclaim inv_drop inv_jump inv_requeue)+

lemma pside_inv: "pside v w \<Longrightarrow> view_inv v \<Longrightarrow> view_inv w"
  by (induction rule: pside.induct) (blast intro: ptrans_inv inv_client_write)+

lemma ptrans_num: "ptrans v w \<Longrightarrow> v_num w = v_num v"
  by (induction rule: ptrans.induct) simp_all

lemma ctrans_inv: "ctrans v w \<Longrightarrow> view_inv v \<Longrightarrow> view_inv w"
  by (induction rule: ctrans.induct) (auto intro: inv_mark inv_advance)

end
