(* ===== verification/Rely_Guarantee.thy ===== *)
theory Rely_Guarantee
  imports Queue
begin

text \<open>
  Rely-guarantee reasoning about programs of atomic accesses. \<open>safe\<close> says of a program and a view that, as
  long as the other side only makes moves of the rely, every access of the program is one of
  the moves of the guarantee, none is undefined, and the result satisfies the
  postcondition, perhaps after a last move that redistributes slots without touching shared memory. The locale \<open>rg\<close> is the contract between the two sides; it is interpreted once
  for the producer and once for the consumer.
\<close>

inductive safe ::
    "('v \<Rightarrow> 'v \<Rightarrow> bool) \<Rightarrow> ('v \<Rightarrow> 'v \<Rightarrow> bool) \<Rightarrow> ('v \<Rightarrow> shared) \<Rightarrow> ('r \<Rightarrow> 'v \<Rightarrow> bool)
       \<Rightarrow> 'r prog \<Rightarrow> 'v \<Rightarrow> bool"
  for rely guar shared_of post where
  finished: "(\<And>w. rely\<^sup>*\<^sup>* v w \<Longrightarrow> \<exists>u. shared_of u = shared_of w \<and> guar w u \<and> post r u) \<Longrightarrow>
    safe rely guar shared_of post (Ret r) v"
| access: "(\<And>w. rely\<^sup>*\<^sup>* v w \<Longrightarrow>
       \<exists>p' u. astep (shared_of w) p = Some (shared_of u, p') \<and> guar w u
            \<and> safe rely guar shared_of post p' u) \<Longrightarrow>
    safe rely guar shared_of post p v"

inductive_cases safe_RetE: "safe rely guar shared_of post (Ret r) v"

definition stable :: "('v \<Rightarrow> 'v \<Rightarrow> bool) \<Rightarrow> ('v \<Rightarrow> bool) \<Rightarrow> bool" where
  "stable rely A \<longleftrightarrow> (\<forall>v w. A v \<longrightarrow> rely v w \<longrightarrow> A w)"

lemma stableI: "(\<And>v w. A v \<Longrightarrow> rely v w \<Longrightarrow> A w) \<Longrightarrow> stable rely A"
  by (auto simp: stable_def)

lemma stable_star: "rely\<^sup>*\<^sup>* v w \<Longrightarrow> stable rely A \<Longrightarrow> A v \<Longrightarrow> A w"
  by (induction rule: rtranclp_induct) (auto simp: stable_def)

text \<open>A program in the middle of its execution stays safe when the other side moves.\<close>

lemma safe_rely:
  assumes "safe rely guar shared_of post p v" and "rely v u"
  shows "safe rely guar shared_of post p u"
  using assms(1)
proof cases
  case (finished r)
  then show ?thesis
    using assms(2) by (auto intro!: safe.finished intro: converse_rtranclp_into_rtranclp)
next
  case access
  then show ?thesis
    using assms(2) by (intro safe.access) (blast intro: converse_rtranclp_into_rtranclp)
qed

lemma safe_post:
  assumes "safe rely guar shared_of post (Ret r) v"
  obtains u where "shared_of u = shared_of v" and "guar v u" and "post r u"
  using assms by (elim safe_RetE) (use that in \<open>auto dest: meta_spec [of _ v]\<close>)

lemma safe_not_Fault: "\<not> safe rely guar shared_of post Fault v"
  by (rule notI, erule safe.cases) (auto dest: meta_spec [of _ v])

lemma safe_astep:
  assumes "safe rely guar shared_of post p v" and "astep (shared_of v) p = Some (sh', p')"
  obtains u where "sh' = shared_of u" and "guar v u" and "safe rely guar shared_of post p' u"
  using assms(1)
proof cases
  case (finished r)
  then show ?thesis using assms(2) by simp
next
  case access
  from this [of v] assms(2) that show ?thesis by auto
qed

section \<open>The contract\<close>

text \<open>
  \<open>inv\<close> is what both sides keep. Inside the locale, one rule per kind of access: an assertion that is
  stable under the rely is enough to make the next access.
\<close>

locale rg =
  fixes rely guar :: "'v \<Rightarrow> 'v \<Rightarrow> bool" and shared_of :: "'v \<Rightarrow> shared" and inv :: "'v \<Rightarrow> bool"
  assumes rely_inv: "rely v w \<Longrightarrow> inv v \<Longrightarrow> inv w"
    and guar_inv: "guar v w \<Longrightarrow> inv v \<Longrightarrow> inv w"
    and guar_stutter: "guar v v"
begin

lemma stable_inv: "stable rely inv"
  by (rule stableI) (rule rely_inv)

lemma stable_and: "stable rely A \<Longrightarrow> stable rely (\<lambda>v. inv v \<and> A v)"
  by (auto simp: stable_def intro: rely_inv)

lemma safe_Ret:
  assumes "inv v" and "A v" and "\<And>v w. \<lbrakk>inv v; A v; rely v w\<rbrakk> \<Longrightarrow> A w"
    and "\<And>w. \<lbrakk>inv w; A w\<rbrakk> \<Longrightarrow>
      \<exists>u. shared_of u = shared_of w \<and> guar w u \<and> (inv u \<longrightarrow> post r u)"
  shows "safe rely guar shared_of post (Ret r) v"
proof (rule safe.finished)
  fix w assume "rely\<^sup>*\<^sup>* v w"
  then have w: "inv w \<and> A w"
    by (induction rule: rtranclp_induct) (use assms(1-3) in \<open>blast intro: rely_inv\<close>)+
  with assms(4) guar_inv show "\<exists>u. shared_of u = shared_of w \<and> guar w u \<and> post r u" by metis
qed

lemma safe_Ret_still:
  assumes "inv v" and "A v" and "\<And>v w. \<lbrakk>inv v; A v; rely v w\<rbrakk> \<Longrightarrow> A w"
    and "\<And>w. \<lbrakk>inv w; A w\<rbrakk> \<Longrightarrow> post r w"
  shows "safe rely guar shared_of post (Ret r) v"
  by (rule safe_Ret [where A = A]) (use assms guar_stutter in blast)+

lemma safe_access:
  assumes "inv v" and "A v" and "\<And>v w. \<lbrakk>inv v; A v; rely v w\<rbrakk> \<Longrightarrow> A w"
    and "\<And>w. \<lbrakk>inv w; A w\<rbrakk> \<Longrightarrow> \<exists>p' u. astep (shared_of w) p = Some (shared_of u, p') \<and> guar w u
             \<and> (inv u \<longrightarrow> safe rely guar shared_of post p' u)"
  shows "safe rely guar shared_of post p v"
proof (rule safe.access)
  fix w assume "rely\<^sup>*\<^sup>* v w"
  then have w: "inv w \<and> A w"
    by (induction rule: rtranclp_induct) (use assms(1-3) in \<open>blast intro: rely_inv\<close>)+
  then obtain p' u where "astep (shared_of w) p = Some (shared_of u, p')" and g: "guar w u"
    and "inv u \<longrightarrow> safe rely guar shared_of post p' u"
    using assms(4) by blast
  moreover have "inv u" using guar_inv [OF g] w by blast
  ultimately show "\<exists>p' u. astep (shared_of w) p = Some (shared_of u, p') \<and> guar w u
      \<and> safe rely guar shared_of post p' u"
    by blast
qed

text \<open>Reads change nothing; a chain read needs its index in range.\<close>

lemma safe_Tail_Load:
  assumes "inv v" and "A v" and "\<And>v w. \<lbrakk>inv v; A v; rely v w\<rbrakk> \<Longrightarrow> A w"
    and "\<And>w. \<lbrakk>inv w; A w\<rbrakk> \<Longrightarrow> safe rely guar shared_of post (k (sh_tail (shared_of w))) w"
  shows "safe rely guar shared_of post (Tail_Load k) v"
proof (rule safe_access [where A = A, OF assms(1-3)])
  fix w assume w: "inv w" "A w"
  show "\<exists>p' u. astep (shared_of w) (Tail_Load k) = Some (shared_of u, p') \<and> guar w u
      \<and> (inv u \<longrightarrow> safe rely guar shared_of post p' u)"
    using assms(4) [OF w] guar_stutter
    by (intro exI [of _ "k (sh_tail (shared_of w))"] exI [of _ w]) (simp add: shared_ops)
qed

lemma safe_Chain_Load:
  assumes "inv v" and "A v" and "\<And>v w. \<lbrakk>inv v; A v; rely v w\<rbrakk> \<Longrightarrow> A w"
    and "\<And>w. \<lbrakk>inv w; A w\<rbrakk> \<Longrightarrow> unat i < length (sh_chain (shared_of w)) \<and>
      safe rely guar shared_of post (k (sh_chain (shared_of w) ! unat i)) w"
  shows "safe rely guar shared_of post (Chain_Load i k) v"
proof (rule safe_access [where A = A, OF assms(1-3)])
  fix w assume w: "inv w" "A w"
  show "\<exists>p' u. astep (shared_of w) (Chain_Load i k) = Some (shared_of u, p') \<and> guar w u
      \<and> (inv u \<longrightarrow> safe rely guar shared_of post p' u)"
    using assms(4) [OF w] guar_stutter
    by (intro exI [of _ "k (sh_chain (shared_of w) ! unat i)"] exI [of _ w]) (simp add: shared_ops)
qed

end

end
