(* ===== verification/Producer_Safe.thy ===== *)
theory Producer_Safe
  imports Producer Protocol Rely_Guarantee
begin

text \<open>
  Every operation of the producer follows the ownership protocol whatever the consumer does
  meanwhile: it never makes an undefined access, never returns an error, and ends in a
  state in which the producer owns exactly one slot, its \<open>current\<close> one.
\<close>

interpretation prod: rg ctrans ptrans v_shared view_inv
  by unfold_locales (blast intro: ctrans_inv ptrans_inv ptrans.stutter)+

abbreviation psafe :: "('r \<Rightarrow> view \<Rightarrow> bool) \<Rightarrow> 'r prog \<Rightarrow> view \<Rightarrow> bool" where
  "psafe \<equiv> safe ctrans ptrans v_shared"

definition ov_word :: "view \<Rightarrow> ri_index" where
  "ov_word v = (case v_ov v of None \<Rightarrow> RI_INDEX_INVALID | Some slot \<Rightarrow> slot)"

text \<open>What the private structure of the producer mirrors at every point of an operation.\<close>

definition mirrors :: "ri_producer_queue \<Rightarrow> view \<Rightarrow> bool" where
  "mirrors P v \<longleftrightarrow> p_chain P = v_chain v \<and> q_n_msgs (p_queue P) = of_nat (length (v_chain v)) \<and>
     p_overrun P = ov_word v"

text \<open>Between two operations.\<close>

definition prod_ok :: "ri_producer_queue \<Rightarrow> view \<Rightarrow> bool" where
  "prod_ok P v \<longleftrightarrow> mirrors P v \<and> v_own v = Some (p_current P) \<and>
     nxt v (p_current P) = hd (v_q v) \<and>
     (if p_head P = RI_INDEX_INVALID then v_tail v = RI_INDEX_INVALID
      else v_tail v \<noteq> RI_INDEX_INVALID \<and> p_head P = last (v_q v))"

text \<open>After \<open>enqueue_msg\<close>: the slot is handed over, no new one taken yet.\<close>

definition handed_over :: "ri_producer_queue \<Rightarrow> ri_index \<Rightarrow> nat \<Rightarrow> view \<Rightarrow> bool" where
  "handed_over P next c v \<longleftrightarrow> mirrors P v \<and> v_own v = None \<and> hd (v_q v) = next \<and>
     p_head P = last (v_q v) \<and> p_head P \<noteq> RI_INDEX_INVALID \<and> v_cnt v = c"

text \<open>
  What the producer knows of the tail after it has read the value \<open>t\<close>: it is still \<open>t\<close>, or the consumer has
  marked it, or it has moved past the oldest slot \<open>h\<close>.
\<close>

definition later :: "ri_index \<Rightarrow> ri_index \<Rightarrow> ri_index \<Rightarrow> bool" where
  "later h t T \<longleftrightarrow> T = t \<or> T = t OR RI_CONSUMED_FLAG \<or> (consumed T \<and> idx T \<noteq> h)"

definition known :: "ri_index option \<Rightarrow> view \<Rightarrow> bool" where
  "known tt v \<longleftrightarrow> v_tail v \<noteq> RI_INDEX_INVALID \<and>
     (case tt of None \<Rightarrow> True | Some t \<Rightarrow> later (hd (v_q v)) t (v_tail v))"

lemma ctrans_frame:
  assumes "ctrans v w"
  shows "v_chain w = v_chain v" and "v_own w = v_own v" and "v_q w = v_q v" and "v_ov w = v_ov v"
    and "v_num w = v_num v" and "v_cnt w = v_cnt v" and "v_head w = v_head v" and "nxt w = nxt v"
  using assms by (induction rule: ctrans.induct) simp_all

lemma ctrans_frame_preds:
  assumes "ctrans v w"
  shows "mirrors P w = mirrors P v" and "handed_over P next c w = handed_over P next c v"
  using ctrans_frame [OF assms] by (simp_all add: mirrors_def handed_over_def ov_word_def)

lemma ctrans_tail_valid:
  assumes "ctrans v w" and "view_inv v"
  shows "v_tail w = RI_INDEX_INVALID \<longleftrightarrow> v_tail v = RI_INDEX_INVALID"
proof -
  note D = view_invD(1) [OF assms(2)]
  show ?thesis using assms(1)
  proof cases
    case mark
    then show ?thesis
      using consumed_word_neq_invalid [OF D tail_cases(2) [OF assms(2)]] by simp
  next
    case (advance pre new suf)
    then have u: "unat new < length (v_chain v)" using wf_in_slots(2) [OF D, of new] by simp
    then show ?thesis
      using advance consumed_word_neq_invalid [OF D, of new] slot_word_neq_invalid(5) [OF D u] by simp
  qed simp
qed

lemma known_stable:
  assumes "view_inv v" and "known tt v" and "ctrans v w"
  shows "known tt w"
proof -
  have T: "v_tail w \<noteq> RI_INDEX_INVALID"
    using assms by (simp add: known_def ctrans_tail_valid)
  note D = view_invD(1) [OF assms(1)]
  have "later (hd (v_q w)) t (v_tail w)" if "later (hd (v_q v)) t (v_tail v)" for t
    using assms(3)
  proof cases
    case stutter
    with that show ?thesis by simp
  next
    case mark
    with that show ?thesis by (auto simp: later_def flag_simps or.assoc)
  next
    case (advance pre new suf)
    then have u: "unat new < length (v_chain v)" using wf_in_slots(2) [OF D, of new] by simp
    have "new \<noteq> hd (v_q v)" using advance wf_in_slots(4) [OF D] by (cases pre) auto
    with advance show ?thesis
      using slot_word_neq_invalid(5) [OF D u] by (simp add: later_def flag_simps)
  qed
  then show ?thesis using T assms(2) by (auto simp: known_def split: option.splits)
qed

lemma prod_ok_stable:
  assumes "view_inv v" and "prod_ok P v" and "ctrans v w"
  shows "prod_ok P w"
  using assms ctrans_frame [OF assms(3)] ctrans_tail_valid [OF assms(3,1)]
  by (simp add: prod_ok_def ctrans_frame_preds [OF assms(3)])

lemma mirrors_index:
  assumes "mirrors P v" and "view_inv v"
  shows "unat i < length (p_chain P) \<longleftrightarrow> unat i < length (v_chain v)"
    and "p_chain P ! unat i = nxt v i"
    and "ri_queue_index_valid (p_queue P) i \<longleftrightarrow> unat i < length (v_chain v)"
proof -
  have "length (v_chain v) < 2 ^ 30" using view_invD(1) [OF assms(2)] by (simp add: wf_slots_def)
  then show "unat i < length (p_chain P) \<longleftrightarrow> unat i < length (v_chain v)"
    and "p_chain P ! unat i = nxt v i"
    and "ri_queue_index_valid (p_queue P) i \<longleftrightarrow> unat i < length (v_chain v)"
    using assms(1)
    by (simp_all add: mirrors_def nxt_def ri_queue_index_valid_def word_less_nat_alt unsigned_of_nat
        take_bit_nat_eq_self)
qed

section \<open>One access\<close>

definition attached :: "ri_producer_queue \<Rightarrow> ri_index \<Rightarrow> nat \<Rightarrow> view \<Rightarrow> bool" where
  "attached P next c v \<longleftrightarrow> mirrors P v \<and> v_own v = Some (p_current P) \<and> hd (v_q v) = next \<and>
     p_head P = last (v_q v) \<and> p_head P \<noteq> RI_INDEX_INVALID \<and>
     v_num v (p_current P) = c \<and> v_cnt v = c"

lemma attached_stable:
  assumes "ctrans v w" and "attached P next c v"
  shows "attached P next c w"
proof -
  have "attached P next c w = attached P next c v"
    by (simp only: attached_def ctrans_frame_preds [OF assms(1)] ctrans_frame [OF assms(1)])
  then show ?thesis using assms(2) by simp
qed

lemma psafe_chain_store:
  assumes "view_inv v" and "B v" and "\<And>v w. \<lbrakk>view_inv v; B v; ctrans v w\<rbrakk> \<Longrightarrow> B w"
    and "\<And>w. \<lbrakk>view_inv w; B w\<rbrakk> \<Longrightarrow> mirrors P w \<and> unat i < length (v_chain w) \<and>
        v_shared (u w) = v_shared (set_nxt w i x) \<and> ptrans w (u w)"
    and "\<And>w. \<lbrakk>view_inv w; B w; view_inv (u w)\<rbrakk> \<Longrightarrow>
        psafe post (k (P\<lparr>p_chain := (p_chain P)[unat i := x]\<rparr>)) (u w)"
  shows "psafe post (chain_store P i x k) v"
proof -
  have "unat i < length (p_chain P)"
    using assms(4) [OF assms(1,2)] mirrors_index(1) [of P v i] assms(1) by simp
  then have cs: "chain_store P i x k =
      Chain_Store i x (k (P\<lparr>p_chain := (p_chain P)[unat i := x]\<rparr>))"
    by (simp add: chain_store_def Let_def)
  show ?thesis unfolding cs
  proof (rule prod.safe_access [where A = B, OF assms(1,2)])
    fix w assume w: "view_inv w" "B w"
    have "astep (v_shared w) (Chain_Store i x (k (P\<lparr>p_chain := (p_chain P)[unat i := x]\<rparr>))) =
        Some (v_shared (u w), k (P\<lparr>p_chain := (p_chain P)[unat i := x]\<rparr>))"
      using assms(4) [OF w] by (simp add: shared_ops v_shared_def set_nxt_def)
    with assms(4) [OF w] assms(5) [OF w]
    show "\<exists>p' ua. astep (v_shared w)
               (Chain_Store i x (k (P\<lparr>p_chain := (p_chain P)[unat i := x]\<rparr>))) =
              Some (v_shared ua, p') \<and> ptrans w ua \<and> (view_inv ua \<longrightarrow> psafe post p' ua)"
      by blast
  qed (rule assms(3))
qed

lemma mirrors_store:
  "mirrors P v \<Longrightarrow> mirrors (P\<lparr>p_chain := (p_chain P)[unat i := x]\<rparr>) (set_nxt v i x)"
  by (simp add: mirrors_def set_nxt_def ov_word_def)

lemma mirrors_upd [simp]:
  "mirrors (P\<lparr>p_head := h\<rparr>) v = mirrors P v" "mirrors (P\<lparr>p_current := h\<rparr>) v = mirrors P v"
  "mirrors P (v\<lparr>v_tail := t\<rparr>) = mirrors P v" "mirrors P (v\<lparr>v_head := t\<rparr>) = mirrors P v"
  "mirrors P (v\<lparr>v_own := ow\<rparr>) = mirrors P v" "mirrors P (v\<lparr>v_q := q\<rparr>) = mirrors P v"
  "mirrors P (v\<lparr>v_num := f\<rparr>) = mirrors P v" "mirrors P (v\<lparr>v_cnt := n\<rparr>) = mirrors P v"
  by (simp_all add: mirrors_def ov_word_def)

lemma known_simps [simp]:
  "known tt (set_nxt v i x) = known tt v" "known tt (v\<lparr>v_head := h\<rparr>) = known tt v"
  "known tt (v\<lparr>v_own := ow\<rparr>) = known tt v" "known tt (v\<lparr>v_cnt := n\<rparr>) = known tt v"
  "known tt (v\<lparr>v_ov := ov\<rparr>) = known tt v" "known None v = (v_tail v \<noteq> RI_INDEX_INVALID)"
  by (simp_all add: known_def split: option.splits)

lemma attached_store:
  assumes "attached P next c v"
  shows "attached (P\<lparr>p_chain := (p_chain P)[unat i := x]\<rparr>) next c (set_nxt v i x)"
proof -
  have "mirrors P v" using assms by (simp add: attached_def)
  then have "mirrors (P\<lparr>p_chain := (p_chain P)[unat i := x]\<rparr>) (set_nxt v i x)" by (rule mirrors_store)
  then show ?thesis using assms unfolding attached_def by auto
qed

section \<open>Enqueueing\<close>

lemma announce_safe:
  assumes "view_inv v" and "handed_over P next c v" and "known tt v"
    and k: "\<And>w. \<lbrakk>view_inv w; handed_over P next c w; known tt w\<rbrakk> \<Longrightarrow> psafe post k w"
  shows "psafe post (Head_Store (p_head P) k) v"
proof (rule prod.safe_access [where A = "\<lambda>v. handed_over P next c v \<and> known tt v"])
  fix y z assume "view_inv y" "handed_over P next c y \<and> known tt y" "ctrans y z"
  then show "handed_over P next c z \<and> known tt z"
    using ctrans_frame_preds(2) known_stable by metis
next
  fix y assume y: "view_inv y" "handed_over P next c y \<and> known tt y"
  let ?u = "y\<lparr>v_head := p_head P\<rparr>"
  have "handed_over P next c ?u" and "known tt ?u"
    using y by (auto simp: handed_over_def)
  then have "view_inv ?u \<longrightarrow> psafe post k ?u" by (auto intro: k)
  moreover have "ptrans y ?u"
    by (rule ptrans.announce) (use y in \<open>simp add: known_def\<close>)
  moreover have "astep (v_shared y) (Head_Store (p_head P) k) = Some (v_shared ?u, k)"
    by (simp add: shared_ops v_shared_def)
  ultimately show "\<exists>p' u. astep (v_shared y) (Head_Store (p_head P) k) =
      Some (v_shared u, p') \<and> ptrans y u \<and> (view_inv u \<longrightarrow> psafe post p' u)"
    by blast
qed (use assms in auto)

definition linked_view :: "ri_producer_queue \<Rightarrow> view \<Rightarrow> view" where
  "linked_view P v = (set_nxt v (p_head P) (p_current P))
     \<lparr>v_own := None, v_q := v_q v @ [p_current P], v_cnt := Suc (v_cnt v)\<rparr>"

lemma link_step:
  assumes "view_inv v" and "attached P next c v" and "nxt v (p_current P) = RI_INDEX_INVALID"
    and "v_tail v \<noteq> RI_INDEX_INVALID"
  shows "ptrans v (linked_view P v)"
proof -
  have "ptrans v ((set_nxt v (last (v_q v)) (p_current P))
          \<lparr>v_own := None, v_q := v_q v @ [p_current P], v_cnt := Suc (v_cnt v)\<rparr>)"
    by (rule ptrans.link) (use assms in \<open>auto simp: attached_def\<close>)
  moreover have "p_head P = last (v_q v)" using assms(2) by (simp add: attached_def)
  ultimately show ?thesis by (simp only: linked_view_def)
qed

lemma linked_view_handed_over:
  assumes "view_inv v" and "attached P next c v" and "known tt v"
  shows "handed_over (P\<lparr>p_chain := (p_chain P)[unat (p_head P) := p_current P],
            p_head := p_current P\<rparr>) next (Suc c) (linked_view P v)"
    and "known tt (linked_view P v)"
proof -
  note D = view_invD(1) [OF assms(1)]
  have m: "mirrors P v" and own: "v_own v = Some (p_current P)" and h: "hd (v_q v) = next"
    and c: "v_cnt v = c" using assms(2) by (simp_all add: attached_def)
  have q: "hd (v_q v @ [p_current P]) = next" using h wf_in_slots(5) [OF D] by simp
  have cur: "p_current P \<noteq> RI_INDEX_INVALID"
    using wf_in_slots(1) [OF D own] slot_word_neq_invalid(1) [OF D] by blast
  show "handed_over (P\<lparr>p_chain := (p_chain P)[unat (p_head P) := p_current P],
            p_head := p_current P\<rparr>) next (Suc c) (linked_view P v)"
    using mirrors_store [OF m] q cur c by (simp add: handed_over_def linked_view_def)
  show "known tt (linked_view P v)"
    using assms(3) wf_in_slots(5) [OF D] by (auto simp: known_def linked_view_def split: option.splits)
qed

lemma link_safe:
  assumes "view_inv v" and "attached P next c v" and "known tt v"
    and "nxt v (p_current P) = RI_INDEX_INVALID"
    and k: "\<And>w. \<lbrakk>view_inv w; known tt w;
        handed_over (P\<lparr>p_chain := (p_chain P)[unat (p_head P) := p_current P],
            p_head := p_current P\<rparr>) next (Suc c) w\<rbrakk>
      \<Longrightarrow> psafe post (k (P\<lparr>p_chain := (p_chain P)[unat (p_head P) := p_current P]\<rparr>)) w"
  shows "psafe post (chain_store P (p_head P) (p_current P) k) v"
proof (rule psafe_chain_store [where u = "linked_view P"
      and B = "\<lambda>v. attached P next c v \<and> known tt v \<and> nxt v (p_current P) = RI_INDEX_INVALID"])
  fix x y assume "view_inv x"
    "attached P next c x \<and> known tt x \<and> nxt x (p_current P) = RI_INDEX_INVALID" "ctrans x y"
  then show "attached P next c y \<and> known tt y \<and> nxt y (p_current P) = RI_INDEX_INVALID"
    using attached_stable known_stable ctrans_frame(8) by metis
next
  fix x assume x: "view_inv x"
    "attached P next c x \<and> known tt x \<and> nxt x (p_current P) = RI_INDEX_INVALID"
  note D = view_invD(1) [OF x(1)]
  have "unat (p_head P) < length (v_chain x)"
    using wf_in_slots(2,5) [OF D] x(2) unfolding attached_def by (metis last_in_set)
  moreover have "ptrans x (linked_view P x)"
    by (rule link_step [OF x(1)]) (use x(2) in \<open>auto simp: known_def\<close>)
  moreover have "mirrors P x" using x(2) by (simp add: attached_def)
  moreover have "v_shared (linked_view P x) = v_shared (set_nxt x (p_head P) (p_current P))"
    by (simp add: linked_view_def v_shared_def)
  ultimately show "mirrors P x \<and> unat (p_head P) < length (v_chain x) \<and>
      v_shared (linked_view P x) = v_shared (set_nxt x (p_head P) (p_current P)) \<and>
      ptrans x (linked_view P x)"
    by blast
next
  fix x assume "view_inv x" and "view_inv (linked_view P x)"
    and "attached P next c x \<and> known tt x \<and> nxt x (p_current P) = RI_INDEX_INVALID"
  then show "psafe post (k (P\<lparr>p_chain := (p_chain P)[unat (p_head P) := p_current P]\<rparr>)) (linked_view P x)"
    by (intro k) (auto intro: linked_view_handed_over)
qed (use assms in auto)

lemma enqueue_msg_safe:
  assumes "view_inv v" and "attached P next c v" and "known tt v"
    and k: "\<And>P' w. \<lbrakk>view_inv w; handed_over P' next (Suc c) w; known tt w;
        p_overrun P' = p_overrun P\<rbrakk> \<Longrightarrow> psafe post (k P') w"
  shows "psafe post (enqueue_msg P k) v"
  unfolding enqueue_msg_def
proof (rule psafe_chain_store [where B = "\<lambda>v. attached P next c v \<and> known tt v"
      and u = "\<lambda>w. set_nxt w (p_current P) RI_INDEX_INVALID"])
  let ?P1 = "P\<lparr>p_chain := (p_chain P)[unat (p_current P) := RI_INDEX_INVALID]\<rparr>"
  fix w assume w: "view_inv w" "attached P next c w \<and> known tt w"
    and w': "view_inv (set_nxt w (p_current P) RI_INDEX_INVALID)" (is "view_inv ?w1")
  have "unat (p_current P) < length (v_chain w)"
    using wf_in_slots(1) [OF view_invD(1) [OF w(1)]] w(2) by (auto simp: attached_def)
  then have n: "nxt ?w1 (p_current ?P1) = RI_INDEX_INVALID" by (simp add: nxt_set_nxt)
  show "psafe post (chain_store ?P1 (p_head ?P1) (p_current ?P1) (\<lambda>producer.
      let producer = producer\<lparr>p_head := p_current producer\<rparr>
      in Head_Store (p_head producer) (k producer))) ?w1"
  proof (rule link_safe [OF w' _ _ n])
    show "attached ?P1 next c ?w1" using w(2) by (blast intro: attached_store)
    show "known tt ?w1" using w(2) by simp
    fix x
    let ?P2 = "?P1\<lparr>p_chain := (p_chain ?P1)[unat (p_head ?P1) := p_current ?P1]\<rparr>"
    assume x: "view_inv x" "known tt x"
      "handed_over (?P2\<lparr>p_head := p_current ?P1\<rparr>) next (Suc c) x"
    have "psafe post (Head_Store (p_head (?P2\<lparr>p_head := p_current ?P1\<rparr>))
        (k (?P2\<lparr>p_head := p_current ?P1\<rparr>))) x"
      by (rule announce_safe [OF x(1,3,2)]) (rule k, simp_all)
    then show "psafe post (let producer = ?P2\<lparr>p_head := p_current ?P2\<rparr>
        in Head_Store (p_head producer) (k producer)) x"
      by (simp add: Let_def)
  qed
next
  fix w assume w: "view_inv w" "attached P next c w \<and> known tt w"
  then have "unat (p_current P) < length (v_chain w)"
    using wf_in_slots(1) [OF view_invD(1) [OF w(1)]] by (auto simp: attached_def)
  moreover have "ptrans w (set_nxt w (p_current P) RI_INDEX_INVALID)"
    by (rule ptrans.detach) (use w in \<open>simp_all add: attached_def known_def\<close>)
  ultimately show "mirrors P w \<and> unat (p_current P) < length (v_chain w) \<and>
      v_shared (set_nxt w (p_current P) RI_INDEX_INVALID) =
      v_shared (set_nxt w (p_current P) RI_INDEX_INVALID) \<and>
      ptrans w (set_nxt w (p_current P) RI_INDEX_INVALID)"
    using w by (simp add: attached_def)
next
  fix x y assume "view_inv x" "attached P next c x \<and> known tt x" "ctrans x y"
  then show "attached P next c y \<and> known tt y" using attached_stable known_stable by metis
qed (use assms in simp_all)

section \<open>Taking the next slot\<close>

lemma handed_over_head:
  assumes "view_inv v" and "handed_over P next c v"
  shows "unat next < length (v_chain v)" and "next \<in> set (v_q v)" and "idx next = next"
proof -
  note D = view_invD(1) [OF assms(1)]
  show n: "next \<in> set (v_q v)"
    using assms(2) wf_in_slots(5) [OF D] by (auto simp: handed_over_def)
  then show u: "unat next < length (v_chain v)" using wf_in_slots(2) [OF D] by blast
  show "idx next = next" by (rule slot_word_neq_invalid(5) [OF D u])
qed

text \<open>The oldest slot has been left by the tail: the producer takes it.\<close>

lemma reclaim_step:
  assumes "view_inv w" and "handed_over P next c w" and "v_tail w \<noteq> RI_INDEX_INVALID"
    and "idx (v_tail w) \<noteq> next"
  defines "u \<equiv> w\<lparr>v_own := Some next, v_q := tl (v_q w)\<rparr>"
  shows "v_shared u = v_shared w" and "ptrans w u"
    and "prod_ok (P\<lparr>p_current := next\<rparr>) u" and "v_cnt u = c"
proof -
  note D = view_invD [OF assms(1)]
  obtain r where q: "v_q w = next # r"
    using assms(2) wf_in_slots(5) [OF D(1)] by (cases "v_q w") (auto simp: handed_over_def)
  then have ne: "r \<noteq> []" using tail_cases(1) [OF assms(1,3)] assms(4) by auto
  show "v_shared u = v_shared w" by (simp add: u_def v_shared_def)
  show "ptrans w u" unfolding u_def
    by (rule ptrans.reclaim) (use assms(2-4) q in \<open>auto simp: handed_over_def\<close>)
  have "nxt w next = hd r" using D(2) q ne by (simp add: succ_simps)
  then show "prod_ok (P\<lparr>p_current := next\<rparr>) u"
    using assms(2,3) q ne by (auto simp: u_def prod_ok_def handed_over_def)
  show "v_cnt u = c" using assms(2) by (simp add: u_def handed_over_def)
qed

lemma later_moved: "later h t T \<Longrightarrow> idx t \<noteq> h \<Longrightarrow> idx T \<noteq> h"
  by (auto simp: later_def flag_simps)

lemma handed_over_known_stable:
  "\<lbrakk>view_inv v; handed_over P next c v \<and> known tt v; ctrans v w\<rbrakk> \<Longrightarrow>
    handed_over P next c w \<and> known tt w"
  using ctrans_frame_preds(2) known_stable by blast

lemma reclaim_Ret_safe:
  assumes "view_inv v" and "handed_over P next c v" and "known (Some t) v" and "idx t \<noteq> next"
    and post: "\<And>u. \<lbrakk>prod_ok (P\<lparr>p_current := next\<rparr>) u; v_cnt u = c\<rbrakk> \<Longrightarrow> post r u"
  shows "psafe post (Ret r) v"
proof (rule prod.safe_Ret [where A = "\<lambda>v. handed_over P next c v \<and> known (Some t) v"])
  fix w assume w: "view_inv w" "handed_over P next c w \<and> known (Some t) w"
  have T: "v_tail w \<noteq> RI_INDEX_INVALID" and "later (hd (v_q w)) t (v_tail w)"
    using w(2) by (simp_all add: known_def)
  then have "idx (v_tail w) \<noteq> next"
    using w(2) assms(4) by (auto simp: handed_over_def dest: later_moved)
  from reclaim_step [OF w(1) conjunct1 [OF w(2)] T this] post
  show "\<exists>u. v_shared u = v_shared w \<and> ptrans w u \<and> (view_inv u \<longrightarrow> post r u)" by blast
qed (use assms handed_over_known_stable in \<open>blast+\<close>)

lemma chain_get_eq:
  assumes "mirrors P v" and "view_inv v" and "unat i < length (v_chain v)"
  shows "chain_get P i k = k (nxt v i)"
  using mirrors_index [OF assms(1,2)] assms(3) by (simp add: chain_get_def)

lemma psafe_CAS:
  assumes "view_inv v" and "B v" and "\<And>v w. \<lbrakk>view_inv v; B v; ctrans v w\<rbrakk> \<Longrightarrow> B w"
    and "\<And>w. \<lbrakk>view_inv w; B w; v_tail w = t\<rbrakk> \<Longrightarrow> \<exists>u. v_shared u = v_shared (w\<lparr>v_tail := d\<rparr>) \<and>
        ptrans w u \<and> (view_inv u \<longrightarrow> psafe post (k True) u)"
    and "\<And>w. \<lbrakk>view_inv w; B w; v_tail w \<noteq> t\<rbrakk> \<Longrightarrow> \<exists>u. v_shared u = v_shared w \<and>
        ptrans w u \<and> (view_inv u \<longrightarrow> psafe post (k False) u)"
  shows "psafe post (Tail_CAS t d k) v"
proof (rule prod.safe_access [where A = B, OF assms(1,2)])
  fix w assume w: "view_inv w" "B w"
  show "\<exists>p' u. astep (v_shared w) (Tail_CAS t d k) = Some (v_shared u, p') \<and> ptrans w u \<and>
      (view_inv u \<longrightarrow> psafe post p' u)"
  proof (cases "v_tail w = t")
    case True
    from assms(4) [OF w this] obtain u where "v_shared u = v_shared (w\<lparr>v_tail := d\<rparr>)"
      and "ptrans w u" and "view_inv u \<longrightarrow> psafe post (k True) u" by blast
    then show ?thesis using True
      by (intro exI [of _ "k True"] exI [of _ u]) (simp add: shared_ops v_shared_def)
  next
    case False
    from assms(5) [OF w this] obtain u where "v_shared u = v_shared w"
      and "ptrans w u" and "view_inv u \<longrightarrow> psafe post (k False) u" by blast
    then show ?thesis using False
      by (intro exI [of _ "k False"] exI [of _ u]) (simp add: shared_ops v_shared_def)
  qed
qed (rule assms(3))

text \<open>Moving the tail over an unread message.\<close>

lemma handed_over_split:
  assumes "view_inv v" and "handed_over P next c v" and "v_tail v \<noteq> RI_INDEX_INVALID"
  obtains a q where "v_q v = next # a # q" and "nxt v next = a" and "unat a < length (v_chain v)"
    and "v_ov v = None \<Longrightarrow> \<exists>b q'. q = b # q' \<and> nxt v a = b"
proof -
  note D = view_invD [OF assms(1)]
  have len: "length (v_q v) + length (opt_list (v_ov v)) = length (v_chain v)"
    and n: "3 \<le> length (v_chain v)"
    using wf_length [OF D(1)] assms(2) D(1) by (simp_all add: handed_over_def wf_slots_def)
  then have "2 \<le> length (v_q v)" by (cases "v_ov v") auto
  then obtain a q where q: "v_q v = next # a # q"
    using assms(2) by (cases "v_q v"; cases "tl (v_q v)") (auto simp: handed_over_def)
  have "\<exists>b q'. q = b # q' \<and> nxt v a = b" if "v_ov v = None"
    using that len n q D(2) by (cases q) auto
  with that q D(2) wf_in_slots(2) [OF D(1), of a] show thesis by auto
qed

lemma later_not_same:
  "\<lbrakk>known (Some t) v; v_tail v \<noteq> t\<rbrakk> \<Longrightarrow> known (Some (t OR RI_CONSUMED_FLAG)) v"
  by (auto simp: known_def later_def)

lemma move_tail_safe:
  assumes "view_inv v" and "handed_over P next c v" and "known (Some t) v"
    and "\<not> consumed t" and "idx t = next"
    and moved: "\<And>u. \<lbrakk>view_inv u; prod_ok (P\<lparr>p_current := next\<rparr>) u; v_cnt u = c\<rbrakk> \<Longrightarrow> psafe post (k True) u"
    and kept: "\<And>w. \<lbrakk>view_inv w; handed_over P next c w; known (Some (t OR RI_CONSUMED_FLAG)) w\<rbrakk>
      \<Longrightarrow> psafe post (k False) w"
  shows "psafe post (move_tail P t k) v"
proof -
  have "mirrors P v" using assms(2) by (simp add: handed_over_def)
  then have eq: "move_tail P t k = Tail_CAS t (nxt v next) k"
    using chain_get_eq [of P v "next"] handed_over_head(1) [OF assms(1,2)] assms(1,5)
    by (simp add: move_tail_def idx_def)
  let ?B = "\<lambda>w. (handed_over P next c w \<and> known (Some t) w) \<and> nxt w = nxt v"
  show ?thesis unfolding eq
  proof (rule psafe_CAS [where B = ?B])
    fix x y assume "view_inv x" "?B x" "ctrans x y"
    then show "?B y" using handed_over_known_stable ctrans_frame(8) by metis
  next
    fix w assume w: "view_inv w" "?B w" "v_tail w = t"
    then have T: "v_tail w \<noteq> RI_INDEX_INVALID" by (simp add: known_def)
    obtain a q where q: "v_q w = next # a # q" "nxt w next = a"
      using handed_over_split [OF w(1) _ T] w(2) by metis
    let ?u = "w\<lparr>v_tail := a, v_own := Some next, v_q := a # q\<rparr>"
    have "ptrans w ?u"
      using ptrans.drop [OF T, of a q] w assms(4,5) q by (simp add: handed_over_def)
    moreover have "unat a < length (v_chain w)"
      using q wf_in_slots(2) [OF view_invD(1) [OF w(1)], of a] by simp
    then have "a \<noteq> RI_INDEX_INVALID"
      by (rule slot_word_neq_invalid(1) [OF view_invD(1) [OF w(1)]])
    then have "prod_ok (P\<lparr>p_current := next\<rparr>) ?u \<and> v_cnt ?u = c"
      using w(2) q by (auto simp: prod_ok_def handed_over_def)
    moreover have "v_shared ?u = v_shared (w\<lparr>v_tail := nxt v next\<rparr>)"
      using w(2) q by (simp add: v_shared_def)
    ultimately show "\<exists>u. v_shared u = v_shared (w\<lparr>v_tail := nxt v next\<rparr>) \<and> ptrans w u \<and>
        (view_inv u \<longrightarrow> psafe post (k True) u)"
      using moved by blast
  next
    fix w assume "view_inv w" "?B w" "v_tail w \<noteq> t"
    then show "\<exists>u. v_shared u = v_shared w \<and> ptrans w u \<and> (view_inv u \<longrightarrow> psafe post (k False) u)"
      using kept later_not_same ptrans.stutter by blast
  qed (use assms in auto)
qed

text \<open>Jumping over the slot the consumer reads.\<close>

lemma mirrors_overrun:
  "mirrors P v \<Longrightarrow> mirrors (P\<lparr>p_overrun := slot\<rparr>) (v\<lparr>v_ov := Some slot\<rparr>)"
  by (simp add: mirrors_def ov_word_def)

lemma overrun_program:
  assumes "mirrors P v" and "view_inv v" and "idx t = i" and "unat i < length (v_chain v)"
    and "unat (nxt v i) < length (v_chain v)"
  shows "overrun P t k = Tail_CAS t (nxt v (nxt v i)) (\<lambda>exchanged.
      if exchanged then k (P\<lparr>p_overrun := i, p_current := nxt v i\<rparr>) True
      else k (P\<lparr>p_current := i\<rparr>) False)"
  by (simp only: overrun_def assms(3) [unfolded idx_def] chain_get_eq [OF assms(1,2,4)]
      chain_get_eq [OF assms(1,2,5)])

lemma jump_step:
  assumes "view_inv w" and "handed_over P next c w" and "v_tail w = t"
    and "t \<noteq> RI_INDEX_INVALID" and "consumed t" and "idx t = next" and "v_ov w = None"
    and q: "v_q w = next # a # b # q"
  defines "u \<equiv> w\<lparr>v_tail := b, v_own := Some a, v_q := b # q, v_ov := Some next\<rparr>"
  shows "v_shared u = v_shared (w\<lparr>v_tail := b\<rparr>)" and "ptrans w u"
    and "prod_ok (P\<lparr>p_overrun := next, p_current := a\<rparr>) u" and "v_cnt u = c"
proof -
  note D = view_invD [OF assms(1)]
  show "v_shared u = v_shared (w\<lparr>v_tail := b\<rparr>)" by (simp add: u_def v_shared_def)
  have own: "v_own w = None" and m: "mirrors P w" and h: "p_head P = last (v_q w)"
    and hn: "p_head P \<noteq> RI_INDEX_INVALID" and c: "v_cnt w = c"
    using assms(2) unfolding handed_over_def by blast+
  have "ptrans w (w\<lparr>v_tail := b, v_own := Some a, v_q := b # q, v_ov := Some (idx (v_tail w))\<rparr>)"
    by (rule ptrans.jump) (use assms(3-7) own q in simp_all)
  then show "ptrans w u" using assms(3,6) by (simp add: u_def)
  have "unat b < length (v_chain w)" using wf_in_slots(2) [OF D(1), of b] q by simp
  then have b: "b \<noteq> RI_INDEX_INVALID" by (rule slot_word_neq_invalid(1) [OF D(1)])
  have a: "nxt w a = b" using D(2) q by simp
  have "mirrors (P\<lparr>p_overrun := next\<rparr>) (w\<lparr>v_ov := Some next\<rparr>)" by (rule mirrors_overrun [OF m])
  then have "mirrors (P\<lparr>p_overrun := next, p_current := a\<rparr>) u"
    by (simp add: u_def mirrors_def ov_word_def)
  then show "prod_ok (P\<lparr>p_overrun := next, p_current := a\<rparr>) u"
    using a b h hn q by (simp add: prod_ok_def u_def)
  show "v_cnt u = c" using c by (simp add: u_def)
qed

definition about_to_jump ::
    "ri_producer_queue \<Rightarrow> ri_index \<Rightarrow> nat \<Rightarrow> ri_index \<Rightarrow> ri_index list \<Rightarrow> view \<Rightarrow> bool" where
  "about_to_jump P next c t q w \<longleftrightarrow>
     handed_over P next c w \<and> known (Some t) w \<and> v_ov w = None \<and> v_q w = q"

lemma about_to_jump_stable:
  "\<lbrakk>view_inv v; about_to_jump P next c t q v; ctrans v w\<rbrakk> \<Longrightarrow> about_to_jump P next c t q w"
  using handed_over_known_stable [of v P "next" c "Some t" w] ctrans_frame(3,4) [of v w]
  by (simp add: about_to_jump_def)

lemma overrun_safe:
  assumes "view_inv v" and "handed_over P next c v" and "known (Some t) v"
    and t: "consumed t" "idx t = next" "t \<noteq> RI_INDEX_INVALID" and ov: "v_ov v = None"
    and finish: "\<And>P' b u. \<lbrakk>view_inv u; prod_ok P' u; v_cnt u = c\<rbrakk> \<Longrightarrow> psafe post (k P' b) u"
  shows "psafe post (overrun P t k) v"
proof -
  have m: "mirrors P v" and T: "v_tail v \<noteq> RI_INDEX_INVALID"
    using assms(2,3) by (simp_all add: handed_over_def known_def)
  obtain a b q where q: "v_q v = next # a # b # q" "nxt v next = a" "nxt v a = b"
    and a: "unat a < length (v_chain v)"
    by (rule handed_over_split [OF assms(1,2) T]) (use ov in blast)
  note prog = overrun_program [OF m assms(1) t(2) handed_over_head(1) [OF assms(1,2)], of k,
      unfolded q(2,3), OF a]
  show ?thesis unfolding prog
  proof (rule psafe_CAS [where B = "about_to_jump P next c t (next # a # b # q)", OF assms(1)])
    show "about_to_jump P next c t (next # a # b # q) v"
      unfolding about_to_jump_def using assms(2,3) ov q(1) by blast
  next
    fix w assume w: "view_inv w" "about_to_jump P next c t (next # a # b # q) w" "v_tail w = t"
    then have h: "handed_over P next c w" and "v_ov w = None" and "v_q w = next # a # b # q"
      unfolding about_to_jump_def by blast+
    note J = jump_step [OF w(1) h w(3) t(3,1,2) this(2,3)]
    show "\<exists>u. v_shared u = v_shared (w\<lparr>v_tail := b\<rparr>) \<and> ptrans w u \<and>
        (view_inv u \<longrightarrow> psafe post (if True then k (P\<lparr>p_overrun := next, p_current := a\<rparr>) True
           else k (P\<lparr>p_current := next\<rparr>) False) u)"
      unfolding if_True using J(1,2) finish [OF _ J(3,4)] by blast
  next
    fix w assume w: "view_inv w" "about_to_jump P next c t (next # a # b # q) w" "v_tail w \<noteq> t"
    then have T: "v_tail w \<noteq> RI_INDEX_INVALID" and "later next t (v_tail w)"
      by (auto simp: known_def about_to_jump_def)
    moreover have "t OR RI_CONSUMED_FLAG = t" using t(1) by (rule or_consumed_idem)
    ultimately have "idx (v_tail w) \<noteq> next" using w(3) by (simp add: later_def)
    have h: "handed_over P next c w" using w(2) unfolding about_to_jump_def by blast
    note R = reclaim_step [OF w(1) h T \<open>idx (v_tail w) \<noteq> next\<close>]
    show "\<exists>u. v_shared u = v_shared w \<and> ptrans w u \<and>
        (view_inv u \<longrightarrow> psafe post (if False then k (P\<lparr>p_overrun := next, p_current := a\<rparr>) True
           else k (P\<lparr>p_current := next\<rparr>) False) u)"
      unfolding if_False using R(1,2) finish [OF _ R(3,4)] by blast
  qed (rule about_to_jump_stable)
qed

text \<open>The consumer has left the slot jumped over: the producer takes it back.\<close>

definition requeued_view :: "ri_index \<Rightarrow> ri_index \<Rightarrow> view \<Rightarrow> view" where
  "requeued_view slot i v = (set_nxt v slot i)\<lparr>v_own := Some slot, v_ov := None\<rparr>"

definition about_to_requeue ::
    "ri_producer_queue \<Rightarrow> ri_index \<Rightarrow> nat \<Rightarrow> ri_index \<Rightarrow> ri_index \<Rightarrow> view \<Rightarrow> bool" where
  "about_to_requeue P next c t slot w \<longleftrightarrow>
     handed_over P next c w \<and> known (Some t) w \<and> v_ov w = Some slot"

lemma about_to_requeue_stable:
  "\<lbrakk>view_inv v; about_to_requeue P next c t slot v; ctrans v w\<rbrakk> \<Longrightarrow>
    about_to_requeue P next c t slot w"
  using handed_over_known_stable [of v P "next" c "Some t" w] ctrans_frame(4) [of v w]
  by (simp add: about_to_requeue_def)

lemma requeue_step:
  assumes "view_inv w" and "about_to_requeue P next c t slot w" and "consumed t"
  shows "mirrors P w" and "unat slot < length (v_chain w)"
    and "v_shared (requeued_view slot next w) = v_shared (set_nxt w slot next)"
    and "ptrans w (requeued_view slot next w)"
    and "prod_ok (P\<lparr>p_chain := (p_chain P)[unat slot := next], p_current := slot,
           p_overrun := RI_INDEX_INVALID\<rparr>) (requeued_view slot next w)"
    and "v_cnt (requeued_view slot next w) = c"
proof -
  note D = view_invD [OF assms(1)]
  have own: "v_own w = None" and m: "mirrors P w" and h: "p_head P = last (v_q w)"
    and hn: "p_head P \<noteq> RI_INDEX_INVALID" and c: "v_cnt w = c" and hd: "hd (v_q w) = next"
    using assms(2) unfolding about_to_requeue_def handed_over_def by blast+
  have ov: "v_ov w = Some slot" and T: "v_tail w \<noteq> RI_INDEX_INVALID" "later next t (v_tail w)"
    using assms(2) hd by (simp_all add: about_to_requeue_def known_def)
  have C: "consumed (v_tail w)" using T(2) assms(3) by (auto simp: later_def flag_simps)
  show "mirrors P w" by (rule m)
  show u: "unat slot < length (v_chain w)" using wf_in_slots(3) [OF D(1) ov] by blast
  show "v_shared (requeued_view slot next w) = v_shared (set_nxt w slot next)"
    by (simp add: requeued_view_def v_shared_def)
  show "ptrans w (requeued_view slot next w)"
    using ptrans.requeue [OF T(1) own ov C] hd by (simp add: requeued_view_def)
  have "mirrors (P\<lparr>p_chain := (p_chain P)[unat slot := next]\<rparr>) (set_nxt w slot next)"
    by (rule mirrors_store [OF m])
  then have "mirrors (P\<lparr>p_chain := (p_chain P)[unat slot := next], p_current := slot,
      p_overrun := RI_INDEX_INVALID\<rparr>) (requeued_view slot next w)"
    by (simp add: requeued_view_def mirrors_def ov_word_def)
  then show "prod_ok (P\<lparr>p_chain := (p_chain P)[unat slot := next], p_current := slot,
           p_overrun := RI_INDEX_INVALID\<rparr>) (requeued_view slot next w)"
    using h hn hd T(1) u by (simp add: prod_ok_def requeued_view_def nxt_set_nxt)
  show "v_cnt (requeued_view slot next w) = c" using c by (simp add: requeued_view_def)
qed

lemma requeue_safe:
  assumes "view_inv v" and "handed_over P next c v" and "known (Some t) v" and t: "consumed t"
    and ov: "v_ov v \<noteq> None"
    and finish: "\<And>P' u. \<lbrakk>view_inv u; prod_ok P' u; v_cnt u = c\<rbrakk> \<Longrightarrow> psafe post (k P') u"
  shows "psafe post (requeue_overrun P next k) v"
proof -
  obtain slot where s: "v_ov v = Some slot" using ov by blast
  have "p_overrun P = slot"
    using assms(2) s by (simp add: handed_over_def mirrors_def ov_word_def)
  then have prog: "requeue_overrun P next k = chain_store P slot next
      (\<lambda>producer. k (producer\<lparr>p_current := p_overrun producer, p_overrun := RI_INDEX_INVALID\<rparr>))"
    and cur: "p_overrun (P\<lparr>p_chain := chain\<rparr>) = slot" for chain
    by (simp_all add: requeue_overrun_def)
  show ?thesis unfolding prog
  proof (rule psafe_chain_store [where B = "about_to_requeue P next c t slot"
        and u = "requeued_view slot next", OF assms(1)])
    show "about_to_requeue P next c t slot v"
      unfolding about_to_requeue_def using assms(2,3) s by blast
  next
    fix w assume w: "view_inv w" "about_to_requeue P next c t slot w"
    note R = requeue_step [OF w t]
    show "mirrors P w \<and> unat slot < length (v_chain w) \<and>
        v_shared (requeued_view slot next w) = v_shared (set_nxt w slot next) \<and>
        ptrans w (requeued_view slot next w)"
      using R(1-4) by blast
    assume "view_inv (requeued_view slot next w)"
    from finish [OF this R(5,6)] show "psafe post (k (P\<lparr>p_chain := (p_chain P)[unat slot := next],
        p_current := p_overrun (P\<lparr>p_chain := (p_chain P)[unat slot := next]\<rparr>),
        p_overrun := RI_INDEX_INVALID\<rparr>)) (requeued_view slot next w)"
      unfolding cur .
  qed (rule about_to_requeue_stable)
qed

section \<open>The first message\<close>

definition starting :: "ri_producer_queue \<Rightarrow> ri_index \<Rightarrow> view \<Rightarrow> bool" where
  "starting P next v \<longleftrightarrow> mirrors P v \<and> v_own v = Some (p_current P) \<and> hd (v_q v) = next \<and>
     v_tail v = RI_INDEX_INVALID \<and> v_num v (p_current P) = 0"

definition ring_cut :: "ri_producer_queue \<Rightarrow> ri_index \<Rightarrow> view \<Rightarrow> bool" where
  "ring_cut P next v \<longleftrightarrow> mirrors P v \<and> v_own v = None \<and> hd (v_q v) = next \<and>
     v_tail v = RI_INDEX_INVALID \<and> last (v_q v) = p_current P \<and> v_num v (p_current P) = 0"

lemma starting_stable:
  "\<lbrakk>view_inv v; starting P next v; ctrans v w\<rbrakk> \<Longrightarrow> starting P next w"
  "\<lbrakk>view_inv v; ring_cut P next v; ctrans v w\<rbrakk> \<Longrightarrow> ring_cut P next w"
  using ctrans_frame [of v w] ctrans_frame_preds(1) [of v w] ctrans_tail_valid [of v w]
  by (simp_all add: starting_def ring_cut_def)

lemma cut_step:
  assumes "view_inv v" and "starting P next v"
  defines "u \<equiv> (set_nxt v (p_current P) RI_INDEX_INVALID)
             \<lparr>v_own := None, v_q := v_q v @ [p_current P]\<rparr>"
  shows "mirrors P v" and "unat (p_current P) < length (v_chain v)"
    and "v_shared u = v_shared (set_nxt v (p_current P) RI_INDEX_INVALID)" and "ptrans v u"
    and "ring_cut (P\<lparr>p_chain := (p_chain P)[unat (p_current P) := RI_INDEX_INVALID]\<rparr>) next u"
    and "p_current P \<noteq> next"
proof -
  note D = view_invD [OF assms(1)]
  have m: "mirrors P v" and own: "v_own v = Some (p_current P)" and h: "hd (v_q v) = next"
    and T: "v_tail v = RI_INDEX_INVALID" and z: "v_num v (p_current P) = 0"
    using assms(2) unfolding starting_def by blast+
  show "mirrors P v" by (rule m)
  show "unat (p_current P) < length (v_chain v)" using wf_in_slots(1) [OF D(1) own] by blast
  show "v_shared u = v_shared (set_nxt v (p_current P) RI_INDEX_INVALID)"
    by (simp add: u_def v_shared_def)
  show "ptrans v u" using ptrans.first_cut [OF T own] by (simp add: u_def)
  show "ring_cut (P\<lparr>p_chain := (p_chain P)[unat (p_current P) := RI_INDEX_INVALID]\<rparr>) next u"
    using mirrors_store [OF m] h T z wf_in_slots(5) [OF D(1)] by (simp add: ring_cut_def u_def)
  show "p_current P \<noteq> next"
    using wf_in_slots(1) [OF D(1) own] hd_in_set [OF wf_in_slots(5) [OF D(1)]] h by auto
qed

lemma publish_step:
  assumes "view_inv v" and "ring_cut P next v" and "p_current P \<noteq> next"
  defines "t \<equiv> p_current P OR RI_FIRST_FLAG"
  defines "u \<equiv> v\<lparr>v_tail := t, v_cnt := 1\<rparr>"
  shows "v_shared u = v_shared (v\<lparr>v_tail := t\<rparr>)" and "ptrans v u"
    and "handed_over (P\<lparr>p_head := p_current P\<rparr>) next 1 u" and "known (Some t) u" and "idx t \<noteq> next"
proof -
  note D = view_invD [OF assms(1)]
  have m: "mirrors P v" and own: "v_own v = None" and h: "hd (v_q v) = next"
    and T: "v_tail v = RI_INDEX_INVALID" and l: "last (v_q v) = p_current P"
    and z: "v_num v (p_current P) = 0"
    using assms(2) unfolding ring_cut_def by blast+
  show "v_shared u = v_shared (v\<lparr>v_tail := t\<rparr>)" by (simp add: u_def v_shared_def)
  show "ptrans v u" using ptrans.first_publish [OF T own] l z by (simp add: u_def t_def)
  have "p_current P \<in> set (v_q v)" using last_in_set [OF wf_in_slots(5) [OF D(1)]] l by simp
  then have "unat (p_current P) < length (v_chain v)" using wf_in_slots(2) [OF D(1)] by blast
  note s = slot_word_neq_invalid [OF D(1) this]
  show "handed_over (P\<lparr>p_head := p_current P\<rparr>) next 1 u"
    using m own h l s by (simp add: handed_over_def u_def)
  show "known (Some t) u" using s by (simp add: known_def u_def t_def later_def)
  show "idx t \<noteq> next" using s assms(3) by (simp add: t_def flag_simps)
qed

lemma psafe_Tail_Store:
  assumes "view_inv v" and "B v" and "\<And>v w. \<lbrakk>view_inv v; B v; ctrans v w\<rbrakk> \<Longrightarrow> B w"
    and "\<And>w. \<lbrakk>view_inv w; B w\<rbrakk> \<Longrightarrow> v_shared (u w) = v_shared (w\<lparr>v_tail := t\<rparr>) \<and> ptrans w (u w)"
    and "\<And>w. \<lbrakk>view_inv w; B w; view_inv (u w)\<rbrakk> \<Longrightarrow> psafe post k (u w)"
  shows "psafe post (Tail_Store t k) v"
proof (rule prod.safe_access [where A = B, OF assms(1,2)])
  fix w assume w: "view_inv w" "B w"
  have "astep (v_shared w) (Tail_Store t k) = Some (v_shared (u w), k)"
    using assms(4) [OF w] by (simp add: shared_ops v_shared_def)
  with assms(4) [OF w] assms(5) [OF w]
  show "\<exists>p' u. astep (v_shared w) (Tail_Store t k) = Some (v_shared u, p') \<and>
      ptrans w u \<and> (view_inv u \<longrightarrow> psafe post p' u)"
    by (intro exI [of _ k] exI [of _ "u w"]) simp
qed (rule assms(3))

lemma publish_safe:
  assumes "view_inv v" and "ring_cut P next v" and ne: "p_current P \<noteq> next"
    and k: "\<And>t w. \<lbrakk>view_inv w; handed_over (P\<lparr>p_head := p_current P\<rparr>) next 1 w; known (Some t) w;
        idx t \<noteq> next\<rbrakk> \<Longrightarrow> psafe post k w"
  shows "psafe post (Tail_Store (p_current P OR RI_FIRST_FLAG) (Head_Store (p_current P) k)) v"
proof (rule psafe_Tail_Store [where B = "ring_cut P next", OF assms(1,2)])
  fix w assume w: "view_inv w" "ring_cut P next w"
  note S = publish_step [OF w ne]
  show "v_shared (w\<lparr>v_tail := p_current P OR RI_FIRST_FLAG, v_cnt := 1\<rparr>) =
      v_shared (w\<lparr>v_tail := p_current P OR RI_FIRST_FLAG\<rparr>) \<and>
      ptrans w (w\<lparr>v_tail := p_current P OR RI_FIRST_FLAG, v_cnt := 1\<rparr>)"
    using S(1,2) by (rule conjI)
  assume u: "view_inv (w\<lparr>v_tail := p_current P OR RI_FIRST_FLAG, v_cnt := 1\<rparr>)"
  have "psafe post (Head_Store (p_head (P\<lparr>p_head := p_current P\<rparr>)) k)
      (w\<lparr>v_tail := p_current P OR RI_FIRST_FLAG, v_cnt := 1\<rparr>)"
    by (rule announce_safe [OF u S(3,4)]) (rule k [OF _ _ _ S(5)])
  then show "psafe post (Head_Store (p_current P) k)
      (w\<lparr>v_tail := p_current P OR RI_FIRST_FLAG, v_cnt := 1\<rparr>)"
    by simp
qed (rule starting_stable(2))

lemma first_push_safe:
  assumes "view_inv v" and "starting P next v"
    and k: "\<And>P' t w. \<lbrakk>view_inv w; handed_over P' next 1 w; known (Some t) w; idx t \<noteq> next\<rbrakk>
      \<Longrightarrow> psafe post (k P') w"
  shows "psafe post (enqueue_first_msg P k) v"
proof -
  let ?P1 = "P\<lparr>p_chain := (p_chain P)[unat (p_current P) := RI_INDEX_INVALID]\<rparr>"
  let ?u = "\<lambda>v. (set_nxt v (p_current P) RI_INDEX_INVALID)
             \<lparr>v_own := None, v_q := v_q v @ [p_current P]\<rparr>"
  show ?thesis unfolding enqueue_first_msg_def
  proof (rule psafe_chain_store [where B = "starting P next" and u = ?u, OF assms(1,2)])
    fix w assume w: "view_inv w" "starting P next w"
    note C = cut_step [OF w]
    show "mirrors P w \<and> unat (p_current P) < length (v_chain w) \<and>
        v_shared (?u w) = v_shared (set_nxt w (p_current P) RI_INDEX_INVALID) \<and> ptrans w (?u w)"
      using C(1-4) by (intro conjI)
    assume u: "view_inv (?u w)"
    have ne: "p_current ?P1 \<noteq> next" using C(6) by simp
    have "psafe post (Tail_Store (p_current ?P1 OR RI_FIRST_FLAG)
        (Head_Store (p_current ?P1) (k (?P1\<lparr>p_head := p_current ?P1\<rparr>)))) (?u w)"
      by (rule publish_safe [OF u C(5) ne]) (rule k)
    then show "psafe post (Tail_Store (p_current ?P1 OR RI_FIRST_FLAG)
        (let producer = ?P1\<lparr>p_head := p_current ?P1\<rparr> in
          Head_Store (p_head producer) (k producer))) (?u w)"
      by (simp add: Let_def)
  qed (rule starting_stable(1))
qed

section \<open>The operations\<close>

lemma mirrors_ov:
  assumes "mirrors P v" and "view_inv v"
  shows "p_overrun P = RI_INDEX_INVALID \<longleftrightarrow> v_ov v = None"
proof (cases "v_ov v")
  case (Some slot)
  note D = view_invD(1) [OF assms(2)]
  have "slot \<noteq> RI_INDEX_INVALID"
    using slot_word_neq_invalid(1) [OF D] wf_in_slots(3) [OF D Some] by blast
  then show ?thesis using assms(1) Some by (simp add: mirrors_def ov_word_def)
qed (use assms(1) in \<open>simp add: mirrors_def ov_word_def\<close>)

lemma tail_seen:
  assumes "view_inv v" and "mirrors P v" and "v_tail v \<noteq> RI_INDEX_INVALID"
  shows "known (Some (v_tail v)) v"
    and "ri_queue_index_valid (p_queue P) (v_tail v AND RI_INDEX_MASK)"
    and "\<lbrakk>p_overrun P \<noteq> RI_INDEX_INVALID; \<not> consumed (v_tail v)\<rbrakk> \<Longrightarrow> idx (v_tail v) = hd (v_q v)"
    and "v_tail v OR RI_CONSUMED_FLAG \<noteq> RI_INDEX_INVALID"
proof -
  note D = view_invD [OF assms(1)]
  show "known (Some (v_tail v)) v" using assms(3) by (simp add: known_def later_def)
  show "ri_queue_index_valid (p_queue P) (v_tail v AND RI_INDEX_MASK)"
    using mirrors_index(3) [OF assms(2,1)] tail_cases(2) [OF assms(1,3)] by (simp add: idx_def)
  show "idx (v_tail v) = hd (v_q v)" if "p_overrun P \<noteq> RI_INDEX_INVALID" "\<not> consumed (v_tail v)"
    using queue_invD(3,4) [OF D(4) [OF assms(3)]] mirrors_ov [OF assms(2,1)] that by blast
  show "v_tail v OR RI_CONSUMED_FLAG \<noteq> RI_INDEX_INVALID"
    by (rule consumed_word_neq_invalid [OF D(1) tail_cases(2) [OF assms(1,3)]])
qed

definition force_post :: "nat \<Rightarrow> ri_producer_queue \<times> ri_force_push_result \<Rightarrow> view \<Rightarrow> bool" where
  "force_post c r v \<longleftrightarrow> prod_ok (fst r) v \<and> v_cnt v = c \<and> snd r \<noteq> RI_FORCE_PUSH_RESULT_ERROR"

lemma force_Ret_safe:
  assumes "view_inv v" and "prod_ok P v" and "v_cnt v = c"
  shows "psafe (force_post c) (Ret (P, force_result b)) v"
proof (rule prod.safe_Ret_still [where A = "\<lambda>v. prod_ok P v \<and> v_cnt v = c"])
  fix v w assume "view_inv v" "prod_ok P v \<and> v_cnt v = c" "ctrans v w"
  then show "prod_ok P w \<and> v_cnt w = c" using prod_ok_stable ctrans_frame(6) by metis
qed (use assms in \<open>simp_all add: force_post_def force_result_def\<close>)

lemma force_overrun_mode:
  assumes "view_inv v" and "handed_over P next c v" and "known (Some t) v"
    and o: "p_overrun P \<noteq> RI_INDEX_INVALID" and n: "\<not> consumed t" "idx t = next"
  shows "psafe (force_post c) (move_tail P t (\<lambda>moved.
      if moved then Ret (P\<lparr>p_current := t AND RI_INDEX_MASK\<rparr>, force_result True)
      else requeue_overrun P next (\<lambda>producer. Ret (producer, force_result False)))) v"
proof (rule move_tail_safe [OF assms(1-3) n])
  fix u assume "view_inv u" "prod_ok (P\<lparr>p_current := next\<rparr>) u" "v_cnt u = c"
  then show "psafe (force_post c) (if True then Ret (P\<lparr>p_current := t AND RI_INDEX_MASK\<rparr>, force_result True)
      else requeue_overrun P next (\<lambda>producer. Ret (producer, force_result False))) u"
    using n(2) [unfolded idx_def] by (simp add: force_Ret_safe)
next
  fix w assume w: "view_inv w" "handed_over P next c w" "known (Some (t OR RI_CONSUMED_FLAG)) w"
  then have "v_ov w \<noteq> None" using mirrors_ov o by (auto simp: handed_over_def)
  then show "psafe (force_post c) (if False then Ret (P\<lparr>p_current := t AND RI_INDEX_MASK\<rparr>, force_result True)
      else requeue_overrun P next (\<lambda>producer. Ret (producer, force_result False))) w"
    unfolding if_False by (rule requeue_safe [OF w flagged_or_consumed _ force_Ret_safe])
qed

lemma force_full:
  assumes "view_inv v" and "handed_over P next c v" and "known (Some t) v"
    and o: "p_overrun P = RI_INDEX_INVALID" and n: "\<not> consumed t" "idx t = next"
    and ne: "t OR RI_CONSUMED_FLAG \<noteq> RI_INDEX_INVALID"
  shows "psafe (force_post c) (move_tail P t (\<lambda>moved.
      if moved then Ret (P\<lparr>p_current := next\<rparr>, force_result True)
      else overrun P (t OR RI_CONSUMED_FLAG) (\<lambda>producer discarded.
             Ret (producer, force_result discarded)))) v"
proof (rule move_tail_safe [OF assms(1-3) n])
  fix u assume "view_inv u" "prod_ok (P\<lparr>p_current := next\<rparr>) u" "v_cnt u = c"
  then show "psafe (force_post c) (if True then Ret (P\<lparr>p_current := next\<rparr>, force_result True)
      else overrun P (t OR RI_CONSUMED_FLAG) (\<lambda>producer discarded.
             Ret (producer, force_result discarded))) u"
    by (simp add: force_Ret_safe)
next
  fix w assume w: "view_inv w" "handed_over P next c w" "known (Some (t OR RI_CONSUMED_FLAG)) w"
  then have ov: "v_ov w = None" using mirrors_ov o by (auto simp: handed_over_def)
  have "idx (t OR RI_CONSUMED_FLAG) = next" using n(2) by (simp add: flag_simps)
  from overrun_safe [OF w flagged_or_consumed this ne ov force_Ret_safe]
  show "psafe (force_post c) (if False then Ret (P\<lparr>p_current := next\<rparr>, force_result True)
      else overrun P (t OR RI_CONSUMED_FLAG) (\<lambda>producer discarded.
             Ret (producer, force_result discarded))) w"
    unfolding if_False .
qed

lemma force_overrun:
  assumes "view_inv v" and "handed_over P next c v" and "known (Some t) v"
    and o: "p_overrun P = RI_INDEX_INVALID" and n: "consumed t" "idx t = next"
    and ne: "t \<noteq> RI_INDEX_INVALID"
  shows "psafe (force_post c) (overrun P t (\<lambda>producer discarded.
             Ret (producer, force_result discarded))) v"
proof -
  have "v_ov v = None" using assms(1,2) mirrors_ov o by (auto simp: handed_over_def)
  from overrun_safe [OF assms(1-3) n ne this force_Ret_safe] show ?thesis .
qed

lemma force_skip:
  assumes "view_inv v" and "handed_over P next c v" and "known (Some t) v" and "idx t \<noteq> next"
  shows "psafe (force_post c) (Ret (P\<lparr>p_current := next\<rparr>, force_result b)) v"
  by (rule reclaim_Ret_safe [OF assms]) (simp add: force_post_def force_result_def)

text \<open>What a push starts from.\<close>

lemma prod_ok_cases:
  assumes "view_inv v" and "prod_ok P v" and "v_num v (p_current P) = v_cnt v"
  defines "next \<equiv> nxt v (p_current P)"
  shows "chain_get P (p_current P) k = k next"
    and "p_head P = RI_INDEX_INVALID \<Longrightarrow> starting P next v \<and> v_cnt v = 0"
    and "p_head P \<noteq> RI_INDEX_INVALID \<Longrightarrow> attached P next (v_cnt v) v \<and> known None v"
proof -
  note D = view_invD [OF assms(1)]
  have m: "mirrors P v" and own: "v_own v = Some (p_current P)" and h: "hd (v_q v) = next"
    and T: "if p_head P = RI_INDEX_INVALID then v_tail v = RI_INDEX_INVALID
      else v_tail v \<noteq> RI_INDEX_INVALID \<and> p_head P = last (v_q v)"
    using assms(2) by (simp_all add: prod_ok_def next_def)
  have "unat (p_current P) < length (v_chain v)" using wf_in_slots(1) [OF D(1) own] by blast
  then show "chain_get P (p_current P) k = k next" unfolding next_def by (rule chain_get_eq [OF m assms(1)])
  show "starting P next v \<and> v_cnt v = 0" if "p_head P = RI_INDEX_INVALID"
    using m own h T that D(3) assms(3) by (simp add: starting_def empty_inv_def)
  show "attached P next (v_cnt v) v \<and> known None v" if "p_head P \<noteq> RI_INDEX_INVALID"
    using m own h T that assms(3) by (simp add: attached_def)
qed

lemma force_tail_safe:
  assumes w: "view_inv w" and h: "handed_over P next c w" and T: "v_tail w \<noteq> RI_INDEX_INVALID"
  defines "tail \<equiv> v_tail w"
  shows "psafe (force_post c) (
      if \<not> ri_queue_index_valid (p_queue P) (tail AND RI_INDEX_MASK) then
        Ret (P, RI_FORCE_PUSH_RESULT_ERROR)
      else
        let consumed = flagged tail RI_CONSUMED_FLAG in
        if p_overrun P \<noteq> RI_INDEX_INVALID then
          if consumed then
            requeue_overrun P next (\<lambda>producer. Ret (producer, force_result False))
          else
            move_tail P tail (\<lambda>moved.
              if moved then Ret (P\<lparr>p_current := tail AND RI_INDEX_MASK\<rparr>, force_result True)
              else requeue_overrun P next (\<lambda>producer. Ret (producer, force_result False)))
        else
          let full = (next = tail AND RI_INDEX_MASK) in
          if \<not> full then
            Ret (P\<lparr>p_current := next\<rparr>, force_result False)
          else if \<not> consumed then
            move_tail P tail (\<lambda>moved.
              if moved then Ret (P\<lparr>p_current := next\<rparr>, force_result True)
              else overrun P (tail OR RI_CONSUMED_FLAG) (\<lambda>producer discarded.
                     Ret (producer, force_result discarded)))
          else
            overrun P tail (\<lambda>producer discarded. Ret (producer, force_result discarded))) w"
proof -
  have m: "mirrors P w" and hd: "hd (v_q w) = next" using h unfolding handed_over_def by blast+
  note S = tail_seen [OF w m T, folded tail_def]
  have v: "\<not> \<not> ri_queue_index_valid (p_queue P) (tail AND RI_INDEX_MASK)" using S(2) by simp
  consider (a) "p_overrun P \<noteq> RI_INDEX_INVALID" "consumed tail"
    | (b) "p_overrun P \<noteq> RI_INDEX_INVALID" "\<not> consumed tail"
    | (c) "\<not> p_overrun P \<noteq> RI_INDEX_INVALID" "next \<noteq> tail AND RI_INDEX_MASK"
    | (d) "\<not> p_overrun P \<noteq> RI_INDEX_INVALID" "\<not> next \<noteq> tail AND RI_INDEX_MASK" "\<not> consumed tail"
    | (e) "\<not> p_overrun P \<noteq> RI_INDEX_INVALID" "\<not> next \<noteq> tail AND RI_INDEX_MASK" "\<not> \<not> consumed tail"
    by blast
  then show ?thesis
  proof cases
    case a
    then have "v_ov w \<noteq> None" using mirrors_ov [OF m w] by blast
    then show ?thesis unfolding Let_def if_not_P [OF v] if_P [OF a(1)] if_P [OF a(2)]
      by (rule requeue_safe [OF w h S(1) a(2) _ force_Ret_safe])
  next
    case b
    show ?thesis unfolding Let_def if_not_P [OF v] if_P [OF b(1)] if_not_P [OF b(2)]
      by (rule force_overrun_mode [OF w h S(1) b]) (use S(3) [OF b] hd in simp)
  next
    case c
    show ?thesis unfolding Let_def if_not_P [OF v] if_not_P [OF c(1)] if_P [OF c(2)]
      by (rule force_skip [OF w h S(1)]) (use c(2) in \<open>simp add: idx_def\<close>)
  next
    case d
    show ?thesis unfolding Let_def if_not_P [OF v] if_not_P [OF d(1)] if_not_P [OF d(2)] if_P [OF d(3)]
      by (rule force_full [OF w h S(1) _ _ _ S(4)]) (use d in \<open>simp_all add: idx_def\<close>)
  next
    case e
    show ?thesis unfolding Let_def if_not_P [OF v] if_not_P [OF e(1)] if_not_P [OF e(2)] if_not_P [OF e(3)]
      by (rule force_overrun [OF w h S(1) _ _ _ T [folded tail_def]])
        (use e in \<open>simp_all add: idx_def\<close>)
  qed
qed

lemma load_tail_safe:
  assumes "view_inv v" and "handed_over P next c v" and "known None v"
    and k: "\<And>w. \<lbrakk>view_inv w; handed_over P next c w; v_tail w \<noteq> RI_INDEX_INVALID\<rbrakk> \<Longrightarrow>
      psafe post (k (v_tail w)) w"
  shows "psafe post (Tail_Load k) v"
proof (rule prod.safe_Tail_Load [where A = "\<lambda>w. handed_over P next c w \<and> known None w",
      OF assms(1) _ handed_over_known_stable])
  fix w assume w: "view_inv w" "handed_over P next c w \<and> known None w"
  then show "psafe post (k (sh_tail (v_shared w))) w" using k [OF w(1) conjunct1 [OF w(2)]] by simp
qed (use assms(2,3) in \<open>rule conjI\<close>)

lemma force_push_safe:
  assumes "view_inv v" and "prod_ok P v" and "v_num v (p_current P) = v_cnt v"
  shows "psafe (force_post (Suc (v_cnt v))) (ri_producer_queue_force_push P) v"
proof -
  let ?next = "nxt v (p_current P)"
  note C = prod_ok_cases [OF assms]
  show ?thesis
  proof (cases "p_head P = RI_INDEX_INVALID")
    case True
    note S = C(2) [OF True]
    have "psafe (force_post (Suc (v_cnt v))) (Ret (P'\<lparr>p_current := ?next\<rparr>, RI_FORCE_PUSH_RESULT_SUCCESS)) w"
      if w: "view_inv w" "handed_over P' ?next 1 w" "known (Some t) w" "idx t \<noteq> ?next" for P' t w
      using force_skip [OF w, of False] S by (simp add: force_result_def)
    from first_push_safe [OF assms(1) conjunct1 [OF S] this] True show ?thesis
      by (simp add: ri_producer_queue_force_push_def C(1))
  next
    case False
    note A = C(3) [OF False]
    show ?thesis
      unfolding ri_producer_queue_force_push_def C(1) if_not_P [OF False]
      by (rule enqueue_msg_safe [OF assms(1) conjunct1 [OF A] conjunct2 [OF A]], rule load_tail_safe)
        (assumption | rule force_tail_safe)+
  qed
qed

definition try_post ::
    "ri_producer_queue \<Rightarrow> nat \<Rightarrow> ri_producer_queue \<times> ri_try_push_result \<Rightarrow> view \<Rightarrow> bool" where
  "try_post P c r v \<longleftrightarrow> prod_ok (fst r) v \<and>
     (case snd r of RI_TRY_PUSH_RESULT_ERROR \<Rightarrow> False
      | RI_TRY_PUSH_RESULT_FAIL \<Rightarrow> fst r = P \<and> v_cnt v = c
      | RI_TRY_PUSH_RESULT_SUCCESS \<Rightarrow> v_cnt v = Suc c)"

lemma try_Ret_safe:
  assumes "view_inv v" and "prod_ok P' v" and "v_cnt v = Suc c"
  shows "psafe (try_post P c) (Ret (P', RI_TRY_PUSH_RESULT_SUCCESS)) v"
proof (rule prod.safe_Ret_still [where A = "\<lambda>v. prod_ok P' v \<and> v_cnt v = Suc c"])
  fix v w assume "view_inv v" "prod_ok P' v \<and> v_cnt v = Suc c" "ctrans v w"
  then show "prod_ok P' w \<and> v_cnt w = Suc c" using prod_ok_stable ctrans_frame(6) by metis
qed (use assms in \<open>simp_all add: try_post_def\<close>)

definition waiting :: "ri_producer_queue \<Rightarrow> ri_index \<Rightarrow> nat \<Rightarrow> view \<Rightarrow> bool" where
  "waiting P next c v \<longleftrightarrow> prod_ok P v \<and> attached P next c v"

lemma waiting_stable:
  "\<lbrakk>view_inv v; waiting P next c v; ctrans v w\<rbrakk> \<Longrightarrow> waiting P next c w"
  unfolding waiting_def using prod_ok_stable attached_stable by blast

lemma attached_cnt: "attached P next c v \<Longrightarrow> v_cnt v = c"
  unfolding attached_def by blast

lemma try_fail_safe:
  assumes "view_inv v" and "waiting P next c v"
  shows "psafe (try_post P c) (Ret (P, RI_TRY_PUSH_RESULT_FAIL)) v"
  by (rule prod.safe_Ret_still [where A = "waiting P next c", OF assms waiting_stable])
    (auto simp add: try_post_def waiting_def dest: attached_cnt)

lemma try_requeue:
  assumes "view_inv v" and "attached P next c v" and "known (Some t) v"
    and "p_overrun P \<noteq> RI_INDEX_INVALID" and "consumed t"
  shows "psafe (try_post P c) (enqueue_msg P (\<lambda>producer.
      requeue_overrun producer next (\<lambda>producer. Ret (producer, RI_TRY_PUSH_RESULT_SUCCESS)))) v"
proof (rule enqueue_msg_safe [OF assms(1-3)])
  fix P' w assume w: "view_inv w" "handed_over P' next (Suc c) w" "known (Some t) w"
    and o: "p_overrun P' = p_overrun P"
  have "mirrors P' w" using w(2) unfolding handed_over_def by blast
  then have "v_ov w \<noteq> None" using mirrors_ov [OF _ w(1), of P'] assms(4) o by simp
  from requeue_safe [OF w assms(5) this try_Ret_safe]
  show "psafe (try_post P c) (requeue_overrun P' next
      (\<lambda>producer. Ret (producer, RI_TRY_PUSH_RESULT_SUCCESS))) w" .
qed

lemma try_enqueue:
  assumes "view_inv v" and "attached P next c v" and "known (Some t) v" and "idx t \<noteq> next"
  shows "psafe (try_post P c) (enqueue_msg P (\<lambda>producer.
      Ret (producer\<lparr>p_current := next\<rparr>, RI_TRY_PUSH_RESULT_SUCCESS))) v"
proof (rule enqueue_msg_safe [OF assms(1-3)])
  fix P' w assume w: "view_inv w" "handed_over P' next (Suc c) w" "known (Some t) w"
  show "psafe (try_post P c) (Ret (P'\<lparr>p_current := next\<rparr>, RI_TRY_PUSH_RESULT_SUCCESS)) w"
    by (rule reclaim_Ret_safe [OF w assms(4)]) (simp add: try_post_def)
qed

lemma try_tail_safe:
  assumes w: "view_inv w" "waiting P next c w" and T: "v_tail w \<noteq> RI_INDEX_INVALID"
  defines "tail \<equiv> v_tail w"
  shows "psafe (try_post P c) (
      if \<not> ri_queue_index_valid (p_queue P) (tail AND RI_INDEX_MASK) then
        Ret (P, RI_TRY_PUSH_RESULT_ERROR)
      else
        if p_overrun P \<noteq> RI_INDEX_INVALID then
          let consumed = flagged tail RI_CONSUMED_FLAG in
          if consumed then
            enqueue_msg P (\<lambda>producer. requeue_overrun producer next
              (\<lambda>producer. Ret (producer, RI_TRY_PUSH_RESULT_SUCCESS)))
          else Ret (P, RI_TRY_PUSH_RESULT_FAIL)
        else
          let full = (next = tail AND RI_INDEX_MASK) in
          if \<not> full then
            enqueue_msg P (\<lambda>producer.
              Ret (producer\<lparr>p_current := next\<rparr>, RI_TRY_PUSH_RESULT_SUCCESS))
          else Ret (P, RI_TRY_PUSH_RESULT_FAIL)) w"
proof -
  have a: "attached P next c w" and m: "mirrors P w"
    using w(2) unfolding waiting_def attached_def by blast+
  note S = tail_seen [OF w(1) m T, folded tail_def]
  show ?thesis
    using try_requeue [OF w(1) a S(1)] try_enqueue [OF w(1) a S(1)] try_fail_safe [OF w] S(2)
    unfolding Let_def idx_def by presburger
qed

lemma try_push_safe:
  assumes "view_inv v" and "prod_ok P v" and "v_num v (p_current P) = v_cnt v"
  shows "psafe (try_post P (v_cnt v)) (ri_producer_queue_try_push P) v"
proof -
  let ?next = "nxt v (p_current P)"
  note C = prod_ok_cases [OF assms]
  show ?thesis
  proof (cases "p_head P = RI_INDEX_INVALID")
    case True
    note S = C(2) [OF True]
    have "psafe (try_post P (v_cnt v)) (Ret (P'\<lparr>p_current := ?next\<rparr>, RI_TRY_PUSH_RESULT_SUCCESS)) w"
      if w: "view_inv w" "handed_over P' ?next 1 w" "known (Some t) w" "idx t \<noteq> ?next" for P' t w
      by (rule reclaim_Ret_safe [OF w]) (use S in \<open>simp add: try_post_def\<close>)
    from first_push_safe [OF assms(1) conjunct1 [OF S] this] True show ?thesis
      by (simp add: ri_producer_queue_try_push_def C(1))
  next
    case False
    note A = C(3) [OF False]
    then have W: "waiting P ?next (v_cnt v) v \<and> known None v" using assms(2) by (simp add: waiting_def)
    show ?thesis
      unfolding ri_producer_queue_try_push_def C(1) if_not_P [OF False]
    proof (rule prod.safe_Tail_Load [where A = "\<lambda>w. waiting P ?next (v_cnt v) w \<and> known None w",
          OF assms(1) W])
      fix v' w assume "view_inv v'" "waiting P ?next (v_cnt v) v' \<and> known None v'" "ctrans v' w"
      then show "waiting P ?next (v_cnt v) w \<and> known None w"
        using waiting_stable known_stable by blast
    qed (unfold v_shared_simps known_simps, blast intro: try_tail_safe)
  qed
qed

section \<open>Queries\<close>

text \<open>The queries only read; the view they leave is one the consumer alone has changed.\<close>

definition query_post :: "ri_producer_queue \<Rightarrow> nat \<Rightarrow> 'r \<Rightarrow> view \<Rightarrow> bool" where
  "query_post P c r v \<longleftrightarrow> prod_ok P v \<and> v_cnt v = c"

definition resting :: "ri_producer_queue \<Rightarrow> nat \<Rightarrow> view \<Rightarrow> bool" where
  "resting P c v \<longleftrightarrow> prod_ok P v \<and> v_cnt v = c"

lemma resting_stable: "\<lbrakk>view_inv v; resting P c v; ctrans v w\<rbrakk> \<Longrightarrow> resting P c w"
  unfolding resting_def using prod_ok_stable ctrans_frame(6) by metis

lemma query_Ret_safe:
  assumes "view_inv v" and "resting P c v"
  shows "psafe (query_post P c) (Ret r) v"
  by (rule prod.safe_Ret_still [where A = "resting P c", OF assms resting_stable])
    (simp_all add: query_post_def resting_def)

lemma resting_mirrors: "resting P c v \<Longrightarrow> mirrors P v \<and> unat (p_current P) < length (v_chain v)"
  if "view_inv v"
  using wf_in_slots(1) [OF view_invD(1) [OF that], of "p_current P"]
  by (simp add: resting_def prod_ok_def)

lemma full_safe:
  assumes "view_inv v" and "prod_ok P v"
  shows "psafe (query_post P (v_cnt v)) (ri_producer_queue_full P) v"
proof -
  have R: "resting P (v_cnt v) v" using assms(2) by (simp add: resting_def)
  note Q = query_Ret_safe [of _ P "v_cnt v"]
  show ?thesis
  proof (cases "p_head P = RI_INDEX_INVALID")
    case True
    with Q [OF assms(1) R] show ?thesis by (simp add: ri_producer_queue_full_def)
  next
    case False
    show ?thesis unfolding ri_producer_queue_full_def if_not_P [OF False]
    proof (rule prod.safe_Tail_Load [where A = "resting P (v_cnt v)", OF assms(1) R resting_stable])
      fix w assume w: "view_inv w" "resting P (v_cnt v) w"
      have "chain_get P (p_current P) k = k (nxt w (p_current P))" for k :: "_ \<Rightarrow> bool prog"
        using resting_mirrors [OF w] chain_get_eq w(1) by blast
      then show "psafe (query_post P (v_cnt v))
         (if \<not> ri_queue_index_valid (p_queue P) (sh_tail (v_shared w) AND RI_INDEX_MASK) then Ret False
          else
            if p_overrun P \<noteq> RI_INDEX_INVALID then
              let consumed = flagged (sh_tail (v_shared w)) RI_CONSUMED_FLAG in Ret (\<not> consumed)
            else
              chain_get P (p_current P) (\<lambda>next.
              let full = (next = sh_tail (v_shared w) AND RI_INDEX_MASK) in Ret (\<not> full))) w"
        by (simp add: Q [OF w] Let_def)
    qed
  qed
qed

text \<open>A count lies between zero and the number of slots; \<open>-1\<close> is the error of \<open>ri_producer_queue_count_msgs\<close>.\<close>

definition counted_post :: "ri_producer_queue \<Rightarrow> nat \<Rightarrow> int \<Rightarrow> view \<Rightarrow> bool" where
  "counted_post P c r v \<longleftrightarrow> query_post P c r v \<and> 0 \<le> r \<and> r \<le> int (length (v_chain v))"

definition resting_in :: "nat \<Rightarrow> ri_producer_queue \<Rightarrow> nat \<Rightarrow> view \<Rightarrow> bool" where
  "resting_in n P c v \<longleftrightarrow> resting P c v \<and> length (v_chain v) = n"

lemma resting_in_stable: "\<lbrakk>view_inv v; resting_in n P c v; ctrans v w\<rbrakk> \<Longrightarrow> resting_in n P c w"
  unfolding resting_in_def using resting_stable ctrans_frame(1) by metis

lemma counted_Ret_safe:
  assumes "view_inv v" and "resting_in n P c v" and "m \<le> n"
  shows "psafe (counted_post P c) (Ret (sint (of_nat m :: u32))) v"
proof (rule prod.safe_Ret_still [where A = "resting_in n P c", OF assms(1,2) resting_in_stable], assumption+)
  fix w assume w: "view_inv w" "resting_in n P c w"
  then have "n < 2 ^ 30" using view_invD(1) [OF w(1)] by (simp add: wf_slots_def resting_in_def)
  then have "sint (of_nat m :: u32) = int m" using assms(3) by (intro sint_of_nat_small) simp
  then show "counted_post P c (sint (of_nat m :: u32)) w"
    using w(2) assms(3) by (simp add: counted_post_def query_post_def resting_in_def resting_def)
qed

lemma resting_in_facts:
  assumes "view_inv v" and "resting_in n P c v"
  shows "q_n_msgs (p_queue P) = of_nat n" and "q_n_msgs (p_queue P) - 1 = of_nat (n - 1)"
    and "unat (q_n_msgs (p_queue P)) = n" and "mirrors P v"
proof -
  have n: "3 \<le> n" "n < 2 ^ 30" using view_invD(1) [OF assms(1)] assms(2)
    by (simp_all add: wf_slots_def resting_in_def)
  show m: "mirrors P v" using assms(2) resting_mirrors [OF assms(1)] unfolding resting_in_def by blast
  then show q: "q_n_msgs (p_queue P) = of_nat n" using assms(2) by (simp add: mirrors_def resting_in_def)
  show "q_n_msgs (p_queue P) - 1 = of_nat (n - 1)" using q n by (simp add: of_nat_diff)
  show "unat (q_n_msgs (p_queue P)) = n"
    using q n by (simp add: unsigned_of_nat take_bit_nat_eq_self)
qed

lemma count_loop_safe:
  assumes "view_inv v" and "resting_in n P c v" and "j + left = n"
    and "next \<noteq> RI_INDEX_INVALID \<longrightarrow> unat next < n"
  shows "psafe (counted_post P c) (count_loop (p_queue P) left (of_nat j) next) v"
  using assms
proof (induction left arbitrary: j "next" v)
  case 0
  show ?case unfolding count_loop.simps resting_in_facts(1) [OF 0(1,2)]
    by (rule counted_Ret_safe [OF 0(1,2)]) simp
next
  case (Suc left)
  show ?case
  proof (cases "next = RI_INDEX_INVALID")
    case True
    have "j \<le> n" using Suc.prems(3) by simp
    with True show ?thesis using counted_Ret_safe [OF Suc.prems(1,2), of j] by simp
  next
    case False
    have "psafe (counted_post P c) (Chain_Load next (\<lambda>next. count_loop (p_queue P) left (of_nat j + 1) next)) v"
    proof (rule prod.safe_Chain_Load [where A = "resting_in n P c", OF Suc.prems(1,2) resting_in_stable], assumption+)
      fix w assume w: "view_inv w" "resting_in n P c w"
      note D = view_invD(1) [OF w(1)]
      have u: "unat next < length (v_chain w)" using Suc.prems(4) False w(2) by (simp add: resting_in_def)
      have "psafe (counted_post P c) (count_loop (p_queue P) left (of_nat (Suc j)) (nxt w next)) w"
        by (rule Suc.IH [OF w]) (use Suc.prems(3) nxt_in_range [OF D u] w(2) in \<open>simp_all add: resting_in_def\<close>)
      then show "unat next < length (sh_chain (v_shared w)) \<and>
          psafe (counted_post P c) (count_loop (p_queue P) left (of_nat j + 1) (sh_chain (v_shared w) ! unat next)) w"
        using u by (simp add: nxt_def add.commute)
    qed
    then show ?thesis using False by simp
  qed
qed

lemma count_msgs_safe:
  assumes "view_inv v" and "prod_ok P v"
  shows "psafe (counted_post P (v_cnt v)) (ri_producer_queue_count_msgs P) v"
proof -
  let ?n = "length (v_chain v)" and ?c = "v_cnt v"
  have R: "resting_in ?n P ?c v" using assms(2) by (simp add: resting_in_def resting_def)
  show ?thesis
  proof (cases "p_head P = RI_INDEX_INVALID")
    case True
    with counted_Ret_safe [OF assms(1) R, of 0] show ?thesis by (simp add: ri_producer_queue_count_msgs_def)
  next
    case False
    let ?A = "\<lambda>w. resting_in ?n P ?c w \<and> known None w"
    have A: "?A v" using R assms(2) False by (simp add: prod_ok_def)
    show ?thesis unfolding ri_producer_queue_count_msgs_def if_not_P [OF False]
    proof (rule prod.safe_Tail_Load [where A = ?A, OF assms(1) A])
      fix x w assume "view_inv x" "?A x" "ctrans x w"
      then show "?A w" using resting_in_stable known_stable by blast
    next
      fix w assume w: "view_inv w" "?A w"
      let ?i = "sh_tail (v_shared w) AND RI_INDEX_MASK"
      have T: "v_tail w \<noteq> RI_INDEX_INVALID" using w(2) by simp
      note F = resting_in_facts [OF w(1) conjunct1 [OF w(2)]]
      have v: "ri_queue_index_valid (p_queue P) ?i" using tail_seen(2) [OF w(1) F(4) T] by simp
      then have i: "unat ?i < ?n" using mirrors_index(3) [OF F(4) w(1)] w(2) by (simp add: resting_in_def)
      have "psafe (counted_post P ?c) (count_loop (p_queue P) ?n (of_nat 0) ?i) w"
        by (rule count_loop_safe [OF w(1) conjunct1 [OF w(2)]]) (use i in simp_all)
      moreover have "psafe (counted_post P ?c) (Ret (sint (of_nat (?n - 1) :: u32))) w"
        by (rule counted_Ret_safe [OF w(1) conjunct1 [OF w(2)]]) simp
      ultimately show "psafe (counted_post P ?c)
          (if \<not> flagged (sh_tail (v_shared w)) RI_CONSUMED_FLAG \<and>
              \<not> flagged (sh_tail (v_shared w)) RI_FIRST_FLAG then
            Ret (sint (q_n_msgs (p_queue P) - 1))
          else
            let next = ?i in
            if \<not> ri_queue_index_valid (p_queue P) next then Ret (-1)
            else count_loop (p_queue P) (unat (q_n_msgs (p_queue P))) 0 next) w"
        unfolding F(2,3) using v by (simp add: Let_def)
    qed
  qed
qed

end
