(* ===== verification/Consumer.thy ===== *)
theory Consumer
  imports Queue
begin

text \<open>
  The consumer side of a queue (\<open>src/consumer.c\<close>). As for the producer, functions that touch shared
  memory are programs of atomic accesses. The loop of \<open>ri_consumer_queue_flush\<close> has no bound; its body
  is a program of its own whose result \<open>None\<close> means "go round again", and the loop is
  \<open>flush_loop\<close>, with the number of rounds it may still take.
\<close>

record ri_consumer_queue =
  c_queue :: ri_queue
  c_current :: ri_index

definition ri_consumer_queue_len :: "ri_consumer_queue \<Rightarrow> u32" where
  "ri_consumer_queue_len consumer = q_n_msgs (c_queue consumer)"

definition ri_consumer_queue_msg_size :: "ri_consumer_queue \<Rightarrow> u64" where
  "ri_consumer_queue_msg_size consumer = q_msg_size (c_queue consumer)"

definition ri_consumer_queue_new ::
    "u64 \<Rightarrow> bool \<Rightarrow> u64 option \<Rightarrow> ri_channel_attr \<Rightarrow> ri_consumer_queue option" where
  "ri_consumer_queue_new cls allocated ptr attr =
     (if \<not> allocated then None
      else case ptr of None \<Rightarrow> None
      | Some addr \<Rightarrow>
          Some \<lparr>c_queue = ri_queue_init cls attr addr, c_current = RI_INDEX_INVALID\<rparr>)"

definition ri_consumer_queue_init_shm :: "shared \<Rightarrow> shared" where
  "ri_consumer_queue_init_shm sh = ri_queue_init_shm sh"

section \<open>Counting\<close>

fun consumer_count_loop :: "ri_queue \<Rightarrow> nat \<Rightarrow> u32 \<Rightarrow> ri_index \<Rightarrow> int prog" where
  "consumer_count_loop queue 0 cnt next = Ret (sint (q_n_msgs queue - 1))"
| "consumer_count_loop queue (Suc left) cnt next =
     Chain_Load next (\<lambda>next.
     if next = RI_INDEX_INVALID then
       Tail_Load (\<lambda>next.
       if \<not> flagged next RI_CONSUMED_FLAG \<and> \<not> flagged next RI_FIRST_FLAG
       then Ret (sint (q_n_msgs queue - 1))
       else Ret (sint (cnt + 1)))
     else if \<not> ri_queue_index_valid queue next then Ret (-1)
     else consumer_count_loop queue left (cnt + 1) next)"

definition ri_consumer_queue_count_msgs :: "ri_consumer_queue \<Rightarrow> int prog" where
  "ri_consumer_queue_count_msgs consumer =
     (let queue = c_queue consumer in
      Tail_Load (\<lambda>next.
      if next = RI_INDEX_INVALID then Ret 0
      else if \<not> flagged next RI_CONSUMED_FLAG \<and> \<not> flagged next RI_FIRST_FLAG then
        Ret (sint (q_n_msgs queue - 1))
      else
        let next = next AND RI_INDEX_MASK in
        if \<not> ri_queue_index_valid queue next then Ret (-1)
        else consumer_count_loop queue (unat (q_n_msgs queue)) 0 next))"

section \<open>Flushing\<close>

definition flush_body ::
    "ri_consumer_queue \<Rightarrow> (ri_consumer_queue \<times> ri_pop_result option) prog" where
  "flush_body consumer =
     (let queue = c_queue consumer in
      Tail_Fetch_Or RI_CONSUMED_FLAG (\<lambda>tail.
      if tail = RI_INDEX_INVALID then Ret (consumer, Some RI_POP_RESULT_NO_MSG)
      else if \<not> ri_queue_index_valid queue (tail AND RI_INDEX_MASK) then
        Ret (consumer, Some RI_POP_RESULT_ERROR)
      else
        Head_Load (\<lambda>head.
        if \<not> ri_queue_index_valid queue head then Ret (consumer, Some RI_POP_RESULT_ERROR)
        else
          let tail = tail OR RI_CONSUMED_FLAG in
          Tail_CAS tail (head OR RI_CONSUMED_FLAG) (\<lambda>exchanged.
            if exchanged then
              Ret (consumer\<lparr>c_current := head\<rparr>, Some RI_POP_RESULT_DISCARDED)
            else Ret (consumer, None)))))"

text \<open>Without interference, with at most \<open>rounds\<close> rounds; \<open>None\<close> is a fault or too few rounds.\<close>

fun flush_loop ::
    "nat \<Rightarrow> ri_consumer_queue \<Rightarrow> shared \<Rightarrow> (shared \<times> ri_consumer_queue \<times> ri_pop_result) option" where
  "flush_loop 0 consumer sh = None"
| "flush_loop (Suc rounds) consumer sh =
     (case run (flush_body consumer) sh of
        None \<Rightarrow> None
      | Some (sh, consumer, None) \<Rightarrow> flush_loop rounds consumer sh
      | Some (sh, consumer, Some r) \<Rightarrow> Some (sh, consumer, r))"

section \<open>Popping\<close>

definition ri_consumer_queue_pop ::
    "ri_consumer_queue \<Rightarrow> (ri_consumer_queue \<times> ri_pop_result) prog" where
  "ri_consumer_queue_pop consumer =
     (let queue = c_queue consumer in
      Tail_Fetch_Or RI_CONSUMED_FLAG (\<lambda>tail.
      if tail = RI_INDEX_INVALID then Ret (consumer, RI_POP_RESULT_NO_MSG)
      else if \<not> ri_queue_index_valid queue (tail AND RI_INDEX_MASK) then
        Ret (consumer, RI_POP_RESULT_ERROR)
      else if \<not> flagged tail RI_CONSUMED_FLAG then
        Ret (consumer\<lparr>c_current := tail AND RI_INDEX_MASK\<rparr>,
             if flagged tail RI_FIRST_FLAG then RI_POP_RESULT_SUCCESS else RI_POP_RESULT_DISCARDED)
      else if c_current consumer = RI_INDEX_INVALID then Ret (consumer, RI_POP_RESULT_ERROR)
      else
        Chain_Load (c_current consumer) (\<lambda>next.
        if next = RI_INDEX_INVALID then Ret (consumer, RI_POP_RESULT_NO_UPDATE)
        else if \<not> ri_queue_index_valid queue next then Ret (consumer, RI_POP_RESULT_ERROR)
        else
          Tail_CAS tail (next OR RI_CONSUMED_FLAG) (\<lambda>exchanged.
          if exchanged then Ret (consumer\<lparr>c_current := next\<rparr>, RI_POP_RESULT_SUCCESS)
          else
            Tail_Fetch_Or RI_CONSUMED_FLAG (\<lambda>current.
            if \<not> ri_queue_index_valid queue current then Ret (consumer, RI_POP_RESULT_ERROR)
            else Ret (consumer\<lparr>c_current := current\<rparr>, RI_POP_RESULT_DISCARDED))))))"

definition ri_consumer_queue_msg :: "ri_consumer_queue \<Rightarrow> u64 option" where
  "ri_consumer_queue_msg consumer =
     (if c_current consumer = RI_INDEX_INVALID then None
      else ri_queue_get_msg (c_queue consumer) (c_current consumer))"

end
