(* ===== verification/Consumer_Safe.thy ===== *)
theory Consumer_Safe
  imports Consumer Protocol Rely_Guarantee
begin

text \<open>
  The consumer's operations follow the ownership protocol whatever the producer does meanwhile.
  Between two operations the consumer either holds no message and none has been delivered, or it
  holds the slot of the last message delivered: the tail marks it, or the producer has
  jumped over it and keeps it out of the chain. \<open>ri_consumer_queue_flush\<close> is not among these
  operations; it breaks the protocol (theory \<open>Flush_Race\<close>).
\<close>

interpretation cons: rg pside ctrans v_shared view_inv
  by unfold_locales (blast intro: ctrans_inv pside_inv ctrans.stutter)+

abbreviation csafe :: "('r \<Rightarrow> view \<Rightarrow> bool) \<Rightarrow> 'r prog \<Rightarrow> view \<Rightarrow> bool" where
  "csafe \<equiv> safe pside ctrans v_shared"

definition nothing_taken :: "view \<Rightarrow> bool" where
  "nothing_taken v \<longleftrightarrow> v_tail v = RI_INDEX_INVALID \<or>
     (\<not> consumed (v_tail v) \<and> v_ov v = None \<and>
      (if first_msg (v_tail v) then v_num v (idx (v_tail v)) = 0 else 0 < v_num v (idx (v_tail v))))"

definition holds :: "ri_index \<Rightarrow> nat \<Rightarrow> view \<Rightarrow> bool" where
  "holds c k v \<longleftrightarrow> v_tail v \<noteq> RI_INDEX_INVALID \<and> v_num v c = k \<and>
     (if consumed (v_tail v) then idx (v_tail v) = c
      else v_ov v = Some c \<and> Suc k < v_num v (idx (v_tail v)))"

lemma pside_length: "pside v w \<Longrightarrow> length (v_chain w) = length (v_chain v)"
  by (induction rule: pside.induct) (auto elim: ptrans.cases)

lemma pside_valid:
  assumes "pside v w" and "view_inv v"
  shows "v_tail v \<noteq> RI_INDEX_INVALID \<Longrightarrow> v_tail w \<noteq> RI_INDEX_INVALID"
    and "\<lbrakk>v_tail v \<noteq> RI_INDEX_INVALID; consumed (v_tail w)\<rbrakk> \<Longrightarrow> v_tail w = v_tail v"
proof -
  note D = view_invD(1) [OF assms(2)]
  have new: "new \<noteq> RI_INDEX_INVALID \<and> \<not> consumed new" if "new \<in> set (v_q v)" for new
    using wf_in_slots(2) [OF D that] slot_word_neq_invalid [OF D] by blast
  show "v_tail v \<noteq> RI_INDEX_INVALID \<Longrightarrow> v_tail w \<noteq> RI_INDEX_INVALID"
    and "\<lbrakk>v_tail v \<noteq> RI_INDEX_INVALID; consumed (v_tail w)\<rbrakk> \<Longrightarrow> v_tail w = v_tail v"
    using assms(1) by (auto elim!: pside.cases ptrans.cases simp: new)
qed

text \<open>The producer writes neither the slot at the tail nor the one jumped over.\<close>

lemma tail_not_own:
  assumes "view_inv v" and "v_tail v \<noteq> RI_INDEX_INVALID"
  shows "v_own v \<noteq> Some (idx (v_tail v))" and "v_ov v = Some slot \<Longrightarrow> v_own v \<noteq> Some slot"
  using wf_in_slots(1,2) [OF view_invD(1) [OF assms(1)]] tail_cases(1) [OF assms] by blast+

lemma tail_number:
  assumes "view_inv v" and "v_tail v \<noteq> RI_INDEX_INVALID" and "v_q v = idx (v_tail v) # new # q"
  shows "v_num v new = Suc (v_num v (idx (v_tail v)))" and "idx new = new"
    and "q = slot # r \<Longrightarrow> v_num v slot = Suc (Suc (v_num v (idx (v_tail v))))"
    and "q = slot # r \<Longrightarrow> idx slot = slot"
    and "\<not> first_msg new" and "\<not> consumed new"
proof -
  note D = view_invD [OF assms(1)]
  obtain pre suf where q: "v_q v = pre @ idx (v_tail v) # suf"
    and c: "consecutive (v_num v) (idx (v_tail v) # suf)"
    using D(4) [OF assms(2)] by (rule queue_invE)
  have "pre = []" using q assms(3) wf_in_slots(4) [OF D(1)] by (cases pre) auto
  with q c assms(3) have c: "consecutive (v_num v) (idx (v_tail v) # new # q)" by simp
  then show "v_num v new = Suc (v_num v (idx (v_tail v)))"
    and "q = slot # r \<Longrightarrow> v_num v slot = Suc (Suc (v_num v (idx (v_tail v))))"
    by (auto simp: succ_simps)
  have u: "unat i < length (v_chain v)" if "i \<in> set (v_q v)" for i
    using wf_in_slots(2) [OF D(1) that] by blast
  show "idx new = new" and "\<not> first_msg new" and "\<not> consumed new"
    using slot_word_neq_invalid(3-5) [OF D(1) u, of new] assms(3) by simp_all
  show "q = slot # r \<Longrightarrow> idx slot = slot"
    using slot_word_neq_invalid(5) [OF D(1) u, of slot] assms(3) by simp
qed

section \<open>What the consumer relies on\<close>

lemma nothing_taken_stable:
  assumes "view_inv v" and "nothing_taken v" and "pside v w"
  shows "nothing_taken w"
proof (cases "v_tail v = RI_INDEX_INVALID")
  case True
  note D = view_invD [OF assms(1)]
  have "unat (last (v_q v)) < length (v_chain v)"
    using wf_in_slots(2) [OF D(1) last_in_set [OF wf_in_slots(5) [OF D(1)]]] by blast
  note l = slot_word_neq_invalid [OF D(1) this]
  from assms(3) show ?thesis
  proof cases
    case move
    then show ?thesis
    proof cases
      case first_publish
      then show ?thesis using D(3) [OF True] l
        by (simp add: nothing_taken_def empty_inv_def flag_simps)
    qed (use True in \<open>simp_all add: nothing_taken_def\<close>)
  qed (use True in \<open>simp add: nothing_taken_def\<close>)
next
  case False
  note T = tail_not_own [OF assms(1) False]
  from assms(3) show ?thesis
  proof cases
    case (client_write slot k)
    with False assms(2) T(1) show ?thesis by (auto simp: nothing_taken_def)
  next
    case move
    then show ?thesis
    proof cases
      case (drop new q)
      note N = tail_number [OF assms(1) False drop(5)]
      from drop N assms(2) show ?thesis by (auto simp: nothing_taken_def)
    qed (use False assms(2) in \<open>auto simp: nothing_taken_def\<close>)
  qed
qed

lemma holds_stable:
  assumes "view_inv v" and "holds c k v" and "pside v w"
  shows "holds c k w"
proof -
  have False': "v_tail v \<noteq> RI_INDEX_INVALID" using assms(2) by (simp add: holds_def)
  note T = tail_not_own [OF assms(1) False'] and V = pside_valid(1) [OF assms(3,1) False']
  note D = view_invD(1) [OF assms(1)]
  have new: "\<not> consumed new" if "new \<in> set (v_q v)" for new
    using wf_in_slots(2) [OF D that] slot_word_neq_invalid(3) [OF D] by blast
  from assms(3) show ?thesis
  proof cases
    case (client_write slot j)
    with assms(2) T show ?thesis by (auto simp: holds_def split: if_splits)
  next
    case move
    then show ?thesis
    proof cases
      case (drop new q)
      note N = tail_number [OF assms(1) False' drop(5)]
      from drop N assms(2) V show ?thesis by (auto simp: holds_def)
    next
      case (jump slot new q)
      note N = tail_number [OF assms(1) False' jump(6)]
      have "\<not> consumed new" using jump(6) by (intro new) simp
      with jump N(3) [OF refl] N(4) [OF refl] assms(2) V show ?thesis by (auto simp: holds_def)
    qed (use False' assms(2) in \<open>auto simp: holds_def\<close>)
  qed
qed

text \<open>The tail is still the word \<open>t\<close> read before, or the producer has jumped over the slot.\<close>

definition unless_jumped :: "ri_index \<Rightarrow> view \<Rightarrow> bool" where
  "unless_jumped t v \<longleftrightarrow> (consumed (v_tail v) \<longrightarrow> v_tail v = t)"

lemma unless_jumped_stable:
  "\<lbrakk>view_inv v; v_tail v \<noteq> RI_INDEX_INVALID; unless_jumped t v; pside v w\<rbrakk> \<Longrightarrow> unless_jumped t w"
  using pside_valid(2) [of v w] by (simp add: unless_jumped_def)

text \<open>As long as the tail marks \<open>c\<close>, the successor read from the chain stays its successor.\<close>

definition followed_by :: "ri_index \<Rightarrow> ri_index \<Rightarrow> view \<Rightarrow> bool" where
  "followed_by c next v \<longleftrightarrow> (consumed (v_tail v) \<longrightarrow> nxt v c = next)"

lemma followed_by_stable:
  assumes "view_inv v" and "holds c k v" and "followed_by c next v" and "next \<noteq> RI_INDEX_INVALID"
    and "pside v w"
  shows "followed_by c next w"
  unfolding followed_by_def
proof
  assume C: "consumed (v_tail w)"
  have ne: "v_tail v \<noteq> RI_INDEX_INVALID" using assms(2) by (simp add: holds_def)
  note same = pside_valid(2) [OF assms(5,1) ne C]
  with C have n: "nxt v c = next" and c: "idx (v_tail v) = c"
    using assms(2,3) by (simp_all add: followed_by_def holds_def)
  note D = view_invD [OF assms(1)] and T = tail_cases [OF assms(1) ne]
  have last: "last (v_q v) \<noteq> c" using queue_invD(1) [OF D(4) [OF ne]] n assms(4) by auto
  from assms(5) show "nxt w c = next"
  proof cases
    case move
    then show ?thesis
    proof cases
      case (detach slot)
      then show ?thesis
        using n T(1) c wf_in_slots(1) [OF D(1), of slot] by (auto simp: nxt_set_nxt)
    next
      case (link slot)
      have "unat (last (v_q v)) < length (v_chain v)"
        using wf_in_slots(2) [OF D(1) last_in_set [OF wf_in_slots(5) [OF D(1)]]] by blast
      then show ?thesis using link n last by (simp add: nxt_set_nxt)
    next
      case (requeue slot)
      then show ?thesis
        using n T(1) c wf_in_slots(3) [OF D(1), of slot] by (auto simp: nxt_set_nxt)
    qed (use n ne in simp_all)
  qed (use n in simp)
qed

section \<open>Between two operations\<close>

text \<open>\<open>prev\<close> is the number of the last message delivered, \<open>expected prev\<close> the one that follows it.\<close>

definition cons_ok :: "ri_consumer_queue \<Rightarrow> nat option \<Rightarrow> view \<Rightarrow> bool" where
  "cons_ok C prev v \<longleftrightarrow> q_n_msgs (c_queue C) = of_nat (length (v_chain v)) \<and>
     (case prev of None \<Rightarrow> c_current C = RI_INDEX_INVALID \<and> nothing_taken v
      | Some k \<Rightarrow> c_current C \<noteq> RI_INDEX_INVALID \<and> holds (c_current C) k v)"

primrec expected :: "nat option \<Rightarrow> nat" where
  "expected None = 0"
| "expected (Some k) = Suc k"

definition pop_post ::
    "ri_consumer_queue \<Rightarrow> nat option \<Rightarrow> ri_consumer_queue \<times> ri_pop_result \<Rightarrow> view \<Rightarrow> bool" where
  "pop_post C prev r v \<longleftrightarrow>
     (case snd r of
        RI_POP_RESULT_ERROR \<Rightarrow> False
      | RI_POP_RESULT_NO_MSG \<Rightarrow> prev = None \<and> fst r = C \<and> cons_ok C prev v
      | RI_POP_RESULT_NO_UPDATE \<Rightarrow> prev \<noteq> None \<and> fst r = C \<and> cons_ok C prev v
      | RI_POP_RESULT_SUCCESS \<Rightarrow> cons_ok (fst r) (Some (expected prev)) v
      | RI_POP_RESULT_DISCARDED \<Rightarrow> \<exists>k > expected prev. cons_ok (fst r) (Some k) v)"

lemma cons_ok_stable:
  assumes "view_inv v" and "cons_ok C prev v" and "pside v w"
  shows "cons_ok C prev w"
  using assms(2) pside_length [OF assms(3)] nothing_taken_stable [OF assms(1) _ assms(3)]
    holds_stable [OF assms(1) _ assms(3)]
  by (auto simp: cons_ok_def split: option.splits)

lemma cons_index_valid:
  assumes "view_inv v" and "cons_ok C prev v"
  shows "ri_queue_index_valid (c_queue C) i \<longleftrightarrow> unat i < length (v_chain v)"
proof -
  have "length (v_chain v) < 2 ^ 30" using view_invD(1) [OF assms(1)] by (simp add: wf_slots_def)
  then show ?thesis using assms(2)
    by (simp add: cons_ok_def ri_queue_index_valid_def word_less_nat_alt unsigned_of_nat
        take_bit_nat_eq_self)
qed

text \<open>A pop that ends in a state of the consumer.\<close>

lemma pop_Ret_safe:
  assumes "view_inv v" and "cons_ok C' k v"
    and "\<And>w. cons_ok C' k w \<Longrightarrow> pop_post C prev (C', r) w"
  shows "csafe (pop_post C prev) (Ret (C', r)) v"
  by (rule cons.safe_Ret_still [where A = "cons_ok C' k", OF assms(1,2)])
    (rule cons_ok_stable assms(3), assumption+)+

section \<open>One access\<close>

definition marked :: "view \<Rightarrow> view" where
  "marked v = v\<lparr>v_tail := v_tail v OR RI_CONSUMED_FLAG\<rparr>"

lemma csafe_Fetch_Or:
  assumes "view_inv v" and "B v" and "\<And>v w. \<lbrakk>view_inv v; B v; pside v w\<rbrakk> \<Longrightarrow> B w"
    and "\<And>w. \<lbrakk>view_inv w; B w; v_tail w = RI_INDEX_INVALID\<rbrakk> \<Longrightarrow> csafe post (k RI_INDEX_INVALID) w"
    and "\<And>w. \<lbrakk>view_inv w; B w; v_tail w \<noteq> RI_INDEX_INVALID; view_inv (marked w)\<rbrakk> \<Longrightarrow>
      csafe post (k (v_tail w)) (marked w)"
  shows "csafe post (Tail_Fetch_Or RI_CONSUMED_FLAG k) v"
proof (rule cons.safe_access [where A = B, OF assms(1-3)])
  fix w assume w: "view_inv w" "B w"
  have s: "astep (v_shared w) (Tail_Fetch_Or RI_CONSUMED_FLAG k) = Some (v_shared (marked w), k (v_tail w))"
    by (simp add: shared_ops v_shared_def marked_def)
  show "\<exists>p' u. astep (v_shared w) (Tail_Fetch_Or RI_CONSUMED_FLAG k) = Some (v_shared u, p') \<and>
      ctrans w u \<and> (view_inv u \<longrightarrow> csafe post p' u)"
  proof (cases "v_tail w = RI_INDEX_INVALID")
    case True
    then have "v_shared (marked w) = v_shared w"
      by (simp add: marked_def v_shared_def flag_simps)
    with s True assms(4) [OF w True] ctrans.stutter [of w] show ?thesis
      by (intro exI [of _ "k RI_INDEX_INVALID"] exI [of _ w]) simp
  next
    case False
    with s assms(5) [OF w False] ctrans.mark [OF False] show ?thesis
      by (intro exI [of _ "k (v_tail w)"] exI [of _ "marked w"]) (simp add: marked_def)
  qed
qed

lemma csafe_CAS:
  assumes "view_inv v" and "B v" and "\<And>v w. \<lbrakk>view_inv v; B v; pside v w\<rbrakk> \<Longrightarrow> B w"
    and "\<And>w. \<lbrakk>view_inv w; B w; v_tail w = t\<rbrakk> \<Longrightarrow> ctrans w (w\<lparr>v_tail := d\<rparr>) \<and>
        (view_inv (w\<lparr>v_tail := d\<rparr>) \<longrightarrow> csafe post (k True) (w\<lparr>v_tail := d\<rparr>))"
    and "\<And>w. \<lbrakk>view_inv w; B w; v_tail w \<noteq> t\<rbrakk> \<Longrightarrow> csafe post (k False) w"
  shows "csafe post (Tail_CAS t d k) v"
proof (rule cons.safe_access [where A = B, OF assms(1-3)])
  fix w assume w: "view_inv w" "B w"
  show "\<exists>p' u. astep (v_shared w) (Tail_CAS t d k) = Some (v_shared u, p') \<and>
      ctrans w u \<and> (view_inv u \<longrightarrow> csafe post p' u)"
  proof (cases "v_tail w = t")
    case True
    from assms(4) [OF w this] True show ?thesis
      by (intro exI [of _ "k True"] exI [of _ "w\<lparr>v_tail := d\<rparr>"]) (simp add: shared_ops v_shared_def)
  next
    case False
    from assms(5) [OF w this] False ctrans.stutter [of w] show ?thesis
      by (intro exI [of _ "k False"] exI [of _ w]) (simp add: shared_ops)
  qed
qed

section \<open>Pop\<close>

text \<open>Marking the tail takes the message there.\<close>

lemma marked_facts:
  assumes "view_inv v" and "v_tail v \<noteq> RI_INDEX_INVALID" and "cons_ok C prev v"
  shows "cons_ok (C\<lparr>c_current := idx (v_tail v)\<rparr>) (Some (v_num v (idx (v_tail v)))) (marked v)"
proof -
  note D = view_invD(1) [OF assms(1)] and T = tail_cases(2) [OF assms(1,2)]
  have "idx (v_tail v) \<noteq> RI_INDEX_INVALID" by (rule slot_word_neq_invalid(1) [OF D T])
  moreover have "v_tail (marked v) \<noteq> RI_INDEX_INVALID"
    using consumed_word_neq_invalid [OF D T] by (simp add: marked_def)
  ultimately show ?thesis using assms(3)
    by (simp add: cons_ok_def holds_def marked_def flag_simps)
qed

lemma take_unmarked:
  assumes "view_inv v" and "v_tail v \<noteq> RI_INDEX_INVALID" and "cons_ok C prev v"
    and "\<not> consumed (v_tail v)"
  shows "first_msg (v_tail v) \<Longrightarrow> v_num v (idx (v_tail v)) = expected prev"
    and "\<not> first_msg (v_tail v) \<Longrightarrow> expected prev < v_num v (idx (v_tail v))"
  using assms queue_invD(4) [OF view_invD(4) [OF assms(1,2)]]
  by (auto simp: cons_ok_def nothing_taken_def holds_def split: option.splits)

lemma take_unmarked_safe:
  assumes "view_inv v" and "v_tail v \<noteq> RI_INDEX_INVALID" and "cons_ok C prev v"
    and "\<not> consumed (v_tail v)" and "view_inv (marked v)"
  shows "csafe (pop_post C prev) (Ret (C\<lparr>c_current := idx (v_tail v)\<rparr>,
      if first_msg (v_tail v) then RI_POP_RESULT_SUCCESS else RI_POP_RESULT_DISCARDED)) (marked v)"
  by (rule pop_Ret_safe [OF assms(5) marked_facts [OF assms(1-3)]])
    (use take_unmarked [OF assms(1-4)] in \<open>auto simp: pop_post_def\<close>)

text \<open>The tail marks \<open>c\<close>: the consumer looks for its successor.\<close>

definition following :: "ri_consumer_queue \<Rightarrow> nat \<Rightarrow> ri_index \<Rightarrow> ri_index \<Rightarrow> view \<Rightarrow> bool" where
  "following C k t next v \<longleftrightarrow> cons_ok C (Some k) v \<and> unless_jumped t v \<and>
     followed_by (c_current C) next v"

lemma following_stable:
  assumes "view_inv v" and "following C k t next v" and "next \<noteq> RI_INDEX_INVALID" and "pside v w"
  shows "following C k t next w"
proof -
  have ok: "cons_ok C (Some k) v" and u: "unless_jumped t v" and f: "followed_by (c_current C) next v"
    using assms(2) by (simp_all add: following_def)
  then have h: "holds (c_current C) k v" and T: "v_tail v \<noteq> RI_INDEX_INVALID"
    by (simp_all add: cons_ok_def holds_def)
  show ?thesis unfolding following_def
    using cons_ok_stable [OF assms(1) ok assms(4)] unless_jumped_stable [OF assms(1) T u assms(4)]
      followed_by_stable [OF assms(1) h f assms(3,4)] by blast
qed

lemma advance_step:
  assumes "view_inv v" and "following C k t next v" and "v_tail v = t" and "consumed t"
    and "next \<noteq> RI_INDEX_INVALID"
  defines "u \<equiv> v\<lparr>v_tail := next OR RI_CONSUMED_FLAG\<rparr>"
  shows "ctrans v u" and "view_inv u \<Longrightarrow> cons_ok (C\<lparr>c_current := next\<rparr>) (Some (Suc k)) u"
proof -
  have H: "holds (c_current C) k v" and n: "nxt v (c_current C) = next"
    and len: "q_n_msgs (c_queue C) = of_nat (length (v_chain v))"
    using assms(2-4) by (simp_all add: following_def cons_ok_def followed_by_def)
  then have T: "v_tail v \<noteq> RI_INDEX_INVALID" and c: "idx (v_tail v) = c_current C"
    and k: "v_num v (c_current C) = k"
    using assms(3,4) by (simp_all add: holds_def)
  note D = view_invD [OF assms(1)]
  obtain pre suf where q: "v_q v = pre @ idx (v_tail v) # suf"
    and s: "consecutive (v_num v) (idx (v_tail v) # suf)"
    and l: "nxt v (last (v_q v)) = RI_INDEX_INVALID"
    using D(4) [OF T] by (rule queue_invE)
  have "suf \<noteq> []" using q l n c assms(5) by auto
  then obtain a r where suf: "suf = a # r" by (cases suf) auto
  with q D(2) n c have a: "a = next" by (simp add: succ_simps)
  show "ctrans v u" unfolding u_def
    by (rule ctrans.advance [OF T]) (use q suf a assms(3,4) in simp_all)
  have "unat next < length (v_chain v)" using wf_in_slots(2) [OF D(1), of a] q suf a by simp
  note w = slot_word_neq_invalid [OF D(1) this] and i = consumed_word_neq_invalid [OF D(1), of "next"] this
  show "cons_ok (C\<lparr>c_current := next\<rparr>) (Some (Suc k)) u"
    using len w i s suf a c k by (simp add: cons_ok_def holds_def u_def flag_simps)
qed

lemma jumped_facts:
  assumes "view_inv v" and "cons_ok C (Some k) v" and "\<not> consumed (v_tail v)"
  shows "v_tail v \<noteq> RI_INDEX_INVALID" and "idx (v_tail v) = v_tail v"
    and "ri_queue_index_valid (c_queue C) (v_tail v)"
    and "Suc k < v_num v (idx (v_tail v))"
proof -
  have H: "holds (c_current C) k v" using assms(2) by (simp add: cons_ok_def)
  then show T: "v_tail v \<noteq> RI_INDEX_INVALID" and "Suc k < v_num v (idx (v_tail v))"
    using assms(3) by (simp_all add: holds_def)
  have "\<not> first_msg (v_tail v)"
    using queue_invD(4) [OF view_invD(4) [OF assms(1) T]] H assms(3) by (auto simp: holds_def)
  then show i: "idx (v_tail v) = v_tail v"
    using assms(3) plain_eq_mask by (simp add: idx_def)
  show "ri_queue_index_valid (c_queue C) (v_tail v)"
    using cons_index_valid [OF assms(1,2)] tail_cases(2) [OF assms(1) T] i by simp
qed

definition jumped :: "ri_consumer_queue \<Rightarrow> nat \<Rightarrow> view \<Rightarrow> bool" where
  "jumped C k v \<longleftrightarrow> cons_ok C (Some k) v \<and> \<not> consumed (v_tail v)"

lemma jumped_stable:
  assumes "view_inv v" and "jumped C k v" and "pside v w"
  shows "jumped C k w"
proof -
  have j: "cons_ok C (Some k) v" "\<not> consumed (v_tail v)" using assms(2) by (simp_all add: jumped_def)
  have "\<not> consumed (v_tail w)"
    using pside_valid(2) [OF assms(3,1) jumped_facts(1) [OF assms(1) j]] j(2) by auto
  then show ?thesis using cons_ok_stable [OF assms(1) j(1) assms(3)] by (simp add: jumped_def)
qed

text \<open>The producer has jumped over the held slot: the consumer takes the message at the tail.\<close>

lemma jumped_safe:
  assumes "view_inv v" and "jumped C k v"
  shows "csafe (pop_post C (Some k)) (Tail_Fetch_Or RI_CONSUMED_FLAG (\<lambda>current.
      if \<not> ri_queue_index_valid (c_queue C) current then Ret (C, RI_POP_RESULT_ERROR)
      else Ret (C\<lparr>c_current := current\<rparr>, RI_POP_RESULT_DISCARDED))) v"
proof (rule csafe_Fetch_Or [where B = "jumped C k", OF assms jumped_stable])
  fix w assume w: "view_inv w" "jumped C k w" "v_tail w \<noteq> RI_INDEX_INVALID" "view_inv (marked w)"
  then have j: "cons_ok C (Some k) w" "\<not> consumed (v_tail w)" by (simp_all add: jumped_def)
  note J = jumped_facts [OF w(1) j]
  have "csafe (pop_post C (Some k)) (Ret (C\<lparr>c_current := v_tail w\<rparr>, RI_POP_RESULT_DISCARDED)) (marked w)"
    by (rule pop_Ret_safe [OF w(4) marked_facts [OF w(1,3) j(1), unfolded J(2)]])
      (use J(4) in \<open>auto simp: pop_post_def J(2)\<close>)
  then show "csafe (pop_post C (Some k))
     (if \<not> ri_queue_index_valid (c_queue C) (v_tail w) then Ret (C, RI_POP_RESULT_ERROR)
      else Ret (C\<lparr>c_current := v_tail w\<rparr>, RI_POP_RESULT_DISCARDED)) (marked w)"
    using J(3) by simp
next
  fix w assume w: "view_inv w" "jumped C k w" "v_tail w = RI_INDEX_INVALID"
  then have "cons_ok C (Some k) w" "\<not> consumed (v_tail w)" by (simp_all add: jumped_def)
  from jumped_facts(1) [OF w(1) this] w(3) show "csafe (pop_post C (Some k))
     (if \<not> ri_queue_index_valid (c_queue C) RI_INDEX_INVALID then Ret (C, RI_POP_RESULT_ERROR)
      else Ret (C\<lparr>c_current := RI_INDEX_INVALID\<rparr>, RI_POP_RESULT_DISCARDED)) w"
    by contradiction
qed

definition reading :: "ri_consumer_queue \<Rightarrow> nat \<Rightarrow> ri_index \<Rightarrow> view \<Rightarrow> bool" where
  "reading C k t v \<longleftrightarrow> cons_ok C (Some k) v \<and> unless_jumped t v"

lemma reading_stable:
  assumes "view_inv v" and "reading C k t v" and "pside v w"
  shows "reading C k t w"
proof -
  have ok: "cons_ok C (Some k) v" and u: "unless_jumped t v"
    using assms(2) by (simp_all add: reading_def)
  then have T: "v_tail v \<noteq> RI_INDEX_INVALID" by (simp add: cons_ok_def holds_def)
  show ?thesis unfolding reading_def
    using cons_ok_stable [OF assms(1) ok assms(3)] unless_jumped_stable [OF assms(1) T u assms(3)]
    by blast
qed

text \<open>
  The held slot is at the tail or in the place of the slot jumped over: in both cases a slot of the
  queue, so its chain entry can be read.
\<close>

lemma held_index:
  assumes "view_inv v" and "cons_ok C (Some k) v"
  shows "unat (c_current C) < length (v_chain v)"
proof -
  have h: "holds (c_current C) k v" using assms(2) by (simp add: cons_ok_def)
  then have T: "v_tail v \<noteq> RI_INDEX_INVALID" by (simp add: holds_def)
  show ?thesis
  proof (cases "consumed (v_tail v)")
    case True
    with h tail_cases(2) [OF assms(1) T] show ?thesis by (simp add: holds_def)
  next
    case False
    with h have "v_ov v = Some (c_current C)" by (simp add: holds_def)
    then show ?thesis using wf_in_slots(3) [OF view_invD(1) [OF assms(1)]] by blast
  qed
qed

lemma take_next_safe:
  assumes "view_inv v" and "following C k t next v" and t: "consumed t"
    and ne: "next \<noteq> RI_INDEX_INVALID"
  shows "csafe (pop_post C (Some k)) (Tail_CAS t (next OR RI_CONSUMED_FLAG) (\<lambda>exchanged.
      if exchanged then Ret (C\<lparr>c_current := next\<rparr>, RI_POP_RESULT_SUCCESS)
      else Tail_Fetch_Or RI_CONSUMED_FLAG (\<lambda>current.
        if \<not> ri_queue_index_valid (c_queue C) current then Ret (C, RI_POP_RESULT_ERROR)
        else Ret (C\<lparr>c_current := current\<rparr>, RI_POP_RESULT_DISCARDED)))) v"
proof (rule csafe_CAS [where B = "following C k t next", OF assms(1,2)])
  fix x y assume "view_inv x" "following C k t next x" "pside x y"
  then show "following C k t next y" by (rule following_stable [OF _ _ ne])
next
  fix w assume w: "view_inv w" "following C k t next w" "v_tail w = t"
  note A = advance_step [OF w t ne]
  have "csafe (pop_post C (Some k)) (Ret (C\<lparr>c_current := next\<rparr>, RI_POP_RESULT_SUCCESS))
      (w\<lparr>v_tail := next OR RI_CONSUMED_FLAG\<rparr>)"
    if u: "view_inv (w\<lparr>v_tail := next OR RI_CONSUMED_FLAG\<rparr>)"
    by (rule pop_Ret_safe [OF u A(2) [OF u]]) (simp add: pop_post_def)
  with A(1) show "ctrans w (w\<lparr>v_tail := next OR RI_CONSUMED_FLAG\<rparr>) \<and>
      (view_inv (w\<lparr>v_tail := next OR RI_CONSUMED_FLAG\<rparr>) \<longrightarrow> csafe (pop_post C (Some k))
        (if True then Ret (C\<lparr>c_current := next\<rparr>, RI_POP_RESULT_SUCCESS)
         else Tail_Fetch_Or RI_CONSUMED_FLAG (\<lambda>current.
           if \<not> ri_queue_index_valid (c_queue C) current then Ret (C, RI_POP_RESULT_ERROR)
           else Ret (C\<lparr>c_current := current\<rparr>, RI_POP_RESULT_DISCARDED)))
        (w\<lparr>v_tail := next OR RI_CONSUMED_FLAG\<rparr>))"
    by simp
next
  fix w assume w: "view_inv w" "following C k t next w" "v_tail w \<noteq> t"
  then have "jumped C k w" by (auto simp: following_def jumped_def unless_jumped_def)
  from jumped_safe [OF w(1) this] show "csafe (pop_post C (Some k))
        (if False then Ret (C\<lparr>c_current := next\<rparr>, RI_POP_RESULT_SUCCESS)
         else Tail_Fetch_Or RI_CONSUMED_FLAG (\<lambda>current.
           if \<not> ri_queue_index_valid (c_queue C) current then Ret (C, RI_POP_RESULT_ERROR)
           else Ret (C\<lparr>c_current := current\<rparr>, RI_POP_RESULT_DISCARDED))) w"
    by simp
qed

lemma pop_marked_safe:
  assumes "view_inv v" and "reading C k t v" and t: "consumed t"
  shows "csafe (pop_post C (Some k)) (Chain_Load (c_current C) (\<lambda>next.
      if next = RI_INDEX_INVALID then Ret (C, RI_POP_RESULT_NO_UPDATE)
      else if \<not> ri_queue_index_valid (c_queue C) next then Ret (C, RI_POP_RESULT_ERROR)
      else Tail_CAS t (next OR RI_CONSUMED_FLAG) (\<lambda>exchanged.
        if exchanged then Ret (C\<lparr>c_current := next\<rparr>, RI_POP_RESULT_SUCCESS)
        else Tail_Fetch_Or RI_CONSUMED_FLAG (\<lambda>current.
          if \<not> ri_queue_index_valid (c_queue C) current then Ret (C, RI_POP_RESULT_ERROR)
          else Ret (C\<lparr>c_current := current\<rparr>, RI_POP_RESULT_DISCARDED))))) v"
proof (rule cons.safe_Chain_Load [where A = "reading C k t", OF assms(1,2) reading_stable], assumption+)
  fix w assume w: "view_inv w" "reading C k t w"
  then have ok: "cons_ok C (Some k) w" by (simp add: reading_def)
  note D = view_invD(1) [OF w(1)] and H = held_index [OF w(1) ok]
  let ?next = "nxt w (c_current C)"
  have a: "csafe (pop_post C (Some k)) (Ret (C, RI_POP_RESULT_NO_UPDATE)) w"
    by (rule pop_Ret_safe [OF w(1) ok]) (simp add: pop_post_def)
  have b: "ri_queue_index_valid (c_queue C) ?next" if "?next \<noteq> RI_INDEX_INVALID"
    using nxt_in_range [OF D H that] cons_index_valid [OF w(1) ok] by simp
  have "following C k t ?next w" using w(2) by (simp add: following_def reading_def followed_by_def)
  note c = take_next_safe [OF w(1) this t]
  show "unat (c_current C) < length (sh_chain (v_shared w)) \<and>
      csafe (pop_post C (Some k)) (
      if sh_chain (v_shared w) ! unat (c_current C) = RI_INDEX_INVALID then Ret (C, RI_POP_RESULT_NO_UPDATE)
      else if \<not> ri_queue_index_valid (c_queue C) (sh_chain (v_shared w) ! unat (c_current C)) then
        Ret (C, RI_POP_RESULT_ERROR)
      else Tail_CAS t ((sh_chain (v_shared w) ! unat (c_current C)) OR RI_CONSUMED_FLAG) (\<lambda>exchanged.
        if exchanged then Ret (C\<lparr>c_current := sh_chain (v_shared w) ! unat (c_current C)\<rparr>, RI_POP_RESULT_SUCCESS)
        else Tail_Fetch_Or RI_CONSUMED_FLAG (\<lambda>current.
          if \<not> ri_queue_index_valid (c_queue C) current then Ret (C, RI_POP_RESULT_ERROR)
          else Ret (C\<lparr>c_current := current\<rparr>, RI_POP_RESULT_DISCARDED)))) w"
    unfolding v_shared_simps nxt_def [symmetric] using H a b c by simp
qed

lemma pop_tail_safe:
  assumes w: "view_inv w" "cons_ok C prev w" and T: "v_tail w \<noteq> RI_INDEX_INVALID"
    and m: "view_inv (marked w)"
  defines "tail \<equiv> v_tail w"
  shows "csafe (pop_post C prev) (
      if tail = RI_INDEX_INVALID then Ret (C, RI_POP_RESULT_NO_MSG)
      else if \<not> ri_queue_index_valid (c_queue C) (tail AND RI_INDEX_MASK) then
        Ret (C, RI_POP_RESULT_ERROR)
      else if \<not> consumed tail then
        Ret (C\<lparr>c_current := tail AND RI_INDEX_MASK\<rparr>,
             if first_msg tail then RI_POP_RESULT_SUCCESS else RI_POP_RESULT_DISCARDED)
      else if c_current C = RI_INDEX_INVALID then Ret (C, RI_POP_RESULT_ERROR)
      else
        Chain_Load (c_current C) (\<lambda>next.
        if next = RI_INDEX_INVALID then Ret (C, RI_POP_RESULT_NO_UPDATE)
        else if \<not> ri_queue_index_valid (c_queue C) next then Ret (C, RI_POP_RESULT_ERROR)
        else
          Tail_CAS tail (next OR RI_CONSUMED_FLAG) (\<lambda>exchanged.
          if exchanged then Ret (C\<lparr>c_current := next\<rparr>, RI_POP_RESULT_SUCCESS)
          else
            Tail_Fetch_Or RI_CONSUMED_FLAG (\<lambda>current.
            if \<not> ri_queue_index_valid (c_queue C) current then Ret (C, RI_POP_RESULT_ERROR)
            else Ret (C\<lparr>c_current := current\<rparr>, RI_POP_RESULT_DISCARDED))))) (marked w)"
proof -
  have v: "ri_queue_index_valid (c_queue C) (tail AND RI_INDEX_MASK)"
    using cons_index_valid [OF w] tail_cases(2) [OF w(1) T] by (simp add: tail_def idx_def)
  have ne: "tail \<noteq> RI_INDEX_INVALID" using T by (simp add: tail_def)
  show ?thesis
  proof (cases "consumed tail")
    case False
    then show ?thesis
      using take_unmarked_safe [OF w(1) T w(2) _ m] v ne by (simp add: tail_def idx_def)
  next
    case True
    then obtain k where k: "prev = Some k" using w(2) T
      by (cases prev) (auto simp: cons_ok_def nothing_taken_def tail_def)
    have same: "marked w = w" using True by (simp add: marked_def tail_def flag_simps)
    have "c_current C \<noteq> RI_INDEX_INVALID" using w(2) k by (simp add: cons_ok_def)
    moreover have "reading C k tail w"
      using w(2) k by (simp add: reading_def unless_jumped_def tail_def)
    note pop_marked_safe [OF w(1) this True]
    ultimately show ?thesis using True v ne by (simp add: same k)
  qed
qed

lemma pop_safe:
  assumes "view_inv v" and "cons_ok C prev v"
  shows "csafe (pop_post C prev) (ri_consumer_queue_pop C) v"
  unfolding ri_consumer_queue_pop_def Let_def
proof (rule csafe_Fetch_Or [where B = "cons_ok C prev", OF assms])
  fix w assume w: "view_inv w" "cons_ok C prev w" "v_tail w = RI_INDEX_INVALID"
  then have "prev = None" by (cases prev) (auto simp: cons_ok_def holds_def)
  then have "csafe (pop_post C prev) (Ret (C, RI_POP_RESULT_NO_MSG)) w"
    using w(2) by (intro pop_Ret_safe [OF w(1,2)]) (simp add: pop_post_def)
  then show "csafe (pop_post C prev) (
      if RI_INDEX_INVALID = RI_INDEX_INVALID then Ret (C, RI_POP_RESULT_NO_MSG) else p) w" for p
    by simp
qed (rule cons_ok_stable pop_tail_safe, assumption+)+

section \<open>Counting\<close>

definition count_post :: "ri_consumer_queue \<Rightarrow> nat option \<Rightarrow> int \<Rightarrow> view \<Rightarrow> bool" where
  "count_post C prev r v \<longleftrightarrow> cons_ok C prev v \<and> 0 \<le> r \<and> r \<le> int (length (v_chain v))"

definition counting :: "ri_consumer_queue \<Rightarrow> nat option \<Rightarrow> nat \<Rightarrow> view \<Rightarrow> bool" where
  "counting C prev n v \<longleftrightarrow> cons_ok C prev v \<and> length (v_chain v) = n"

lemma counting_stable: "\<lbrakk>view_inv v; counting C prev n v; pside v w\<rbrakk> \<Longrightarrow> counting C prev n w"
  using cons_ok_stable pside_length unfolding counting_def by metis

lemma count_Ret_safe:
  assumes "view_inv v" and "counting C prev n v" and "m \<le> n"
  shows "csafe (count_post C prev) (Ret (sint (of_nat m :: u32))) v"
proof (rule cons.safe_Ret_still [where A = "counting C prev n", OF assms(1,2) counting_stable], assumption+)
  fix w assume w: "view_inv w" "counting C prev n w"
  then have "n < 2 ^ 30" using view_invD(1) [OF w(1)] by (simp add: wf_slots_def counting_def)
  then have "sint (of_nat m :: u32) = int m" using assms(3) by (intro sint_of_nat_small) simp
  then show "count_post C prev (sint (of_nat m :: u32)) w"
    using w(2) assms(3) by (simp add: count_post_def counting_def)
qed

lemma counting_facts:
  assumes "view_inv v" and "counting C prev n v"
  shows "q_n_msgs (c_queue C) = of_nat n" and "q_n_msgs (c_queue C) - 1 = of_nat (n - 1)"
    and "unat (q_n_msgs (c_queue C)) = n" and "0 < n"
    and "ri_queue_index_valid (c_queue C) i \<longleftrightarrow> unat i < n"
proof -
  have n: "3 \<le> n" "n < 2 ^ 30" using view_invD(1) [OF assms(1)] assms(2)
    by (simp_all add: wf_slots_def counting_def)
  show q: "q_n_msgs (c_queue C) = of_nat n" using assms(2) by (simp add: counting_def cons_ok_def)
  show "q_n_msgs (c_queue C) - 1 = of_nat (n - 1)" using q n by (simp add: of_nat_diff)
  show "unat (q_n_msgs (c_queue C)) = n"
    using q n by (simp add: unsigned_of_nat take_bit_nat_eq_self)
  show "0 < n" using n by simp
  show "ri_queue_index_valid (c_queue C) i \<longleftrightarrow> unat i < n"
    using cons_index_valid [OF assms(1), of C prev] assms(2) unfolding counting_def by blast
qed

lemma consumer_count_loop_safe:
  assumes "view_inv v" and "counting C prev n v" and "j + left = n" and "unat next < n"
  shows "csafe (count_post C prev) (consumer_count_loop (c_queue C) left (of_nat j) next) v"
  using assms
proof (induction left arbitrary: j "next" v)
  case 0
  show ?case unfolding consumer_count_loop.simps counting_facts(2) [OF 0(1,2)]
    by (rule count_Ret_safe [OF 0(1,2)]) simp
next
  case (Suc left)
  let ?q = "c_queue C"
  show ?case unfolding consumer_count_loop.simps
  proof (rule cons.safe_Chain_Load [where A = "counting C prev n", OF Suc.prems(1,2) counting_stable],
      assumption+)
    fix w assume w: "view_inv w" "counting C prev n w"
    then have u: "unat next < length (v_chain w)" using Suc.prems(4) by (simp add: counting_def)
    let ?next = "sh_chain (v_shared w) ! unat next"
    have n: "?next = nxt w next" by (simp add: nxt_def)
    have last: "csafe (count_post C prev) (Tail_Load (\<lambda>next.
        if \<not> flagged next RI_CONSUMED_FLAG \<and> \<not> flagged next RI_FIRST_FLAG
        then Ret (sint (q_n_msgs ?q - 1)) else Ret (sint ((of_nat j :: u32) + 1)))) w"
    proof (rule cons.safe_Tail_Load [where A = "counting C prev n", OF w counting_stable], assumption+)
      fix x assume x: "view_inv x" "counting C prev n x"
      have "csafe (count_post C prev) (Ret (sint (of_nat (n - 1) :: u32))) x"
        and "csafe (count_post C prev) (Ret (sint (of_nat (Suc j) :: u32))) x"
        using Suc.prems(3) by (intro count_Ret_safe [OF x], simp)+
      then show "csafe (count_post C prev) (
          if \<not> flagged (sh_tail (v_shared x)) RI_CONSUMED_FLAG \<and>
            \<not> flagged (sh_tail (v_shared x)) RI_FIRST_FLAG
          then Ret (sint (q_n_msgs ?q - 1)) else Ret (sint ((of_nat j :: u32) + 1))) x"
        unfolding counting_facts(2) [OF x] by (simp add: add.commute)
    qed
    have go: "csafe (count_post C prev) (consumer_count_loop ?q left (of_nat j + 1) ?next) w"
      and valid: "ri_queue_index_valid ?q ?next" if ne: "?next \<noteq> RI_INDEX_INVALID"
    proof -
      have r: "unat ?next < n"
        using nxt_in_range [OF view_invD(1) [OF w(1)] u] ne w(2) n by (simp add: counting_def)
      then show "ri_queue_index_valid ?q ?next" using counting_facts(5) [OF w] by simp
      show "csafe (count_post C prev) (consumer_count_loop ?q left (of_nat j + 1) ?next) w"
        using Suc.IH [OF w, of "Suc j" ?next] Suc.prems(3) r by (simp add: add.commute)
    qed
    show "unat next < length (sh_chain (v_shared w)) \<and> csafe (count_post C prev) (
        if ?next = RI_INDEX_INVALID then Tail_Load (\<lambda>next.
          if \<not> flagged next RI_CONSUMED_FLAG \<and> \<not> flagged next RI_FIRST_FLAG
          then Ret (sint (q_n_msgs ?q - 1)) else Ret (sint ((of_nat j :: u32) + 1)))
        else if \<not> ri_queue_index_valid ?q ?next then Ret (-1)
        else consumer_count_loop ?q left (of_nat j + 1) ?next) w"
      using u last go valid by simp
  qed
qed

lemma consumer_count_safe:
  assumes "view_inv v" and "cons_ok C prev v"
  shows "csafe (count_post C prev) (ri_consumer_queue_count_msgs C) v"
proof -
  let ?n = "length (v_chain v)" and ?q = "c_queue C"
  have cnt: "counting C prev ?n v" using assms(2) by (simp add: counting_def)
  show ?thesis unfolding ri_consumer_queue_count_msgs_def Let_def
  proof (rule cons.safe_Tail_Load [where A = "counting C prev ?n", OF assms(1) cnt counting_stable],
      assumption+)
    fix w assume w: "view_inv w" "counting C prev ?n w"
    let ?t = "sh_tail (v_shared w)"
    have a: "csafe (count_post C prev) (Ret 0) w"
      and b: "csafe (count_post C prev) (Ret (sint (of_nat (?n - 1) :: u32))) w"
      using count_Ret_safe [OF w, of 0] count_Ret_safe [OF w, of "?n - 1"] by simp_all
    have v: "unat (?t AND RI_INDEX_MASK) < ?n" if "?t \<noteq> RI_INDEX_INVALID"
      using tail_cases(2) [OF w(1)] that w(2) by (simp add: counting_def idx_def)
    have c: "csafe (count_post C prev)
        (consumer_count_loop ?q (unat (q_n_msgs ?q)) 0 (?t AND RI_INDEX_MASK)) w"
      if "?t \<noteq> RI_INDEX_INVALID"
      using consumer_count_loop_safe [OF w, of 0 ?n, OF _ v [OF that]] counting_facts(3) [OF w]
      by simp
    show "csafe (count_post C prev) (
        if ?t = RI_INDEX_INVALID then Ret 0
        else if \<not> flagged ?t RI_CONSUMED_FLAG \<and> \<not> flagged ?t RI_FIRST_FLAG then
          Ret (sint (q_n_msgs ?q - 1))
        else if \<not> ri_queue_index_valid ?q (?t AND RI_INDEX_MASK) then Ret (-1)
        else consumer_count_loop ?q (unat (q_n_msgs ?q)) 0 (?t AND RI_INDEX_MASK)) w"
      unfolding counting_facts(2) [OF w] using a b c v counting_facts(5) [OF w] by simp
  qed
qed

end
