(* ===== verification/Ring.thy ===== *)
theory Ring
  imports Producer
begin

text \<open>What \<open>ri_producer_queue_new\<close> writes: a ring through all slots, in the shared chain and in the private one.\<close>

lemma unat_small: "i < n \<Longrightarrow> n < 2 ^ 30 \<Longrightarrow> unat (of_nat i :: u32) = i"
  by (simp add: unsigned_of_nat take_bit_nat_eq_self)

text \<open>The ring \<open>ri_producer_queue_new\<close> writes.\<close>

definition ring :: "nat \<Rightarrow> ri_index list" where
  "ring n = map (\<lambda>j. if Suc j = n then 0 else of_nat (Suc j)) [0..<n]"

definition fill :: "nat \<Rightarrow> ri_index list \<Rightarrow> ri_index list" where
  "fill m xs = map (\<lambda>j. if j < m then of_nat (Suc j) else xs ! j) [0..<length xs]"

lemma fill_0 [simp]: "fill 0 xs = xs"
  by (simp add: fill_def map_nth)

lemma length_fill [simp]: "length (fill m xs) = length xs"
  by (simp add: fill_def)

lemma fill_Suc: "(fill m xs)[m := of_nat (Suc m)] = fill (Suc m) xs"
  by (rule nth_equalityI) (auto simp: fill_def nth_list_update less_Suc_eq)

lemma run_init_chain:
  assumes "m + d \<le> length raw" and "length raw = length ch" and "length raw < 2 ^ 32"
  shows "run (init_chain [m..<m + d] (P\<lparr>p_chain := fill m raw\<rparr>) k) (sh\<lparr>sh_chain := fill m ch\<rparr>) =
     run (k (P\<lparr>p_chain := fill (m + d) raw\<rparr>)) (sh\<lparr>sh_chain := fill (m + d) ch\<rparr>)"
  using assms(1)
proof (induction d arbitrary: m)
  case (Suc d)
  have u: "unat (word_of_nat m :: u32) = m" and m: "m < length raw"
    using Suc.prems assms(3) by (simp_all add: unsigned_of_nat take_bit_nat_eq_self)
  have "[m..<m + Suc d] = m # [Suc m..<Suc m + d]" by (simp add: upt_conv_Cons)
  then show ?case
    using Suc.IH [of "Suc m"] Suc.prems assms(2) u m fill_Suc [of m]
    by (simp add: chain_store_def Let_def ri_queue_chain_store_def add.commute)
qed simp

lemma ring_fill: "length xs = Suc m \<Longrightarrow> (fill m xs)[m := 0] = ring (Suc m)"
  by (rule nth_equalityI)
    (auto simp: fill_def ring_def nth_list_update less_Suc_eq nth_append simp del: upt_Suc)

lemma run_producer_queue_new:
  fixes n :: nat
  assumes n: "unat (ri_channel_queue_len attr) = n" "0 < n" and len: "length (sh_chain sh) = n"
  shows "run (ri_producer_queue_new cls True raw (Some addr) attr) sh =
    Some (sh\<lparr>sh_chain := ring n\<rparr>,
      Some \<lparr>p_queue = ri_queue_init cls attr addr, p_head = RI_INDEX_INVALID, p_current = 0,
            p_overrun = RI_INDEX_INVALID, p_chain = ring n\<rparr>)"
proof -
  obtain m where m: "n = Suc m" using n(2) by (cases n) auto
  let ?q = "ri_channel_queue_len attr"
  have "unat ?q < 2 ^ LENGTH(32)" by (rule unsigned_less)
  then have "n < 2 ^ 32" using n(1) by simp
  moreover have "unat (?q - 1) = n - 1"
    using n by (subst unat_sub_if_size) (auto simp: word_le_nat_alt)
  ultimately have u: "unat (?q - 1) = m" "n < 2 ^ 32" using m by simp_all
  define P where "P = \<lparr>p_queue = ri_queue_init cls attr addr, p_head = RI_INDEX_INVALID,
    p_current = 0, p_overrun = RI_INDEX_INVALID, p_chain = map raw [0..<n]\<rparr>"
  have "run (init_chain [0..<0 + m] (P\<lparr>p_chain := fill 0 (map raw [0..<n])\<rparr>) k)
      (sh\<lparr>sh_chain := fill 0 (sh_chain sh)\<rparr>) =
    run (k (P\<lparr>p_chain := fill (0 + m) (map raw [0..<n])\<rparr>)) (sh\<lparr>sh_chain := fill (0 + m) (sh_chain sh)\<rparr>)"
    for k :: "_ \<Rightarrow> ri_producer_queue option prog"
    by (rule run_init_chain) (use m len u in simp_all)
  moreover have "P\<lparr>p_chain := fill 0 (map raw [0..<n])\<rparr> = P" and "sh\<lparr>sh_chain := fill 0 (sh_chain sh)\<rparr> = sh"
    by (simp_all add: P_def)
  ultimately show ?thesis
    unfolding ri_producer_queue_new_def Let_def n(1) u(1)
    by (simp add: P_def chain_store_def Let_def ri_queue_chain_store_def u m len ring_fill)
qed

end
