(* ===== verification/Layout.thy ===== *)
theory Layout
  imports Queue
begin

text \<open>
  The layout of a channel in shared memory. The owner of the memory reserves
  \<open>ri_channel_shm_size\<close> bytes for a channel; \<open>ri_queue_init\<close> places the tail, the head, the chain and the
  messages in it. \<open>line cls\<close> says that a cache line size is one the library can work with (a power of
  two in the range \<open>cacheline_size\<close> returns), \<open>sane_attr\<close> that the sizes do not wrap.
\<close>

section \<open>The cache line size\<close>

text \<open>
  C33. \<open>cacheline_size\<close> returns between 16 and 4096, whatever sysfs says and whatever the numbers
  \<open>fscanf\<close> leaves unset are; and from then on the same value, without looking at sysfs again.
\<close>

theorem cacheline_size_range:
  "case cacheline_size fs 0 of (cls, s_cls) \<Rightarrow>
     16 \<le> cls \<and> cls \<le> 0x1000 \<and> cacheline_size fs' s_cls = (cls, s_cls)"
proof -
  have "(16 :: u64) \<le> get_cls fs 16 \<and> (get_cls fs 16 = 16 \<or> get_cls fs 16 \<le> 0x1000)"
    unfolding get_cls_def by (rule get_cls_loop_range [OF refl]) simp
  then have "16 \<le> get_cls fs 16" "get_cls fs 16 \<le> 0x1000" by auto
  moreover from this(1) have "get_cls fs 16 \<noteq> 0" by auto
  ultimately show ?thesis by (simp add: cacheline_size_def Let_def max_align_def)
qed

definition line :: "u64 \<Rightarrow> bool" where
  "line cls \<longleftrightarrow> (\<exists>k. 4 \<le> k \<and> k \<le> 12 \<and> cls = 2 ^ k)"

definition sane_attr :: "ri_channel_attr \<Rightarrow> bool" where
  "sane_attr attr \<longleftrightarrow> unat (a_msg_size attr) < 2 ^ 30 \<and> unat (a_add_msgs attr) < 2 ^ 30 - 8"

lemma lineE:
  assumes "line cls"
  obtains k where "4 \<le> k" and "k \<le> 12" and "cls = 2 ^ k" and "unat cls = 2 ^ k"
proof -
  obtain k where k: "4 \<le> k" "k \<le> 12" "cls = 2 ^ k" using assms unfolding line_def by blast
  moreover have "unat (2 ^ k :: u64) = 2 ^ k"
  proof -
    have "(2 :: nat) ^ k < 2 ^ 64" using k(2) by (intro power_strict_increasing) simp_all
    then have "unat (of_nat (2 ^ k) :: u64) = 2 ^ k"
      using k(2) by (simp only: unsigned_of_nat take_bit_nat_eq_self) simp
    then show ?thesis by simp
  qed
  ultimately show thesis using that by blast
qed

lemma line64: "line 64"
  unfolding line_def by (intro exI [of _ 6]) simp

text \<open>Rounding up to a cache line, on natural numbers.\<close>

definition up :: "nat \<Rightarrow> nat \<Rightarrow> nat" where
  "up a n = (n + a - 1) div a * a"

lemma up_bounds: "0 < a \<Longrightarrow> n \<le> up a n" "0 < a \<Longrightarrow> up a n < n + a" "a dvd up a n"
  using round_up_bounds [of a n] by (simp_all add: up_def)

lemma up_mono: "m \<le> n \<Longrightarrow> up a m \<le> up a n"
  by (simp add: up_def div_le_mono)

lemma aligned_eq:
  assumes "line cls" and "unat sz < 2 ^ 63"
  shows "unat (cacheline_aligned cls sz) = up (unat cls) (unat sz)"
proof (rule lineE [OF assms(1)])
  fix k assume k: "k \<le> 12" "cls = 2 ^ k" "unat cls = 2 ^ k"
  then have "(2::nat) ^ k \<le> 2 ^ 12" by (intro power_increasing) simp_all
  then show ?thesis using k assms(2) unat_mem_align [of k sz]
    by (simp add: cacheline_aligned_def up_def)
qed

lemma queue_size_eq:
  assumes "line cls" and "unat n < 2 ^ 30"
  shows "unat (ri_calc_queue_size cls n) = up (unat cls) (4 * (unat n + 2))"
proof -
  have n: "unat (n + 2) = unat n + 2" using assms(2) by (simp add: unat_plus_if_less)
  have "unat (ucast (n + 2) * sizeof_ri_atomic_index :: u64) = 4 * (unat n + 2)"
    using n assms(2) unat_ucast_wide [of "n + 2"] by (simp add: sizeof_ri_atomic_index_def unat_word_ariths)
  then show ?thesis using assms aligned_eq [OF assms(1), of "ucast (n + 2) * sizeof_ri_atomic_index"]
    by (simp add: ri_calc_queue_size_def Let_def)
qed

lemma queue_len_eq: "sane_attr attr \<Longrightarrow> unat (ri_channel_queue_len attr) = unat (a_add_msgs attr) + 3"
  by (simp add: sane_attr_def ri_channel_queue_len_def RI_CHANNEL_MIN_MSGS_def unat_plus_if_less)

lemma up_le_4096: "line cls \<Longrightarrow> 0 < unat cls \<and> unat cls \<le> 4096"
proof -
  assume "line cls"
  then obtain k where k: "k \<le> 12" "unat cls = 2 ^ k" by (rule lineE)
  then have "(2::nat) ^ k \<le> 2 ^ 12" by (intro power_increasing) simp_all
  then show ?thesis using k by simp
qed

lemma slot_size_eq:
  assumes "line cls" and "sane_attr attr"
  shows "unat (cacheline_aligned cls (a_msg_size attr)) = up (unat cls) (unat (a_msg_size attr))"
    and "up (unat cls) (unat (a_msg_size attr)) < 2 ^ 31"
proof -
  show "unat (cacheline_aligned cls (a_msg_size attr)) = up (unat cls) (unat (a_msg_size attr))"
    using assms by (intro aligned_eq) (simp_all add: sane_attr_def)
  show "up (unat cls) (unat (a_msg_size attr)) < 2 ^ 31"
    using up_bounds(2) [of "unat cls" "unat (a_msg_size attr)"] up_le_4096 [OF assms(1)] assms(2)
    by (simp add: sane_attr_def)
qed

lemma data_size_eq:
  assumes "line cls" and "sane_attr attr"
  shows "unat (ri_calc_data_size cls (ri_channel_queue_len attr) (a_msg_size attr)) =
      (unat (a_add_msgs attr) + 3) * up (unat cls) (unat (a_msg_size attr))"
    and "(unat (a_add_msgs attr) + 3) * up (unat cls) (unat (a_msg_size attr)) < 2 ^ 61"
proof -
  note s = slot_size_eq [OF assms] and l = queue_len_eq [OF assms(2)]
  have "unat (a_add_msgs attr) + 3 < 2 ^ 30" using assms(2) by (simp add: sane_attr_def)
  then have "(unat (a_add_msgs attr) + 3) * up (unat cls) (unat (a_msg_size attr)) < 2 ^ 30 * 2 ^ 31"
    using s(2) by (intro mult_strict_mono) simp_all
  then show lt: "(unat (a_add_msgs attr) + 3) * up (unat cls) (unat (a_msg_size attr)) < 2 ^ 61" by simp
  show "unat (ri_calc_data_size cls (ri_channel_queue_len attr) (a_msg_size attr)) =
      (unat (a_add_msgs attr) + 3) * up (unat cls) (unat (a_msg_size attr))"
    using lt s(1) l unat_ucast_wide [of "ri_channel_queue_len attr"]
    by (simp add: ri_calc_data_size_def unat_word_ariths)
qed

section \<open>Where the messages are\<close>

text \<open>The address of message \<open>idx\<close>, as the offset in the channel that \<open>ri_queue_init\<close> gives it.\<close>

definition slot_offset :: "u64 \<Rightarrow> ri_channel_attr \<Rightarrow> nat \<Rightarrow> nat" where
  "slot_offset cls attr i = up (unat cls) (4 * (unat (a_add_msgs attr) + 2)) +
     i * up (unat cls) (unat (a_msg_size attr))"

lemma channel_size_eq:
  assumes "line cls" and "sane_attr attr"
  shows "unat (ri_channel_shm_size cls attr) = up (unat cls) (4 * (unat (a_add_msgs attr) + 5)) +
    (unat (a_add_msgs attr) + 3) * up (unat cls) (unat (a_msg_size attr))"
proof -
  have l: "unat (ri_channel_queue_len attr) < 2 ^ 30"
    using assms(2) queue_len_eq [OF assms(2)] by (simp add: sane_attr_def)
  have q: "unat (ri_calc_queue_size cls (ri_channel_queue_len attr)) = up (unat cls) (4 * (unat (a_add_msgs attr) + 5))"
    using queue_size_eq [OF assms(1) l] queue_len_eq [OF assms(2)] by (simp add: algebra_simps)
  have "up (unat cls) (4 * (unat (a_add_msgs attr) + 5)) < 2 ^ 33"
    using up_bounds(2) [of "unat cls" "4 * (unat (a_add_msgs attr) + 5)"] up_le_4096 [OF assms(1)] assms(2)
    by (simp add: sane_attr_def)
  then show ?thesis using q data_size_eq [OF assms]
    by (simp add: ri_channel_shm_size_def ri_calc_channel_shm_size_def unat_plus_if_less)
qed

lemma slot_end:
  assumes "line cls" and "sane_attr attr" and "i < unat (a_add_msgs attr) + 3"
  shows "slot_offset cls attr i + up (unat cls) (unat (a_msg_size attr)) \<le> unat (ri_channel_shm_size cls attr)"
proof -
  let ?s = "up (unat cls) (unat (a_msg_size attr))"
  have "Suc i * ?s \<le> (unat (a_add_msgs attr) + 3) * ?s"
    using assms(3) by (intro mult_le_mono1) simp
  then show ?thesis
    using up_mono [of "4 * (unat (a_add_msgs attr) + 2)" "4 * (unat (a_add_msgs attr) + 5)" "unat cls"]
      channel_size_eq [OF assms(1,2)] by (simp add: slot_offset_def)
qed

lemma get_msg_eq:
  assumes "line cls" and "sane_attr attr" and "unat shm + unat (ri_channel_shm_size cls attr) < 2 ^ 64"
    and "ri_queue_index_valid (ri_queue_init cls attr shm) idx"
  shows "\<exists>p. ri_queue_get_msg (ri_queue_init cls attr shm) idx = Some p \<and>
    unat p = unat shm + slot_offset cls attr (unat idx)" and "unat idx < unat (a_add_msgs attr) + 3"
proof -
  let ?q = "ri_queue_init cls attr shm" and ?s = "up (unat cls) (unat (a_msg_size attr))"
  show i: "unat idx < unat (a_add_msgs attr) + 3"
    using assms(4) queue_len_eq [OF assms(2)]
    by (simp add: ri_queue_index_valid_def ri_queue_init_def word_less_nat_alt)
  note e = slot_end [OF assms(1,2) i]
  have l: "unat (a_add_msgs attr) < 2 ^ 30" using assms(2) by (simp add: sane_attr_def)
  have b: "unat (q_msgs ?q) = unat shm + up (unat cls) (4 * (unat (a_add_msgs attr) + 2))"
    using assms(3) e queue_size_eq [OF assms(1) l]
    by (simp add: ri_queue_init_def mem_offset_def slot_offset_def unat_plus_if_less)
  have m: "unat (ucast idx * q_msg_size_aligned ?q :: u64) = unat idx * ?s"
    using slot_size_eq(1) [OF assms(1,2)] assms(3) e unat_ucast_wide [of idx]
    by (simp add: ri_queue_init_def unat_word_ariths slot_offset_def)
  have "unat (q_msgs ?q + ucast idx * q_msg_size_aligned ?q) = unat shm + slot_offset cls attr (unat idx)"
    using b m assms(3) e by (simp add: unat_plus_if_less slot_offset_def)
  then show "\<exists>p. ri_queue_get_msg ?q idx = Some p \<and> unat p = unat shm + slot_offset cls attr (unat idx)"
    using assms(4) by (auto simp: ri_queue_get_msg_def ri_queue_index_valid_def mem_offset_def)
qed

text \<open>
  C18. Every message lies inside the memory reserved for its channel, starts at a multiple of the
  cache line size (relative to the channel), and ends before the next one starts.
\<close>

theorem messages_in_channel:
  assumes "line cls" and "sane_attr attr" and "unat shm + unat (ri_channel_shm_size cls attr) < 2 ^ 64"
    and "q = ri_queue_init cls attr shm" and "ri_queue_index_valid q i" and "ri_queue_index_valid q j" and "i < j"
  shows "\<exists>p p'. ri_queue_get_msg q i = Some p \<and> ri_queue_get_msg q j = Some p' \<and>
    unat shm \<le> unat p \<and> unat cls dvd unat p - unat shm \<and> unat cls dvd unat p' - unat shm \<and>
    unat p + unat (a_msg_size attr) \<le> unat p' \<and>
    unat p' + unat (a_msg_size attr) \<le> unat shm + unat (ri_channel_shm_size cls attr)"
proof -
  note I = get_msg_eq [OF assms(1-3) assms(5) [unfolded assms(4)]]
    and J = get_msg_eq [OF assms(1-3) assms(6) [unfolded assms(4)]]
  let ?s = "up (unat cls) (unat (a_msg_size attr))"
  have s: "unat (a_msg_size attr) \<le> ?s" using up_bounds(1) up_le_4096 [OF assms(1)] by blast
  have "Suc (unat i) * ?s \<le> unat j * ?s" using assms(7) by (intro mult_le_mono1) (simp add: word_less_nat_alt Suc_leI)
  then have ij: "slot_offset cls attr (unat i) + ?s \<le> slot_offset cls attr (unat j)"
    by (simp add: slot_offset_def)
  have "unat cls dvd slot_offset cls attr k" for k
    unfolding slot_offset_def by (intro dvd_add dvd_mult up_bounds(3))
  then show ?thesis using I(1) J(1) ij s slot_end [OF assms(1,2) J(2)] unfolding assms(4) by fastforce
qed

definition attr5 :: ri_channel_attr where
  "attr5 = \<lparr>a_msg_size = 100, a_add_msgs = 2, a_eventfd = False, a_info = info_zero\<rparr>"

theorem messages_in_channel_witness:
  "\<exists>p p'. ri_queue_get_msg (ri_queue_init 64 attr5 4096) 1 = Some p \<and>
    ri_queue_get_msg (ri_queue_init 64 attr5 4096) 4 = Some p' \<and> unat p + 100 \<le> unat p' \<and>
    unat p' + 100 \<le> 4096 + unat (ri_channel_shm_size 64 attr5)"
proof -
  have s: "unat (ri_channel_shm_size 64 attr5) = 704" by code_simp
  have v: "ri_queue_index_valid (ri_queue_init 64 attr5 4096) 1" by code_simp
  have w: "ri_queue_index_valid (ri_queue_init 64 attr5 4096) 4" by code_simp
  from messages_in_channel [OF line64 _ _ refl v w] s show ?thesis by (fastforce simp: sane_attr_def attr5_def)
qed

lemma up_words:
  assumes "0 < m"
  shows "up (4 * m) (4 * x) = 4 * up m x"
proof -
  have "(4 * x + 4 * m - 1) div 4 = x + m - 1" using assms by linarith
  then have "(4 * x + 4 * m - 1) div (4 * m) = (x + m - 1) div m" by (simp add: div_mult2_eq)
  then show ?thesis by (simp add: up_def)
qed

lemma beyond_line:
  assumes "4 \<le> m"
  shows "x + 3 > up m x \<longleftrightarrow> (x + 3) mod m \<in> {1, 2, 3}"
proof -
  define d r where "d = x div m" and "r = x mod m"
  have x: "x = d * m + r" and r: "r < m" using assms by (simp_all add: d_def r_def)
  show ?thesis
  proof (cases "r = 0")
    case True
    have "x + m - 1 = d * m + (m - 1)" using x True assms by simp
    moreover have "(d * m + (m - 1)) div m = d" using assms by (subst div_mult_self3) simp_all
    ultimately have "(x + m - 1) div m = d" by (simp only:)
    then show ?thesis using x True assms by (simp add: up_def)
  next
    case False
    have "x + m - 1 = (d + 1) * m + (r - 1)" using x False by simp
    moreover have "((d + 1) * m + (r - 1)) div m = d + 1" using r assms by (subst div_mult_self3) simp_all
    ultimately have "(x + m - 1) div m = d + 1" by (simp only:)
    then have u: "up m x = (d + 1) * m" by (simp add: up_def)
    have "(x + 3) mod m = (r + 3) mod m" using x by (simp add: add.assoc)
    moreover have "(r + 3) mod m = (if r + 3 < m then r + 3 else r + 3 - m)"
      using r assms by (simp add: mod_if)
    ultimately show ?thesis using x u False r assms by auto
  qed
qed

lemma chain_end_iff:
  assumes "line cls" and "sane_attr attr" and "unat shm + unat (ri_channel_shm_size cls attr) < 2 ^ 64"
  shows "unat (q_chain (ri_queue_init cls attr shm)) + 4 * unat (q_n_msgs (ri_queue_init cls attr shm)) >
      unat (q_msgs (ri_queue_init cls attr shm)) \<longleftrightarrow>
    (unat (a_add_msgs attr) + 5) mod (unat cls div 4) \<in> {1, 2, 3}"
proof -
  let ?a = "unat (a_add_msgs attr)" and ?q = "ri_queue_init cls attr shm"
  obtain k where k: "4 \<le> k" "unat cls = 2 ^ k" by (rule lineE [OF assms(1)])
  define m where "m = (2 :: nat) ^ (k - 2)"
  have "(2 :: nat) ^ 2 \<le> m" unfolding m_def using k(1) by (intro power_increasing) simp_all
  then have m: "4 \<le> m" by simp
  have "(2 :: nat) ^ k = 2 ^ 2 * m" unfolding m_def power_add [symmetric] using k(1) by (simp only: le_add_diff_inverse)
  then have cls: "unat cls = 4 * m" using k by simp
  have l: "?a < 2 ^ 30 - 8" using assms(2) by (simp add: sane_attr_def)
  have e: "slot_offset cls attr 0 \<le> unat (ri_channel_shm_size cls attr)"
    using slot_end [OF assms(1,2), of 0] by simp
  have "up (unat cls) (4 * (?a + 5)) \<le> unat (ri_channel_shm_size cls attr)"
    using channel_size_eq [OF assms(1,2)] by simp
  then have c: "4 * (?a + 5) \<le> unat (ri_channel_shm_size cls attr)"
    using up_bounds(1) [of "unat cls" "4 * (?a + 5)"] up_le_4096 [OF assms(1)] by linarith
  have "unat (q_chain ?q) = unat shm + 8" using assms(3) c
    by (simp add: ri_queue_init_def index_addr_def sizeof_ri_atomic_index_def unat_plus_if_less)
  moreover have "unat (q_n_msgs ?q) = ?a + 3" using queue_len_eq [OF assms(2)] by (simp add: ri_queue_init_def)
  moreover have "unat (q_msgs ?q) = unat shm + 4 * up m (?a + 2)"
    using assms(3) e queue_size_eq [OF assms(1), of "a_add_msgs attr"] l up_words [of m "?a + 2"] m
    by (simp add: ri_queue_init_def mem_offset_def slot_offset_def unat_plus_if_less cls)
  ultimately have "unat (q_chain ?q) + 4 * unat (q_n_msgs ?q) > unat (q_msgs ?q) \<longleftrightarrow> ?a + 2 + 3 > up m (?a + 2)"
    by auto
  also have "\<dots> \<longleftrightarrow> (?a + 2 + 3) mod m \<in> {1, 2, 3}" by (rule beyond_line [OF m])
  finally show ?thesis unfolding cls by (simp add: add.commute)
qed

text \<open>
  The models of the queue keep what is written in the messages apart from the atomic words. That is what the code does when the
  chain ends before the messages start: \<open>slots_apart\<close> says so of a channel at \<open>shm\<close>. Then no message shares a
  byte with the words or with another message.
\<close>

definition slots_apart :: "u64 \<Rightarrow> ri_channel_attr \<Rightarrow> u64 \<Rightarrow> bool" where
  "slots_apart cls attr shm \<longleftrightarrow> line cls \<and> sane_attr attr \<and> unat shm + unat (ri_channel_shm_size cls attr) < 2 ^ 64 \<and>
     unat (q_chain (ri_queue_init cls attr shm)) + 4 * unat (q_n_msgs (ri_queue_init cls attr shm)) \<le>
       unat (q_msgs (ri_queue_init cls attr shm))"

lemma slots_apart_iff:
  "slots_apart cls attr shm \<longleftrightarrow> line cls \<and> sane_attr attr \<and> unat shm + unat (ri_channel_shm_size cls attr) < 2 ^ 64 \<and>
     (unat (a_add_msgs attr) + 5) mod (unat cls div 4) \<notin> {1, 2, 3}"
  using chain_end_iff [of cls attr shm] unfolding slots_apart_def by fastforce

lemma slots_apart_words:
  assumes "slots_apart cls attr shm" and "ri_queue_index_valid (ri_queue_init cls attr shm) i"
  shows "\<exists>p. ri_queue_get_msg (ri_queue_init cls attr shm) i = Some p \<and>
    unat (q_chain (ri_queue_init cls attr shm)) + 4 * unat (q_n_msgs (ri_queue_init cls attr shm)) \<le> unat p"
proof -
  note S = assms(1) [unfolded slots_apart_def]
  have S': "line cls" "sane_attr attr" "unat shm + unat (ri_channel_shm_size cls attr) < 2 ^ 64" using S by simp_all
  obtain p where p: "ri_queue_get_msg (ri_queue_init cls attr shm) i = Some p" "unat p = unat shm + slot_offset cls attr (unat i)"
    using get_msg_eq(1) [OF S' assms(2)] by blast
  have l: "unat (a_add_msgs attr) < 2 ^ 30" using S'(2) by (simp add: sane_attr_def)
  have "slot_offset cls attr 0 \<le> unat (ri_channel_shm_size cls attr)" using slot_end [OF S'(1,2), of 0] by simp
  then have "unat (q_msgs (ri_queue_init cls attr shm)) = unat shm + slot_offset cls attr 0"
    using S'(3) queue_size_eq [OF S'(1) l] by (simp add: ri_queue_init_def mem_offset_def slot_offset_def unat_plus_if_less)
  then have "unat (q_msgs (ri_queue_init cls attr shm)) \<le> unat p" using p(2) by (simp add: slot_offset_def)
  then show ?thesis using p(1) S by auto
qed

text \<open>
  C38. The messages are placed behind a chain of \<open>add_msgs\<close> entries, but the chain has three more: it
  reaches into the first message exactly when the number of words in front of the messages, tail and head
  included, is one to three more than whole cache lines.
\<close>

theorem chain_reaches_into_messages:
  assumes "line cls" and "sane_attr attr" and "unat shm + unat (ri_channel_shm_size cls attr) < 2 ^ 64"
    and "q = ri_queue_init cls attr shm"
  shows "unat (q_chain q) + 4 * unat (q_n_msgs q) > unat (q_msgs q) \<longleftrightarrow>
    (unat (a_add_msgs attr) + 5) mod (unat cls div 4) \<in> {1, 2, 3}"
  unfolding assms(4) by (rule chain_end_iff [OF assms(1-3)])

definition attr15 :: ri_channel_attr where
  "attr15 = \<lparr>a_msg_size = 8, a_add_msgs = 12, a_eventfd = False, a_info = info_zero\<rparr>"

theorem chain_reaches_into_messages_witness:
  "unat (q_chain (ri_queue_init 64 attr15 0)) + 4 * unat (q_n_msgs (ri_queue_init 64 attr15 0)) >
     unat (q_msgs (ri_queue_init 64 attr15 0)) \<and>
   \<not> unat (q_chain (ri_queue_init 64 attr5 0)) + 4 * unat (q_n_msgs (ri_queue_init 64 attr5 0)) >
     unat (q_msgs (ri_queue_init 64 attr5 0))"
proof -
  have s: "unat 0 + unat (ri_channel_shm_size 64 attr15) < 2 ^ 64" "unat 0 + unat (ri_channel_shm_size 64 attr5) < 2 ^ 64"
    using unsigned_less [of "ri_channel_shm_size 64 attr15"] unsigned_less [of "ri_channel_shm_size 64 attr5"] by simp_all
  have a: "sane_attr attr15" "sane_attr attr5" by (simp_all add: sane_attr_def attr15_def attr5_def)
  show ?thesis
    using chain_reaches_into_messages [OF line64 a(1) s(1) refl] chain_reaches_into_messages [OF line64 a(2) s(2) refl]
    by (simp add: attr15_def attr5_def)
qed

end
