(* ===== verification/Concurrency.thy ===== *)
theory Concurrency
  imports Producer_Safe Consumer_Safe Ring Layout
begin

text \<open>
  Producer and consumer as two processes that share the queue. A state of the \<open>system\<close> holds the
  atomic words, what is written in each message slot, and the two processes with their private
  structures; a process is idle or in the middle of an operation, whose remaining accesses are a
  program. A step is a single atomic access of one of the processes, the call or the return of an
  operation, or a write of the producer's client into the slot \<open>ri_producer_queue_msg\<close> hands it.

  A message is represented by the number of the push that sends it: the client may write anything
  into its slot, and pushes when the slot holds the number of messages sent before. \<open>sys_seen\<close>
  records every message the consumer's client gets, with the result of the pop, as it is read
  from the slot after the pop returns.

  The slots are a store of their own, so the model is one of channels whose chain ends before the first message (\<open>slots_apart\<close>);
  \<open>Layout\<close> shows for which lengths \<open>ri_queue_init\<close> places them so, and that for the others it does not.
\<close>

datatype producer_thread =
    Producer_Idle ri_producer_queue
  | Force_Pushing "(ri_producer_queue \<times> ri_force_push_result) prog"
  | Try_Pushing ri_producer_queue "(ri_producer_queue \<times> ri_try_push_result) prog"
  | Asking_Full ri_producer_queue "bool prog"
  | Asking_Count ri_producer_queue "int prog"

datatype consumer_thread =
    Consumer_Idle ri_consumer_queue
  | Popping "(ri_consumer_queue \<times> ri_pop_result) prog"
  | Flushing "(ri_consumer_queue \<times> ri_pop_result option) prog"
  | Counting ri_consumer_queue "int prog"

record system =
  sys_shared :: shared
  sys_num :: "ri_index \<Rightarrow> nat"
  sys_sent :: nat
  sys_producer :: producer_thread
  sys_consumer :: consumer_thread
  sys_seen :: "(ri_pop_result \<times> nat) list"

text \<open>What the consumer's client gets from a pop that returns \<open>r\<close>.\<close>

definition received :: "ri_pop_result \<Rightarrow> nat \<Rightarrow> (ri_pop_result \<times> nat) list" where
  "received r k = (case r of
      RI_POP_RESULT_SUCCESS \<Rightarrow> [(r, k)]
    | RI_POP_RESULT_DISCARDED \<Rightarrow> [(r, k)]
    | _ \<Rightarrow> [])"

section \<open>Steps\<close>

inductive producer_step :: "system \<Rightarrow> system \<Rightarrow> bool" where
  client_write: "sys_producer s = Producer_Idle P \<Longrightarrow>
    producer_step s (s\<lparr>sys_num := (sys_num s)(p_current P := k)\<rparr>)"
| force_call: "\<lbrakk>sys_producer s = Producer_Idle P; sys_num s (p_current P) = sys_sent s\<rbrakk> \<Longrightarrow>
    producer_step s (s\<lparr>sys_producer := Force_Pushing (ri_producer_queue_force_push P)\<rparr>)"
| force_access: "\<lbrakk>sys_producer s = Force_Pushing p; astep (sys_shared s) p = Some (sh, p')\<rbrakk> \<Longrightarrow>
    producer_step s (s\<lparr>sys_shared := sh, sys_producer := Force_Pushing p'\<rparr>)"
| force_return: "sys_producer s = Force_Pushing (Ret (P, r)) \<Longrightarrow>
    producer_step s (s\<lparr>sys_sent := Suc (sys_sent s), sys_producer := Producer_Idle P\<rparr>)"
| try_call: "\<lbrakk>sys_producer s = Producer_Idle P; sys_num s (p_current P) = sys_sent s\<rbrakk> \<Longrightarrow>
    producer_step s (s\<lparr>sys_producer := Try_Pushing P (ri_producer_queue_try_push P)\<rparr>)"
| try_access: "\<lbrakk>sys_producer s = Try_Pushing P p; astep (sys_shared s) p = Some (sh, p')\<rbrakk> \<Longrightarrow>
    producer_step s (s\<lparr>sys_shared := sh, sys_producer := Try_Pushing P p'\<rparr>)"
| try_return: "sys_producer s = Try_Pushing P (Ret (P', r)) \<Longrightarrow>
    producer_step s (s\<lparr>sys_sent := (if r = RI_TRY_PUSH_RESULT_SUCCESS then Suc (sys_sent s) else sys_sent s),
      sys_producer := Producer_Idle P'\<rparr>)"
| full_call: "sys_producer s = Producer_Idle P \<Longrightarrow>
    producer_step s (s\<lparr>sys_producer := Asking_Full P (ri_producer_queue_full P)\<rparr>)"
| full_access: "\<lbrakk>sys_producer s = Asking_Full P p; astep (sys_shared s) p = Some (sh, p')\<rbrakk> \<Longrightarrow>
    producer_step s (s\<lparr>sys_shared := sh, sys_producer := Asking_Full P p'\<rparr>)"
| full_return: "sys_producer s = Asking_Full P (Ret r) \<Longrightarrow>
    producer_step s (s\<lparr>sys_producer := Producer_Idle P\<rparr>)"
| count_call: "sys_producer s = Producer_Idle P \<Longrightarrow>
    producer_step s (s\<lparr>sys_producer := Asking_Count P (ri_producer_queue_count_msgs P)\<rparr>)"
| count_access: "\<lbrakk>sys_producer s = Asking_Count P p; astep (sys_shared s) p = Some (sh, p')\<rbrakk> \<Longrightarrow>
    producer_step s (s\<lparr>sys_shared := sh, sys_producer := Asking_Count P p'\<rparr>)"
| count_return: "sys_producer s = Asking_Count P (Ret r) \<Longrightarrow>
    producer_step s (s\<lparr>sys_producer := Producer_Idle P\<rparr>)"

inductive consumer_step :: "system \<Rightarrow> system \<Rightarrow> bool" where
  pop_call: "sys_consumer s = Consumer_Idle C \<Longrightarrow>
    consumer_step s (s\<lparr>sys_consumer := Popping (ri_consumer_queue_pop C)\<rparr>)"
| pop_access: "\<lbrakk>sys_consumer s = Popping p; astep (sys_shared s) p = Some (sh, p')\<rbrakk> \<Longrightarrow>
    consumer_step s (s\<lparr>sys_shared := sh, sys_consumer := Popping p'\<rparr>)"
| pop_return: "sys_consumer s = Popping (Ret (C, r)) \<Longrightarrow>
    consumer_step s (s\<lparr>sys_consumer := Consumer_Idle C,
      sys_seen := sys_seen s @ received r (sys_num s (c_current C))\<rparr>)"
| count_call: "sys_consumer s = Consumer_Idle C \<Longrightarrow>
    consumer_step s (s\<lparr>sys_consumer := Counting C (ri_consumer_queue_count_msgs C)\<rparr>)"
| count_access: "\<lbrakk>sys_consumer s = Counting C p; astep (sys_shared s) p = Some (sh, p')\<rbrakk> \<Longrightarrow>
    consumer_step s (s\<lparr>sys_shared := sh, sys_consumer := Counting C p'\<rparr>)"
| count_return: "sys_consumer s = Counting C (Ret r) \<Longrightarrow>
    consumer_step s (s\<lparr>sys_consumer := Consumer_Idle C\<rparr>)"

text \<open>
  The steps of \<open>ri_consumer_queue_flush\<close> are a relation of their own: a round of its loop that
  does not exchange the tail starts the next one.
\<close>

inductive flush_step :: "system \<Rightarrow> system \<Rightarrow> bool" where
  flush_call: "sys_consumer s = Consumer_Idle C \<Longrightarrow>
    flush_step s (s\<lparr>sys_consumer := Flushing (flush_body C)\<rparr>)"
| flush_access: "\<lbrakk>sys_consumer s = Flushing p; astep (sys_shared s) p = Some (sh, p')\<rbrakk> \<Longrightarrow>
    flush_step s (s\<lparr>sys_shared := sh, sys_consumer := Flushing p'\<rparr>)"
| flush_again: "sys_consumer s = Flushing (Ret (C, None)) \<Longrightarrow>
    flush_step s (s\<lparr>sys_consumer := Flushing (flush_body C)\<rparr>)"
| flush_return: "sys_consumer s = Flushing (Ret (C, Some r)) \<Longrightarrow>
    flush_step s (s\<lparr>sys_consumer := Consumer_Idle C,
      sys_seen := sys_seen s @ received r (sys_num s (c_current C))\<rparr>)"

text \<open>
  The processes start with what \<open>ri_producer_queue_new\<close> and \<open>ri_consumer_queue_new\<close> return for a
  queue of \<open>n\<close> slots whose words the owner of the shared memory has initialised, in memory in which the messages do not
  share a byte with the words.
\<close>

definition started :: "shared \<Rightarrow> (ri_index \<Rightarrow> nat) \<Rightarrow> ri_producer_queue \<Rightarrow> ri_consumer_queue \<Rightarrow> system" where
  "started sh num P C = \<lparr>sys_shared = sh, sys_num = num, sys_sent = 0,
     sys_producer = Producer_Idle P, sys_consumer = Consumer_Idle C, sys_seen = []\<rparr>"

definition valid_queue_len :: "ri_channel_attr \<Rightarrow> bool" where
  "valid_queue_len attr \<longleftrightarrow>
     3 \<le> unat (ri_channel_queue_len attr) \<and> unat (ri_channel_queue_len attr) < 2 ^ 30"

inductive reachable :: "system \<Rightarrow> bool" where
  start: "\<lbrakk>valid_queue_len attr; slots_apart cls attr addr;
     length (sh_chain sh) = unat (ri_channel_queue_len attr);
     run (ri_producer_queue_new cls True raw (Some addr) attr) (ri_producer_queue_init_shm sh) =
       Some (sh', Some P);
     ri_consumer_queue_new cls True (Some addr) attr = Some C\<rbrakk> \<Longrightarrow>
   reachable (started sh' num P C)"
| producer: "reachable s \<Longrightarrow> producer_step s s' \<Longrightarrow> reachable s'"
| consumer: "reachable s \<Longrightarrow> consumer_step s s' \<Longrightarrow> reachable s'"

text \<open>\<open>reachable\<close> leaves out the flush, \<open>reachable_with_flush\<close> has it.\<close>

inductive reachable_with_flush :: "system \<Rightarrow> bool" where
  without: "reachable s \<Longrightarrow> reachable_with_flush s"
| producer: "reachable_with_flush s \<Longrightarrow> producer_step s s' \<Longrightarrow> reachable_with_flush s'"
| consumer: "reachable_with_flush s \<Longrightarrow> consumer_step s s' \<Longrightarrow> reachable_with_flush s'"
| flush: "reachable_with_flush s \<Longrightarrow> flush_step s s' \<Longrightarrow> reachable_with_flush s'"

section \<open>The order of delivery\<close>

definition last_number :: "(ri_pop_result \<times> nat) list \<Rightarrow> nat option" where
  "last_number xs = (if xs = [] then None else Some (snd (last xs)))"

text \<open>
  A message reported as \<open>SUCCESS\<close> is the one sent directly after the last message delivered, a message
  reported as \<open>DISCARDED\<close> a later one.
\<close>

fun in_order :: "nat option \<Rightarrow> (ri_pop_result \<times> nat) list \<Rightarrow> bool" where
  "in_order prev [] = True"
| "in_order prev ((r, k) # xs) =
     ((case r of RI_POP_RESULT_SUCCESS \<Rightarrow> k = expected prev
       | RI_POP_RESULT_DISCARDED \<Rightarrow> expected prev < k
       | _ \<Rightarrow> False) \<and> in_order (Some k) xs)"

lemma in_order_append:
  "in_order prev (xs @ ys) \<longleftrightarrow>
     in_order prev xs \<and> in_order (if xs = [] then prev else last_number xs) ys"
  by (induction prev xs rule: in_order.induct) (auto simp: last_number_def)

lemma in_order_increasing: "in_order prev xs \<Longrightarrow>
    sorted_wrt (<) (map snd xs) \<and> (\<forall>x\<in>set xs. expected prev \<le> snd x)"
proof (induction prev xs rule: in_order.induct)
  case (2 prev r k xs)
  then have "expected prev \<le> k" by (cases r) auto
  moreover have "sorted_wrt (<) (map snd xs) \<and> (\<forall>x\<in>set xs. Suc k \<le> snd x)"
    using 2 by (cases r) auto
  ultimately show ?case by fastforce
qed simp

section \<open>The invariant\<close>

definition producer_inv :: "producer_thread \<Rightarrow> nat \<Rightarrow> view \<Rightarrow> bool" where
  "producer_inv th c v \<longleftrightarrow> (case th of
      Producer_Idle P \<Rightarrow> resting P c v
    | Force_Pushing p \<Rightarrow> psafe (force_post (Suc c)) p v
    | Try_Pushing P p \<Rightarrow> psafe (try_post P c) p v
    | Asking_Full P p \<Rightarrow> psafe (query_post P c) p v
    | Asking_Count P p \<Rightarrow> psafe (counted_post P c) p v)"

definition consumer_inv :: "consumer_thread \<Rightarrow> nat option \<Rightarrow> view \<Rightarrow> bool" where
  "consumer_inv th prev v \<longleftrightarrow> (case th of
      Consumer_Idle C \<Rightarrow> cons_ok C prev v
    | Popping p \<Rightarrow> \<exists>C. csafe (pop_post C prev) p v
    | Flushing p \<Rightarrow> False
    | Counting C p \<Rightarrow> csafe (count_post C prev) p v)"

definition explains :: "view \<Rightarrow> system \<Rightarrow> bool" where
  "explains v s \<longleftrightarrow> v_shared v = sys_shared s \<and> v_num v = sys_num s \<and> view_inv v \<and>
     producer_inv (sys_producer s) (sys_sent s) v \<and>
     consumer_inv (sys_consumer s) (last_number (sys_seen s)) v \<and>
     in_order None (sys_seen s) \<and> (\<forall>x\<in>set (sys_seen s). snd x < v_cnt v)"

lemma producer_inv_rely:
  assumes "view_inv v" and "producer_inv th c v" and "ctrans v w"
  shows "producer_inv th c w"
proof (cases th)
  case (Producer_Idle P)
  then show ?thesis using assms resting_stable by (simp add: producer_inv_def)
qed (use assms in \<open>auto simp: producer_inv_def intro: safe_rely\<close>)

lemma consumer_inv_rely:
  assumes "view_inv v" and "consumer_inv th prev v" and "pside v w"
  shows "consumer_inv th prev w"
proof (cases th)
  case (Consumer_Idle C)
  then show ?thesis using assms cons_ok_stable by (simp add: consumer_inv_def)
qed (use assms in \<open>auto simp: consumer_inv_def intro: safe_rely\<close>)

lemma count_grows:
  "\<lbrakk>view_inv v; pside v w\<rbrakk> \<Longrightarrow> v_cnt v \<le> v_cnt w"
  "ctrans v w \<Longrightarrow> v_cnt w = v_cnt v"
proof -
  show "v_cnt v \<le> v_cnt w" if "view_inv v" "pside v w"
    using that(2,1) view_invD(3) [OF that(1)] by (auto elim!: pside.cases ptrans.cases simp: empty_inv_def)
qed (rule ctrans_frame(6))

lemma explains_producer:
  assumes "explains v s" and "pside v u"
    and "v_shared u = sys_shared s'" and "v_num u = sys_num s'"
    and "producer_inv (sys_producer s') (sys_sent s') u"
    and "sys_consumer s' = sys_consumer s" and "sys_seen s' = sys_seen s"
  shows "explains u s'"
proof -
  have v: "view_inv v" using assms(1) by (simp add: explains_def)
  show ?thesis
    using assms pside_inv [OF assms(2) v] consumer_inv_rely [OF v _ assms(2)]
      count_grows(1) [OF v assms(2)]
    by (auto simp: explains_def intro: less_le_trans)
qed

lemma explains_consumer:
  assumes "explains v s" and "ctrans v u"
    and "v_shared u = sys_shared s'" and "v_num u = sys_num s'"
    and "consumer_inv (sys_consumer s') (last_number (sys_seen s')) u"
    and "sys_producer s' = sys_producer s" and "sys_sent s' = sys_sent s"
    and "in_order None (sys_seen s')" and "\<forall>x\<in>set (sys_seen s'). snd x < v_cnt u"
  shows "explains u s'"
proof -
  have v: "view_inv v" using assms(1) by (simp add: explains_def)
  show ?thesis
    using assms ctrans_inv [OF assms(2) v] producer_inv_rely [OF v _ assms(2)]
    by (simp add: explains_def)
qed

lemma explainsD:
  assumes "explains v s"
  shows "v_shared v = sys_shared s" and "v_num v = sys_num s" and "view_inv v"
    and "producer_inv (sys_producer s) (sys_sent s) v"
    and "consumer_inv (sys_consumer s) (last_number (sys_seen s)) v"
    and "in_order None (sys_seen s)" and "\<forall>x\<in>set (sys_seen s). snd x < v_cnt v"
  using assms by (simp_all add: explains_def)

section \<open>Every step keeps the invariant\<close>

lemma access_explained:
  assumes "explains v s" and "psafe post p v" and "astep (sys_shared s) p = Some (sh, p')"
    and "\<And>u. psafe post p' u \<Longrightarrow> producer_inv th (sys_sent s) u"
  shows "\<exists>u. explains u (s\<lparr>sys_shared := sh, sys_producer := th\<rparr>)"
proof -
  have "astep (v_shared v) p = Some (sh, p')" using assms(1,3) by (simp add: explainsD(1))
  from safe_astep [OF assms(2) this] obtain u where u: "sh = v_shared u" "ptrans v u" "psafe post p' u" .
  then have "explains u (s\<lparr>sys_shared := sh, sys_producer := th\<rparr>)"
    using assms(4) ptrans_num [OF u(2)] explainsD(2) [OF assms(1)]
    by (intro explains_producer [OF assms(1) pside.move]) simp_all
  then show ?thesis by blast
qed

lemma return_explained:
  assumes "explains v s" and "psafe post (Ret r) v"
    and "\<And>u. post r u \<Longrightarrow> resting P c u"
  shows "\<exists>u. explains u (s\<lparr>sys_sent := c, sys_producer := Producer_Idle P\<rparr>)"
proof -
  from safe_post [OF assms(2)] obtain u where u: "v_shared u = v_shared v" "ptrans v u" "post r u" .
  then have "explains u (s\<lparr>sys_sent := c, sys_producer := Producer_Idle P\<rparr>)"
    using assms(3) ptrans_num [OF u(2)] explainsD(1,2) [OF assms(1)]
    by (intro explains_producer [OF assms(1) pside.move]) (simp_all add: producer_inv_def)
  then show ?thesis by blast
qed

lemma call_explained:
  assumes "explains v s" and "producer_inv th (sys_sent s) v"
  shows "\<exists>u. explains u (s\<lparr>sys_producer := th\<rparr>)"
proof -
  have "explains v (s\<lparr>sys_producer := th\<rparr>)"
    using assms(2) explainsD(1,2) [OF assms(1)]
    by (intro explains_producer [OF assms(1) pside.move [OF ptrans.stutter]]) simp_all
  then show ?thesis by blast
qed

lemma write_explained:
  assumes "explains v s" and "sys_producer s = Producer_Idle P"
  shows "\<exists>u. explains u (s\<lparr>sys_num := (sys_num s)(p_current P := k)\<rparr>)"
proof -
  have R: "resting P (sys_sent s) v"
    using explainsD(4) [OF assms(1)] assms(2) by (simp add: producer_inv_def)
  then have own: "v_own v = Some (p_current P)" by (simp add: resting_def prod_ok_def)
  let ?u = "v\<lparr>v_num := (v_num v)(p_current P := k)\<rparr>"
  have "resting P (sys_sent s) ?u" using R by (simp add: resting_def prod_ok_def)
  then have "explains ?u (s\<lparr>sys_num := (sys_num s)(p_current P := k)\<rparr>)"
    using explainsD(1,2) [OF assms(1)] assms(2)
    by (intro explains_producer [OF assms(1) pside.client_write [OF own]])
      (simp_all add: producer_inv_def v_shared_def)
  then show ?thesis by blast
qed

lemma producer_inv_simps [simp]:
  "producer_inv (Producer_Idle P) c v = resting P c v"
  "producer_inv (Force_Pushing p) c v = psafe (force_post (Suc c)) p v"
  "producer_inv (Try_Pushing P q) c v = psafe (try_post P c) q v"
  "producer_inv (Asking_Full P a) c v = psafe (query_post P c) a v"
  "producer_inv (Asking_Count P b) c v = psafe (counted_post P c) b v"
  by (simp_all add: producer_inv_def)

text \<open>An operation is called in a state from which it is safe.\<close>

lemma calls_safe:
  assumes "explains v s" and "sys_producer s = Producer_Idle P"
  shows "sys_num s (p_current P) = sys_sent s \<Longrightarrow>
      psafe (force_post (Suc (sys_sent s))) (ri_producer_queue_force_push P) v"
    and "sys_num s (p_current P) = sys_sent s \<Longrightarrow>
      psafe (try_post P (sys_sent s)) (ri_producer_queue_try_push P) v"
    and "psafe (query_post P (sys_sent s)) (ri_producer_queue_full P) v"
    and "psafe (counted_post P (sys_sent s)) (ri_producer_queue_count_msgs P) v"
proof -
  have ok: "prod_ok P v" and c: "sys_sent s = v_cnt v"
    using explainsD(4) [OF assms(1)] assms(2) by (simp_all add: resting_def)
  note E = explainsD(2,3) [OF assms(1)]
  show "sys_num s (p_current P) = sys_sent s \<Longrightarrow>
      psafe (force_post (Suc (sys_sent s))) (ri_producer_queue_force_push P) v"
    and "sys_num s (p_current P) = sys_sent s \<Longrightarrow>
      psafe (try_post P (sys_sent s)) (ri_producer_queue_try_push P) v"
    using force_push_safe [OF E(2) ok] try_push_safe [OF E(2) ok] E(1) c by simp_all
  show "psafe (query_post P (sys_sent s)) (ri_producer_queue_full P) v"
    and "psafe (counted_post P (sys_sent s)) (ri_producer_queue_count_msgs P) v"
    unfolding c by (rule full_safe [OF E(2) ok] count_msgs_safe [OF E(2) ok])+
qed

lemma producer_step_explained:
  assumes "explains v s" and "producer_step s s'"
  shows "\<exists>u. explains u s'"
proof -
  note E = assms(1) and I = explainsD(4) [OF assms(1)]
  have same: "s\<lparr>sys_producer := th\<rparr> = s\<lparr>sys_sent := sys_sent s, sys_producer := th\<rparr>" for th by simp
  from assms(2) show ?thesis
  proof cases
    case client_write
    then show ?thesis using write_explained [OF E] by simp
  next
    case force_call
    then show ?thesis using calls_safe(1) [OF E] call_explained [OF E] by simp
  next
    case force_access
    then show ?thesis using I by (auto intro: access_explained [OF E])
  next
    case (force_return P r)
    then show ?thesis using I
      by (auto intro!: return_explained [OF E] simp: force_post_def resting_def)
  next
    case try_call
    then show ?thesis using calls_safe(2) [OF E] call_explained [OF E] by simp
  next
    case try_access
    then show ?thesis using I by (auto intro: access_explained [OF E])
  next
    case (try_return P P' r)
    then have p: "psafe (try_post P (sys_sent s)) (Ret (P', r)) v" using I by simp
    show ?thesis unfolding try_return(1)
      by (rule return_explained [OF E p])
        (auto simp: try_post_def resting_def split: ri_try_push_result.splits)
  next
    case full_call
    then show ?thesis using calls_safe(3) [OF E] call_explained [OF E] by simp
  next
    case full_access
    then show ?thesis using I by (auto intro: access_explained [OF E])
  next
    case (full_return P r)
    then have p: "psafe (query_post P (sys_sent s)) (Ret r) v" using I by simp
    show ?thesis unfolding full_return(1) same
      by (rule return_explained [OF E p]) (simp add: query_post_def resting_def)
  next
    case count_call
    then show ?thesis using calls_safe(4) [OF E] call_explained [OF E] by simp
  next
    case count_access
    then show ?thesis using I by (auto intro: access_explained [OF E])
  next
    case (count_return P r)
    then have p: "psafe (counted_post P (sys_sent s)) (Ret r) v" using I by simp
    show ?thesis unfolding count_return(1) same
      by (rule return_explained [OF E p]) (simp add: counted_post_def query_post_def resting_def)
  qed
qed

lemma holds_less:
  assumes "view_inv v" and "holds c k v"
  shows "k < v_cnt v"
proof -
  have T: "v_tail v \<noteq> RI_INDEX_INVALID" using assms(2) by (simp add: holds_def)
  obtain pre suf where q: "v_q v = pre @ idx (v_tail v) # suf"
    and c: "consecutive (v_num v) (idx (v_tail v) # suf)"
    and n: "Suc (v_num v (last (v_q v))) = v_cnt v"
    using view_invD(4) [OF assms(1) T] by (rule queue_invE)
  have "v_num v (idx (v_tail v)) \<le> v_num v (last (idx (v_tail v) # suf))"
    by (rule consecutive_last_le [OF c])
  then have "v_num v (idx (v_tail v)) < v_cnt v" using n q by simp
  then show ?thesis using assms(2) by (auto simp: holds_def split: if_splits)
qed

lemma consumer_inv_simps [simp]:
  "consumer_inv (Consumer_Idle C) prev v = cons_ok C prev v"
  "consumer_inv (Popping p) prev v = (\<exists>C. csafe (pop_post C prev) p v)"
  "consumer_inv (Counting C q) prev v = csafe (count_post C prev) q v"
  by (simp_all add: consumer_inv_def)

lemma consumer_access_explained:
  assumes "explains v s" and "csafe post p v" and "astep (sys_shared s) p = Some (sh, p')"
    and "\<And>u. csafe post p' u \<Longrightarrow> consumer_inv th (last_number (sys_seen s)) u"
  shows "\<exists>u. explains u (s\<lparr>sys_shared := sh, sys_consumer := th\<rparr>)"
proof -
  have "astep (v_shared v) p = Some (sh, p')" using assms(1,3) by (simp add: explainsD(1))
  from safe_astep [OF assms(2) this] obtain u where u: "sh = v_shared u" "ctrans v u" "csafe post p' u" .
  then have "explains u (s\<lparr>sys_shared := sh, sys_consumer := th\<rparr>)"
    using assms(4) ctrans_frame(5,6) [OF u(2)] explainsD(2,6,7) [OF assms(1)]
    by (intro explains_consumer [OF assms(1)]) simp_all
  then show ?thesis by blast
qed

lemma consumer_return_explained:
  assumes "explains v s" and "csafe post (Ret r) v"
    and "\<And>u. \<lbrakk>view_inv u; v_num u = sys_num s; post r u\<rbrakk> \<Longrightarrow>
      cons_ok C (last_number (sys_seen s @ new)) u \<and>
      in_order (last_number (sys_seen s)) new \<and> (\<forall>x\<in>set new. snd x < v_cnt u)"
    and s': "s' = s\<lparr>sys_consumer := Consumer_Idle C, sys_seen := sys_seen s @ new\<rparr>"
  shows "\<exists>u. explains u s'"
proof -
  note E = explainsD [OF assms(1)]
  from safe_post [OF assms(2)] obtain u where u: "v_shared u = v_shared v" "ctrans v u" "post r u" .
  note F = ctrans_frame(5,6) [OF u(2)]
  have new: "cons_ok C (last_number (sys_seen s @ new)) u \<and>
      in_order (last_number (sys_seen s)) new \<and> (\<forall>x\<in>set new. snd x < v_cnt u)"
    by (rule assms(3) [OF ctrans_inv [OF u(2) E(3)] _ u(3)]) (simp add: F E(2))
  have "in_order None (sys_seen s @ new)"
    using E(6) new by (auto simp: in_order_append last_number_def split: if_splits)
  then have "explains u s'"
    using u(1) F E(1,2,7) new s'
    by (intro explains_consumer [OF assms(1) u(2)]) (auto simp del: consumer_inv_def)
  then show ?thesis by blast
qed

lemma received_ok:
  assumes "view_inv u" and "pop_post C0 (last_number seen) (C, r) u"
  defines "new \<equiv> received r (v_num u (c_current C))"
  shows "cons_ok C (last_number (seen @ new)) u" and "in_order (last_number seen) new"
    and "\<forall>x\<in>set new. snd x < v_cnt u"
proof -
  have "cons_ok C (last_number (seen @ new)) u \<and> in_order (last_number seen) new \<and>
      (\<forall>x\<in>set new. snd x < v_cnt u)"
  proof (cases "r = RI_POP_RESULT_SUCCESS \<or> r = RI_POP_RESULT_DISCARDED")
    case True
    then obtain k where ok: "cons_ok C (Some k) u" and n: "new = [(r, v_num u (c_current C))]"
      and k: "if r = RI_POP_RESULT_SUCCESS then k = expected (last_number seen)
        else expected (last_number seen) < k"
      using assms(2) by (auto simp: pop_post_def new_def received_def)
    have h: "holds (c_current C) k u" using ok by (simp add: cons_ok_def)
    then have "v_num u (c_current C) = k" by (simp add: holds_def)
    then show ?thesis using n k ok True holds_less [OF assms(1) h] by (auto simp: last_number_def)
  next
    case False
    then show ?thesis using assms(2)
      by (cases r) (auto simp: pop_post_def new_def received_def)
  qed
  then show "cons_ok C (last_number (seen @ new)) u" and "in_order (last_number seen) new"
    and "\<forall>x\<in>set new. snd x < v_cnt u" by blast+
qed

lemma consumer_step_explained:
  assumes "explains v s" and "consumer_step s s'"
  shows "\<exists>u. explains u s'"
proof -
  note E = assms(1) and I = explainsD(5) [OF assms(1)] and V = explainsD(3) [OF assms(1)]
  from assms(2) show ?thesis
  proof cases
    case (pop_call C)
    then have "explains v s'" using I pop_safe [OF V] explainsD [OF E]
      by (intro explains_consumer [OF E ctrans.stutter]) auto
    then show ?thesis by blast
  next
    case (count_call C)
    then have "explains v s'" using I consumer_count_safe [OF V] explainsD [OF E]
      by (intro explains_consumer [OF E ctrans.stutter]) auto
    then show ?thesis by blast
  next
    case (pop_access p sh p')
    then obtain C where "csafe (pop_post C (last_number (sys_seen s))) p v" using I by auto
    then show ?thesis
      unfolding pop_access(1) by (rule consumer_access_explained [OF E _ pop_access(3)]) auto
  next
    case count_access
    then show ?thesis using I by (auto intro: consumer_access_explained [OF E])
  next
    case (pop_return C r)
    then obtain C0 where p: "csafe (pop_post C0 (last_number (sys_seen s))) (Ret (C, r)) v"
      using I by auto
    show ?thesis unfolding pop_return(1)
    proof (rule consumer_return_explained [OF E p])
      fix u assume u: "view_inv u" and num: "v_num u = sys_num s"
        and post: "pop_post C0 (last_number (sys_seen s)) (C, r) u"
      show "cons_ok C (last_number (sys_seen s @ received r (sys_num s (c_current C)))) u \<and>
          in_order (last_number (sys_seen s)) (received r (sys_num s (c_current C))) \<and>
          (\<forall>x\<in>set (received r (sys_num s (c_current C))). snd x < v_cnt u)"
        using received_ok [OF u post] unfolding num by blast
    qed (rule refl)
  next
    case (count_return C r)
    then have p: "csafe (count_post C (last_number (sys_seen s))) (Ret r) v" using I by simp
    show ?thesis
      by (rule consumer_return_explained [OF E p, where new = "[]"])
        (use count_return(1) in \<open>simp_all add: count_post_def\<close>)
  qed
qed

section \<open>The start\<close>

definition start_view :: "nat \<Rightarrow> (ri_index \<Rightarrow> nat) \<Rightarrow> view" where
  "start_view n num = \<lparr>v_tail = RI_INDEX_INVALID, v_head = RI_INDEX_INVALID, v_chain = ring n,
     v_own = Some 0, v_q = map of_nat [1..<n], v_ov = None, v_num = num, v_cnt = 0\<rparr>"

lemma start_nxt:
  assumes "i < n" and "n < 2 ^ 30"
  shows "nxt (start_view n num) (of_nat i) = (if Suc i = n then 0 else of_nat (Suc i))"
  using assms by (simp add: nxt_def start_view_def ring_def unat_small)

lemma linked_upt:
  assumes "\<And>j. \<lbrakk>i \<le> j; Suc j < n\<rbrakk> \<Longrightarrow> f (of_nat j) = (of_nat (Suc j) :: ri_index)"
  shows "linked f (map of_nat [i..<n])"
  using assms
proof (induction "n - i" arbitrary: i)
  case (Suc d)
  then have "[i..<n] = i # [Suc i..<n]" by (simp add: upt_conv_Cons)
  moreover have "linked f (map of_nat [Suc i..<n])" using Suc.hyps(2) by (intro Suc.hyps(1) Suc.prems) auto
  ultimately show ?case using Suc.prems [of i]
    by (cases "Suc i < n") (auto simp: successively_Cons upt_conv_Cons)
qed simp

lemma start_view_inv:
  assumes n: "3 \<le> n" "n < 2 ^ 30"
  shows "view_inv (start_view n num)"
proof -
  let ?v = "start_view n num"
  have sl: "slots ?v = map of_nat [0..<n]"
    using n by (simp add: slots_def start_view_def upt_conv_Cons)
  have inj: "inj_on (of_nat :: nat \<Rightarrow> u32) {0..<n}"
    by (rule inj_on_inverseI [where g = unat]) (use n(2) in \<open>simp add: unat_small\<close>)
  have st: "set (slots ?v) = {i. unat i < n}"
  proof
    show "set (slots ?v) \<subseteq> {i. unat i < n}" using n(2) by (auto simp: sl unat_small)
    show "{i. unat i < n} \<subseteq> set (slots ?v)"
      by (auto simp: sl intro!: image_eqI [where x = "unat i" for i :: u32])
  qed
  have len: "length (v_chain ?v) = n" by (simp add: start_view_def ring_def)
  have nx: "unat (nxt ?v i) < n" if "unat i < n" for i
  proof -
    have "nxt ?v i = (if Suc (unat i) = n then 0 else of_nat (Suc (unat i)))"
      using start_nxt [OF that n(2), of num] by simp
    then show ?thesis using that n unat_small [of "Suc (unat i)" n] by simp
  qed
  have "wf_slots ?v"
    unfolding wf_slots_def len using n st nx inj
    by (simp add: sl distinct_map) (simp add: start_view_def)
  moreover have "linked (nxt ?v) (v_q ?v)"
    unfolding start_view_def view.simps
    by (rule linked_upt) (use start_nxt n in \<open>auto simp: start_view_def\<close>)
  moreover have "last (v_q ?v) = of_nat (n - 1)"
    using n by (simp add: start_view_def last_map last_upt)
  then have "nxt ?v (last (v_q ?v)) = 0" using start_nxt [of "n - 1" n num] n by simp
  then have "empty_inv ?v" by (simp add: empty_inv_def start_view_def)
  ultimately show ?thesis by (simp add: view_inv_def start_view_def)
qed

lemma start_explained:
  assumes "valid_queue_len attr" and "length (sh_chain sh) = unat (ri_channel_queue_len attr)"
    and run: "run (ri_producer_queue_new cls True raw (Some addr) attr) (ri_producer_queue_init_shm sh) =
       Some (sh', Some P)"
    and new: "ri_consumer_queue_new cls True (Some addr) attr = Some C"
  shows "\<exists>v. explains v (started sh' num P C)"
proof -
  let ?n = "unat (ri_channel_queue_len attr)" and ?v = "start_view (unat (ri_channel_queue_len attr)) num"
  have n: "3 \<le> ?n" "?n < 2 ^ 30" using assms(1) by (simp_all add: valid_queue_len_def)
  have len: "length (sh_chain (ri_producer_queue_init_shm sh)) = ?n"
    using assms(2) by (simp add: ri_producer_queue_init_shm_def ri_queue_init_shm_def shared_ops)
  have r: "sh' = (ri_producer_queue_init_shm sh)\<lparr>sh_chain := ring ?n\<rparr>"
      "P = \<lparr>p_queue = ri_queue_init cls attr addr, p_head = RI_INDEX_INVALID, p_current = 0,
            p_overrun = RI_INDEX_INVALID, p_chain = ring ?n\<rparr>"
    using run n by (simp_all add: run_producer_queue_new [OF refl _ len])
  have C: "C = \<lparr>c_queue = ri_queue_init cls attr addr, c_current = RI_INDEX_INVALID\<rparr>"
    using new by (simp add: ri_consumer_queue_new_def)
  have l: "length (ring ?n) = ?n" by (simp add: ring_def)
  have "nxt ?v 0 = 1" using start_nxt [of 0 ?n num] n by simp
  moreover have "hd (v_q ?v) = 1" using n by (simp add: start_view_def upt_conv_Cons)
  ultimately have "resting P 0 ?v"
    using l by (simp add: resting_def prod_ok_def mirrors_def ov_word_def r start_view_def
        ri_queue_init_def)
  moreover have "cons_ok C None ?v"
    using l by (simp add: cons_ok_def nothing_taken_def C start_view_def ri_queue_init_def)
  moreover have "v_shared ?v = sh'"
    by (simp add: r v_shared_def start_view_def ri_producer_queue_init_shm_def ri_queue_init_shm_def
        shared_ops)
  ultimately have "explains ?v (started sh' num P C)"
    using start_view_inv [OF n] by (simp add: explains_def started_def last_number_def) (simp add: start_view_def)
  then show ?thesis by blast
qed

lemma reachable_explained: "reachable s \<Longrightarrow> \<exists>v. explains v s"
proof (induction rule: reachable.induct)
  case (start attr cls addr sh raw sh' P C num)
  show ?case by (rule start_explained [OF start(1,3-5)])
qed (use producer_step_explained consumer_step_explained in blast)+

section \<open>What the queue guarantees\<close>

primrec faulty :: "producer_thread \<Rightarrow> bool" where
  "faulty (Producer_Idle P) = False"
| "faulty (Force_Pushing p) = (p = Fault \<or> (\<exists>P. p = Ret (P, RI_FORCE_PUSH_RESULT_ERROR)))"
| "faulty (Try_Pushing P p) = (p = Fault \<or> (\<exists>P. p = Ret (P, RI_TRY_PUSH_RESULT_ERROR)))"
| "faulty (Asking_Full P p) = (p = Fault)"
| "faulty (Asking_Count P p) = (p = Fault \<or> (\<exists>r. p = Ret r \<and> r < 0))"

primrec consumer_faulty :: "consumer_thread \<Rightarrow> bool" where
  "consumer_faulty (Consumer_Idle C) = False"
| "consumer_faulty (Popping p) = (p = Fault \<or> (\<exists>C. p = Ret (C, RI_POP_RESULT_ERROR)))"
| "consumer_faulty (Flushing p) = (p = Fault \<or> (\<exists>C. p = Ret (C, Some RI_POP_RESULT_ERROR)))"
| "consumer_faulty (Counting C p) = (p = Fault \<or> (\<exists>r. p = Ret r \<and> r < 0))"

lemma safe_result: "safe rely guar shared_of post (Ret r) v \<Longrightarrow> \<exists>u. post r u"
  by (elim safe_post) blast

lemma producer_not_faulty:
  assumes "producer_inv th c v"
  shows "\<not> faulty th"
proof (cases th)
  case (Force_Pushing p)
  then show ?thesis using assms
    by (auto dest!: safe_result simp: safe_not_Fault force_post_def)
next
  case (Try_Pushing P p)
  then show ?thesis using assms
    by (auto dest!: safe_result simp: safe_not_Fault try_post_def)
next
  case (Asking_Count P p)
  then show ?thesis using assms
    by (auto dest!: safe_result simp: safe_not_Fault counted_post_def)
qed (use assms in \<open>auto simp: safe_not_Fault\<close>)

lemma consumer_not_faulty:
  assumes "consumer_inv th prev v"
  shows "\<not> consumer_faulty th"
proof (cases th)
  case (Popping p)
  then show ?thesis using assms
    by (auto dest!: safe_result simp: safe_not_Fault pop_post_def)
next
  case (Counting C p)
  then show ?thesis using assms
    by (auto dest!: safe_result simp: safe_not_Fault count_post_def)
qed (use assms in \<open>auto simp: consumer_inv_def\<close>)

end
