(* ===== verification/Runs.thy ===== *)
theory Runs
  imports Concurrency
begin

text \<open>
  Executable schedules: a list of actions names, one by one, the steps of producer and consumer.
  They give the concrete runs that show the theorems of \<open>Concurrency\<close> are not vacuous, and
  the run in which \<open>ri_consumer_queue_flush\<close> breaks the mutual exclusion of the slots.
\<close>

datatype action =
    Write nat | Force | Try | Full | Count | Producer_Goes
  | Pop | Flush | Consumer_Count | Consumer_Goes

definition producer_goes :: "system \<Rightarrow> system option" where
  "producer_goes s = (case sys_producer s of
      Producer_Idle P \<Rightarrow> None
    | Force_Pushing p \<Rightarrow> (case p of
        Ret (P, r) \<Rightarrow> Some (s\<lparr>sys_sent := Suc (sys_sent s), sys_producer := Producer_Idle P\<rparr>)
      | _ \<Rightarrow> map_option (\<lambda>(sh, p'). s\<lparr>sys_shared := sh, sys_producer := Force_Pushing p'\<rparr>)
               (astep (sys_shared s) p))
    | Try_Pushing P p \<Rightarrow> (case p of
        Ret (P', r) \<Rightarrow> Some (s\<lparr>sys_sent := (if r = RI_TRY_PUSH_RESULT_SUCCESS
            then Suc (sys_sent s) else sys_sent s), sys_producer := Producer_Idle P'\<rparr>)
      | _ \<Rightarrow> map_option (\<lambda>(sh, p'). s\<lparr>sys_shared := sh, sys_producer := Try_Pushing P p'\<rparr>)
               (astep (sys_shared s) p))
    | Asking_Full P p \<Rightarrow> (case p of
        Ret r \<Rightarrow> Some (s\<lparr>sys_producer := Producer_Idle P\<rparr>)
      | _ \<Rightarrow> map_option (\<lambda>(sh, p'). s\<lparr>sys_shared := sh, sys_producer := Asking_Full P p'\<rparr>)
               (astep (sys_shared s) p))
    | Asking_Count P p \<Rightarrow> (case p of
        Ret r \<Rightarrow> Some (s\<lparr>sys_producer := Producer_Idle P\<rparr>)
      | _ \<Rightarrow> map_option (\<lambda>(sh, p'). s\<lparr>sys_shared := sh, sys_producer := Asking_Count P p'\<rparr>)
               (astep (sys_shared s) p)))"

definition consumer_goes :: "system \<Rightarrow> system option" where
  "consumer_goes s = (case sys_consumer s of
      Consumer_Idle C \<Rightarrow> None
    | Popping p \<Rightarrow> (case p of
        Ret (C, r) \<Rightarrow> Some (s\<lparr>sys_consumer := Consumer_Idle C,
          sys_seen := sys_seen s @ received r (sys_num s (c_current C))\<rparr>)
      | _ \<Rightarrow> map_option (\<lambda>(sh, p'). s\<lparr>sys_shared := sh, sys_consumer := Popping p'\<rparr>)
               (astep (sys_shared s) p))
    | Flushing p \<Rightarrow> (case p of
        Ret (C, None) \<Rightarrow> Some (s\<lparr>sys_consumer := Flushing (flush_body C)\<rparr>)
      | Ret (C, Some r) \<Rightarrow> Some (s\<lparr>sys_consumer := Consumer_Idle C,
          sys_seen := sys_seen s @ received r (sys_num s (c_current C))\<rparr>)
      | _ \<Rightarrow> map_option (\<lambda>(sh, p'). s\<lparr>sys_shared := sh, sys_consumer := Flushing p'\<rparr>)
               (astep (sys_shared s) p))
    | Counting C p \<Rightarrow> (case p of
        Ret r \<Rightarrow> Some (s\<lparr>sys_consumer := Consumer_Idle C\<rparr>)
      | _ \<Rightarrow> map_option (\<lambda>(sh, p'). s\<lparr>sys_shared := sh, sys_consumer := Counting C p'\<rparr>)
               (astep (sys_shared s) p)))"

definition producer_calls :: "action \<Rightarrow> ri_producer_queue \<Rightarrow> system \<Rightarrow> system option" where
  "producer_calls a P s = (case a of
      Write k \<Rightarrow> Some (s\<lparr>sys_num := (sys_num s)(p_current P := k)\<rparr>)
    | Force \<Rightarrow> if sys_num s (p_current P) = sys_sent s
        then Some (s\<lparr>sys_producer := Force_Pushing (ri_producer_queue_force_push P)\<rparr>) else None
    | Try \<Rightarrow> if sys_num s (p_current P) = sys_sent s
        then Some (s\<lparr>sys_producer := Try_Pushing P (ri_producer_queue_try_push P)\<rparr>) else None
    | Full \<Rightarrow> Some (s\<lparr>sys_producer := Asking_Full P (ri_producer_queue_full P)\<rparr>)
    | Count \<Rightarrow> Some (s\<lparr>sys_producer := Asking_Count P (ri_producer_queue_count_msgs P)\<rparr>)
    | _ \<Rightarrow> None)"

definition consumer_calls :: "action \<Rightarrow> ri_consumer_queue \<Rightarrow> system \<Rightarrow> system option" where
  "consumer_calls a C s = (case a of
      Pop \<Rightarrow> Some (s\<lparr>sys_consumer := Popping (ri_consumer_queue_pop C)\<rparr>)
    | Flush \<Rightarrow> Some (s\<lparr>sys_consumer := Flushing (flush_body C)\<rparr>)
    | Consumer_Count \<Rightarrow> Some (s\<lparr>sys_consumer := Counting C (ri_consumer_queue_count_msgs C)\<rparr>)
    | _ \<Rightarrow> None)"

definition act :: "action \<Rightarrow> system \<Rightarrow> system option" where
  "act a s = (if a = Producer_Goes then producer_goes s
    else if a = Consumer_Goes then consumer_goes s
    else case (sys_producer s, sys_consumer s) of
      (Producer_Idle P, Consumer_Idle C) \<Rightarrow>
        (case producer_calls a P s of None \<Rightarrow> consumer_calls a C s | r \<Rightarrow> r)
    | (Producer_Idle P, _) \<Rightarrow> producer_calls a P s
    | (_, Consumer_Idle C) \<Rightarrow> consumer_calls a C s
    | _ \<Rightarrow> None)"

fun perform :: "action list \<Rightarrow> system \<Rightarrow> system option" where
  "perform [] s = Some s"
| "perform (a # as) s = (case act a s of None \<Rightarrow> None | Some s' \<Rightarrow> perform as s')"

lemma producer_goes_step: "producer_goes s = Some s' \<Longrightarrow> producer_step s s'"
  by (auto simp: producer_goes_def simp del: astep.simps intro: producer_step.intros
      split: producer_thread.splits prog.splits prod.splits)

lemma consumer_goes_step: "consumer_goes s = Some s' \<Longrightarrow> consumer_step s s' \<or> flush_step s s'"
  by (auto simp: consumer_goes_def simp del: astep.simps intro: consumer_step.intros flush_step.intros
      split: consumer_thread.splits prog.splits prod.splits option.splits)

lemma producer_calls_step: "\<lbrakk>producer_calls a P s = Some s'; sys_producer s = Producer_Idle P\<rbrakk> \<Longrightarrow>
    producer_step s s'"
  by (cases a) (auto simp: producer_calls_def intro: producer_step.intros split: if_splits)

lemma consumer_calls_step: "\<lbrakk>consumer_calls a C s = Some s'; sys_consumer s = Consumer_Idle C\<rbrakk> \<Longrightarrow>
    consumer_step s s' \<or> flush_step s s'"
  by (cases a) (auto simp: consumer_calls_def intro: consumer_step.intros flush_step.intros)

lemma act_step: "act a s = Some s' \<Longrightarrow> producer_step s s' \<or> consumer_step s s' \<or> flush_step s s'"
  using producer_goes_step consumer_goes_step producer_calls_step consumer_calls_step
  by (auto simp: act_def split: if_splits producer_thread.splits consumer_thread.splits
      option.splits)

lemma perform_with_flush: "\<lbrakk>perform as s = Some s'; reachable_with_flush s\<rbrakk> \<Longrightarrow> reachable_with_flush s'"
  by (induction as s rule: perform.induct)
    (auto split: option.splits dest!: act_step intro: reachable_with_flush.intros)

primrec not_flushing :: "consumer_thread \<Rightarrow> bool" where
  "not_flushing (Consumer_Idle C) = True"
| "not_flushing (Popping p) = True"
| "not_flushing (Flushing p) = False"
| "not_flushing (Counting C p) = True"

lemma reachable_not_flushing: "reachable s \<Longrightarrow> not_flushing (sys_consumer s)"
  using reachable_explained [of s] by (cases "sys_consumer s") (auto simp: consumer_inv_def explains_def)

lemma act_without_flush:
  assumes "act a s = Some s'" and "a \<noteq> Flush" and "not_flushing (sys_consumer s)"
  shows "producer_step s s' \<or> consumer_step s s'"
proof -
  have c: "consumer_step s s'" if "consumer_goes s = Some s'" using that assms(3)
    by (auto simp: consumer_goes_def simp del: astep.simps intro: consumer_step.intros
        split: consumer_thread.splits prog.splits prod.splits option.splits)
  have d: "consumer_step s s'" if "consumer_calls a C s = Some s'" "sys_consumer s = Consumer_Idle C" for C
    using that assms(2) by (cases a) (auto simp: consumer_calls_def intro: consumer_step.intros)
  show ?thesis using assms(1) producer_goes_step producer_calls_step c d
    by (auto simp: act_def split: if_splits producer_thread.splits consumer_thread.splits
        option.splits)
qed

lemma perform_reachable: "\<lbrakk>perform as s = Some s'; reachable s; Flush \<notin> set as\<rbrakk> \<Longrightarrow> reachable s'"
proof (induction as s rule: perform.induct)
  case (2 a as s)
  then obtain u where u: "act a s = Some u" "perform as u = Some s'" by (auto split: option.splits)
  have "producer_step s u \<or> consumer_step s u"
    by (rule act_without_flush [OF u(1)]) (use 2 reachable_not_flushing in auto)
  then have "reachable u" using 2 by (auto intro: reachable.intros)
  then show ?case using 2 u by simp
qed simp

section \<open>A queue of three slots\<close>

definition attr3 :: ri_channel_attr where
  "attr3 = \<lparr>a_msg_size = 8, a_add_msgs = 0, a_eventfd = False,
            a_info = \<lparr>i_size = 0, i_data = None\<rparr>\<rparr>"

definition start3 :: system where
  "start3 = started \<lparr>sh_tail = RI_INDEX_INVALID, sh_head = RI_INDEX_INVALID, sh_chain = [1, 2, 0]\<rparr>
     (\<lambda>_. 9)
     \<lparr>p_queue = ri_queue_init 64 attr3 0, p_head = RI_INDEX_INVALID, p_current = 0,
      p_overrun = RI_INDEX_INVALID, p_chain = [1, 2, 0]\<rparr>
     \<lparr>c_queue = ri_queue_init 64 attr3 0, c_current = RI_INDEX_INVALID\<rparr>"

lemma attr3_len: "unat (ri_channel_queue_len attr3) = 3"
  by (simp add: ri_channel_queue_len_def RI_CHANNEL_MIN_MSGS_def attr3_def)

lemma attr3_apart: "slots_apart 64 attr3 0"
  using unsigned_less [of "ri_channel_shm_size 64 attr3"] by (simp add: slots_apart_iff line64 sane_attr_def attr3_def)

lemma start3_reachable: "reachable start3"
proof -
  let ?sh = "\<lparr>sh_tail = 0, sh_head = 0, sh_chain = [0, 0, 0]\<rparr>"
  have r: "ring 3 = [1, 2, 0]" by (simp add: ring_def upt_rec)
  show ?thesis unfolding start3_def
  proof (rule reachable.start [where attr = attr3 and sh = ?sh and cls = 64 and addr = 0 and raw = "\<lambda>_. 0"])
    show "valid_queue_len attr3" by (simp add: valid_queue_len_def attr3_len)
    show "slots_apart 64 attr3 0" by (rule attr3_apart)
    show "length (sh_chain ?sh) = unat (ri_channel_queue_len attr3)" by (simp add: attr3_len)
    have "length (sh_chain (ri_producer_queue_init_shm ?sh)) = 3"
      by (simp add: ri_producer_queue_init_shm_def ri_queue_init_shm_def shared_ops)
    from run_producer_queue_new [OF attr3_len _ this, of 64 "\<lambda>_. 0" 0]
    show "run (ri_producer_queue_new 64 True (\<lambda>_. 0) (Some 0) attr3) (ri_producer_queue_init_shm ?sh) =
      Some (\<lparr>sh_tail = RI_INDEX_INVALID, sh_head = RI_INDEX_INVALID, sh_chain = [1, 2, 0]\<rparr>,
        Some \<lparr>p_queue = ri_queue_init 64 attr3 0, p_head = RI_INDEX_INVALID, p_current = 0,
          p_overrun = RI_INDEX_INVALID, p_chain = [1, 2, 0]\<rparr>)"
      by (simp add: r ri_producer_queue_init_shm_def ri_queue_init_shm_def shared_ops)
    show "ri_consumer_queue_new 64 True (Some 0) attr3 =
      Some \<lparr>c_queue = ri_queue_init 64 attr3 0, c_current = RI_INDEX_INVALID\<rparr>"
      by (simp add: ri_consumer_queue_new_def)
  qed
qed

end
