(* ===== verification/Delivery.thy ===== *)
theory Delivery
  imports Runs
begin

text \<open>
  What the queue of \<open>src/producer.c\<close> and \<open>src/consumer.c\<close> guarantees to its two clients, over all
  interleavings of their atomic accesses, and the runs in which \<open>ri_consumer_queue_flush\<close> breaks
  it. The runs are those of a queue of three slots (the shortest there is). All of it is about channels in which the chain does not
  reach into the messages (\<open>slots_apart\<close>, part of the start of \<open>reachable\<close>).
\<close>

section \<open>Runs\<close>

text \<open>A message is pushed, then taken; the producer overtakes the consumer and jumps over its slot.\<close>

definition push :: "nat \<Rightarrow> action list" where
  "push k = [Write 7, Write k, Force]"

definition overtaking :: "action list" where
  "overtaking = push 0 @ replicate 4 Producer_Goes @ [Pop] @ replicate 2 Consumer_Goes
     @ push 1 @ replicate 5 Producer_Goes @ push 2 @ replicate 6 Producer_Goes
     @ push 3 @ replicate 6 Producer_Goes @ [Pop] @ replicate 2 Consumer_Goes"

text \<open>
  A flush reads the head and is overtaken: the producer, having seen the mark \<open>FIRST\<close> in the tail,
  expects to find it there again, but the flush has cleared it.
\<close>

definition clearing :: "action list" where
  "clearing = push 0 @ replicate 4 Producer_Goes
     @ push 1 @ replicate 2 Producer_Goes @ [Flush, Consumer_Goes, Consumer_Goes]
     @ replicate 3 Producer_Goes @ push 2 @ replicate 4 Producer_Goes
     @ [Consumer_Goes, Consumer_Goes] @ replicate 2 Producer_Goes"

lemma overtaking_seen:
  "case perform overtaking start3 of None \<Rightarrow> False | Some s \<Rightarrow>
     sys_seen s = [(RI_POP_RESULT_SUCCESS, 0), (RI_POP_RESULT_DISCARDED, 3)] \<and> sys_sent s = 4"
  by code_simp

lemma overtaking_producer:
  "case perform overtaking start3 of None \<Rightarrow> False | Some s \<Rightarrow>
     (case sys_producer s of Producer_Idle P \<Rightarrow> p_current P = 2 | _ \<Rightarrow> False)"
  by code_simp

lemma overtaking_consumer:
  "case perform overtaking start3 of None \<Rightarrow> False | Some s \<Rightarrow>
     (case sys_consumer s of Consumer_Idle C \<Rightarrow> c_current C = 1 | _ \<Rightarrow> False)"
  by code_simp

lemmas overtaking_results = overtaking_seen overtaking_producer overtaking_consumer

lemma overtaking_reached:
  obtains s P C where "reachable s" and "sys_producer s = Producer_Idle P"
    and "sys_consumer s = Consumer_Idle C" and "p_current P = 2" and "c_current C = 1"
    and "sys_seen s = [(RI_POP_RESULT_SUCCESS, 0), (RI_POP_RESULT_DISCARDED, 3)]" and "sys_sent s = 4"
proof -
  obtain s where s: "perform overtaking start3 = Some s"
    using overtaking_results(1) by (cases "perform overtaking start3") simp_all
  have "Flush \<notin> set overtaking" by (simp add: overtaking_def push_def)
  then have "reachable s" by (rule perform_reachable [OF s start3_reachable])
  then show thesis using that overtaking_results [unfolded s option.case]
    by (cases "sys_producer s"; cases "sys_consumer s") auto
qed

section \<open>The guarantees\<close>

text \<open>
  C1. Whatever the interleaving of pushes, pops and queries, on a queue whose messages lie behind its chain (\<open>slots_apart\<close>), messages are delivered in the order
  they were sent: a pop that returns \<open>SUCCESS\<close> delivers the message sent directly after the last one
  delivered (the first one sent, for the first pop), and a pop that returns \<open>DISCARDED\<close> a later one.
\<close>

theorem delivery_in_order: "reachable s \<Longrightarrow> in_order None (sys_seen s)"
  using reachable_explained explainsD(6) by blast

theorem delivery_in_order_witness:
  "\<exists>s. reachable s \<and> sys_seen s = [(RI_POP_RESULT_SUCCESS, 0), (RI_POP_RESULT_DISCARDED, 3)] \<and>
     in_order None (sys_seen s)"
  by (rule overtaking_reached) (blast intro: delivery_in_order)

text \<open>
  C2. While the consumer is between two operations, the slot it holds keeps the message
  delivered last, whatever the producer and its client are doing at the time (on a queue whose messages lie behind its chain).
\<close>

theorem held_message_kept:
  assumes "reachable s" and "sys_consumer s = Consumer_Idle C" and "sys_seen s \<noteq> []"
  shows "c_current C \<noteq> RI_INDEX_INVALID \<and> sys_num s (c_current C) = snd (last (sys_seen s))"
proof -
  obtain v where v: "explains v s" using reachable_explained [OF assms(1)] by blast
  show ?thesis using explainsD(2,5) [OF v] assms(2,3)
    by (auto simp: last_number_def cons_ok_def holds_def)
qed

theorem held_message_kept_witness: "\<exists>s C. reachable s \<and> sys_consumer s = Consumer_Idle C \<and>
    sys_seen s \<noteq> [] \<and> c_current C = 1 \<and> sys_num s 1 = 3"
proof (rule overtaking_reached)
  fix s C assume s: "reachable s" "sys_consumer s = Consumer_Idle C" "c_current C = 1"
    and seen: "sys_seen s = [(RI_POP_RESULT_SUCCESS, 0), (RI_POP_RESULT_DISCARDED, 3)]"
  have "sys_num s (c_current C) = 3" using held_message_kept [OF s(1,2)] seen by simp
  then show ?thesis using s seen by auto
qed

text \<open>
  C3. Between operations the slot the producer's client writes is never the slot the consumer's client
  reads (on a queue whose messages lie behind its chain).
\<close>

theorem slots_exclusive:
  assumes "reachable s" and "sys_producer s = Producer_Idle P" and "sys_consumer s = Consumer_Idle C"
  shows "p_current P \<noteq> c_current C"
proof -
  obtain v where v: "explains v s" using reachable_explained [OF assms(1)] by blast
  have own: "v_own v = Some (p_current P)" and ok: "cons_ok C (last_number (sys_seen s)) v"
    using explainsD(4,5) [OF v] assms(2,3) by (simp_all add: resting_def prod_ok_def)
  note V = explainsD(3) [OF v]
  have p: "unat (p_current P) < length (v_chain v)" using wf_in_slots(1) [OF view_invD(1) [OF V] own] by blast
  show ?thesis
  proof (cases "last_number (sys_seen s)")
    case None
    then show ?thesis using ok slot_word_neq_invalid(1) [OF view_invD(1) [OF V] p]
      by (simp add: cons_ok_def)
  next
    case (Some k)
    then have h: "holds (c_current C) k v" using ok by (simp add: cons_ok_def)
    then show ?thesis using tail_not_own [OF V] own by (auto simp: holds_def split: if_splits)
  qed
qed

theorem slots_exclusive_witness: "\<exists>s P C. reachable s \<and> sys_producer s = Producer_Idle P \<and>
    sys_consumer s = Consumer_Idle C \<and> p_current P = 2 \<and> p_current P \<noteq> c_current C"
  by (rule overtaking_reached) (blast dest: slots_exclusive)

text \<open>
  C4. No reachable operation accesses the chain outside its bounds, and none of them returns
  an error: with a peer that follows the protocol, and messages that lie behind the chain, the \<open>ERROR\<close> results and negative counts
  (the \<open>-1\<close> of \<open>ri_producer_queue_count_msgs\<close>) are unreachable.
\<close>

theorem no_faults: "reachable s \<Longrightarrow> \<not> faulty (sys_producer s) \<and> \<not> consumer_faulty (sys_consumer s)"
  using reachable_explained explainsD(4,5) producer_not_faulty consumer_not_faulty by blast

theorem no_faults_witness: "\<exists>s. reachable s \<and> sys_sent s = 4 \<and> \<not> faulty (sys_producer s) \<and>
    \<not> consumer_faulty (sys_consumer s)"
  by (rule overtaking_reached) (blast dest: no_faults)

text \<open>Every message delivered had been sent by a push that was called before.\<close>

theorem delivered_were_sent:
  assumes "reachable s" and "sys_producer s = Producer_Idle P" and "(r, k) \<in> set (sys_seen s)"
  shows "k < sys_sent s"
proof -
  obtain v where v: "explains v s" using reachable_explained [OF assms(1)] by blast
  show ?thesis using explainsD(4,7) [OF v] assms(2,3) by (auto simp: resting_def)
qed

theorem delivered_were_sent_witness: "\<exists>s. reachable s \<and>
    sys_seen s = [(RI_POP_RESULT_SUCCESS, 0), (RI_POP_RESULT_DISCARDED, 3)] \<and> 3 < sys_sent s"
proof (rule overtaking_reached)
  fix s P assume s: "reachable s" "sys_producer s = Producer_Idle P"
    and seen: "sys_seen s = [(RI_POP_RESULT_SUCCESS, 0), (RI_POP_RESULT_DISCARDED, 3)]"
  have "3 < sys_sent s" by (rule delivered_were_sent [OF s]) (simp add: seen)
  then show ?thesis using s seen by blast
qed

section \<open>Wait-freedom\<close>

text \<open>
  C19. A forced push makes at most six accesses to shared memory, an attempted push five, a pop four,
  whatever the other side writes meanwhile; the query whether the queue is full makes one.
\<close>

theorem wait_free:
  "within (ri_producer_queue_force_push P) 6 \<and> within (ri_producer_queue_try_push P) 5 \<and>
   within (ri_producer_queue_full P) 1 \<and> within (ri_consumer_queue_pop C) 4"
  by (simp add: ri_producer_queue_force_push_def ri_producer_queue_try_push_def
      ri_producer_queue_full_def ri_consumer_queue_pop_def chain_get_def chain_store_def
      enqueue_first_msg_def enqueue_msg_def move_tail_def overrun_def requeue_overrun_def Let_def)

section \<open>What a flush breaks\<close>

text \<open>
  C34. With flushes among the operations, a state is reachable in which the producer's client
  writes the very slot the consumer's client reads.
\<close>

theorem flush_breaks_exclusion:
  "\<exists>s P C. reachable_with_flush s \<and> sys_producer s = Producer_Idle P \<and>
     sys_consumer s = Consumer_Idle C \<and> p_current P = c_current C"
proof -
  have c: "case perform clearing start3 of None \<Rightarrow> False | Some s \<Rightarrow>
     (case sys_producer s of Producer_Idle P \<Rightarrow>
       (case sys_consumer s of Consumer_Idle C \<Rightarrow> p_current P = c_current C | _ \<Rightarrow> False)
      | _ \<Rightarrow> False)"
    by code_simp
  then obtain s where s: "perform clearing start3 = Some s"
    by (cases "perform clearing start3") simp_all
  have "reachable_with_flush s"
    by (rule perform_with_flush [OF s reachable_with_flush.without [OF start3_reachable]])
  then show ?thesis using c s by (auto split: producer_thread.splits consumer_thread.splits)
qed




end
