(* ===== verification/Hostile.thy ===== *)
theory Hostile
  imports Producer Consumer
begin

text \<open>
  A queue whose other side does not follow the protocol: before every access the words in shared memory may have been replaced by any
  others. A consumer then still stays inside the chain and holds no slot that does not exist, so that it can report an error. A
  producer does not: the end of the theory has a run in which it leaves its private chain.
\<close>

section \<open>Accesses to foreign memory\<close>

text \<open>What may be left of the program \<open>p\<close> on a queue of \<open>n\<close> slots after some accesses.\<close>

inductive hostile :: "nat \<Rightarrow> 'r prog \<Rightarrow> 'r prog \<Rightarrow> bool" for n p where
  begun: "hostile n p p"
| access: "hostile n p q \<Longrightarrow> length (sh_chain sh) = n \<Longrightarrow> astep sh q = Some (sh', q') \<Longrightarrow> hostile n p q'"

text \<open>Whatever a program reads, it accesses only the first \<open>n\<close> words of the chain and ends with a result that satisfies \<open>Q\<close>.\<close>

primrec guarded :: "nat \<Rightarrow> ('r \<Rightarrow> bool) \<Rightarrow> 'r prog \<Rightarrow> bool" where
  "guarded n Q (Ret r) \<longleftrightarrow> Q r"
| "guarded n Q Fault \<longleftrightarrow> False"
| "guarded n Q (Tail_Load k) \<longleftrightarrow> (\<forall>v. guarded n Q (k v))"
| "guarded n Q (Tail_Store v p) \<longleftrightarrow> guarded n Q p"
| "guarded n Q (Tail_Fetch_Or v k) \<longleftrightarrow> (\<forall>v. guarded n Q (k v))"
| "guarded n Q (Tail_CAS e d k) \<longleftrightarrow> (\<forall>b. guarded n Q (k b))"
| "guarded n Q (Head_Load k) \<longleftrightarrow> (\<forall>v. guarded n Q (k v))"
| "guarded n Q (Head_Store v p) \<longleftrightarrow> guarded n Q p"
| "guarded n Q (Chain_Load i k) \<longleftrightarrow> unat i < n \<and> (\<forall>v. guarded n Q (k v))"
| "guarded n Q (Chain_Store i v p) \<longleftrightarrow> unat i < n \<and> guarded n Q p"

lemma guarded_access:
  assumes "guarded n Q q" and "length (sh_chain sh) = n" and "astep sh q = Some (sh', q')"
  shows "guarded n Q q'"
  using assms by (cases q) (auto simp: ri_queue_chain_load_def ri_queue_chain_store_def split: prod.splits)

lemma guarded_hostile: "hostile n p q \<Longrightarrow> guarded n Q p \<Longrightarrow> guarded n Q q"
  by (induction rule: hostile.induct) (blast intro: guarded_access)+

lemma guarded_result: "guarded n Q p \<Longrightarrow> hostile n p q \<Longrightarrow> q \<noteq> Fault \<and> (\<forall>r. q = Ret r \<longrightarrow> Q r)"
  using guarded_hostile [of n p q Q] by (cases q) auto

section \<open>The consumer\<close>

text \<open>The consumer holds no slot, or one that exists.\<close>

definition holds_slot :: "ri_queue \<Rightarrow> ri_consumer_queue \<Rightarrow> bool" where
  "holds_slot queue C \<longleftrightarrow> c_queue C = queue \<and> (c_current C = RI_INDEX_INVALID \<or> ri_queue_index_valid queue (c_current C))"

text \<open>After which results the consumer must have a message.\<close>

definition has_message :: "ri_pop_result \<Rightarrow> bool" where
  "has_message r \<longleftrightarrow> r = RI_POP_RESULT_SUCCESS \<or> r = RI_POP_RESULT_DISCARDED \<or> r = RI_POP_RESULT_NO_UPDATE"

definition kept_in_order :: "ri_queue \<Rightarrow> ri_consumer_queue \<times> ri_pop_result \<Rightarrow> bool" where
  "kept_in_order queue = (\<lambda>(C, r). holds_slot queue C \<and> (has_message r \<longrightarrow> ri_consumer_queue_msg C \<noteq> None))"

lemma valid_not_invalid: "ri_queue_index_valid queue idx \<Longrightarrow> idx \<noteq> RI_INDEX_INVALID"
  using word_n1_ge [of "q_n_msgs queue"]
  by (auto simp: ri_queue_index_valid_def RI_INDEX_INVALID_def UINT_MAX_def simp flip: linorder_not_less)

lemma valid_has_message: "ri_queue_index_valid (c_queue C) (c_current C) \<Longrightarrow> ri_consumer_queue_msg C \<noteq> None"
  using valid_not_invalid [of "c_queue C" "c_current C"]
  by (auto simp: ri_consumer_queue_msg_def ri_queue_get_msg_def ri_queue_index_valid_def not_le)

lemma kept_valid: "ri_queue_index_valid queue idx \<Longrightarrow> kept_in_order queue (\<lparr>c_queue = queue, c_current = idx\<rparr>, r)"
  using valid_has_message [of "\<lparr>c_queue = queue, c_current = idx\<rparr>"] by (simp add: kept_in_order_def holds_slot_def)

lemma kept_error: "holds_slot queue C \<Longrightarrow> \<not> has_message r \<Longrightarrow> kept_in_order queue (C, r)"
  by (simp add: kept_in_order_def)

lemma no_message [simp]: "\<not> has_message RI_POP_RESULT_ERROR" "\<not> has_message RI_POP_RESULT_NO_MSG"
  by (simp_all add: has_message_def)

lemma current_kept: "holds_slot queue C \<Longrightarrow> ri_queue_index_valid queue idx \<Longrightarrow> kept_in_order queue (C\<lparr>c_current := idx\<rparr>, r)"
  using kept_valid [of queue idx r] by (cases C) (auto simp: holds_slot_def)

lemma pop_guarded:
  assumes "holds_slot queue C"
  shows "guarded (unat (q_n_msgs queue)) (kept_in_order queue) (ri_consumer_queue_pop C)"
proof -
  have v: "ri_queue_index_valid queue idx \<longleftrightarrow> unat idx < unat (q_n_msgs queue)" for idx
    by (simp add: ri_queue_index_valid_def word_less_nat_alt)
  have "c_current C \<noteq> RI_INDEX_INVALID \<Longrightarrow> ri_queue_index_valid queue (c_current C)" "c_queue C = queue"
    using assms by (auto simp: holds_slot_def)
  moreover have "kept_in_order queue (C, r)" if "c_current C \<noteq> RI_INDEX_INVALID" for r
    using current_kept [OF assms, of "c_current C" r] calculation that by (cases C) auto
  ultimately show ?thesis using assms
    by (auto simp: ri_consumer_queue_pop_def Let_def kept_error current_kept simp flip: v)
qed

lemma flush_guarded:
  assumes "holds_slot queue C"
  shows "guarded (unat (q_n_msgs queue)) (\<lambda>(C', r). holds_slot queue C' \<and> (\<forall>x. r = Some x \<longrightarrow> kept_in_order queue (C', x))) (flush_body C)"
proof -
  have "holds_slot queue (C\<lparr>c_current := idx\<rparr>)" if "ri_queue_index_valid queue idx" for idx using assms that by (simp add: holds_slot_def)
  moreover have "c_queue C = queue" using assms by (simp add: holds_slot_def)
  ultimately show ?thesis using assms by (simp add: flush_body_def Let_def kept_error current_kept)
qed

lemma consumer_count_guarded: "ri_queue_index_valid queue next \<Longrightarrow> guarded (unat (q_n_msgs queue)) (\<lambda>_. True) (consumer_count_loop queue k cnt next)"
  by (induction k arbitrary: cnt "next") (auto simp: ri_queue_index_valid_def word_less_nat_alt)

lemma count_guarded: "c_queue C = queue \<Longrightarrow> guarded (unat (q_n_msgs queue)) (\<lambda>_. True) (ri_consumer_queue_count_msgs C)"
  by (simp add: ri_consumer_queue_count_msgs_def Let_def consumer_count_guarded)

text \<open>The consumer of a queue after any number of pops and rounds of flushes.\<close>

inductive hostile_consumer :: "ri_queue \<Rightarrow> ri_consumer_queue \<Rightarrow> bool" for queue where
  created: "ri_consumer_queue_new cls allocated ptr attr = Some C \<Longrightarrow> c_queue C = queue \<Longrightarrow> hostile_consumer queue C"
| popped: "hostile_consumer queue C \<Longrightarrow> hostile (unat (q_n_msgs queue)) (ri_consumer_queue_pop C) (Ret (C', r)) \<Longrightarrow> hostile_consumer queue C'"
| flushed: "hostile_consumer queue C \<Longrightarrow> hostile (unat (q_n_msgs queue)) (flush_body C) (Ret (C', r')) \<Longrightarrow> hostile_consumer queue C'"

lemma hostile_consumer_holds: "hostile_consumer queue C \<Longrightarrow> holds_slot queue C"
proof (induction rule: hostile_consumer.induct)
  case (popped C C' r)
  then show ?case using guarded_result [OF pop_guarded] by (fastforce simp: kept_in_order_def)
next
  case (flushed C C' r)
  then show ?case using guarded_result [OF flush_guarded] by fastforce
qed (auto simp: ri_consumer_queue_new_def holds_slot_def split: if_splits option.splits)

section \<open>Properties\<close>

text \<open>
  C39. Whatever the other process writes into the shared memory, and whenever: a pop, a round of a flush and a count of the consumer
  never access the chain outside its bounds, in no state the consumer can be in after any number of such pops and flushes; and after a pop or
  flush that does not report an error or an empty queue the consumer has a message of the queue.
\<close>

theorem consumer_survives_hostile_producer:
  assumes "hostile_consumer queue C" and "n = unat (q_n_msgs queue)"
  shows "(hostile n (ri_consumer_queue_pop C) p \<longrightarrow> p \<noteq> Fault \<and>
      (\<forall>C' r. p = Ret (C', r) \<and> has_message r \<longrightarrow> ri_consumer_queue_msg C' \<noteq> None)) \<and>
    (hostile n (flush_body C) f \<longrightarrow> f \<noteq> Fault \<and>
      (\<forall>C' r. f = Ret (C', Some r) \<and> has_message r \<longrightarrow> ri_consumer_queue_msg C' \<noteq> None)) \<and>
    (hostile n (ri_consumer_queue_count_msgs C) c \<longrightarrow> c \<noteq> Fault)"
proof -
  have C: "holds_slot queue C" by (rule hostile_consumer_holds [OF assms(1)])
  then have "c_queue C = queue" by (simp add: holds_slot_def)
  then show ?thesis
    unfolding assms(2) using guarded_result [OF pop_guarded [OF C], of p] guarded_result [OF flush_guarded [OF C], of f]
      guarded_result [OF count_guarded, of C queue c]
    by (auto simp: kept_in_order_def)
qed

text \<open>A new consumer of three slots, a tail that names slot 1, and one that names no slot when the consumer comes back.\<close>

definition small_consumer :: ri_consumer_queue where
  "small_consumer = \<lparr>c_queue = ri_queue_init 64 \<lparr>a_msg_size = 8, a_add_msgs = 0, a_eventfd = False, a_info = info_zero\<rparr> 4096,
     c_current = RI_INDEX_INVALID\<rparr>"

definition words_of :: "u32 \<Rightarrow> u32 list \<Rightarrow> shared" where
  "words_of tail chain = \<lparr>sh_tail = tail, sh_head = 0, sh_chain = chain\<rparr>"

lemma first_access:
  assumes "astep (words_of tail chain) (ri_consumer_queue_pop C) = Some (sh', q)" and "length chain = n"
  shows "hostile n (ri_consumer_queue_pop C) q"
  by (rule access [OF begun _ assms(1)]) (simp add: words_of_def assms(2))

theorem consumer_survives_hostile_producer_witness:
  "\<exists>C. hostile 3 (ri_consumer_queue_pop small_consumer) (Ret (C, RI_POP_RESULT_DISCARDED)) \<and> ri_consumer_queue_msg C \<noteq> None \<and>
     (\<exists>p. hostile 3 (ri_consumer_queue_pop C) p \<and> p \<noteq> Fault \<and> p = Ret (C, RI_POP_RESULT_ERROR))"
proof -
  let ?q = "c_queue small_consumer" and ?C = "small_consumer\<lparr>c_current := 1\<rparr>"
  have n: "unat (q_n_msgs ?q) = 3" by code_simp
  have new: "hostile_consumer ?q small_consumer"
    by (rule created [of 64 True "Some 4096"]) (simp_all add: ri_consumer_queue_new_def small_consumer_def)
  have "map_option snd (astep (words_of 1 [0, 0, 0]) (ri_consumer_queue_pop small_consumer)) = Some (Ret (?C, RI_POP_RESULT_DISCARDED))"
    by code_simp
  then obtain sh1 where "astep (words_of 1 [0, 0, 0]) (ri_consumer_queue_pop small_consumer) = Some (sh1, Ret (?C, RI_POP_RESULT_DISCARDED))" by auto
  then have p: "hostile 3 (ri_consumer_queue_pop small_consumer) (Ret (?C, RI_POP_RESULT_DISCARDED))" by (rule first_access) simp
  have m: "ri_consumer_queue_msg ?C \<noteq> None"
    using consumer_survives_hostile_producer [OF new n [symmetric], of "Ret (?C, RI_POP_RESULT_DISCARDED)" Fault Fault] p by (simp add: has_message_def)
  have "map_option snd (astep (words_of 0x77 [9, 9, 9]) (ri_consumer_queue_pop ?C)) = Some (Ret (?C, RI_POP_RESULT_ERROR))" by code_simp
  then obtain sh2 where "astep (words_of 0x77 [9, 9, 9]) (ri_consumer_queue_pop ?C) = Some (sh2, Ret (?C, RI_POP_RESULT_ERROR))" by auto
  then have e: "hostile 3 (ri_consumer_queue_pop ?C) (Ret (?C, RI_POP_RESULT_ERROR))" by (rule first_access) simp
  show ?thesis using p m e by blast
qed

section \<open>The producer\<close>

text \<open>
  The producer trusts the tail to name a slot that can be taken. Before a push the consumer may put a tail of its own there; the pushes go
  on as long as none reports an error.
\<close>

fun pushes_on :: "u32 option list \<Rightarrow> shared \<Rightarrow> ri_producer_queue \<Rightarrow> (shared \<times> ri_producer_queue) option" where
  "pushes_on [] sh P = Some (sh, P)"
| "pushes_on (t # ts) sh P =
     (case run (ri_producer_queue_force_push P) (case t of None \<Rightarrow> sh | Some tail \<Rightarrow> sh\<lparr>sh_tail := tail\<rparr>) of
        Some (sh, P, r) \<Rightarrow> if r = RI_FORCE_PUSH_RESULT_ERROR then None else pushes_on ts sh P
      | None \<Rightarrow> None)"

definition small_producer :: "shared \<Rightarrow> (shared \<times> ri_producer_queue) option" where
  "small_producer sh =
     (case run (ri_producer_queue_new 64 True (\<lambda>_. 0) (Some 4096) \<lparr>a_msg_size = 8, a_add_msgs = 0, a_eventfd = False, a_info = info_zero\<rparr>) sh of
        Some (sh, Some P) \<Rightarrow> Some (ri_producer_queue_init_shm sh, P)
      | _ \<Rightarrow> None)"

text \<open>
  Three pushes fill the queue, a consumed tail makes the fourth one overtake the consumer, and then the tail is put onto the newest message:
  the producer takes that slot for its own, and three pushes later its current slot is no slot at all. The next push, as every later
  one, begins with a read behind the end of its private chain.
\<close>

lemma hostile_tail_run:
  "case small_producer (words_of 0 [0, 0, 0]) of
     Some (sh, P) \<Rightarrow> (case pushes_on [None, None, None, Some (1 OR RI_CONSUMED_FLAG), Some 2, Some RI_CONSUMED_FLAG, Some 0] sh P of
        Some (sh, P) \<Rightarrow> p_current P = RI_INDEX_INVALID \<and> length (p_chain P) = 3
      | None \<Rightarrow> False)
   | None \<Rightarrow> False"
  by code_simp

lemma hostile_tail_breaks_producer:
  "\<exists>sh P sh' P'. small_producer (words_of 0 [0, 0, 0]) = Some (sh, P) \<and>
     pushes_on [None, None, None, Some (1 OR RI_CONSUMED_FLAG), Some 2, Some RI_CONSUMED_FLAG, Some 0] sh P = Some (sh', P') \<and>
     ri_producer_queue_force_push P' = Fault \<and> ri_producer_queue_try_push P' = Fault"
proof -
  obtain sh P sh' P' where r: "small_producer (words_of 0 [0, 0, 0]) = Some (sh, P)"
    "pushes_on [None, None, None, Some (1 OR RI_CONSUMED_FLAG), Some 2, Some RI_CONSUMED_FLAG, Some 0] sh P = Some (sh', P')"
    and P: "p_current P' = RI_INDEX_INVALID" "length (p_chain P') = 3"
    using hostile_tail_run by (auto split: option.splits)
  have out: "\<not> unat RI_INDEX_INVALID < 3"
    by (simp add: RI_INDEX_INVALID_def UINT_MAX_def unsigned_minus_1_eq_mask mask_eq_exp_minus_1)
  have "ri_producer_queue_force_push P' = Fault \<and> ri_producer_queue_try_push P' = Fault"
    using P by (simp add: ri_producer_queue_force_push_def ri_producer_queue_try_push_def chain_get_def out)
  with r show ?thesis by blast
qed

end
