(* ===== verification/Sequential.thy ===== *)
theory Sequential
  imports Ring Consumer
begin

text \<open>
  The queue operations without interference: a fresh queue takes one message less than it has slots, hands them
  out in order, and counts them; the test for fullness answers the wrong way round; a flush needs one round.
\<close>

section \<open>A queue after some pushes\<close>

text \<open>\<open>k\<close> pushes into a fresh queue of \<open>n\<close> slots, the results collected; and \<open>k\<close> pops, with the slot held after each.\<close>

fun pushes :: "nat \<Rightarrow> shared \<Rightarrow> ri_producer_queue \<Rightarrow> (shared \<times> ri_producer_queue \<times> ri_try_push_result list) option" where
  "pushes 0 sh producer = Some (sh, producer, [])"
| "pushes (Suc k) sh producer = (case pushes k sh producer of
     None \<Rightarrow> None
   | Some (sh, producer, rs) \<Rightarrow> (case run (ri_producer_queue_try_push producer) sh of
       None \<Rightarrow> None
     | Some (sh, producer, r) \<Rightarrow> Some (sh, producer, rs @ [r])))"

fun pops :: "nat \<Rightarrow> shared \<Rightarrow> ri_consumer_queue \<Rightarrow> (shared \<times> ri_consumer_queue \<times> (ri_pop_result \<times> ri_index) list) option" where
  "pops 0 sh consumer = Some (sh, consumer, [])"
| "pops (Suc k) sh consumer = (case pops k sh consumer of
     None \<Rightarrow> None
   | Some (sh, consumer, rs) \<Rightarrow> (case run (ri_consumer_queue_pop consumer) sh of
       None \<Rightarrow> None
     | Some (sh, consumer, r) \<Rightarrow> Some (sh, consumer, rs @ [(r, c_current consumer)])))"

definition chain_at :: "nat \<Rightarrow> nat \<Rightarrow> ri_index list" where
  "chain_at n k = (case k of 0 \<Rightarrow> ring n | Suc j \<Rightarrow> (ring n)[j := RI_INDEX_INVALID])"

definition head_at :: "nat \<Rightarrow> ri_index" where
  "head_at k = (case k of 0 \<Rightarrow> RI_INDEX_INVALID | Suc j \<Rightarrow> of_nat j)"

definition pushed :: "nat \<Rightarrow> nat \<Rightarrow> shared" where
  "pushed n k = \<lparr>sh_tail = (if k = 0 then RI_INDEX_INVALID else 0 OR RI_FIRST_FLAG), sh_head = head_at k,
     sh_chain = chain_at n k\<rparr>"

definition pushing :: "nat \<Rightarrow> ri_queue \<Rightarrow> nat \<Rightarrow> ri_producer_queue" where
  "pushing n queue k = \<lparr>p_queue = queue, p_head = head_at k, p_current = of_nat k, p_overrun = RI_INDEX_INVALID,
     p_chain = chain_at n k\<rparr>"

lemma length_ring [simp]: "length (ring n) = n"
  by (simp add: ring_def)

lemma nth_ring: "i < n \<Longrightarrow> ring n ! i = (if Suc i = n then 0 else of_nat (Suc i))"
  by (simp add: ring_def)

lemma length_chain_at [simp]: "length (chain_at n k) = n"
  by (simp add: chain_at_def split: nat.split)

lemma small_not_invalid: "i < n \<Longrightarrow> n < 2 ^ 30 \<Longrightarrow> (of_nat i :: u32) \<noteq> RI_INDEX_INVALID"
proof
  assume "i < n" "n < 2 ^ 30" and "(of_nat i :: u32) = RI_INDEX_INVALID"
  then have "unat (of_nat i :: u32) = 0xFFFFFFFF" by simp
  then show False using \<open>i < n\<close> \<open>n < 2 ^ 30\<close> unat_small [of i n] by simp
qed

lemma nth_chain_at: "i < n \<Longrightarrow> chain_at n k ! i = (if Suc i = k then RI_INDEX_INVALID else if Suc i = n then 0 else of_nat (Suc i))"
  by (cases k) (simp_all add: chain_at_def nth_ring nth_list_update)

text \<open>The two stores of a push.\<close>

lemma chain_at_Suc: "Suc k < n \<Longrightarrow> (if k = 0 then (chain_at n k)[k := RI_INDEX_INVALID]
    else (chain_at n k)[k := RI_INDEX_INVALID, k - 1 := of_nat k]) = chain_at n (Suc k)"
  by (rule nth_equalityI) (auto simp: nth_chain_at nth_list_update chain_at_def nth_ring split: nat.splits)

lemma chain_at_0: "(chain_at n 0)[0 := RI_INDEX_INVALID] = chain_at n (Suc 0)"
  by (simp add: chain_at_def)

lemma tail_index: "(RI_FIRST_FLAG :: u32) AND RI_INDEX_MASK = 0"
  by (simp add: index_consts)

lemma push_step:
  assumes n: "3 \<le> n" "n < 2 ^ 30" and q: "q_n_msgs queue = of_nat n" and k: "Suc k < n"
  shows "run (ri_producer_queue_try_push (pushing n queue k)) (pushed n k) =
    Some (pushed n (Suc k), pushing n queue (Suc k), RI_TRY_PUSH_RESULT_SUCCESS)"
proof (cases k)
  case 0
  show ?thesis using n k 0
    by (simp add: ri_producer_queue_try_push_def pushing_def pushed_def chain_get_def head_at_def nth_chain_at
        enqueue_first_msg_def chain_store_def shared_ops chain_at_0)
next
  case (Suc j)
  have u: "unat (of_nat j :: u32) = j" "unat (of_nat k :: u32) = k" using unat_small [of j n] unat_small [of k n] k n Suc by simp_all
  have h: "(of_nat j :: u32) \<noteq> RI_INDEX_INVALID" using small_not_invalid [of j n] k n Suc by simp
  have v: "ri_queue_index_valid queue 0" using n q by (simp add: ri_queue_index_valid_def word_less_nat_alt unat_small [of n "2 ^ 30 - 1"] unat_of_nat)
  have z: "(of_nat (Suc k) :: u32) \<noteq> 0" using k n unat_small [of "Suc k" n] by (metis nat.simps(3) unat_0)
  show ?thesis using n k Suc h v u z chain_at_Suc [OF k]
    by (simp add: ri_producer_queue_try_push_def pushing_def pushed_def chain_get_def head_at_def nth_chain_at
        enqueue_msg_def chain_store_def shared_ops tail_index)
qed


lemma push_full:
  assumes n: "3 \<le> n" "n < 2 ^ 30" and q: "q_n_msgs queue = of_nat n" and k: "Suc k = n"
  shows "run (ri_producer_queue_try_push (pushing n queue k)) (pushed n k) =
    Some (pushed n k, pushing n queue k, RI_TRY_PUSH_RESULT_FAIL)"
proof -
  obtain j where j: "k = Suc j" using n(1) k by (cases k) auto
  have u: "unat (of_nat k :: u32) = k" "unat (of_nat n :: u32) = n" using n k by (simp_all add: unsigned_of_nat take_bit_nat_eq_self)
  have h: "(of_nat j :: u32) \<noteq> RI_INDEX_INVALID" using small_not_invalid [of j n] n j k by simp
  have v: "ri_queue_index_valid queue 0" using n q by (simp add: ri_queue_index_valid_def word_less_nat_alt u)
  have hd: "head_at k = of_nat j" using j by (simp add: head_at_def)
  have c: "chain_at n k ! k = 0" "k < n" "0 < k" using k j by (simp_all add: nth_chain_at)
  show ?thesis using c h v u
    by (simp add: ri_producer_queue_try_push_def pushing_def pushed_def chain_get_def hd shared_ops tail_index)
qed

lemma pushes_eq:
  assumes n: "3 \<le> n" "n < 2 ^ 30" and q: "q_n_msgs queue = of_nat n" and k: "k < n"
  shows "pushes k (pushed n 0) (pushing n queue 0) =
    Some (pushed n k, pushing n queue k, replicate k RI_TRY_PUSH_RESULT_SUCCESS)"
  using k
proof (induction k)
  case (Suc k)
  then show ?case using push_step [OF n q, of k] by (simp add: replicate_append_same)
qed simp

lemma count_eq:
  assumes n: "3 \<le> n" "n < 2 ^ 30" and k: "k < n" "0 < k"
  shows "i < k \<Longrightarrow> i + d = n \<Longrightarrow> run (count_loop queue d (of_nat i) (of_nat i)) (pushed n k) = Some (pushed n k, int k)"
proof (induction d arbitrary: i)
  case 0
  then show ?case using k by simp
next
  case (Suc d)
  have u: "unat (of_nat i :: u32) = i" using Suc.prems k n by (intro unat_small [of i n]) simp_all
  have v: "(of_nat i :: u32) \<noteq> RI_INDEX_INVALID" using small_not_invalid [of i n] Suc.prems k n by simp
  show ?case
  proof (cases "Suc i = k")
    case True
    have "run (count_loop queue d (of_nat i + 1) RI_INDEX_INVALID) (pushed n k) = Some (pushed n k, int k)"
    proof (cases d)
      case 0
      then show ?thesis using Suc.prems k True by simp
    next
      case (Suc e)
      have "sint (of_nat k :: u32) = int k" by (rule sint_of_nat_small) (use k n in simp)
      moreover have "(of_nat i + 1 :: u32) = of_nat k" using True by auto
      ultimately show ?thesis using Suc by simp
    qed
    then show ?thesis using Suc.prems k u v True by (simp add: shared_ops pushed_def nth_chain_at)
  next
    case False
    then have "run (count_loop queue d (of_nat (Suc i)) (of_nat (Suc i))) (pushed n k) = Some (pushed n k, int k)"
      using Suc.prems by (intro Suc.IH) simp_all
    then show ?thesis using Suc.prems k u v False by (simp add: shared_ops pushed_def nth_chain_at add.commute)
  qed
qed

lemma counted:
  assumes n: "3 \<le> n" "n < 2 ^ 30" and q: "q_n_msgs queue = of_nat n" and k: "k < n"
  shows "run (ri_producer_queue_count_msgs (pushing n queue k)) (pushed n k) = Some (pushed n k, int k)"
proof (cases k)
  case 0
  then show ?thesis by (simp add: ri_producer_queue_count_msgs_def pushing_def head_at_def)
next
  case (Suc j)
  have u: "unat (of_nat n :: u32) = n" using n by (simp add: unsigned_of_nat take_bit_nat_eq_self)
  have h: "(of_nat j :: u32) \<noteq> RI_INDEX_INVALID" using small_not_invalid [of j n] k n Suc by simp
  have v: "ri_queue_index_valid queue 0" using n q by (simp add: ri_queue_index_valid_def word_less_nat_alt u)
  have f: "flagged RI_FIRST_FLAG RI_FIRST_FLAG" using flagged_or_first [of 0] by simp
  have "run (count_loop queue n 0 0) (pushed n k) = Some (pushed n k, int k)"
    using count_eq [OF n k, of 0 n] Suc by simp
  then show ?thesis using Suc h v f q u
    by (simp add: ri_producer_queue_count_msgs_def pushing_def head_at_def pushed_def shared_ops tail_index)
qed


section \<open>Popping them\<close>

text \<open>The tail keeps the flag of the first push until the second pop.\<close>

definition tail_at :: "nat \<Rightarrow> ri_index" where
  "tail_at j = (if j = 0 then RI_FIRST_FLAG OR RI_CONSUMED_FLAG else of_nat j OR RI_CONSUMED_FLAG)"

definition popped :: "nat \<Rightarrow> nat \<Rightarrow> nat \<Rightarrow> shared" where
  "popped n k j = (case j of 0 \<Rightarrow> pushed n k | Suc i \<Rightarrow> (pushed n k)\<lparr>sh_tail := tail_at i\<rparr>)"

definition popping :: "ri_queue \<Rightarrow> nat \<Rightarrow> ri_consumer_queue" where
  "popping queue j = \<lparr>c_queue = queue, c_current = head_at j\<rparr>"

lemma pop_first:
  assumes n: "3 \<le> n" "n < 2 ^ 30" and q: "q_n_msgs queue = of_nat n" and k: "0 < k" "k < n"
  shows "run (ri_consumer_queue_pop (popping queue 0)) (popped n k 0) =
    Some (popped n k 1, popping queue 1, RI_POP_RESULT_SUCCESS)"
proof -
  have u: "unat (of_nat n :: u32) = n" using n by (simp add: unsigned_of_nat take_bit_nat_eq_self)
  have v: "ri_queue_index_valid queue 0" using n q by (simp add: ri_queue_index_valid_def word_less_nat_alt u)
  have f: "flagged RI_FIRST_FLAG RI_FIRST_FLAG" "\<not> flagged RI_FIRST_FLAG RI_CONSUMED_FLAG" "RI_FIRST_FLAG \<noteq> RI_INDEX_INVALID"
    by (simp_all add: index_consts flagged_def)
  show ?thesis using k v f
    by (simp add: ri_consumer_queue_pop_def popping_def popped_def pushed_def head_at_def tail_at_def shared_ops tail_index)
qed

lemma tail_at_facts:
  assumes "i < n" and "n < 2 ^ 30" and "q_n_msgs queue = of_nat n"
  shows "tail_at i \<noteq> RI_INDEX_INVALID" and "flagged (tail_at i) RI_CONSUMED_FLAG"
    and "ri_queue_index_valid queue (tail_at i AND RI_INDEX_MASK)" and "tail_at i OR RI_CONSUMED_FLAG = tail_at i"
proof -
  have u: "unat (of_nat i :: u32) = i" "unat (of_nat n :: u32) = n"
    using assms by (simp_all add: unsigned_of_nat take_bit_nat_eq_self)
  have m: "tail_at i AND RI_INDEX_MASK = of_nat i"
    using small_mask [of "of_nat i"] u assms by (simp add: tail_at_def mask_or_consumed tail_index)
  show "tail_at i \<noteq> RI_INDEX_INVALID"
  proof
    assume "tail_at i = RI_INDEX_INVALID"
    then have "i = 0x3FFFFFFF" using m u(1) invalid_mask by simp
    then show False using assms by simp
  qed
  show f: "flagged (tail_at i) RI_CONSUMED_FLAG" by (simp add: tail_at_def flagged_or_consumed)
  show "tail_at i OR RI_CONSUMED_FLAG = tail_at i" using f by (rule or_consumed_idem)
  show "ri_queue_index_valid queue (tail_at i AND RI_INDEX_MASK)"
    unfolding m using assms u by (simp add: ri_queue_index_valid_def word_less_nat_alt)
qed

lemma pop_step:
  assumes n: "3 \<le> n" "n < 2 ^ 30" and q: "q_n_msgs queue = of_nat n" and k: "k < n" and i: "i < k"
  shows "run (ri_consumer_queue_pop (popping queue (Suc i))) (popped n k (Suc i)) =
    (if Suc i = k then Some (popped n k (Suc i), popping queue (Suc i), RI_POP_RESULT_NO_UPDATE)
     else Some (popped n k (Suc (Suc i)), popping queue (Suc (Suc i)), RI_POP_RESULT_SUCCESS))"
proof -
  have u: "unat (of_nat i :: u32) = i" "unat (of_nat n :: u32) = n" "unat (of_nat (Suc i) :: u32) = Suc i"
    using n k i by (simp_all only: unsigned_of_nat) (simp_all add: take_bit_nat_eq_self)
  have h: "(of_nat i :: u32) \<noteq> RI_INDEX_INVALID" "(of_nat (Suc i) :: u32) \<noteq> RI_INDEX_INVALID \<or> Suc i = n"
    using small_not_invalid [of i n] small_not_invalid [of "Suc i" n] n i k by simp_all
  have v: "Suc i < n \<Longrightarrow> ri_queue_index_valid queue (of_nat (Suc i))"
    using q u by (simp add: ri_queue_index_valid_def word_less_nat_alt)
  have c: "chain_at n k ! i = (if Suc i = k then RI_INDEX_INVALID else of_nat (Suc i))" "i < n"
    using k i by (simp_all add: nth_chain_at)
  note t = tail_at_facts [OF c(2) n(2) q]
  have t': "tail_at (Suc i) = of_nat (Suc i) OR RI_CONSUMED_FLAG" by (simp add: tail_at_def)
  have e: "ri_consumer_queue_pop (popping queue (Suc i)) = ri_consumer_queue_pop \<lparr>c_queue = queue, c_current = of_nat i\<rparr>"
    by (simp add: popping_def head_at_def)
  have s: "popped n k (Suc i) = \<lparr>sh_tail = tail_at i, sh_head = head_at k, sh_chain = chain_at n k\<rparr>"
    by (simp add: popped_def pushed_def)
  show ?thesis
  proof (cases "Suc i = k")
    case True
    then show ?thesis unfolding e s using t h c u True [symmetric]
      by (simp add: ri_consumer_queue_pop_def shared_ops popping_def head_at_def)
  next
    case False
    then have "Suc i < n" using i k by simp
    then show ?thesis unfolding e s using t h c u v False t'
      by (simp add: ri_consumer_queue_pop_def shared_ops popping_def head_at_def popped_def pushed_def
          del: of_nat_Suc)
  qed
qed

lemma pops_eq:
  assumes n: "3 \<le> n" "n < 2 ^ 30" and q: "q_n_msgs queue = of_nat n" and k: "k < n"
  shows "j \<le> k \<Longrightarrow> pops j (popped n k 0) (popping queue 0) =
    Some (popped n k j, popping queue j, map (\<lambda>i. (RI_POP_RESULT_SUCCESS, of_nat i)) [0..<j])"
proof (induction j)
  case (Suc j)
  show ?case
  proof (cases j)
    case 0
    then show ?thesis using Suc pop_first [OF n q _ k] by (simp add: popping_def head_at_def)
  next
    case (Suc i)
    then show ?thesis using \<open>Suc j \<le> k\<close> Suc.IH pop_step [OF n q k, of i] by (simp add: popping_def head_at_def)
  qed
qed simp


section \<open>Properties\<close>

lemma new_queue:
  assumes n: "unat (ri_channel_queue_len attr) = n" "3 \<le> n" and len: "length (sh_chain sh) = n"
    and new: "run (ri_producer_queue_new cls True raw (Some addr) attr) sh = Some (sh1, Some producer)"
  shows "ri_producer_queue_init_shm sh1 = pushed n 0" and "producer = pushing n (ri_queue_init cls attr addr) 0"
    and "q_n_msgs (ri_queue_init cls attr addr) = of_nat n"
proof -
  have "sh1 = sh\<lparr>sh_chain := ring n\<rparr>" "producer = \<lparr>p_queue = ri_queue_init cls attr addr, p_head = RI_INDEX_INVALID,
      p_current = 0, p_overrun = RI_INDEX_INVALID, p_chain = ring n\<rparr>"
    using run_producer_queue_new [OF n(1) _ len] n(2) new by simp_all
  then show "ri_producer_queue_init_shm sh1 = pushed n 0" "producer = pushing n (ri_queue_init cls attr addr) 0"
    by (simp_all add: ri_producer_queue_init_shm_def ri_queue_init_shm_def shared_ops pushed_def pushing_def head_at_def
        chain_at_def)
  show "q_n_msgs (ri_queue_init cls attr addr) = of_nat n" using n(1) by (auto simp: ri_queue_init_def)
qed

text \<open>
  C13. A new queue of \<open>n\<close> slots accepts \<open>n - 1\<close> messages one after the other, reports their number, and
  refuses the next: the last slot is the one the producer writes to. (\<open>rtipc.h\<close> documents a capacity of \<open>3 + add_msgs\<close>, which is \<open>n\<close>.)
\<close>

theorem queue_capacity:
  assumes "unat (ri_channel_queue_len attr) = n" and "3 \<le> n" and "n < 2 ^ 30" and "length (sh_chain sh) = n"
    and "run (ri_producer_queue_new cls True raw (Some addr) attr) sh = Some (sh1, Some producer)"
    and "k < n"
  shows "\<exists>sh2 p. pushes k (ri_producer_queue_init_shm sh1) producer =
      Some (sh2, p, replicate k RI_TRY_PUSH_RESULT_SUCCESS) \<and>
    run (ri_producer_queue_count_msgs p) sh2 = Some (sh2, int k) \<and>
    (Suc k = n \<longrightarrow> run (ri_producer_queue_try_push p) sh2 = Some (sh2, p, RI_TRY_PUSH_RESULT_FAIL))"
proof -
  note new = new_queue [OF assms(1,2,4,5)]
  show ?thesis unfolding new(1,2)
    using pushes_eq [OF assms(2,3) new(3) assms(6)] counted [OF assms(2,3) new(3) assms(6)] push_full [OF assms(2,3) new(3)]
    by simp
qed

definition five_slots :: ri_channel_attr where
  "five_slots = \<lparr>a_msg_size = 8, a_add_msgs = 2, a_eventfd = False, a_info = info_zero\<rparr>"

definition raw_words :: shared where
  "raw_words = \<lparr>sh_tail = 7, sh_head = 7, sh_chain = replicate 5 7\<rparr>"

lemma five_slots_new:
  "case run (ri_producer_queue_new 64 True (\<lambda>_. 9) (Some 4096) five_slots) raw_words of Some (_, Some _) \<Rightarrow> True | _ \<Rightarrow> False"
  by code_simp

lemma five_slots_len: "unat (ri_channel_queue_len five_slots) = 5"
  by code_simp

theorem queue_capacity_witness:
  "\<exists>sh1 producer sh2 p. run (ri_producer_queue_new 64 True (\<lambda>_. 9) (Some 4096) five_slots) raw_words = Some (sh1, Some producer) \<and>
     pushes 4 (ri_producer_queue_init_shm sh1) producer = Some (sh2, p, replicate 4 RI_TRY_PUSH_RESULT_SUCCESS) \<and>
     run (ri_producer_queue_try_push p) sh2 = Some (sh2, p, RI_TRY_PUSH_RESULT_FAIL)"
proof -
  obtain sh1 producer where new:
    "run (ri_producer_queue_new 64 True (\<lambda>_. 9) (Some 4096) five_slots) raw_words = Some (sh1, Some producer)"
    using five_slots_new by (auto split: option.splits prod.splits)
  from queue_capacity [OF five_slots_len _ _ _ new, of 4] new show ?thesis by (fastforce simp: raw_words_def)
qed

text \<open>
  The messages come out in the order they went in: \<open>k\<close> pops after \<open>k\<close> pushes all succeed and hold the slots
  that were filled first, second, and so on; one more pop finds nothing new.
\<close>

theorem queue_fifo:
  assumes "unat (ri_channel_queue_len attr) = n" and "3 \<le> n" and "n < 2 ^ 30" and "length (sh_chain sh) = n"
    and "run (ri_producer_queue_new cls True raw (Some addr) attr) sh = Some (sh1, Some producer)"
    and "ri_consumer_queue_new cls True (Some addr) attr = Some consumer"
    and "k < n"
  shows "\<exists>sh2 p sh3 c. pushes k (ri_producer_queue_init_shm sh1) producer =
      Some (sh2, p, replicate k RI_TRY_PUSH_RESULT_SUCCESS) \<and>
    pops k sh2 consumer = Some (sh3, c, map (\<lambda>i. (RI_POP_RESULT_SUCCESS, of_nat i)) [0..<k]) \<and>
    run (ri_consumer_queue_pop c) sh3 =
      Some (sh3, c, if k = 0 then RI_POP_RESULT_NO_MSG else RI_POP_RESULT_NO_UPDATE)"
proof -
  note new = new_queue [OF assms(1,2,4,5)]
  let ?queue = "ri_queue_init cls attr addr"
  have c: "consumer = popping ?queue 0" using assms(6) by (simp add: ri_consumer_queue_new_def popping_def head_at_def)
  have s: "popped n k 0 = pushed n k" by (simp add: popped_def)
  have "run (ri_consumer_queue_pop (popping ?queue k)) (popped n k k) =
      Some (popped n k k, popping ?queue k, if k = 0 then RI_POP_RESULT_NO_MSG else RI_POP_RESULT_NO_UPDATE)"
  proof (cases k)
    case 0
    then show ?thesis
      by (simp add: ri_consumer_queue_pop_def popped_def pushed_def shared_ops popping_def invalid_or Let_def)
  next
    case (Suc i)
    then show ?thesis using pop_step [OF assms(2,3) new(3) assms(7), of i] by simp
  qed
  then show ?thesis unfolding new(1,2) c
    using pushes_eq [OF assms(2,3) new(3) assms(7)] pops_eq [OF assms(2,3) new(3) assms(7) order_refl] s
    by simp
qed

theorem queue_fifo_witness:
  "\<exists>sh1 producer consumer sh2 p sh3 c.
     run (ri_producer_queue_new 64 True (\<lambda>_. 9) (Some 4096) five_slots) raw_words = Some (sh1, Some producer) \<and>
     ri_consumer_queue_new 64 True (Some 4096) five_slots = Some consumer \<and>
     pushes 3 (ri_producer_queue_init_shm sh1) producer = Some (sh2, p, replicate 3 RI_TRY_PUSH_RESULT_SUCCESS) \<and>
     pops 3 sh2 consumer =
       Some (sh3, c, [(RI_POP_RESULT_SUCCESS, 0), (RI_POP_RESULT_SUCCESS, 1), (RI_POP_RESULT_SUCCESS, 2)])"
proof -
  obtain sh1 producer where new:
    "run (ri_producer_queue_new 64 True (\<lambda>_. 9) (Some 4096) five_slots) raw_words = Some (sh1, Some producer)"
    using five_slots_new by (auto split: option.splits prod.splits)
  obtain consumer where c: "ri_consumer_queue_new 64 True (Some 4096) five_slots = Some consumer"
    by (simp add: ri_consumer_queue_new_def)
  have m: "map (\<lambda>i. (RI_POP_RESULT_SUCCESS, of_nat i)) [0..<3] =
      [(RI_POP_RESULT_SUCCESS, 0 :: u32), (RI_POP_RESULT_SUCCESS, 1), (RI_POP_RESULT_SUCCESS, 2)]"
    by (simp add: upt_rec)
  from queue_fifo [OF five_slots_len _ _ _ new c, of 3] new c show ?thesis unfolding m by (fastforce simp: raw_words_def)
qed





text \<open>
  Without interference the loop of \<open>ri_consumer_queue_flush\<close> ends in its first round, with any number of rounds allowed,
  and never faults: with the newest message, whose index is the head, and the tail moved onto it, when the
  words are valid; it reports messages as discarded even when the newest one is the only one.
\<close>

theorem flush_one_round:
  "flush_loop (Suc rounds) consumer sh = Some (
     (if sh_tail sh \<noteq> RI_INDEX_INVALID \<and> ri_queue_index_valid (c_queue consumer) (sh_tail sh AND RI_INDEX_MASK) \<and>
         ri_queue_index_valid (c_queue consumer) (sh_head sh)
      then (sh\<lparr>sh_tail := sh_head sh OR RI_CONSUMED_FLAG\<rparr>, consumer\<lparr>c_current := sh_head sh\<rparr>, RI_POP_RESULT_DISCARDED)
      else (sh\<lparr>sh_tail := sh_tail sh OR RI_CONSUMED_FLAG\<rparr>, consumer,
        if sh_tail sh = RI_INDEX_INVALID then RI_POP_RESULT_NO_MSG else RI_POP_RESULT_ERROR)))"
  by (simp add: flush_body_def shared_ops Let_def)

end
