(* ===== verification/Fifo.thy ===== *)
theory Fifo
  imports Sequential Protocol Layout
begin

text \<open>
  The queue without interference is a bounded queue of messages: every sequence of pushes, forced pushes, pops, flushes and counts has the
  results of the abstract machine below, on queues of every length. The locale \<open>refinement\<close> states what the
  simulation of one machine by another gives.
\<close>

section \<open>Machines with observable results\<close>

fun trace :: "('op \<Rightarrow> 'c \<Rightarrow> ('c \<times> 'r) option) \<Rightarrow> 'op list \<Rightarrow> 'c \<Rightarrow> ('c \<times> 'r list) option" where
  "trace step [] c = Some (c, [])"
| "trace step (op # ops) c = (case step op c of
     None \<Rightarrow> None
   | Some (c, r) \<Rightarrow> (case trace step ops c of None \<Rightarrow> None | Some (c, rs) \<Rightarrow> Some (c, r # rs)))"

fun spec_trace :: "('op \<Rightarrow> 'a \<Rightarrow> 'a \<times> 'r) \<Rightarrow> 'op list \<Rightarrow> 'a \<Rightarrow> 'a \<times> 'r list" where
  "spec_trace step [] a = (a, [])"
| "spec_trace step (op # ops) a =
     (case step op a of (a, r) \<Rightarrow> case spec_trace step ops a of (a, rs) \<Rightarrow> (a, r # rs))"

locale refinement =
  fixes concrete :: "'op \<Rightarrow> 'c \<Rightarrow> ('c \<times> 'r) option"
    and abstract :: "'op \<Rightarrow> 'a \<Rightarrow> 'a \<times> 'r"
    and rel :: "'c \<Rightarrow> 'a \<Rightarrow> bool"
  assumes simulates: "rel c a \<Longrightarrow> \<exists>c'. concrete op c = Some (c', snd (abstract op a)) \<and> rel c' (fst (abstract op a))"
begin

lemma trace_simulated:
  "rel c a \<Longrightarrow> \<exists>c'. trace concrete ops c = Some (c', snd (spec_trace abstract ops a)) \<and> rel c' (fst (spec_trace abstract ops a))"
proof (induction ops arbitrary: c a)
  case (Cons op ops)
  obtain c1 where 1: "concrete op c = Some (c1, snd (abstract op a))" "rel c1 (fst (abstract op a))"
    using simulates [OF Cons.prems] by blast
  then show ?case using Cons.IH [OF 1(2)] by (auto split: prod.splits)
qed simp

end

section \<open>The abstract queue\<close>

text \<open>
  The message the consumer holds, the messages not taken yet, oldest first, and whether messages in front of them have been
  discarded.
\<close>

record 'm fifo =
  f_held :: "'m option"
  f_pending :: "'m list"
  f_gap :: bool

datatype 'm queue_op = Force_Push 'm | Try_Push 'm | Pop_Msg | Flush_Msgs nat | Count_By_Producer | Count_By_Consumer

datatype 'm queue_result =
    Forced ri_force_push_result
  | Tried ri_try_push_result
  | Popped ri_pop_result "'m option"
  | Counted int

definition fifo_new :: "'m fifo" where
  "fifo_new = \<lparr>f_held = None, f_pending = [], f_gap = False\<rparr>"

text \<open>One slot of \<open>n\<close> is the producer's; a message that is held takes one as well.\<close>

definition fifo_count :: "'m fifo \<Rightarrow> nat" where
  "fifo_count f = length (f_pending f) + (if f_held f = None then 0 else 1)"

definition fifo_room :: "nat \<Rightarrow> 'm fifo \<Rightarrow> bool" where
  "fifo_room n f \<longleftrightarrow> fifo_count f < n - 1"

fun fifo_step :: "nat \<Rightarrow> 'm queue_op \<Rightarrow> 'm fifo \<Rightarrow> 'm fifo \<times> 'm queue_result" where
  "fifo_step n (Force_Push m) f =
     (if fifo_room n f then (f\<lparr>f_pending := f_pending f @ [m]\<rparr>, Forced RI_FORCE_PUSH_RESULT_SUCCESS)
      else (f\<lparr>f_pending := tl (f_pending f) @ [m], f_gap := True\<rparr>, Forced RI_FORCE_PUSH_RESULT_DISCARDED))"
| "fifo_step n (Try_Push m) f =
     (if fifo_room n f then (f\<lparr>f_pending := f_pending f @ [m]\<rparr>, Tried RI_TRY_PUSH_RESULT_SUCCESS)
      else (f, Tried RI_TRY_PUSH_RESULT_FAIL))"
| "fifo_step n Pop_Msg f =
     (case f_pending f of
        [] \<Rightarrow> (f, Popped (if f_held f = None then RI_POP_RESULT_NO_MSG else RI_POP_RESULT_NO_UPDATE) (f_held f))
      | m # ms \<Rightarrow> (\<lparr>f_held = Some m, f_pending = ms, f_gap = False\<rparr>,
          Popped (if f_gap f then RI_POP_RESULT_DISCARDED else RI_POP_RESULT_SUCCESS) (Some m)))"
| "fifo_step n (Flush_Msgs rounds) f =
     (case opt_list (f_held f) @ f_pending f of
        [] \<Rightarrow> (f, Popped RI_POP_RESULT_NO_MSG None)
      | m # ms \<Rightarrow> (\<lparr>f_held = Some (last (m # ms)), f_pending = [], f_gap = False\<rparr>, Popped RI_POP_RESULT_DISCARDED (Some (last (m # ms)))))"
| "fifo_step n Count_By_Producer f = (f, Counted (int (fifo_count f)))"
| "fifo_step n Count_By_Consumer f = (f, Counted (int (fifo_count f)))"

section \<open>The queue of the code\<close>

text \<open>
  The content of the slots is the client's; a push is preceded by writing the message into the current slot. A flush names
  how many times it may repeat its round.
\<close>

record 'm qstate =
  qs_shared :: shared
  qs_producer :: ri_producer_queue
  qs_consumer :: ri_consumer_queue
  qs_mem :: "ri_index \<Rightarrow> 'm"

definition write_msg :: "'m \<Rightarrow> 'm qstate \<Rightarrow> 'm qstate" where
  "write_msg m s = s\<lparr>qs_mem := (qs_mem s)(p_current (qs_producer s) := m)\<rparr>"

definition held_msg :: "'m qstate \<Rightarrow> 'm option" where
  "held_msg s = (if c_current (qs_consumer s) = RI_INDEX_INVALID then None else Some (qs_mem s (c_current (qs_consumer s))))"

fun queue_step :: "'m queue_op \<Rightarrow> 'm qstate \<Rightarrow> ('m qstate \<times> 'm queue_result) option" where
  "queue_step (Force_Push m) s = (let s = write_msg m s in
     case run (ri_producer_queue_force_push (qs_producer s)) (qs_shared s) of
       None \<Rightarrow> None
     | Some (sh, producer, r) \<Rightarrow> Some (s\<lparr>qs_shared := sh, qs_producer := producer\<rparr>, Forced r))"
| "queue_step (Try_Push m) s = (let s = write_msg m s in
     case run (ri_producer_queue_try_push (qs_producer s)) (qs_shared s) of
       None \<Rightarrow> None
     | Some (sh, producer, r) \<Rightarrow> Some (s\<lparr>qs_shared := sh, qs_producer := producer\<rparr>, Tried r))"
| "queue_step Pop_Msg s =
     (case run (ri_consumer_queue_pop (qs_consumer s)) (qs_shared s) of
        None \<Rightarrow> None
      | Some (sh, consumer, r) \<Rightarrow> (let s = s\<lparr>qs_shared := sh, qs_consumer := consumer\<rparr> in Some (s, Popped r (held_msg s))))"
| "queue_step (Flush_Msgs rounds) s =
     (case flush_loop (Suc rounds) (qs_consumer s) (qs_shared s) of
        None \<Rightarrow> None
      | Some (sh, consumer, r) \<Rightarrow> (let s = s\<lparr>qs_shared := sh, qs_consumer := consumer\<rparr> in Some (s, Popped r (held_msg s))))"
| "queue_step Count_By_Producer s =
     (case run (ri_producer_queue_count_msgs (qs_producer s)) (qs_shared s) of
        None \<Rightarrow> None
      | Some (sh, cnt) \<Rightarrow> Some (s\<lparr>qs_shared := sh\<rparr>, Counted cnt))"
| "queue_step Count_By_Consumer s =
     (case run (ri_consumer_queue_count_msgs (qs_consumer s)) (qs_shared s) of
        None \<Rightarrow> None
      | Some (sh, cnt) \<Rightarrow> Some (s\<lparr>qs_shared := sh\<rparr>, Counted cnt))"

section \<open>Where the slots are\<close>

text \<open>
  The producer's slot, the one it has jumped over, those it may take again, the slot of the tail and those behind
  it.
\<close>

record places =
  pl_own :: ri_index
  pl_jumped :: "ri_index option"
  pl_free :: "ri_index list"
  pl_tail :: ri_index
  pl_rest :: "ri_index list"

definition circle :: "places \<Rightarrow> ri_index list" where
  "circle pl = pl_own pl # pl_free pl @ pl_tail pl # pl_rest pl"

definition succ_of :: "ri_index list \<Rightarrow> ri_index \<Rightarrow> ri_index" where
  "succ_of ch i = ch ! unat i"

definition good :: "nat \<Rightarrow> places \<Rightarrow> ri_index list \<Rightarrow> bool" where
  "good n pl ch \<longleftrightarrow> length ch = n \<and> distinct (opt_list (pl_jumped pl) @ circle pl) \<and>
     length (opt_list (pl_jumped pl) @ circle pl) = n \<and> (\<forall>i\<in>set (opt_list (pl_jumped pl) @ circle pl). unat i < n) \<and>
     linked (succ_of ch) (circle pl) \<and> succ_of ch (last (circle pl)) = RI_INDEX_INVALID"

definition jump_word :: "ri_index option \<Rightarrow> ri_index" where
  "jump_word j = (case j of None \<Rightarrow> RI_INDEX_INVALID | Some h \<Rightarrow> h)"

definition words_at :: "places \<Rightarrow> ri_index list \<Rightarrow> ri_index \<Rightarrow> shared" where
  "words_at pl ch w = \<lparr>sh_tail = w, sh_head = last (circle pl), sh_chain = ch\<rparr>"

definition pusher_at :: "ri_queue \<Rightarrow> places \<Rightarrow> ri_index list \<Rightarrow> ri_producer_queue" where
  "pusher_at queue pl ch = \<lparr>p_queue = queue, p_head = last (circle pl), p_current = pl_own pl,
     p_overrun = jump_word (pl_jumped pl), p_chain = ch\<rparr>"

definition conf :: "ri_queue \<Rightarrow> places \<Rightarrow> ri_index list \<Rightarrow> ri_index \<Rightarrow> ri_index \<Rightarrow> (ri_index \<Rightarrow> 'm) \<Rightarrow> 'm qstate" where
  "conf queue pl ch w cur mem =
     \<lparr>qs_shared = words_at pl ch w, qs_producer = pusher_at queue pl ch, qs_consumer = \<lparr>c_queue = queue, c_current = cur\<rparr>, qs_mem = mem\<rparr>"

inductive rests :: "nat \<Rightarrow> ri_queue \<Rightarrow> 'm qstate \<Rightarrow> 'm fifo \<Rightarrow> bool" for n queue where
  fresh: "rests n queue \<lparr>qs_shared = pushed n 0, qs_producer = pushing n queue 0, qs_consumer = popping queue 0, qs_mem = mem\<rparr>
    fifo_new"
| first: "\<lbrakk>good n pl ch; pl_jumped pl = None\<rbrakk> \<Longrightarrow>
    rests n queue (conf queue pl ch (pl_tail pl OR RI_FIRST_FLAG) RI_INDEX_INVALID mem)
      \<lparr>f_held = None, f_pending = map mem (pl_tail pl # pl_rest pl), f_gap = False\<rparr>"
| taken: "\<lbrakk>good n pl ch; w AND RI_INDEX_MASK = pl_tail pl; flagged w RI_CONSUMED_FLAG\<rbrakk> \<Longrightarrow>
    rests n queue (conf queue pl ch w (pl_tail pl) mem)
      \<lparr>f_held = Some (mem (pl_tail pl)), f_pending = map mem (pl_rest pl), f_gap = False\<rparr>"
| passed: "\<lbrakk>good n pl ch; pl_free pl = []\<rbrakk> \<Longrightarrow>
    rests n queue (conf queue pl ch (pl_tail pl) (jump_word (pl_jumped pl)) mem)
      \<lparr>f_held = map_option mem (pl_jumped pl), f_pending = map mem (pl_tail pl # pl_rest pl), f_gap = True\<rparr>"

section \<open>Chains of slots\<close>

lemma succ_of_update: "unat a < length ch \<Longrightarrow> succ_of (ch[unat a := x]) b = (if b = a then x else succ_of ch b)"
  by (simp add: succ_of_def nth_list_update word_unat_eq_iff eq_commute)

text \<open>The chain after a message has been linked behind the newest one.\<close>

definition linked_in :: "places \<Rightarrow> ri_index list \<Rightarrow> ri_index list" where
  "linked_in pl ch = ch[unat (pl_own pl) := RI_INDEX_INVALID, unat (last (circle pl)) := pl_own pl]"

lemma length_linked_in [simp]: "length (linked_in pl ch) = length ch"
  by (simp add: linked_in_def)

lemma last_circle: "last (circle pl) = last (pl_tail pl # pl_rest pl)"
  by (simp add: circle_def)

lemma good_slot:
  assumes "good n pl ch" and "i \<in> set (opt_list (pl_jumped pl) @ circle pl)" and "n < 2 ^ 30"
  shows "unat i < n" and "unat i < length ch" and "i \<noteq> RI_INDEX_INVALID" and "i AND RI_INDEX_MASK = i"
    and "\<not> flagged i RI_CONSUMED_FLAG" and "\<not> flagged i RI_FIRST_FLAG"
    and "q_n_msgs queue = of_nat n \<Longrightarrow> ri_queue_index_valid queue i"
proof -
  show u: "unat i < n" and "unat i < length ch" using assms(1,2) by (auto simp: good_def)
  then have s: "unat i < 2 ^ 30" using assms(3) by simp
  show "i \<noteq> RI_INDEX_INVALID" using s by auto
  show "i AND RI_INDEX_MASK = i" using s by (rule small_mask)
  show "\<not> flagged i RI_CONSUMED_FLAG" and "\<not> flagged i RI_FIRST_FLAG" using small_flags [OF s] by auto
  have "unat (of_nat n :: u32) = n" using assms(3) by (simp add: unsigned_of_nat take_bit_nat_eq_self)
  then show "q_n_msgs queue = of_nat n \<Longrightarrow> ri_queue_index_valid queue i"
    using u by (simp add: ri_queue_index_valid_def word_less_nat_alt)
qed

lemma circle_members: "pl_own pl \<in> set (circle pl)" "pl_tail pl \<in> set (circle pl)" "last (circle pl) \<in> set (circle pl)"
    "pl_free pl = x # xs \<Longrightarrow> x \<in> set (circle pl)" "pl_rest pl = y # ys \<Longrightarrow> y \<in> set (circle pl)"
  by (auto simp: circle_def)

text \<open>The successors along the circle, and the newest message.\<close>

lemma good_links:
  assumes "good n pl ch"
  shows "succ_of ch (pl_own pl) = hd (pl_free pl @ [pl_tail pl])" and "last (circle pl) \<noteq> pl_own pl"
proof -
  have l: "linked (succ_of ch) (circle pl)" and d: "distinct (circle pl)" using assms by (simp_all add: good_def)
  show "succ_of ch (pl_own pl) = hd (pl_free pl @ [pl_tail pl])"
    using l by (cases "pl_free pl") (simp_all add: circle_def)
  have "last (circle pl) \<in> set (pl_free pl @ pl_tail pl # pl_rest pl)" unfolding last_circle by auto
  then show "last (circle pl) \<noteq> pl_own pl" using d by (auto simp: circle_def)
qed

lemma linked_in_links:
  assumes g: "good n pl ch"
  shows "linked (succ_of (linked_in pl ch)) (pl_free pl @ pl_tail pl # pl_rest pl @ [pl_own pl])"
    and "succ_of (linked_in pl ch) (pl_own pl) = RI_INDEX_INVALID"
proof -
  let ?q = "pl_free pl @ pl_tail pl # pl_rest pl" and ?own = "pl_own pl" and ?head = "last (circle pl)"
  have len: "length ch = n" "unat ?own < length ch" "unat ?head < length ch"
    using g circle_members [of pl] by (auto simp: good_def)
  have s: "succ_of (linked_in pl ch) i = (if i = ?head then ?own else if i = ?own then RI_INDEX_INVALID else succ_of ch i)" for i
    unfolding linked_in_def using len by (simp add: succ_of_update)
  have d: "distinct ?q" "?own \<notin> set ?q" "linked (succ_of ch) ?q"
    using g by (auto simp: good_def circle_def successively_Cons)
  have h: "?head = last ?q" unfolding last_circle by simp
  show "succ_of (linked_in pl ch) ?own = RI_INDEX_INVALID" using s good_links(2) [OF g] by simp
  have "linked (succ_of (linked_in pl ch)) ?q"
  proof (rule linked_cong [OF d(3)])
    fix x assume x: "x \<in> set (butlast ?q)"
    then have "x \<noteq> ?head" using last_notin_butlast [OF d(1)] h by auto
    moreover have "x \<noteq> ?own" using x d(2) by (metis in_set_butlastD)
    ultimately show "succ_of (linked_in pl ch) x = succ_of ch x" using s by simp
  qed
  moreover have "succ_of (linked_in pl ch) (last ?q) = ?own" using s h by simp
  ultimately have "linked (succ_of (linked_in pl ch)) (?q @ [?own])"
    by (simp only: successively_append_iff successively.simps) simp
  then show "linked (succ_of (linked_in pl ch)) (pl_free pl @ pl_tail pl # pl_rest pl @ [pl_own pl])" by simp
qed

lemma good_moved:
  assumes "good n pl ch" and "length ch' = n"
    and "mset (opt_list (pl_jumped pl') @ circle pl') = mset (opt_list (pl_jumped pl) @ circle pl)"
    and "linked (succ_of ch') (circle pl')" and "succ_of ch' (last (circle pl')) = RI_INDEX_INVALID"
  shows "good n pl' ch'"
  using assms mset_eq_imp_distinct_iff [OF assms(3)] mset_eq_setD [OF assms(3)] mset_eq_length [OF assms(3)]
  unfolding good_def by simp

text \<open>What a push does to the places: with room, with the oldest message dropped, with a jump, with the slot jumped over back.\<close>

definition place_room :: "places \<Rightarrow> places" where
  "place_room pl = pl\<lparr>pl_own := hd (pl_free pl), pl_free := tl (pl_free pl), pl_rest := pl_rest pl @ [pl_own pl]\<rparr>"

definition place_drop :: "places \<Rightarrow> places" where
  "place_drop pl = pl\<lparr>pl_own := pl_tail pl, pl_tail := hd (pl_rest pl @ [pl_own pl]), pl_rest := tl (pl_rest pl @ [pl_own pl])\<rparr>"

definition place_jump :: "places \<Rightarrow> places" where
  "place_jump pl = pl\<lparr>pl_own := hd (pl_rest pl), pl_jumped := Some (pl_tail pl),
     pl_tail := hd (tl (pl_rest pl) @ [pl_own pl]), pl_rest := tl (tl (pl_rest pl) @ [pl_own pl])\<rparr>"

definition place_requeue :: "places \<Rightarrow> places" where
  "place_requeue pl = pl\<lparr>pl_own := the (pl_jumped pl), pl_jumped := None, pl_rest := pl_rest pl @ [pl_own pl]\<rparr>"

lemma good_room:
  assumes "good n pl ch" and "pl_free pl = x # xs"
  shows "good n (place_room pl) (linked_in pl ch)"
  by (rule good_moved [OF assms(1)])
    (use assms linked_in_links [OF assms(1)] in \<open>auto simp: place_room_def circle_def good_def successively_Cons\<close>)

lemma good_drop:
  assumes "good n pl ch" and "pl_free pl = []"
  shows "good n (place_drop pl) (linked_in pl ch)"
  by (rule good_moved [OF assms(1)]; cases "pl_rest pl")
    (use assms linked_in_links [OF assms(1)] in \<open>auto simp: place_drop_def circle_def good_def successively_Cons\<close>)

lemma good_jump:
  assumes "good n pl ch" and "pl_free pl = []" and "pl_jumped pl = None" and "pl_rest pl = r # rs"
  shows "good n (place_jump pl) (linked_in pl ch)"
  by (rule good_moved [OF assms(1)]; cases rs)
    (use assms linked_in_links [OF assms(1)] in \<open>auto simp: place_jump_def circle_def good_def successively_Cons\<close>)

lemma good_requeue:
  assumes g: "good n pl ch" and j: "pl_jumped pl = Some h"
  shows "good n (place_requeue pl) ((linked_in pl ch)[unat h := hd (pl_free pl @ [pl_tail pl])])"
proof (rule good_moved [OF g])
  let ?ch = "(linked_in pl ch)[unat h := hd (pl_free pl @ [pl_tail pl])]" and ?q = "pl_free pl @ pl_tail pl # pl_rest pl @ [pl_own pl]"
  have h: "unat h < length (linked_in pl ch)" "h \<notin> set ?q" using g j by (auto simp: good_def circle_def)
  have "linked (succ_of ?ch) ?q"
    by (rule linked_cong [OF linked_in_links(1) [OF g]])
      (use h in \<open>auto simp: succ_of_update dest: in_set_butlastD\<close>)
  moreover have "succ_of ?ch h = hd ?q" using h(1) by (cases "pl_free pl") (simp_all add: succ_of_update)
  moreover have c: "circle (place_requeue pl) = h # ?q" using j by (simp add: place_requeue_def circle_def)
  ultimately show "linked (succ_of ?ch) (circle (place_requeue pl))" by (simp add: successively_Cons)
  show "succ_of ?ch (last (circle (place_requeue pl))) = RI_INDEX_INVALID"
    unfolding c using linked_in_links(2) [OF g] h by (auto simp: succ_of_update)
  show "mset (opt_list (pl_jumped (place_requeue pl)) @ circle (place_requeue pl)) = mset (opt_list (pl_jumped pl) @ circle pl)"
    unfolding c using j by (simp add: place_requeue_def circle_def)
  show "length ?ch = n" using g by (simp add: good_def)
qed

section \<open>Pushes\<close>

lemma run_enqueue:
  assumes g: "good n pl ch"
  shows "run (enqueue_msg (pusher_at queue pl ch) k) (words_at pl ch w) =
    run (k ((pusher_at queue pl ch)\<lparr>p_chain := linked_in pl ch, p_head := pl_own pl\<rparr>))
      \<lparr>sh_tail = w, sh_head = pl_own pl, sh_chain = linked_in pl ch\<rparr>"
  using good_slot(2) [of n pl ch] g circle_members(1,3) [of pl]
  by (auto simp: enqueue_msg_def chain_store_def shared_ops pusher_at_def words_at_def linked_in_def good_def)

text \<open>The tests at the start of a push.\<close>

lemma push_tests:
  assumes g: "good n pl ch" and n: "3 \<le> n" "n < 2 ^ 30" and q: "q_n_msgs queue = of_nat n" and w: "w AND RI_INDEX_MASK = pl_tail pl"
  shows "unat (pl_own pl) < length ch" and "ch ! unat (pl_own pl) = hd (pl_free pl @ [pl_tail pl])"
    and "last (circle pl) \<noteq> RI_INDEX_INVALID" and "ri_queue_index_valid queue (w AND RI_INDEX_MASK)"
    and "jump_word (pl_jumped pl) \<noteq> RI_INDEX_INVALID \<longleftrightarrow> pl_jumped pl \<noteq> None"
    and "pl_free pl = x # xs \<Longrightarrow> x \<noteq> pl_tail pl"
proof -
  note s = good_slot [OF g _ n(2)]
  show "unat (pl_own pl) < length ch" using s(2) circle_members(1) by simp
  show "ch ! unat (pl_own pl) = hd (pl_free pl @ [pl_tail pl])" using good_links(1) [OF g] by (simp add: succ_of_def)
  show "last (circle pl) \<noteq> RI_INDEX_INVALID" using s(3) circle_members(3) by simp
  show "ri_queue_index_valid queue (w AND RI_INDEX_MASK)" unfolding w using s(7) [OF _ q] circle_members(2) by simp
  show "jump_word (pl_jumped pl) \<noteq> RI_INDEX_INVALID \<longleftrightarrow> pl_jumped pl \<noteq> None"
    using s(3) by (cases "pl_jumped pl") (auto simp: jump_word_def)
  show "pl_free pl = x # xs \<Longrightarrow> x \<noteq> pl_tail pl" using g by (auto simp: good_def circle_def)
qed

lemma pusher_at_simps [simp]: "p_queue (pusher_at queue pl ch) = queue" "p_head (pusher_at queue pl ch) = last (circle pl)"
    "p_current (pusher_at queue pl ch) = pl_own pl" "p_overrun (pusher_at queue pl ch) = jump_word (pl_jumped pl)"
    "p_chain (pusher_at queue pl ch) = ch"
  by (simp_all add: pusher_at_def)

lemma words_at_simps [simp]: "sh_tail (words_at pl ch w) = w" "sh_chain (words_at pl ch w) = ch"
  by (simp_all add: words_at_def)

lemma last_places: "pl_free pl = x # xs \<Longrightarrow> last (circle (place_room pl)) = pl_own pl"
    "last (circle (place_drop pl)) = pl_own pl"
    "pl_rest pl = r # rs \<Longrightarrow> last (circle (place_jump pl)) = pl_own pl"
    "last (circle (place_requeue pl)) = pl_own pl"
  by (cases "pl_rest pl"; simp add: circle_def place_room_def place_drop_def place_requeue_def;
      cases "tl (pl_rest pl)"; simp add: circle_def place_jump_def)+

lemmas push_programs = chain_get_def chain_store_def move_tail_def overrun_def requeue_overrun_def force_result_def shared_ops Let_def

lemma force_room:
  assumes g: "good n pl ch" and n: "3 \<le> n" "n < 2 ^ 30" and q: "q_n_msgs queue = of_nat n" and w: "w AND RI_INDEX_MASK = pl_tail pl"
    and j: "pl_jumped pl = None" and f: "pl_free pl = x # xs"
  shows "run (ri_producer_queue_force_push (pusher_at queue pl ch)) (words_at pl ch w) =
    Some (words_at (place_room pl) (linked_in pl ch) w, pusher_at queue (place_room pl) (linked_in pl ch), RI_FORCE_PUSH_RESULT_SUCCESS)"
  using push_tests [OF g n q w] j f w last_places(1) [OF f]
  by (simp add: ri_producer_queue_force_push_def run_enqueue [OF g] push_programs)
    (simp add: words_at_def pusher_at_def place_room_def)

lemma linked_in_next:
  assumes "good n pl ch"
  shows "unat (pl_tail pl) < length ch" and "linked_in pl ch ! unat (pl_tail pl) = hd (pl_rest pl @ [pl_own pl])"
    and "pl_rest pl = r # rs \<Longrightarrow> unat r < length ch" and "pl_rest pl = r # rs \<Longrightarrow> linked_in pl ch ! unat r = hd (rs @ [pl_own pl])"
proof -
  show "unat (pl_tail pl) < length ch" using assms circle_members(2) [of pl] by (auto simp: good_def)
  show "pl_rest pl = r # rs \<Longrightarrow> unat r < length ch" using assms by (auto simp: good_def circle_def)
  have l: "linked (succ_of (linked_in pl ch)) (pl_tail pl # pl_rest pl @ [pl_own pl])"
    using linked_in_links(1) [OF assms] by (simp add: successively_append_iff)
  then show "linked_in pl ch ! unat (pl_tail pl) = hd (pl_rest pl @ [pl_own pl])"
    by (cases "pl_rest pl") (simp_all add: succ_of_def)
  show "pl_rest pl = r # rs \<Longrightarrow> linked_in pl ch ! unat r = hd (rs @ [pl_own pl])"
    using l by (cases rs) (simp_all add: succ_of_def)
qed

lemma force_drop:
  assumes g: "good n pl ch" and n: "3 \<le> n" "n < 2 ^ 30" and q: "q_n_msgs queue = of_nat n" and w: "w AND RI_INDEX_MASK = pl_tail pl"
    and f: "pl_free pl = []" and c: "\<not> flagged w RI_CONSUMED_FLAG"
  shows "run (ri_producer_queue_force_push (pusher_at queue pl ch)) (words_at pl ch w) =
    Some (words_at (place_drop pl) (linked_in pl ch) (pl_tail (place_drop pl)), pusher_at queue (place_drop pl) (linked_in pl ch),
      RI_FORCE_PUSH_RESULT_DISCARDED)"
  using push_tests [OF g n q w] f w c last_places(2) [of pl] linked_in_next [OF g]
  by (simp add: ri_producer_queue_force_push_def run_enqueue [OF g] push_programs)
    (simp add: words_at_def pusher_at_def place_drop_def)

lemma force_jump:
  assumes g: "good n pl ch" and n: "3 \<le> n" "n < 2 ^ 30" and q: "q_n_msgs queue = of_nat n" and w: "w AND RI_INDEX_MASK = pl_tail pl"
    and j: "pl_jumped pl = None" and f: "pl_free pl = []" and r: "pl_rest pl = r # rs" and c: "flagged w RI_CONSUMED_FLAG"
  shows "run (ri_producer_queue_force_push (pusher_at queue pl ch)) (words_at pl ch w) =
    Some (words_at (place_jump pl) (linked_in pl ch) (pl_tail (place_jump pl)), pusher_at queue (place_jump pl) (linked_in pl ch),
      RI_FORCE_PUSH_RESULT_DISCARDED)"
  using push_tests [OF g n q w] j f w c last_places(3) [OF r] linked_in_next [OF g] r
  by (simp add: ri_producer_queue_force_push_def run_enqueue [OF g] push_programs)
    (simp add: words_at_def pusher_at_def place_jump_def jump_word_def)

lemma force_put_back:
  assumes g: "good n pl ch" and n: "3 \<le> n" "n < 2 ^ 30" and q: "q_n_msgs queue = of_nat n" and w: "w AND RI_INDEX_MASK = pl_tail pl"
    and j: "pl_jumped pl = Some h" and c: "flagged w RI_CONSUMED_FLAG"
  shows "run (ri_producer_queue_force_push (pusher_at queue pl ch)) (words_at pl ch w) =
    Some (words_at (place_requeue pl) ((linked_in pl ch)[unat h := hd (pl_free pl @ [pl_tail pl])]) w,
      pusher_at queue (place_requeue pl) ((linked_in pl ch)[unat h := hd (pl_free pl @ [pl_tail pl])]),
      RI_FORCE_PUSH_RESULT_SUCCESS)"
proof -
  have h: "unat h < length ch" "jump_word (pl_jumped pl) = h" using g j by (auto simp: good_def jump_word_def)
  show ?thesis
    using push_tests [OF g n q w] j w c last_places(4) [of pl] h
    by (simp add: ri_producer_queue_force_push_def run_enqueue [OF g] push_programs)
      (simp add: words_at_def pusher_at_def place_requeue_def jump_word_def)
qed

lemma try_room:
  assumes g: "good n pl ch" and n: "3 \<le> n" "n < 2 ^ 30" and q: "q_n_msgs queue = of_nat n" and w: "w AND RI_INDEX_MASK = pl_tail pl"
    and j: "pl_jumped pl = None" and f: "pl_free pl = x # xs"
  shows "run (ri_producer_queue_try_push (pusher_at queue pl ch)) (words_at pl ch w) =
    Some (words_at (place_room pl) (linked_in pl ch) w, pusher_at queue (place_room pl) (linked_in pl ch), RI_TRY_PUSH_RESULT_SUCCESS)"
  using push_tests [OF g n q w] j f w last_places(1) [OF f]
  by (simp add: ri_producer_queue_try_push_def run_enqueue [OF g] push_programs)
    (simp add: words_at_def pusher_at_def place_room_def)

lemma try_full:
  assumes g: "good n pl ch" and n: "3 \<le> n" "n < 2 ^ 30" and q: "q_n_msgs queue = of_nat n" and w: "w AND RI_INDEX_MASK = pl_tail pl"
    and f: "pl_free pl = []" and c: "pl_jumped pl = None \<or> \<not> flagged w RI_CONSUMED_FLAG"
  shows "run (ri_producer_queue_try_push (pusher_at queue pl ch)) (words_at pl ch w) =
    Some (words_at pl ch w, pusher_at queue pl ch, RI_TRY_PUSH_RESULT_FAIL)"
  using push_tests [OF g n q w] f w c by (auto simp: ri_producer_queue_try_push_def push_programs)

lemma try_put_back:
  assumes g: "good n pl ch" and n: "3 \<le> n" "n < 2 ^ 30" and q: "q_n_msgs queue = of_nat n" and w: "w AND RI_INDEX_MASK = pl_tail pl"
    and j: "pl_jumped pl = Some h" and c: "flagged w RI_CONSUMED_FLAG"
  shows "run (ri_producer_queue_try_push (pusher_at queue pl ch)) (words_at pl ch w) =
    Some (words_at (place_requeue pl) ((linked_in pl ch)[unat h := hd (pl_free pl @ [pl_tail pl])]) w,
      pusher_at queue (place_requeue pl) ((linked_in pl ch)[unat h := hd (pl_free pl @ [pl_tail pl])]),
      RI_TRY_PUSH_RESULT_SUCCESS)"
proof -
  have h: "unat h < length ch" "jump_word (pl_jumped pl) = h" using g j by (auto simp: good_def jump_word_def)
  show ?thesis
    using push_tests [OF g n q w] j w c last_places(4) [of pl] h
    by (simp add: ri_producer_queue_try_push_def run_enqueue [OF g] push_programs)
      (simp add: words_at_def pusher_at_def place_requeue_def jump_word_def)
qed

section \<open>Pops\<close>

definition popper_at :: "ri_queue \<Rightarrow> ri_index \<Rightarrow> ri_consumer_queue" where
  "popper_at queue cur = \<lparr>c_queue = queue, c_current = cur\<rparr>"

text \<open>A tail that is not marked is taken.\<close>

lemma pop_tail:
  assumes g: "good n pl ch" and n: "n < 2 ^ 30" and q: "q_n_msgs queue = of_nat n" and w: "w AND RI_INDEX_MASK = pl_tail pl"
    and c: "\<not> flagged w RI_CONSUMED_FLAG"
  shows "run (ri_consumer_queue_pop (popper_at queue cur)) (words_at pl ch w) =
    Some (words_at pl ch (w OR RI_CONSUMED_FLAG), popper_at queue (pl_tail pl),
      if flagged w RI_FIRST_FLAG then RI_POP_RESULT_SUCCESS else RI_POP_RESULT_DISCARDED)"
proof -
  note s = good_slot [OF g _ n, of "pl_tail pl"]
  have t: "ri_queue_index_valid queue (pl_tail pl)" "unat (pl_tail pl) < n" using s(1) s(7) [OF _ q] circle_members(2) by auto
  have "w \<noteq> RI_INDEX_INVALID" using w t(2) invalid_mask n by auto
  then show ?thesis using t w c
    by (simp add: ri_consumer_queue_pop_def popper_at_def shared_ops) (simp add: words_at_def)
qed

text \<open>A marked tail is followed by the next message or by nothing.\<close>

lemma pop_next:
  assumes g: "good n pl ch" and n: "n < 2 ^ 30" and q: "q_n_msgs queue = of_nat n" and w: "w AND RI_INDEX_MASK = pl_tail pl"
    and c: "flagged w RI_CONSUMED_FLAG" and r: "pl_rest pl = r # rs"
  shows "run (ri_consumer_queue_pop (popper_at queue (pl_tail pl))) (words_at pl ch w) =
    Some (words_at pl ch (r OR RI_CONSUMED_FLAG), popper_at queue r, RI_POP_RESULT_SUCCESS)"
proof -
  note s = good_slot [OF g _ n]
  have t: "ri_queue_index_valid queue (pl_tail pl)" "unat (pl_tail pl) < length ch" "unat (pl_tail pl) < n" "pl_tail pl \<noteq> RI_INDEX_INVALID"
    using s(1-3) s(7) [OF _ q] circle_members(2) [of pl] by auto
  have r': "ri_queue_index_valid queue r" "r \<noteq> RI_INDEX_INVALID" using s(3) s(7) [OF _ q] circle_members(5) [OF r] by auto
  have "ch ! unat (pl_tail pl) = r" using g r by (auto simp: good_def circle_def successively_append_iff succ_of_def successively_Cons)
  moreover have "w \<noteq> RI_INDEX_INVALID" using w t(3) invalid_mask n by auto
  ultimately show ?thesis using t r' w c or_consumed_idem [OF c]
    by (simp add: ri_consumer_queue_pop_def popper_at_def shared_ops words_at_def)
qed

lemma pop_nothing:
  assumes g: "good n pl ch" and n: "n < 2 ^ 30" and q: "q_n_msgs queue = of_nat n" and w: "w AND RI_INDEX_MASK = pl_tail pl"
    and c: "flagged w RI_CONSUMED_FLAG" and r: "pl_rest pl = []"
  shows "run (ri_consumer_queue_pop (popper_at queue (pl_tail pl))) (words_at pl ch w) =
    Some (words_at pl ch w, popper_at queue (pl_tail pl), RI_POP_RESULT_NO_UPDATE)"
proof -
  note s = good_slot [OF g _ n]
  have t: "ri_queue_index_valid queue (pl_tail pl)" "unat (pl_tail pl) < length ch" "unat (pl_tail pl) < n" "pl_tail pl \<noteq> RI_INDEX_INVALID"
    using s(1-3) s(7) [OF _ q] circle_members(2) [of pl] by auto
  have "ch ! unat (pl_tail pl) = RI_INDEX_INVALID" using g r by (simp add: good_def circle_def succ_of_def)
  moreover have "w \<noteq> RI_INDEX_INVALID" using w t(3) invalid_mask n by auto
  ultimately show ?thesis using t w c or_consumed_idem [OF c]
    by (simp add: ri_consumer_queue_pop_def popper_at_def shared_ops words_at_def)
qed

definition place_next :: "places \<Rightarrow> places" where
  "place_next pl = pl\<lparr>pl_free := pl_free pl @ [pl_tail pl], pl_tail := hd (pl_rest pl), pl_rest := tl (pl_rest pl)\<rparr>"

lemma place_next_eq: "pl_rest pl = r # rs \<Longrightarrow> circle (place_next pl) = circle pl"
  by (simp add: place_next_def circle_def)

lemma good_next: "good n pl ch \<Longrightarrow> pl_rest pl = r # rs \<Longrightarrow> good n (place_next pl) ch"
  unfolding good_def place_next_eq by (simp add: place_next_def)

section \<open>Simulation\<close>

lemma conf_simps [simp]: "qs_shared (conf queue pl ch w cur mem) = words_at pl ch w"
    "qs_producer (conf queue pl ch w cur mem) = pusher_at queue pl ch"
    "qs_consumer (conf queue pl ch w cur mem) = popper_at queue cur" "qs_mem (conf queue pl ch w cur mem) = mem"
  by (simp_all add: conf_def popper_at_def)

lemma conf_eqI: "qs_shared s = words_at pl ch w \<Longrightarrow> qs_producer s = pusher_at queue pl ch \<Longrightarrow>
    qs_consumer s = popper_at queue cur \<Longrightarrow> qs_mem s = mem \<Longrightarrow> s = conf queue pl ch w cur mem"
  by (simp add: conf_def popper_at_def)

lemma write_conf [simp]: "write_msg m (conf queue pl ch w cur mem) = conf queue pl ch w cur (mem(pl_own pl := m))"
  by (simp add: write_msg_def conf_def)

lemma conf_push:
  "run (ri_producer_queue_force_push (pusher_at queue pl ch)) (words_at pl ch w) = Some (words_at pl' ch' w', pusher_at queue pl' ch', r) \<Longrightarrow>
    queue_step (Force_Push m) (conf queue pl ch w cur mem) = Some (conf queue pl' ch' w' cur (mem(pl_own pl := m)), Forced r)"
  "run (ri_producer_queue_try_push (pusher_at queue pl ch)) (words_at pl ch w) = Some (words_at pl' ch' w', pusher_at queue pl' ch', r') \<Longrightarrow>
    queue_step (Try_Push m) (conf queue pl ch w cur mem) = Some (conf queue pl' ch' w' cur (mem(pl_own pl := m)), Tried r')"
  by (simp_all add: Let_def)

text \<open>Writing the producer's slot changes no other message.\<close>

lemma other_msgs:
  assumes "good n pl ch"
  shows "map (mem(pl_own pl := m)) (pl_rest pl) = map mem (pl_rest pl)" and "(mem(pl_own pl := m)) (pl_tail pl) = mem (pl_tail pl)"
    and "map_option (mem(pl_own pl := m)) (pl_jumped pl) = map_option mem (pl_jumped pl)"
  using assms by (cases "pl_jumped pl"; auto simp: good_def circle_def)+

lemma good_count: "good n pl ch \<Longrightarrow> n = length (opt_list (pl_jumped pl)) + length (pl_free pl) + length (pl_rest pl) + 2"
  by (auto simp: good_def circle_def)

text \<open>The first push into a fresh queue.\<close>

definition first_places :: "nat \<Rightarrow> places" where
  "first_places n = \<lparr>pl_own = 1, pl_jumped = None, pl_free = map of_nat [2..<n], pl_tail = 0, pl_rest = []\<rparr>"

lemma first_circle: "3 \<le> n \<Longrightarrow> circle (first_places n) = map of_nat [1..<n] @ [0]"
  by (simp add: first_places_def circle_def upt_conv_Cons numeral_2_eq_2)

lemma good_first:
  assumes n: "3 \<le> n" "n < 2 ^ 30"
  shows "good n (first_places n) (chain_at n 1)"
proof -
  have u: "unat (of_nat i :: u32) = i" if "i < n" for i using unat_small [OF that n(2)] .
  have "inj_on (of_nat :: nat \<Rightarrow> u32) {1..<n}" by (rule inj_onI) (metis u atLeastLessThan_iff)
  moreover have "0 \<notin> (of_nat :: nat \<Rightarrow> u32) ` {1..<n}"
  proof
    assume "0 \<in> (of_nat :: nat \<Rightarrow> u32) ` {1..<n}"
    then obtain i where "(0 :: u32) = of_nat i" "1 \<le> i" "i < n" by auto
    then show False using u [of i] by (metis not_one_le_zero unat_0)
  qed
  ultimately have d: "distinct (map of_nat [1..<n] @ [0 :: u32])" by (simp add: distinct_map)
  have l: "linked (succ_of (chain_at n 1)) (map of_nat [1..<n] @ [0])"
    unfolding successively_conv_nth
  proof (intro allI impI)
    fix i assume "Suc i < length (map of_nat [1..<n] @ [0 :: u32])"
    then have i: "Suc i < n" by simp
    have "succ_of (chain_at n 1) (of_nat (Suc i)) = chain_at n 1 ! Suc i" unfolding succ_of_def u [OF i] ..
    then show "succ_of (chain_at n 1) ((map of_nat [1..<n] @ [0]) ! i) = (map of_nat [1..<n] @ [0]) ! Suc i"
      using i by (auto simp: nth_chain_at nth_append)
  qed
  have e: "succ_of (chain_at n 1) 0 = RI_INDEX_INVALID" using n by (simp add: succ_of_def nth_chain_at)
  show ?thesis unfolding good_def first_circle [OF n(1)] using n d l e u by (simp add: first_places_def)
qed

lemma fresh_push:
  assumes n: "3 \<le> n" "n < 2 ^ 30" and q: "q_n_msgs queue = of_nat n"
  shows "run (ri_producer_queue_try_push (pushing n queue 0)) (pushed n 0) =
      Some (words_at (first_places n) (chain_at n 1) (0 OR RI_FIRST_FLAG), pusher_at queue (first_places n) (chain_at n 1), RI_TRY_PUSH_RESULT_SUCCESS)"
    and "run (ri_producer_queue_force_push (pushing n queue 0)) (pushed n 0) =
      Some (words_at (first_places n) (chain_at n 1) (0 OR RI_FIRST_FLAG), pusher_at queue (first_places n) (chain_at n 1), RI_FORCE_PUSH_RESULT_SUCCESS)"
proof -
  have w: "words_at (first_places n) (chain_at n 1) (0 OR RI_FIRST_FLAG) = pushed n 1"
    "pusher_at queue (first_places n) (chain_at n 1) = pushing n queue 1"
    by (simp_all add: words_at_def pusher_at_def pushed_def pushing_def head_at_def last_circle first_places_def jump_word_def)
  show "run (ri_producer_queue_try_push (pushing n queue 0)) (pushed n 0) =
      Some (words_at (first_places n) (chain_at n 1) (0 OR RI_FIRST_FLAG), pusher_at queue (first_places n) (chain_at n 1), RI_TRY_PUSH_RESULT_SUCCESS)"
    unfolding w using push_step [OF n q, of 0] n by simp
  show "run (ri_producer_queue_force_push (pushing n queue 0)) (pushed n 0) =
      Some (words_at (first_places n) (chain_at n 1) (0 OR RI_FIRST_FLAG), pusher_at queue (first_places n) (chain_at n 1), RI_FORCE_PUSH_RESULT_SUCCESS)"
    unfolding w using n
    by (simp add: ri_producer_queue_force_push_def pushing_def pushed_def chain_get_def head_at_def nth_chain_at
        enqueue_first_msg_def chain_store_def shared_ops chain_at_0)
qed

text \<open>What a push into a queue with room does to what the abstract queue shows.\<close>

lemma room_msgs:
  assumes "good n pl ch"
  shows "map (mem(pl_own pl := m)) (pl_rest (place_room pl)) = map mem (pl_rest pl) @ [m]"
    and "map (mem(pl_own pl := m)) (pl_rest (place_requeue pl)) = map mem (pl_rest pl) @ [m]"
    and "map (mem(pl_own pl := m)) (pl_tail (place_drop pl) # pl_rest (place_drop pl)) = map mem (pl_rest pl) @ [m]"
    and "pl_rest pl = r # rs \<Longrightarrow> map (mem(pl_own pl := m)) (pl_tail (place_jump pl) # pl_rest (place_jump pl)) = map mem rs @ [m]"
proof -
  note O = other_msgs(1) [OF assms, of mem m]
  show "map (mem(pl_own pl := m)) (pl_rest (place_room pl)) = map mem (pl_rest pl) @ [m]"
    and "map (mem(pl_own pl := m)) (pl_rest (place_requeue pl)) = map mem (pl_rest pl) @ [m]"
    using O by (simp_all add: place_room_def place_requeue_def)
  show "map (mem(pl_own pl := m)) (pl_tail (place_drop pl) # pl_rest (place_drop pl)) = map mem (pl_rest pl) @ [m]"
    using O by (cases "pl_rest pl") (simp_all add: place_drop_def)
  show "map (mem(pl_own pl := m)) (pl_tail (place_jump pl) # pl_rest (place_jump pl)) = map mem rs @ [m]" if "pl_rest pl = r # rs"
    using O that by (cases rs) (simp_all add: place_jump_def)
qed

lemma push_room:
  assumes r: "rests n queue s f" and room: "fifo_room n f" and n: "3 \<le> n" "n < 2 ^ 30" and q: "q_n_msgs queue = of_nat n"
  shows "\<exists>s'. queue_step (Force_Push m) s = Some (s', Forced RI_FORCE_PUSH_RESULT_SUCCESS) \<and>
    queue_step (Try_Push m) s = Some (s', Tried RI_TRY_PUSH_RESULT_SUCCESS) \<and>
    rests n queue s' (f\<lparr>f_pending := f_pending f @ [m]\<rparr>)"
  using r
proof cases
  case (fresh mem)
  let ?s = "conf queue (first_places n) (chain_at n 1) (pl_tail (first_places n) OR RI_FIRST_FLAG) RI_INDEX_INVALID (mem(0 := m))"
  have s: "?s = \<lparr>qs_shared = words_at (first_places n) (chain_at n 1) (0 OR RI_FIRST_FLAG),
      qs_producer = pusher_at queue (first_places n) (chain_at n 1), qs_consumer = popping queue 0, qs_mem = mem(0 := m)\<rparr>"
    by (simp add: conf_def popping_def head_at_def first_places_def)
  have "queue_step (Force_Push m) s = Some (?s, Forced RI_FORCE_PUSH_RESULT_SUCCESS)"
    "queue_step (Try_Push m) s = Some (?s, Tried RI_TRY_PUSH_RESULT_SUCCESS)"
    unfolding s using fresh_push [OF n q] by (simp_all add: fresh(1) write_msg_def pushing_def)
  moreover have "rests n queue ?s \<lparr>f_held = None, f_pending = map (mem(0 := m)) (pl_tail (first_places n) # pl_rest (first_places n)), f_gap = False\<rparr>"
    by (rule rests.first [OF good_first [OF n]]) (simp add: first_places_def)
  then have "rests n queue ?s (f\<lparr>f_pending := f_pending f @ [m]\<rparr>)" by (simp add: fresh(2) fifo_new_def first_places_def)
  ultimately show ?thesis by blast
next
  case (first pl ch mem)
  let ?w = "pl_tail pl OR RI_FIRST_FLAG" and ?mem = "mem(pl_own pl := m)"
  note g = first(3)
  have w: "?w AND RI_INDEX_MASK = pl_tail pl"
    using good_slot(4) [OF g _ n(2), of "pl_tail pl"] circle_members(2) [of pl] by (simp add: flag_simps)
  obtain x xs where free: "pl_free pl = x # xs"
    using room good_count [OF g] first(2,4) by (cases "pl_free pl") (simp_all add: fifo_room_def fifo_count_def)
  let ?s = "conf queue (place_room pl) (linked_in pl ch) ?w RI_INDEX_INVALID ?mem"
  have "queue_step (Force_Push m) s = Some (?s, Forced RI_FORCE_PUSH_RESULT_SUCCESS)"
    "queue_step (Try_Push m) s = Some (?s, Tried RI_TRY_PUSH_RESULT_SUCCESS)"
    unfolding first(1) by (rule conf_push, rule force_room [OF g n q w first(4) free] try_room [OF g n q w first(4) free])+
  moreover have t: "pl_tail (place_room pl) = pl_tail pl" "pl_jumped (place_room pl) = None" by (simp_all add: place_room_def first(4))
  have "f\<lparr>f_pending := f_pending f @ [m]\<rparr> = \<lparr>f_held = None, f_pending = map ?mem (pl_tail (place_room pl) # pl_rest (place_room pl)), f_gap = False\<rparr>"
    unfolding t list.map room_msgs(1) [OF g] other_msgs(2) [OF g] by (simp add: first(2))
  then have "rests n queue ?s (f\<lparr>f_pending := f_pending f @ [m]\<rparr>)"
    using rests.first [OF good_room [OF g free] t(2), of queue ?mem] by (simp only: t(1))
  ultimately show ?thesis by blast
next
  case (taken pl ch w mem)
  let ?mem = "mem(pl_own pl := m)"
  note g = taken(3)
  show ?thesis
  proof (cases "pl_jumped pl")
    case None
    obtain x xs where free: "pl_free pl = x # xs"
      using room good_count [OF g] taken(2) None by (cases "pl_free pl") (simp_all add: fifo_room_def fifo_count_def)
    let ?s = "conf queue (place_room pl) (linked_in pl ch) w (pl_tail (place_room pl)) ?mem"
    have tail: "pl_tail (place_room pl) = pl_tail pl" by (simp add: place_room_def)
    have "queue_step (Force_Push m) s = Some (?s, Forced RI_FORCE_PUSH_RESULT_SUCCESS)"
      "queue_step (Try_Push m) s = Some (?s, Tried RI_TRY_PUSH_RESULT_SUCCESS)"
      unfolding taken(1) tail by (rule conf_push, rule force_room [OF g n q taken(4) None free] try_room [OF g n q taken(4) None free])+
    moreover have "f\<lparr>f_pending := f_pending f @ [m]\<rparr> = \<lparr>f_held = Some (?mem (pl_tail (place_room pl))),
        f_pending = map ?mem (pl_rest (place_room pl)), f_gap = False\<rparr>"
      unfolding tail room_msgs(1) [OF g] other_msgs(2) [OF g] by (simp add: taken(2))
    then have "rests n queue ?s (f\<lparr>f_pending := f_pending f @ [m]\<rparr>)"
      using rests.taken [OF good_room [OF g free] _ taken(5), of queue ?mem] taken(4) by (simp only: tail)
    ultimately show ?thesis by blast
  next
    case (Some h)
    let ?s = "conf queue (place_requeue pl) ((linked_in pl ch)[unat h := hd (pl_free pl @ [pl_tail pl])]) w (pl_tail (place_requeue pl)) ?mem"
    have tail: "pl_tail (place_requeue pl) = pl_tail pl" by (simp add: place_requeue_def)
    have "queue_step (Force_Push m) s = Some (?s, Forced RI_FORCE_PUSH_RESULT_SUCCESS)"
      "queue_step (Try_Push m) s = Some (?s, Tried RI_TRY_PUSH_RESULT_SUCCESS)"
      unfolding taken(1) tail
      by (rule conf_push, rule force_put_back [OF g n q taken(4) Some taken(5)] try_put_back [OF g n q taken(4) Some taken(5)])+
    moreover have "f\<lparr>f_pending := f_pending f @ [m]\<rparr> = \<lparr>f_held = Some (?mem (pl_tail (place_requeue pl))),
        f_pending = map ?mem (pl_rest (place_requeue pl)), f_gap = False\<rparr>"
      unfolding tail room_msgs(2) [OF g] other_msgs(2) [OF g] by (simp add: taken(2))
    then have "rests n queue ?s (f\<lparr>f_pending := f_pending f @ [m]\<rparr>)"
      using rests.taken [OF good_requeue [OF g Some] _ taken(5), of queue ?mem] taken(4) by (simp only: tail)
    ultimately show ?thesis by blast
  qed
next
  case (passed pl ch mem)
  then show ?thesis using room good_count [OF passed(3)] by (cases "pl_jumped pl") (simp_all add: fifo_room_def fifo_count_def)
qed

lemma push_no_room:
  assumes r: "rests n queue s f" and full: "\<not> fifo_room n f" and n: "3 \<le> n" "n < 2 ^ 30" and q: "q_n_msgs queue = of_nat n"
  shows "\<exists>s'. queue_step (Force_Push m) s = Some (s', Forced RI_FORCE_PUSH_RESULT_DISCARDED) \<and>
      rests n queue s' (f\<lparr>f_pending := tl (f_pending f) @ [m], f_gap := True\<rparr>)"
    and "\<exists>s'. queue_step (Try_Push m) s = Some (s', Tried RI_TRY_PUSH_RESULT_FAIL) \<and> rests n queue s' f"
proof -
  let ?force = "\<exists>s'. queue_step (Force_Push m) s = Some (s', Forced RI_FORCE_PUSH_RESULT_DISCARDED) \<and>
      rests n queue s' (f\<lparr>f_pending := tl (f_pending f) @ [m], f_gap := True\<rparr>)"
    and ?tried = "\<exists>s'. queue_step (Try_Push m) s = Some (s', Tried RI_TRY_PUSH_RESULT_FAIL) \<and> rests n queue s' f"
  have dropped: "rests n queue (conf queue (place_drop pl) (linked_in pl ch) (pl_tail (place_drop pl)) (jump_word (pl_jumped pl)) (mem(pl_own pl := m)))
      \<lparr>f_held = map_option mem (pl_jumped pl), f_pending = map mem (pl_rest pl) @ [m], f_gap = True\<rparr>"
    if "good n pl ch" "pl_free pl = []" for pl ch and mem :: "ri_index \<Rightarrow> 'a"
  proof -
    have t: "pl_jumped (place_drop pl) = pl_jumped pl" "pl_free (place_drop pl) = []" using that(2) by (simp_all add: place_drop_def)
    show ?thesis
      using rests.passed [OF good_drop [OF that] t(2), of queue "mem(pl_own pl := m)"]
      unfolding t(1) room_msgs(3) [OF that(1)] other_msgs(3) [OF that(1)] .
  qed
  from r have "?force \<and> ?tried"
  proof cases
    case (fresh mem)
    then show ?thesis using full n by (simp add: fifo_room_def fifo_count_def fifo_new_def)
  next
    case (first pl ch mem)
    let ?w = "pl_tail pl OR RI_FIRST_FLAG" and ?mem = "mem(pl_own pl := m)"
    note g = first(3)
    have w: "?w AND RI_INDEX_MASK = pl_tail pl" "\<not> flagged ?w RI_CONSUMED_FLAG"
      using good_slot(4,5) [OF g _ n(2), of "pl_tail pl"] circle_members(2) [of pl] by (simp_all add: flag_simps)
    have free: "pl_free pl = []" using full good_count [OF g] first(2,4) by (simp add: fifo_room_def fifo_count_def)
    have j: "RI_INDEX_INVALID = jump_word (pl_jumped pl)" by (simp add: first(4) jump_word_def)
    have "queue_step (Force_Push m) s = Some (conf queue (place_drop pl) (linked_in pl ch) (pl_tail (place_drop pl)) (jump_word (pl_jumped pl)) ?mem,
        Forced RI_FORCE_PUSH_RESULT_DISCARDED)"
      unfolding first(1) j [symmetric] by (rule conf_push, rule force_drop [OF g n q w(1) free w(2)])
    moreover have "f\<lparr>f_pending := tl (f_pending f) @ [m], f_gap := True\<rparr> =
        \<lparr>f_held = map_option mem (pl_jumped pl), f_pending = map mem (pl_rest pl) @ [m], f_gap = True\<rparr>" by (simp add: first(2,4))
    ultimately have ?force using dropped [OF g free] by auto
    moreover have "queue_step (Try_Push m) s = Some (conf queue pl ch ?w RI_INDEX_INVALID ?mem, Tried RI_TRY_PUSH_RESULT_FAIL)"
      unfolding first(1) by (rule conf_push, rule try_full [OF g n q w(1) free]) (simp add: w(2))
    moreover have "rests n queue (conf queue pl ch ?w RI_INDEX_INVALID ?mem) f"
      using rests.first [OF g first(4), of queue ?mem] unfolding list.map other_msgs [OF g] by (simp add: first(2))
    ultimately show ?thesis by blast
  next
    case (taken pl ch w mem)
    let ?mem = "mem(pl_own pl := m)"
    note g = taken(3)
    have free: "pl_free pl = []" "pl_jumped pl = None" using full good_count [OF g] taken(2)
      by (cases "pl_jumped pl"; simp add: fifo_room_def fifo_count_def)+
    obtain r rs where r: "pl_rest pl = r # rs" using good_count [OF g] free n(1) by (cases "pl_rest pl") simp_all
    have j: "jump_word (pl_jumped (place_jump pl)) = pl_tail pl" by (simp add: place_jump_def jump_word_def)
    have "queue_step (Force_Push m) s = Some (conf queue (place_jump pl) (linked_in pl ch) (pl_tail (place_jump pl))
        (jump_word (pl_jumped (place_jump pl))) ?mem, Forced RI_FORCE_PUSH_RESULT_DISCARDED)"
      unfolding taken(1) j by (rule conf_push, rule force_jump [OF g n q taken(4) free(2,1) r taken(5)])
    moreover have jump: "pl_free (place_jump pl) = []" "pl_jumped (place_jump pl) = Some (pl_tail pl)" by (simp_all add: place_jump_def free)
    have "f\<lparr>f_pending := tl (f_pending f) @ [m], f_gap := True\<rparr> = \<lparr>f_held = map_option ?mem (pl_jumped (place_jump pl)),
        f_pending = map ?mem (pl_tail (place_jump pl) # pl_rest (place_jump pl)), f_gap = True\<rparr>"
      unfolding jump option.map room_msgs(4) [OF g r] other_msgs(2) [OF g] by (simp add: taken(2) r)
    ultimately have ?force using rests.passed [OF good_jump [OF g free r] jump(1), of queue ?mem] by auto
    moreover have "queue_step (Try_Push m) s = Some (conf queue pl ch w (pl_tail pl) ?mem, Tried RI_TRY_PUSH_RESULT_FAIL)"
      unfolding taken(1) by (rule conf_push, rule try_full [OF g n q taken(4) free(1)]) (simp add: free(2))
    moreover have "rests n queue (conf queue pl ch w (pl_tail pl) ?mem) f"
      using rests.taken [OF g taken(4,5), of queue ?mem] unfolding other_msgs [OF g] by (simp add: taken(2))
    ultimately show ?thesis by blast
  next
    case (passed pl ch mem)
    let ?mem = "mem(pl_own pl := m)"
    note g = passed(3) and free = passed(4)
    have w: "pl_tail pl AND RI_INDEX_MASK = pl_tail pl" "\<not> flagged (pl_tail pl) RI_CONSUMED_FLAG"
      using good_slot(4,5) [OF g _ n(2), of "pl_tail pl"] circle_members(2) [of pl] by simp_all
    have "queue_step (Force_Push m) s = Some (conf queue (place_drop pl) (linked_in pl ch) (pl_tail (place_drop pl)) (jump_word (pl_jumped pl)) ?mem,
        Forced RI_FORCE_PUSH_RESULT_DISCARDED)"
      unfolding passed(1) by (rule conf_push, rule force_drop [OF g n q w(1) free w(2)])
    moreover have "f\<lparr>f_pending := tl (f_pending f) @ [m], f_gap := True\<rparr> =
        \<lparr>f_held = map_option mem (pl_jumped pl), f_pending = map mem (pl_rest pl) @ [m], f_gap = True\<rparr>" by (simp add: passed(2))
    ultimately have ?force using dropped [OF g free] by auto
    moreover have "queue_step (Try_Push m) s = Some (conf queue pl ch (pl_tail pl) (jump_word (pl_jumped pl)) ?mem, Tried RI_TRY_PUSH_RESULT_FAIL)"
      unfolding passed(1) by (rule conf_push, rule try_full [OF g n q w(1) free]) (simp add: w(2))
    moreover have "rests n queue (conf queue pl ch (pl_tail pl) (jump_word (pl_jumped pl)) ?mem) f"
      using rests.passed [OF g free, of queue ?mem] unfolding list.map other_msgs [OF g] by (simp add: passed(2))
    ultimately show ?thesis by blast
  qed
  then show ?force and ?tried by blast+
qed

lemma pop_simulated:
  assumes r: "rests n queue s f" and n: "3 \<le> n" "n < 2 ^ 30" and q: "q_n_msgs queue = of_nat n"
  shows "\<exists>s'. queue_step Pop_Msg s = Some (s', snd (fifo_step n Pop_Msg f)) \<and> rests n queue s' (fst (fifo_step n Pop_Msg f))"
  using r
proof cases
  case (fresh mem)
  have "run (ri_consumer_queue_pop (popping queue 0)) (pushed n 0) = Some (pushed n 0, popping queue 0, RI_POP_RESULT_NO_MSG)"
    by (simp add: ri_consumer_queue_pop_def popping_def pushed_def head_at_def shared_ops flag_simps)
  then have "queue_step Pop_Msg s = Some (s, Popped RI_POP_RESULT_NO_MSG None)"
    by (simp add: fresh(1) held_msg_def popping_def head_at_def)
  then show ?thesis using r by (simp add: fresh(2) fifo_new_def)
next
  case (first pl ch mem)
  let ?w = "pl_tail pl OR RI_FIRST_FLAG"
  note g = first(3)
  note t = good_slot [OF g _ n(2), of "pl_tail pl"]
  have w: "?w AND RI_INDEX_MASK = pl_tail pl" "\<not> flagged ?w RI_CONSUMED_FLAG" "flagged ?w RI_FIRST_FLAG"
    using t(4,5) circle_members(2) [of pl] by (simp_all add: flag_simps)
  have "queue_step Pop_Msg s = Some (conf queue pl ch (?w OR RI_CONSUMED_FLAG) (pl_tail pl) mem, Popped RI_POP_RESULT_SUCCESS (Some (mem (pl_tail pl))))"
    using pop_tail [OF g n(2) q w(1,2), of RI_INDEX_INVALID] w(3) t(3) circle_members(2) [of pl]
    by (simp add: first(1) held_msg_def popper_at_def conf_def)
  moreover have "rests n queue (conf queue pl ch (?w OR RI_CONSUMED_FLAG) (pl_tail pl) mem)
      \<lparr>f_held = Some (mem (pl_tail pl)), f_pending = map mem (pl_rest pl), f_gap = False\<rparr>"
    by (rule rests.taken [OF g]) (simp_all add: flag_simps w(1) [unfolded mask_or_first])
  ultimately show ?thesis by (simp add: first(2))
next
  case (taken pl ch w mem)
  note g = taken(3)
  note t = good_slot [OF g _ n(2)]
  show ?thesis
  proof (cases "pl_rest pl")
    case Nil
    have "queue_step Pop_Msg s = Some (s, Popped RI_POP_RESULT_NO_UPDATE (Some (mem (pl_tail pl))))"
      using pop_nothing [OF g n(2) q taken(4,5) Nil] t(3) circle_members(2) [of pl]
      by (simp add: taken(1) held_msg_def popper_at_def conf_def)
    then show ?thesis using r by (simp add: taken(2) Nil)
  next
    case (Cons x xs)
    have x: "x \<noteq> RI_INDEX_INVALID" "x AND RI_INDEX_MASK = x" using t(3,4) circle_members(5) [OF Cons] by auto
    have p: "pl_tail (place_next pl) = x" "pl_rest (place_next pl) = xs" by (simp_all add: place_next_def Cons)
    have same: "words_at (place_next pl) = words_at pl" "pusher_at queue (place_next pl) = pusher_at queue pl"
      unfolding words_at_def [abs_def] pusher_at_def [abs_def] place_next_eq [OF Cons] by (simp_all add: place_next_def)
    have "queue_step Pop_Msg s = Some (conf queue (place_next pl) ch (x OR RI_CONSUMED_FLAG) x mem, Popped RI_POP_RESULT_SUCCESS (Some (mem x)))"
      using pop_next [OF g n(2) q taken(4,5) Cons] x by (simp add: taken(1) held_msg_def popper_at_def conf_def same)
    moreover have "rests n queue (conf queue (place_next pl) ch (x OR RI_CONSUMED_FLAG) x mem)
        \<lparr>f_held = Some (mem x), f_pending = map mem xs, f_gap = False\<rparr>"
      using rests.taken [OF good_next [OF g Cons], of "x OR RI_CONSUMED_FLAG" queue mem] x(2) unfolding p by (simp add: flag_simps)
    ultimately show ?thesis by (simp add: taken(2) Cons)
  qed
next
  case (passed pl ch mem)
  let ?w = "pl_tail pl"
  note g = passed(3)
  note t = good_slot [OF g _ n(2), of "pl_tail pl"]
  have w: "?w AND RI_INDEX_MASK = pl_tail pl" "\<not> flagged ?w RI_CONSUMED_FLAG" "\<not> flagged ?w RI_FIRST_FLAG"
    using t(4-6) circle_members(2) [of pl] by simp_all
  have "queue_step Pop_Msg s = Some (conf queue pl ch (?w OR RI_CONSUMED_FLAG) (pl_tail pl) mem, Popped RI_POP_RESULT_DISCARDED (Some (mem (pl_tail pl))))"
    using pop_tail [OF g n(2) q w(1,2)] w(3) t(3) circle_members(2) [of pl]
    by (simp add: passed(1) held_msg_def popper_at_def conf_def)
  moreover have "rests n queue (conf queue pl ch (?w OR RI_CONSUMED_FLAG) (pl_tail pl) mem)
      \<lparr>f_held = Some (mem (pl_tail pl)), f_pending = map mem (pl_rest pl), f_gap = False\<rparr>"
    by (rule rests.taken [OF g]) (simp_all add: flag_simps w(1))
  ultimately show ?thesis by (simp add: passed(2))
qed

section \<open>Flushes\<close>

text \<open>The slot of the newest message becomes the tail, those before it are free.\<close>

definition place_newest :: "places \<Rightarrow> places" where
  "place_newest pl = pl\<lparr>pl_free := pl_free pl @ butlast (pl_tail pl # pl_rest pl), pl_tail := last (circle pl), pl_rest := []\<rparr>"

lemma place_newest_eq: "circle (place_newest pl) = circle pl"
  by (simp add: place_newest_def circle_def)

lemma good_newest: "good n pl ch \<Longrightarrow> good n (place_newest pl) ch"
  unfolding good_def place_newest_eq by (simp add: place_newest_def)

lemma flush_conf:
  assumes g: "good n pl ch" and n: "3 \<le> n" "n < 2 ^ 30" and q: "q_n_msgs queue = of_nat n" and w: "w AND RI_INDEX_MASK = pl_tail pl"
  shows "\<exists>s'. queue_step (Flush_Msgs rounds) (conf queue pl ch w cur mem) =
      Some (s', Popped RI_POP_RESULT_DISCARDED (Some (last (map mem (pl_tail pl # pl_rest pl))))) \<and>
    rests n queue s' \<lparr>f_held = Some (last (map mem (pl_tail pl # pl_rest pl))), f_pending = [], f_gap = False\<rparr>"
proof -
  let ?head = "last (circle pl)"
  have h: "?head \<noteq> RI_INDEX_INVALID" "?head AND RI_INDEX_MASK = ?head" "ri_queue_index_valid queue ?head" "unat (pl_tail pl) < n"
    "ri_queue_index_valid queue (pl_tail pl)"
    using good_slot [OF g _ n(2)] circle_members [of pl] q by simp_all
  have m: "last (map mem (pl_tail pl # pl_rest pl)) = mem ?head" unfolding last_circle by (rule last_map) simp
  have "w \<noteq> RI_INDEX_INVALID" using w h(4) invalid_mask n by auto
  then have loop: "flush_loop (Suc rounds) (popper_at queue cur) (words_at pl ch w) =
      Some (words_at pl ch (?head OR RI_CONSUMED_FLAG), popper_at queue ?head, RI_POP_RESULT_DISCARDED)"
    unfolding flush_one_round using w h by (simp add: popper_at_def words_at_def)
  have p: "pl_tail (place_newest pl) = ?head" "pl_rest (place_newest pl) = []" by (simp_all add: place_newest_def)
  have same: "words_at (place_newest pl) = words_at pl" "pusher_at queue (place_newest pl) = pusher_at queue pl"
    unfolding words_at_def [abs_def] pusher_at_def [abs_def] place_newest_eq by (simp_all add: place_newest_def)
  have "queue_step (Flush_Msgs rounds) (conf queue pl ch w cur mem) =
      Some (conf queue (place_newest pl) ch (?head OR RI_CONSUMED_FLAG) ?head mem, Popped RI_POP_RESULT_DISCARDED (Some (mem ?head)))"
    using loop h(1) by (simp del: flush_loop.simps add: held_msg_def conf_def popper_at_def same)
  moreover have "rests n queue (conf queue (place_newest pl) ch (?head OR RI_CONSUMED_FLAG) ?head mem)
      \<lparr>f_held = Some (mem ?head), f_pending = [], f_gap = False\<rparr>"
    using rests.taken [OF good_newest [OF g], of "?head OR RI_CONSUMED_FLAG" queue mem] h(2) unfolding p by (simp add: flag_simps)
  ultimately show ?thesis unfolding m by blast
qed

lemma flush_simulated:
  assumes r: "rests n queue s f" and n: "3 \<le> n" "n < 2 ^ 30" and q: "q_n_msgs queue = of_nat n"
  shows "\<exists>s'. queue_step (Flush_Msgs rounds) s = Some (s', snd (fifo_step n (Flush_Msgs rounds) f)) \<and>
    rests n queue s' (fst (fifo_step n (Flush_Msgs rounds) f))"
  using r
proof cases
  case (fresh mem)
  have "flush_loop (Suc rounds) (popping queue 0) (pushed n 0) = Some (pushed n 0, popping queue 0, RI_POP_RESULT_NO_MSG)"
    unfolding flush_one_round by (simp add: pushed_def flag_simps)
  then have "queue_step (Flush_Msgs rounds) s = Some (s, Popped RI_POP_RESULT_NO_MSG None)"
    by (simp del: flush_loop.simps add: fresh(1) held_msg_def popping_def head_at_def)
  then show ?thesis using r by (simp del: queue_step.simps add: fresh(2) fifo_new_def)
next
  case (first pl ch mem)
  have "pl_tail pl AND RI_INDEX_MASK = pl_tail pl"
    using good_slot(4) [OF first(3) _ n(2), of "pl_tail pl"] circle_members(2) [of pl] by simp
  then show ?thesis using flush_conf [OF first(3) n q, of "pl_tail pl OR RI_FIRST_FLAG" rounds RI_INDEX_INVALID mem]
    by (simp del: queue_step.simps add: first(1,2) flag_simps)
next
  case (taken pl ch w mem)
  then show ?thesis using flush_conf [OF taken(3) n q taken(4), of rounds "pl_tail pl" mem]
    by (simp del: queue_step.simps)
next
  case (passed pl ch mem)
  have "pl_tail pl AND RI_INDEX_MASK = pl_tail pl"
    using good_slot(4) [OF passed(3) _ n(2), of "pl_tail pl"] circle_members(2) [of pl] by simp
  then show ?thesis using flush_conf [OF passed(3) n q, of "pl_tail pl" rounds "jump_word (pl_jumped pl)" mem]
    by (cases "pl_jumped pl") (simp_all del: queue_step.simps add: passed(1,2))
qed

section \<open>Counts\<close>

lemma count_linked:
  assumes "linked (succ_of ch) (x # xs)" and "succ_of ch (last (x # xs)) = RI_INDEX_INVALID"
    and "\<forall>i\<in>set (x # xs). unat i < length ch \<and> i \<noteq> RI_INDEX_INVALID" and "c + length (x # xs) < 2 ^ 30"
    and "length (x # xs) < d" and "sh_chain sh = ch"
  shows "run (count_loop queue d (of_nat c) x) sh = Some (sh, int (c + length (x # xs)))"
  using assms
proof (induction xs arbitrary: c d x)
  case Nil
  obtain e where d: "d = Suc (Suc e)" using Nil.prems(5) by (cases d rule: nat.exhaust; cases "d - 1") auto
  have "sint (of_nat (Suc c) :: u32) = int (Suc c)" by (rule sint_of_nat_small) (use Nil.prems in simp)
  then show ?case using Nil.prems by (simp add: d shared_ops succ_of_def add.commute)
next
  case (Cons y ys)
  obtain e where d: "d = Suc e" using Cons.prems(5) by (cases d) auto
  have "run (count_loop queue e (of_nat (Suc c)) y) sh = Some (sh, int (Suc c + length (y # ys)))"
    by (rule Cons.IH) (use Cons.prems d in auto)
  then show ?case using Cons.prems by (simp add: d shared_ops succ_of_def add.commute)
qed

lemma consumer_count_linked:
  assumes "linked (succ_of ch) (x # xs)" and "succ_of ch (last (x # xs)) = RI_INDEX_INVALID"
    and "\<forall>i\<in>set (x # xs). unat i < length ch \<and> i \<noteq> RI_INDEX_INVALID \<and> ri_queue_index_valid queue i" and "c + length (x # xs) < 2 ^ 30"
    and "length (x # xs) \<le> d" and "sh_chain sh = ch" and "flagged (sh_tail sh) RI_CONSUMED_FLAG \<or> flagged (sh_tail sh) RI_FIRST_FLAG"
  shows "run (consumer_count_loop queue d (of_nat c) x) sh = Some (sh, int (c + length (x # xs)))"
  using assms
proof (induction xs arbitrary: c d x)
  case Nil
  obtain e where d: "d = Suc e" using Nil.prems(5) by (cases d) auto
  have "sint (of_nat (Suc c) :: u32) = int (Suc c)" by (rule sint_of_nat_small) (use Nil.prems in simp)
  then show ?case using Nil.prems by (auto simp: d shared_ops succ_of_def add.commute)
next
  case (Cons y ys)
  obtain e where d: "d = Suc e" using Cons.prems(5) by (cases d) auto
  have "run (consumer_count_loop queue e (of_nat (Suc c)) y) sh = Some (sh, int (Suc c + length (y # ys)))"
    by (rule Cons.IH) (use Cons.prems d in auto)
  then show ?case using Cons.prems by (simp add: d shared_ops succ_of_def add.commute)
qed

lemma counts_flagged:
  assumes g: "good n pl ch" and n: "3 \<le> n" "n < 2 ^ 30" and q: "q_n_msgs queue = of_nat n" and w: "w AND RI_INDEX_MASK = pl_tail pl"
    and c: "flagged w RI_CONSUMED_FLAG \<or> flagged w RI_FIRST_FLAG"
  shows "run (ri_producer_queue_count_msgs (pusher_at queue pl ch)) (words_at pl ch w) = Some (words_at pl ch w, int (Suc (length (pl_rest pl))))"
    and "run (ri_consumer_queue_count_msgs \<lparr>c_queue = queue, c_current = cur\<rparr>) (words_at pl ch w) = Some (words_at pl ch w, int (Suc (length (pl_rest pl))))"
proof -
  have l: "linked (succ_of ch) (pl_tail pl # pl_rest pl)" "succ_of ch (last (pl_tail pl # pl_rest pl)) = RI_INDEX_INVALID"
    using g by (auto simp: good_def circle_def successively_append_iff successively_Cons)
  have v: "unat i < length ch \<and> i \<noteq> RI_INDEX_INVALID \<and> ri_queue_index_valid queue i" if "i \<in> set (pl_tail pl # pl_rest pl)" for i
    using good_slot(2,3) [OF g _ n(2), of i] good_slot(7) [OF g _ n(2) q, of i] that by (auto simp: circle_def)
  have len: "length (pl_tail pl # pl_rest pl) < n" using good_count [OF g] by simp
  have u: "unat (of_nat n :: u32) = n" using n by (simp add: unsigned_of_nat take_bit_nat_eq_self)
  have w_ok: "w \<noteq> RI_INDEX_INVALID"
  proof
    assume "w = RI_INDEX_INVALID"
    then have "unat (pl_tail pl) = 2 ^ 30 - 1" using w invalid_mask by simp
    then show False using good_slot(1) [OF g _ n(2), of "pl_tail pl"] circle_members(2) [of pl] n by simp
  qed
  have h: "last (circle pl) \<noteq> RI_INDEX_INVALID" by (rule push_tests(3) [OF g n q w])
  have "run (count_loop queue n (of_nat 0) (pl_tail pl)) (words_at pl ch w) = Some (words_at pl ch w, int (0 + length (pl_tail pl # pl_rest pl)))"
    by (rule count_linked [OF l]) (use v len n in auto)
  then show "run (ri_producer_queue_count_msgs (pusher_at queue pl ch)) (words_at pl ch w) = Some (words_at pl ch w, int (Suc (length (pl_rest pl))))"
    using c h w v [of "pl_tail pl"] u q by (auto simp: ri_producer_queue_count_msgs_def shared_ops)
  have "run (consumer_count_loop queue n (of_nat 0) (pl_tail pl)) (words_at pl ch w) = Some (words_at pl ch w, int (0 + length (pl_tail pl # pl_rest pl)))"
    by (rule consumer_count_linked [OF l]) (use v len n c in auto)
  then show "run (ri_consumer_queue_count_msgs \<lparr>c_queue = queue, c_current = cur\<rparr>) (words_at pl ch w) = Some (words_at pl ch w, int (Suc (length (pl_rest pl))))"
    using c w v [of "pl_tail pl"] u q w_ok by (auto simp: ri_consumer_queue_count_msgs_def shared_ops)
qed

text \<open>A tail moved by the producer has no flag.\<close>

lemma counts_passed:
  assumes g: "good n pl ch" and n: "3 \<le> n" "n < 2 ^ 30" and q: "q_n_msgs queue = of_nat n"
  shows "run (ri_producer_queue_count_msgs (pusher_at queue pl ch)) (words_at pl ch (pl_tail pl)) = Some (words_at pl ch (pl_tail pl), int (n - 1))"
    and "run (ri_consumer_queue_count_msgs \<lparr>c_queue = queue, c_current = cur\<rparr>) (words_at pl ch (pl_tail pl)) =
      Some (words_at pl ch (pl_tail pl), int (n - 1))"
proof -
  note t = good_slot [OF g _ n(2), of "pl_tail pl"]
  have "q_n_msgs queue - 1 = of_nat (n - 1)" using n q by (simp add: of_nat_diff)
  moreover have "sint (of_nat (n - 1) :: u32) = int (n - 1)" by (rule sint_of_nat_small) (use n in simp)
  ultimately have m: "sint (q_n_msgs queue - 1) = int (n - 1)" by simp
  have h: "last (circle pl) \<noteq> RI_INDEX_INVALID" using good_slot(3) [OF g _ n(2)] circle_members(3) [of pl] by simp
  show "run (ri_producer_queue_count_msgs (pusher_at queue pl ch)) (words_at pl ch (pl_tail pl)) = Some (words_at pl ch (pl_tail pl), int (n - 1))"
    using t(5,6) circle_members(2) [of pl] h m by (simp add: ri_producer_queue_count_msgs_def shared_ops)
  show "run (ri_consumer_queue_count_msgs \<lparr>c_queue = queue, c_current = cur\<rparr>) (words_at pl ch (pl_tail pl)) =
      Some (words_at pl ch (pl_tail pl), int (n - 1))"
    using t(3,5,6) circle_members(2) [of pl] m by (simp add: ri_consumer_queue_count_msgs_def shared_ops)
qed

lemma count_simulated:
  assumes r: "rests n queue s f" and n: "3 \<le> n" "n < 2 ^ 30" and q: "q_n_msgs queue = of_nat n"
  shows "queue_step Count_By_Producer s = Some (s, Counted (int (fifo_count f)))"
    and "queue_step Count_By_Consumer s = Some (s, Counted (int (fifo_count f)))"
proof -
  have "queue_step Count_By_Producer s = Some (s, Counted (int (fifo_count f))) \<and>
      queue_step Count_By_Consumer s = Some (s, Counted (int (fifo_count f)))"
    using r
  proof cases
    case (fresh mem)
    then show ?thesis
      by (simp add: fifo_count_def fifo_new_def ri_producer_queue_count_msgs_def ri_consumer_queue_count_msgs_def pushing_def pushed_def
          popping_def head_at_def shared_ops)
  next
    case (first pl ch mem)
    have "pl_tail pl AND RI_INDEX_MASK = pl_tail pl"
      using good_slot(4) [OF first(3) _ n(2), of "pl_tail pl"] circle_members(2) [of pl] by simp
    then show ?thesis using counts_flagged [OF first(3) n q, of "pl_tail pl OR RI_FIRST_FLAG"]
      by (simp add: first(1,2) fifo_count_def flag_simps conf_def)
  next
    case (taken pl ch w mem)
    then show ?thesis using counts_flagged [OF taken(3) n q taken(4)] by (simp add: fifo_count_def conf_def)
  next
    case (passed pl ch mem)
    have "fifo_count f = n - 1" using good_count [OF passed(3)] passed(2,4) by (cases "pl_jumped pl") (simp_all add: fifo_count_def)
    then show ?thesis using counts_passed [OF passed(3) n q] by (simp add: passed(1) conf_def)
  qed
  then show "queue_step Count_By_Producer s = Some (s, Counted (int (fifo_count f)))"
    and "queue_step Count_By_Consumer s = Some (s, Counted (int (fifo_count f)))" by blast+
qed

section \<open>Refinement\<close>

definition simulation :: "nat \<Rightarrow> ri_queue \<Rightarrow> 'm qstate \<Rightarrow> 'm fifo \<Rightarrow> bool" where
  "simulation n queue s f \<longleftrightarrow> 3 \<le> n \<and> n < 2 ^ 30 \<and> q_n_msgs queue = of_nat n \<and> rests n queue s f"

lemma queue_step_simulated:
  assumes "simulation n queue s f"
  shows "\<exists>s'. queue_step op s = Some (s', snd (fifo_step n op f)) \<and> simulation n queue s' (fst (fifo_step n op f))"
proof (cases op)
  case (Force_Push m)
  then show ?thesis using assms push_room [of n queue s f m] push_no_room(1) [of n queue s f m]
    unfolding simulation_def by (cases "fifo_room n f") (simp_all del: queue_step.simps, blast+)
next
  case (Try_Push m)
  then show ?thesis using assms push_room [of n queue s f m] push_no_room(2) [of n queue s f m]
    unfolding simulation_def by (cases "fifo_room n f") (simp_all del: queue_step.simps, blast+)
next
  case Pop_Msg
  then show ?thesis using assms pop_simulated [of n queue s f]
    unfolding simulation_def by (simp del: queue_step.simps fifo_step.simps)
qed (use assms flush_simulated [of n queue s f] count_simulated [of n queue s f] in \<open>simp_all add: simulation_def del: queue_step.simps\<close>)

interpretation queues: refinement queue_step "fifo_step n" "simulation n queue" for n queue
  by unfold_locales (rule queue_step_simulated)

lemma new_queue_simulated:
  assumes "unat (ri_channel_queue_len attr) = n" and "3 \<le> n" and "n < 2 ^ 30" and "length (sh_chain sh) = n"
    and "run (ri_producer_queue_new cls True raw (Some addr) attr) sh = Some (sh1, Some producer)"
    and "ri_consumer_queue_new cls True (Some addr) attr = Some consumer"
  shows "\<exists>queue. simulation n queue \<lparr>qs_shared = ri_producer_queue_init_shm sh1, qs_producer = producer,
      qs_consumer = consumer, qs_mem = mem\<rparr> fifo_new"
proof -
  let ?queue = "ri_queue_init cls attr addr"
  note new = new_queue [OF assms(1,2,4,5)]
  have "consumer = popping ?queue 0"
    using assms(6) by (simp add: ri_consumer_queue_new_def popping_def head_at_def)
  then have "rests n ?queue \<lparr>qs_shared = ri_producer_queue_init_shm sh1, qs_producer = producer, qs_consumer = consumer, qs_mem = mem\<rparr> fifo_new"
    unfolding new(1,2) by (simp add: rests.fresh)
  then have "simulation n ?queue \<lparr>qs_shared = ri_producer_queue_init_shm sh1, qs_producer = producer, qs_consumer = consumer, qs_mem = mem\<rparr> fifo_new"
    using assms(2,3) new(3) by (simp add: simulation_def)
  then show ?thesis by blast
qed

text \<open>The results of a new queue are those of the bounded queue.\<close>

lemma new_queue_trace:
  assumes "unat (ri_channel_queue_len attr) = n" and "3 \<le> n" and "n < 2 ^ 30" and "length (sh_chain sh) = n"
    and "run (ri_producer_queue_new cls True raw (Some addr) attr) sh = Some (sh1, Some producer)"
    and "ri_consumer_queue_new cls True (Some addr) attr = Some consumer"
  shows "\<exists>s'. trace queue_step ops \<lparr>qs_shared = ri_producer_queue_init_shm sh1, qs_producer = producer,
      qs_consumer = consumer, qs_mem = mem\<rparr> = Some (s', snd (spec_trace (fifo_step n) ops fifo_new))"
  using new_queue_simulated [OF assms] queues.trace_simulated by blast

text \<open>
  C5. A new queue of \<open>n\<close> slots whose messages lie behind its chain behaves, for every sequence of pushes, forced pushes, pops, flushes and counts, like the bounded queue
  \<open>fifo_step\<close>: the same results in the same order, and the consumer finds in its slot the message the bounded queue holds; both sides
  count the messages it has, the one that is held included.
\<close>

theorem queue_refines_fifo:
  assumes "unat (ri_channel_queue_len attr) = n" and "3 \<le> n" and "n < 2 ^ 30" and "length (sh_chain sh) = n"
    and "run (ri_producer_queue_new cls True raw (Some addr) attr) sh = Some (sh1, Some producer)"
    and "ri_consumer_queue_new cls True (Some addr) attr = Some consumer" and "slots_apart cls attr addr"
  shows "\<exists>s'. trace queue_step ops \<lparr>qs_shared = ri_producer_queue_init_shm sh1, qs_producer = producer,
      qs_consumer = consumer, qs_mem = mem\<rparr> = Some (s', snd (spec_trace (fifo_step n) ops fifo_new))"
  by (rule new_queue_trace [OF assms(1-6)])

lemma five_slots_apart: "slots_apart 64 five_slots 4096"
proof -
  have "unat (ri_channel_shm_size 64 five_slots) = 384" by code_simp
  then show ?thesis by (simp add: slots_apart_iff line64 sane_attr_def five_slots_def)
qed

text \<open>Overtaking a consumer that holds a message, in a queue of five slots.\<close>

definition overtake :: "nat queue_op list" where
  "overtake = [Force_Push 1, Pop_Msg, Force_Push 2, Force_Push 3, Force_Push 4, Force_Push 5, Try_Push 6,
    Count_By_Producer, Pop_Msg, Try_Push 7, Pop_Msg, Count_By_Consumer, Flush_Msgs 0]"

lemma overtake_results: "snd (spec_trace (fifo_step 5) overtake fifo_new) =
    [Forced RI_FORCE_PUSH_RESULT_SUCCESS, Popped RI_POP_RESULT_SUCCESS (Some 1), Forced RI_FORCE_PUSH_RESULT_SUCCESS,
     Forced RI_FORCE_PUSH_RESULT_SUCCESS, Forced RI_FORCE_PUSH_RESULT_SUCCESS, Forced RI_FORCE_PUSH_RESULT_DISCARDED,
     Tried RI_TRY_PUSH_RESULT_FAIL, Counted 4, Popped RI_POP_RESULT_DISCARDED (Some 3), Tried RI_TRY_PUSH_RESULT_SUCCESS,
     Popped RI_POP_RESULT_SUCCESS (Some 4), Counted 3, Popped RI_POP_RESULT_DISCARDED (Some 7)]"
  by code_simp

theorem queue_refines_fifo_witness:
  "\<exists>sh1 producer consumer s'. run (ri_producer_queue_new 64 True (\<lambda>_. 9) (Some 4096) five_slots) raw_words = Some (sh1, Some producer) \<and>
     ri_consumer_queue_new 64 True (Some 4096) five_slots = Some consumer \<and>
     trace queue_step overtake \<lparr>qs_shared = ri_producer_queue_init_shm sh1, qs_producer = producer, qs_consumer = consumer, qs_mem = (\<lambda>_. 0)\<rparr> =
       Some (s', snd (spec_trace (fifo_step 5) overtake fifo_new))"
proof -
  obtain sh1 producer where new:
    "run (ri_producer_queue_new 64 True (\<lambda>_. 9) (Some 4096) five_slots) raw_words = Some (sh1, Some producer)"
    using five_slots_new by (auto split: option.splits prod.splits)
  obtain consumer where c: "ri_consumer_queue_new 64 True (Some 4096) five_slots = Some consumer"
    by (simp add: ri_consumer_queue_new_def)
  from queue_refines_fifo [OF five_slots_len _ _ _ new c five_slots_apart, of overtake "\<lambda>_. 0"] new c show ?thesis
    by (fastforce simp: raw_words_def)
qed

end
