(* ===== verification/Liveness.thy ===== *)
theory Liveness
  imports Fifo
begin

text \<open>
  What a consumer that keeps popping gets: the newest message after a bounded number of pops, and every message that was accepted when the
  producer never forces a push. Both on the bounded queue, and by the refinement on the queue of the code.
\<close>

section \<open>The bounded queue never holds more than it has room for\<close>

lemma fifo_step_bounded:
  assumes "3 \<le> n" and "fifo_count f \<le> n - 1"
  shows "fifo_count (fst (fifo_step n op f)) \<le> n - 1"
proof (cases op)
  case (Force_Push m)
  have "f_pending f \<noteq> []" if "\<not> fifo_room n f" using that assms(1) by (auto simp: fifo_room_def fifo_count_def split: if_splits)
  then show ?thesis using assms Force_Push by (auto simp: fifo_count_def fifo_room_def split: if_splits)
next
  case (Flush_Msgs rounds)
  then show ?thesis using assms by (auto simp: fifo_count_def split: list.splits)
qed (use assms in \<open>auto simp: fifo_count_def fifo_room_def split: list.splits if_splits\<close>)

lemma spec_trace_bounded:
  "3 \<le> n \<Longrightarrow> fifo_count f \<le> n - 1 \<Longrightarrow> fifo_count (fst (spec_trace (fifo_step n) ops f)) \<le> n - 1"
proof (induction ops arbitrary: f)
  case (Cons op ops)
  then show ?case using fifo_step_bounded [of n f op] by (auto split: prod.splits) (metis fst_conv)
qed simp

lemma pending_bounded: "3 \<le> n \<Longrightarrow> length (f_pending (fst (spec_trace (fifo_step n) ops fifo_new))) < n"
  using spec_trace_bounded [of n fifo_new ops] by (simp add: fifo_count_def fifo_new_def split: if_splits)

lemma spec_trace_append: "spec_trace step (xs @ ys) a =
    (fst (spec_trace step ys (fst (spec_trace step xs a))), snd (spec_trace step xs a) @ snd (spec_trace step ys (fst (spec_trace step xs a))))"
  by (induction xs arbitrary: a) (simp_all split: prod.splits)

section \<open>Popping on\<close>

definition fifo_newest :: "'m fifo \<Rightarrow> 'm option" where
  "fifo_newest f = (if f_pending f = [] then f_held f else Some (last (f_pending f)))"

lemma pops_reach_newest:
  "length (f_pending f) < k \<Longrightarrow> fifo_newest f = Some m \<Longrightarrow>
    last (snd (spec_trace (fifo_step n) (replicate k Pop_Msg) f)) = Popped RI_POP_RESULT_NO_UPDATE (Some m)"
proof (induction k arbitrary: f)
  case (Suc k)
  let ?g = "fst (fifo_step n Pop_Msg f)"
  have t: "snd (spec_trace (fifo_step n) (replicate (Suc k) Pop_Msg) f) =
      snd (fifo_step n Pop_Msg f) # snd (spec_trace (fifo_step n) (replicate k Pop_Msg) ?g)" by (simp split: prod.splits)
  have g: "fifo_newest ?g = Some m" using Suc.prems(2) by (auto simp: fifo_newest_def split: list.splits)
  show ?case
  proof (cases "k = 0")
    case True
    then show ?thesis using Suc.prems by (simp add: fifo_newest_def)
  next
    case False
    then have "length (f_pending ?g) < k" using Suc.prems(1) by (auto split: list.splits)
    moreover have "snd (spec_trace (fifo_step n) (replicate k Pop_Msg) ?g) \<noteq> []" using False by (cases k) (simp_all split: prod.splits)
    ultimately show ?thesis using Suc.IH [OF _ g] unfolding t by simp
  qed
qed simp

lemma pops_empty: "length (f_pending f) \<le> k \<Longrightarrow> f_pending (fst (spec_trace (fifo_step n) (replicate k Pop_Msg) f)) = []"
proof (induction k arbitrary: f)
  case (Suc k)
  let ?g = "fst (fifo_step n Pop_Msg f)"
  have "fst (spec_trace (fifo_step n) (replicate (Suc k) Pop_Msg) f) = fst (spec_trace (fifo_step n) (replicate k Pop_Msg) ?g)"
    by (simp split: prod.splits)
  moreover have "length (f_pending ?g) \<le> k" using Suc.prems by (auto split: list.splits)
  ultimately show ?case using Suc.IH by simp
qed simp

section \<open>Nothing is lost\<close>

text \<open>The messages accepted and the messages delivered, in order.\<close>

fun accepted :: "'m queue_op list \<Rightarrow> 'm queue_result list \<Rightarrow> 'm list" where
  "accepted (Try_Push m # ops) (Tried RI_TRY_PUSH_RESULT_SUCCESS # rs) = m # accepted ops rs"
| "accepted (op # ops) (r # rs) = accepted ops rs"
| "accepted _ _ = []"

fun delivered :: "'m queue_result list \<Rightarrow> 'm list" where
  "delivered (Popped RI_POP_RESULT_SUCCESS (Some m) # rs) = m # delivered rs"
| "delivered (Popped RI_POP_RESULT_DISCARDED (Some m) # rs) = m # delivered rs"
| "delivered (r # rs) = delivered rs"
| "delivered [] = []"

fun polite :: "'m queue_op \<Rightarrow> bool" where
  "polite (Force_Push m) = False"
| "polite (Flush_Msgs rounds) = False"
| "polite op = True"

lemma polite_lossless:
  assumes "\<forall>op\<in>set ops. polite op" and "\<not> f_gap f"
  shows "f_pending f @ accepted ops (snd (spec_trace (fifo_step n) ops f)) =
      delivered (snd (spec_trace (fifo_step n) ops f)) @ f_pending (fst (spec_trace (fifo_step n) ops f)) \<and>
    (\<forall>m. Popped RI_POP_RESULT_DISCARDED m \<notin> set (snd (spec_trace (fifo_step n) ops f)))"
  using assms
proof (induction ops arbitrary: f)
  case (Cons op ops)
  obtain g r where s: "fifo_step n op f = (g, r)" by (cases "fifo_step n op f")
  obtain h rs where t: "spec_trace (fifo_step n) ops g = (h, rs)" by (cases "spec_trace (fifo_step n) ops g")
  have g: "\<not> f_gap g" using s Cons.prems by (cases op) (auto split: list.splits if_splits)
  have IH: "f_pending g @ accepted ops rs = delivered rs @ f_pending h" "\<forall>m. Popped RI_POP_RESULT_DISCARDED m \<notin> set rs"
    using Cons.IH [OF _ g] Cons.prems(1) t by simp_all
  show ?case
  proof (cases op)
    case (Try_Push m)
    then show ?thesis using s t IH by (auto split: if_splits)
  next
    case Pop_Msg
    then show ?thesis using s t IH Cons.prems(2) by (auto split: list.splits if_splits)
  qed (use s t IH Cons.prems in auto)
qed simp

section \<open>Properties\<close>

text \<open>
  C6. Whatever has been done with a new queue of \<open>n\<close> slots whose messages lie behind its chain, and however far the consumer is behind: once a message has been pushed by
  force, a consumer that pops \<open>n\<close> times holds it, and the last pop says that there is nothing newer.
\<close>

theorem newest_message_reached:
  assumes "unat (ri_channel_queue_len attr) = n" and "3 \<le> n" and "n < 2 ^ 30" and "length (sh_chain sh) = n"
    and "run (ri_producer_queue_new cls True raw (Some addr) attr) sh = Some (sh1, Some producer)"
    and "ri_consumer_queue_new cls True (Some addr) attr = Some consumer" and "slots_apart cls attr addr"
  shows "\<exists>s rs. trace queue_step (ops @ Force_Push m # replicate n Pop_Msg) \<lparr>qs_shared = ri_producer_queue_init_shm sh1,
      qs_producer = producer, qs_consumer = consumer, qs_mem = mem\<rparr> = Some (s, rs) \<and>
    last rs = Popped RI_POP_RESULT_NO_UPDATE (Some m)"
proof -
  let ?ops = "ops @ [Force_Push m]"
  let ?f = "fst (spec_trace (fifo_step n) ?ops fifo_new)"
  have "length (f_pending ?f) < n" using pending_bounded [OF assms(2)] .
  moreover have "fifo_newest ?f = Some m" by (simp add: spec_trace_append fifo_newest_def)
  moreover have "snd (spec_trace (fifo_step n) (replicate n Pop_Msg) ?f) \<noteq> []" using assms(2) by (cases n) (simp_all split: prod.splits)
  ultimately have "last (snd (spec_trace (fifo_step n) (?ops @ replicate n Pop_Msg) fifo_new)) = Popped RI_POP_RESULT_NO_UPDATE (Some m)"
    using pops_reach_newest unfolding spec_trace_append [of _ ?ops] by simp
  then show ?thesis using new_queue_trace [OF assms(1-6), of "?ops @ replicate n Pop_Msg" mem] by auto
qed

text \<open>After the sequence \<open>overtake\<close>, in a queue of five slots.\<close>

theorem newest_message_reached_witness:
  "\<exists>sh1 producer consumer s rs. run (ri_producer_queue_new 64 True (\<lambda>_. 9) (Some 4096) five_slots) raw_words = Some (sh1, Some producer) \<and>
     trace queue_step (overtake @ Force_Push 8 # replicate 5 Pop_Msg) \<lparr>qs_shared = ri_producer_queue_init_shm sh1, qs_producer = producer,
       qs_consumer = consumer, qs_mem = (\<lambda>_. 0)\<rparr> = Some (s, rs) \<and> last rs = Popped RI_POP_RESULT_NO_UPDATE (Some 8)"
proof -
  obtain sh1 producer where new:
    "run (ri_producer_queue_new 64 True (\<lambda>_. 9) (Some 4096) five_slots) raw_words = Some (sh1, Some producer)"
    using five_slots_new by (auto split: option.splits prod.splits)
  obtain consumer where c: "ri_consumer_queue_new 64 True (Some 4096) five_slots = Some consumer"
    by (simp add: ri_consumer_queue_new_def)
  from newest_message_reached [OF five_slots_len _ _ _ new c five_slots_apart, of overtake 8 "\<lambda>_. 0"] new show ?thesis
    by (fastforce simp: raw_words_def)
qed

text \<open>
  C7. On a queue whose messages lie behind its chain, when the producer never forces a push and the consumer never flushes, no message is lost: a consumer that pops \<open>n\<close> times at the end
  has been given exactly the messages that \<open>ri_producer_queue_try_push\<close> accepted, in their order, and no pop reported a discarded message.
\<close>

theorem accepted_messages_delivered:
  assumes "unat (ri_channel_queue_len attr) = n" and "3 \<le> n" and "n < 2 ^ 30" and "length (sh_chain sh) = n"
    and "run (ri_producer_queue_new cls True raw (Some addr) attr) sh = Some (sh1, Some producer)"
    and "ri_consumer_queue_new cls True (Some addr) attr = Some consumer" and "slots_apart cls attr addr" and "\<forall>op\<in>set ops. polite op"
  shows "\<exists>s rs. trace queue_step (ops @ replicate n Pop_Msg) \<lparr>qs_shared = ri_producer_queue_init_shm sh1,
      qs_producer = producer, qs_consumer = consumer, qs_mem = mem\<rparr> = Some (s, rs) \<and>
    delivered rs = accepted (ops @ replicate n Pop_Msg) rs \<and> (\<forall>m. Popped RI_POP_RESULT_DISCARDED m \<notin> set rs)"
proof -
  let ?ops = "ops @ replicate n Pop_Msg"
  have "\<forall>op\<in>set ?ops. polite op" using assms(8) by auto
  moreover have "f_pending (fst (spec_trace (fifo_step n) ?ops fifo_new)) = []"
    using pops_empty [OF less_imp_le [OF pending_bounded [OF assms(2)]]] by (simp add: spec_trace_append)
  ultimately have "delivered (snd (spec_trace (fifo_step n) ?ops fifo_new)) = accepted ?ops (snd (spec_trace (fifo_step n) ?ops fifo_new)) \<and>
      (\<forall>m. Popped RI_POP_RESULT_DISCARDED m \<notin> set (snd (spec_trace (fifo_step n) ?ops fifo_new)))"
    using polite_lossless [of ?ops fifo_new n] by (simp add: fifo_new_def)
  then show ?thesis using new_queue_trace [OF assms(1-6), of ?ops mem] by auto
qed

theorem accepted_messages_delivered_witness:
  "\<exists>sh1 producer consumer s rs. run (ri_producer_queue_new 64 True (\<lambda>_. 9) (Some 4096) five_slots) raw_words = Some (sh1, Some producer) \<and>
     trace queue_step (map Try_Push [1, 2, 3, 4, 5] @ Pop_Msg # Try_Push 6 # replicate 5 Pop_Msg) \<lparr>qs_shared = ri_producer_queue_init_shm sh1,
       qs_producer = producer, qs_consumer = consumer, qs_mem = (\<lambda>_. 0)\<rparr> = Some (s, rs) \<and>
     delivered rs = accepted (map Try_Push [1, 2, 3, 4, 5] @ Pop_Msg # Try_Push 6 # replicate 5 Pop_Msg) rs"
proof -
  obtain sh1 producer where new:
    "run (ri_producer_queue_new 64 True (\<lambda>_. 9) (Some 4096) five_slots) raw_words = Some (sh1, Some producer)"
    using five_slots_new by (auto split: option.splits prod.splits)
  obtain consumer where c: "ri_consumer_queue_new 64 True (Some 4096) five_slots = Some consumer"
    by (simp add: ri_consumer_queue_new_def)
  from accepted_messages_delivered [OF five_slots_len _ _ _ new c five_slots_apart, of "map Try_Push [1, 2, 3, 4, 5] @ [Pop_Msg, Try_Push 6]" "\<lambda>_. 0"] new
  show ?thesis by (fastforce simp: raw_words_def)
qed

end
