(* ===== verification/Attr.thy ===== *)
theory Attr
  imports Rtipc_Types Mem_Utils
begin

text \<open>
  Attributes of channels and groups (\<open>src/attr.c\<close>, \<open>src/attr.h\<close>, \<open>ri_count_channels\<close> of
  \<open>src/channel.h\<close>). The comparisons walk arrays the caller provides, terminated by an element whose
  \<open>msg_size\<close> is 0; running off such an array, and a null pointer where the code does not test for it, is
  \<open>Undefined\<close>. \<open>ri_group_data\<close> is the library's own copy: the info bytes live in one block
  \<open>mem_infos\<close>, and the data pointer of an info is an offset into the block.
\<close>

section \<open>Comparison\<close>

definition ri_info_equal :: "ri_info \<Rightarrow> ri_info \<Rightarrow> bool outcome" where
  "ri_info_equal i0 i1 =
     (if i_size i0 \<noteq> i_size i1 then Returns False
      else if i_size i0 = 0 then Returns True
      else case (i_data i0, i_data i1) of
        (Some d0, Some d1) \<Rightarrow>
          if unat (i_size i0) \<le> length d0 \<and> unat (i_size i0) \<le> length d1
          then Returns (take (unat (i_size i0)) d0 = take (unat (i_size i0)) d1)
          else Undefined
      | _ \<Rightarrow> Returns False)"

definition ri_channel_attr_equal :: "ri_channel_attr \<Rightarrow> ri_channel_attr \<Rightarrow> bool outcome" where
  "ri_channel_attr_equal c0 c1 =
     and_then (ri_info_equal (a_info c0) (a_info c1)) (\<lambda>r.
     if \<not> r then Returns False
     else Returns (a_msg_size c0 = a_msg_size c1 \<and> a_add_msgs c0 = a_add_msgs c1 \<and>
            a_eventfd c0 = a_eventfd c1))"

text \<open>The loop over two arrays; it stops when both are at their end.\<close>

fun channels_equal :: "ri_channel_attr list \<Rightarrow> ri_channel_attr list \<Rightarrow> bool outcome" where
  "channels_equal (c0 # cs0) (c1 # cs1) =
     (if a_msg_size c0 = 0 \<and> a_msg_size c1 = 0 then Returns True
      else and_then (ri_channel_attr_equal c0 c1) (\<lambda>r.
        if \<not> r then Returns False else channels_equal cs0 cs1))"
| "channels_equal cs0 cs1 = Undefined"

text \<open>Reading an array through a pointer that may be null.\<close>

definition arrays_equal ::
    "ri_channel_attr list option \<Rightarrow> ri_channel_attr list option \<Rightarrow> bool outcome" where
  "arrays_equal a0 a1 =
     (case (a0, a1) of (Some cs0, Some cs1) \<Rightarrow> channels_equal cs0 cs1 | _ \<Rightarrow> Undefined)"

definition ri_group_attr_equal :: "ri_group_attr \<Rightarrow> ri_group_attr \<Rightarrow> bool outcome" where
  "ri_group_attr_equal g0 g1 =
     and_then (ri_info_equal (g_info g0) (g_info g1)) (\<lambda>r.
     if \<not> r then Returns False
     else and_then (arrays_equal (g_consumers g0) (g_consumers g1)) (\<lambda>r.
     if \<not> r then Returns False
     else and_then (arrays_equal (g_producers g0) (g_producers g1)) (\<lambda>r.
     if \<not> r then Returns False else Returns True)))"

section \<open>Sizes\<close>

text \<open>The loop of \<open>ri_count_channels\<close>, at index \<open>i\<close> of the array.\<close>

fun count_channels_loop :: "ri_channel_attr list \<Rightarrow> u32 \<Rightarrow> u32 outcome" where
  "count_channels_loop [] i = Undefined"
| "count_channels_loop (a # as) i =
     (if a_msg_size a \<noteq> 0 then count_channels_loop as (i + 1) else Returns i)"

definition ri_count_channels :: "ri_channel_attr list option \<Rightarrow> u32 outcome" where
  "ri_count_channels attrs =
     (case attrs of None \<Rightarrow> Returns 0 | Some as \<Rightarrow> count_channels_loop as 0)"

definition ri_info_align :: "u64 \<Rightarrow> u64" where
  "ri_info_align sz = mem_maxalign sz"

fun channels_info_loop :: "ri_channel_attr list \<Rightarrow> u64 \<Rightarrow> u64 outcome" where
  "channels_info_loop [] sz = Undefined"
| "channels_info_loop (a # as) sz =
     (if a_msg_size a \<noteq> 0
      then channels_info_loop as
             (if i_size (a_info a) > 0 then sz + ri_info_align (i_size (a_info a)) else sz)
      else Returns sz)"

definition calc_channels_info_size :: "ri_channel_attr list option \<Rightarrow> u64 outcome" where
  "calc_channels_info_size attrs =
     (case attrs of None \<Rightarrow> Returns 0 | Some as \<Rightarrow> channels_info_loop as 0)"

definition ri_attr_calc_info_size :: "ri_group_attr \<Rightarrow> u64 outcome" where
  "ri_attr_calc_info_size attr =
     and_then (calc_channels_info_size (g_consumers attr)) (\<lambda>c.
     and_then (calc_channels_info_size (g_producers attr)) (\<lambda>p.
     Returns (mem_maxalign (i_size (g_info attr)) + c + p)))"

section \<open>The library's copy\<close>

record mem_info =
  m_size :: u64
  m_data :: "nat option"

record channel_data =
  d_msg_size :: u64
  d_add_msgs :: u32
  d_eventfd :: bool
  d_info :: mem_info

record ri_group_data =
  gd_info :: mem_info
  gd_n_consumers :: u32
  gd_n_producers :: u32
  gd_consumers :: "channel_data list option"
  gd_producers :: "channel_data list option"
  gd_mem_infos :: "u8 list option"

definition mem_info_zero :: mem_info where
  "mem_info_zero = \<lparr>m_size = 0, m_data = None\<rparr>"

definition channel_data_zero :: channel_data where
  "channel_data_zero = \<lparr>d_msg_size = 0, d_add_msgs = 0, d_eventfd = False, d_info = mem_info_zero\<rparr>"

definition group_data_zero :: ri_group_data where
  "group_data_zero = \<lparr>gd_info = mem_info_zero, gd_n_consumers = 0, gd_n_producers = 0,
     gd_consumers = None, gd_producers = None, gd_mem_infos = None\<rparr>"

text \<open>
  Which allocations succeed: the two channel tables and the block of infos, whose first content
  is \<open>al_raw\<close>.
\<close>

record allocs =
  al_consumers :: bool
  al_producers :: bool
  al_infos :: bool
  al_raw :: "nat \<Rightarrow> u8"

text \<open>\<open>calloc (n + 1, ...)\<close>, with the addition on \<open>unsigned\<close>.\<close>

definition calloc_channels :: "u32 \<Rightarrow> channel_data list" where
  "calloc_channels n = replicate (unat (n + 1)) channel_data_zero"

definition ri_group_data_new :: "allocs \<Rightarrow> u32 \<Rightarrow> u32 \<Rightarrow> ri_group_data outcome" where
  "ri_group_data_new al n_consumers n_producers =
     (let grp_data = group_data_zero\<lparr>gd_n_consumers := n_consumers, gd_n_producers := n_producers\<rparr> in
      if n_consumers > 0 \<and> \<not> al_consumers al then Fails (- ENOMEM)
      else
        let grp_data = (if n_consumers > 0
          then grp_data\<lparr>gd_consumers := Some (calloc_channels n_consumers)\<rparr> else grp_data) in
        if n_producers > 0 \<and> \<not> al_producers al then Fails (- ENOMEM)
        else Returns (if n_producers > 0
          then grp_data\<lparr>gd_producers := Some (calloc_channels n_producers)\<rparr> else grp_data))"

text \<open>
  Where the cursor of the copy points: nowhere (\<open>mem_infos\<close> is null), at an offset of the block, or at
  the info structure that \<open>ri_info_copy\<close> returns the address of when the info is empty. Copying
  bytes through a pointer of the last kind overwrites the structure.
\<close>

datatype cursor = No_Block | Block nat | Structure

definition overwrite :: "'a list \<Rightarrow> nat \<Rightarrow> 'a list \<Rightarrow> 'a list" where
  "overwrite xs off ys = take off xs @ ys @ drop (off + length ys) xs"

definition ri_info_copy ::
    "cursor \<Rightarrow> ri_info \<Rightarrow> u8 list option \<Rightarrow> (cursor \<times> mem_info \<times> u8 list option) outcome" where
  "ri_info_copy mem src block =
     (case i_data src of
        None \<Rightarrow> Returns (Structure, mem_info_zero, block)
      | Some bytes \<Rightarrow>
          if i_size src = 0 then Returns (Structure, mem_info_zero, block)
          else case (mem, block) of
            (Block off, Some b) \<Rightarrow>
              if unat (i_size src) \<le> length bytes \<and> off + unat (i_size src) \<le> length b
              then Returns (Block (off + unat (ri_info_align (i_size src))),
                     \<lparr>m_size = i_size src, m_data = Some off\<rparr>,
                     Some (overwrite b off (take (unat (i_size src)) bytes)))
              else Undefined
          | _ \<Rightarrow> Undefined)"

text \<open>The loop over \<open>i\<close> in \<open>is\<close>; \<open>dest\<close> and \<open>src\<close> are null when the count is 0.\<close>

fun copy_attrs :: "nat list \<Rightarrow> channel_data list option \<Rightarrow> ri_channel_attr list option \<Rightarrow> cursor
    \<Rightarrow> u8 list option \<Rightarrow> (cursor \<times> channel_data list option \<times> u8 list option) outcome" where
  "copy_attrs [] dest src infos block = Returns (infos, dest, block)"
| "copy_attrs (i # is) (Some dest) (Some src) infos block =
     (if i < length dest \<and> i < length src then
        and_then (ri_info_copy infos (a_info (src ! i)) block) (\<lambda>(infos, info, block).
        copy_attrs is (Some (dest[i := \<lparr>d_msg_size = a_msg_size (src ! i),
            d_add_msgs = a_add_msgs (src ! i), d_eventfd = a_eventfd (src ! i), d_info = info\<rparr>]))
          (Some src) infos block)
      else Undefined)"
| "copy_attrs (i # is) _ _ infos block = Undefined"

definition ri_group_data_from_attr :: "allocs \<Rightarrow> ri_group_attr \<Rightarrow> ri_group_data outcome" where
  "ri_group_data_from_attr al attr =
     and_then (ri_count_channels (g_consumers attr)) (\<lambda>n_consumers.
     and_then (ri_count_channels (g_producers attr)) (\<lambda>n_producers.
     and_then (ri_group_data_new al n_consumers n_producers) (\<lambda>data.
     and_then (ri_attr_calc_info_size attr) (\<lambda>info_size.
     if info_size > 0 \<and> \<not> al_infos al then Fails (- ENOMEM)
     else
       let block = (if info_size > 0 then Some (map (al_raw al) [0..<unat info_size]) else None);
           infos = (if info_size > 0 then Block 0 else No_Block) in
       and_then (ri_info_copy infos (g_info attr) block) (\<lambda>(infos, info, block).
       and_then (copy_attrs [0..<unat n_consumers] (gd_consumers data) (g_consumers attr) infos block)
         (\<lambda>(infos, consumers, block).
       and_then (copy_attrs [0..<unat n_producers] (gd_producers data) (g_producers attr) infos block)
         (\<lambda>(infos, producers, block).
       Returns (data\<lparr>gd_info := info, gd_consumers := consumers, gd_producers := producers,
         gd_mem_infos := block\<rparr>))))))))"

definition ri_group_data_delete :: "ri_group_data \<Rightarrow> ri_group_data" where
  "ri_group_data_delete grp_data = grp_data\<lparr>gd_mem_infos := None, gd_consumers := None,
     gd_producers := None, gd_n_consumers := 0, gd_n_producers := 0,
     gd_info := \<lparr>m_size = 0, m_data = None\<rparr>\<rparr>"

text \<open>The bytes a reader of the copy sees through the pointers.\<close>

definition info_of :: "u8 list option \<Rightarrow> mem_info \<Rightarrow> ri_info" where
  "info_of block i = \<lparr>i_size = m_size i,
     i_data = (case (m_data i, block) of (Some off, Some b) \<Rightarrow> Some (drop off b) | _ \<Rightarrow> None)\<rparr>"

definition attr_of :: "u8 list option \<Rightarrow> channel_data \<Rightarrow> ri_channel_attr" where
  "attr_of block d = \<lparr>a_msg_size = d_msg_size d, a_add_msgs = d_add_msgs d,
     a_eventfd = d_eventfd d, a_info = info_of block (d_info d)\<rparr>"

definition ri_group_data_attr :: "ri_group_data \<Rightarrow> ri_group_attr" where
  "ri_group_data_attr grp_data =
     \<lparr>g_consumers = map_option (map (attr_of (gd_mem_infos grp_data))) (gd_consumers grp_data),
      g_producers = map_option (map (attr_of (gd_mem_infos grp_data))) (gd_producers grp_data),
      g_info = info_of (gd_mem_infos grp_data) (gd_info grp_data)\<rparr>"

text \<open>The table entry \<open>index\<close>, \<open>None\<close> for a null pointer.\<close>

definition ri_group_data_get_consumer_attr :: "ri_group_data \<Rightarrow> u32 \<Rightarrow> channel_data option outcome" where
  "ri_group_data_get_consumer_attr grp_data index =
     (if index \<ge> gd_n_consumers grp_data then Returns None
      else case gd_consumers grp_data of
        None \<Rightarrow> Undefined
      | Some cs \<Rightarrow> if unat index < length cs then Returns (Some (cs ! unat index)) else Undefined)"

definition ri_group_data_get_producer_attr :: "ri_group_data \<Rightarrow> u32 \<Rightarrow> channel_data option outcome" where
  "ri_group_data_get_producer_attr grp_data index =
     (if index \<ge> gd_n_producers grp_data then Returns None
      else case gd_producers grp_data of
        None \<Rightarrow> Undefined
      | Some cs \<Rightarrow> if unat index < length cs then Returns (Some (cs ! unat index)) else Undefined)"

section \<open>What the comparison decides\<close>

text \<open>The content of an attribute structure: what is left when the pointers are followed.\<close>

definition wf_info :: "ri_info \<Rightarrow> bool" where
  "wf_info i \<longleftrightarrow> i_size i = 0 \<or> (\<exists>d. i_data i = Some d \<and> unat (i_size i) \<le> length d)"

definition info_bytes :: "ri_info \<Rightarrow> u8 list" where
  "info_bytes i = (if i_size i = 0 then [] else take (unat (i_size i)) (the (i_data i)))"

definition channel_content :: "ri_channel_attr \<Rightarrow> u64 \<times> u32 \<times> bool \<times> u8 list" where
  "channel_content a = (a_msg_size a, a_add_msgs a, a_eventfd a, info_bytes (a_info a))"

definition channels_of :: "ri_channel_attr list \<Rightarrow> ri_channel_attr list" where
  "channels_of as = takeWhile (\<lambda>a. a_msg_size a \<noteq> 0) as"

definition table_of :: "ri_channel_attr list option \<Rightarrow> ri_channel_attr list" where
  "table_of t = (case t of None \<Rightarrow> [] | Some as \<Rightarrow> channels_of as)"

definition wf_table :: "ri_channel_attr list \<Rightarrow> bool" where
  "wf_table as \<longleftrightarrow> (\<exists>a\<in>set as. a_msg_size a = 0) \<and> (\<forall>a\<in>set as. wf_info (a_info a)) \<and>
     length (channels_of as) < 2 ^ 31"

definition wf_group_attr :: "ri_group_attr \<Rightarrow> bool" where
  "wf_group_attr g \<longleftrightarrow> wf_info (g_info g) \<and>
     (\<forall>as. g_consumers g = Some as \<longrightarrow> wf_table as) \<and> (\<forall>as. g_producers g = Some as \<longrightarrow> wf_table as)"

definition group_content ::
    "ri_group_attr \<Rightarrow> u8 list \<times> (u64 \<times> u32 \<times> bool \<times> u8 list) list \<times> (u64 \<times> u32 \<times> bool \<times> u8 list) list" where
  "group_content g = (info_bytes (g_info g), map channel_content (table_of (g_consumers g)),
     map channel_content (table_of (g_producers g)))"

lemma and_then_Returns [simp]: "and_then m Returns = m"
  by (cases m) simp_all

lemma wf_info_length: "wf_info i \<Longrightarrow> length (info_bytes i) = unat (i_size i)"
  by (auto simp: wf_info_def info_bytes_def unat_eq_zero)

lemma info_equal_iff:
  assumes "wf_info i0" and "wf_info i1"
  shows "ri_info_equal i0 i1 = Returns (info_bytes i0 = info_bytes i1)"
proof (cases "i_size i0 = i_size i1")
  case True
  note same = this
  show ?thesis
  proof (cases "i_size i1 = 0")
    case False
    then obtain d0 d1 where "i_data i0 = Some d0" and "unat (i_size i1) \<le> length d0"
      and "i_data i1 = Some d1" and "unat (i_size i1) \<le> length d1"
      using assms same by (auto simp: wf_info_def)
    then show ?thesis using False by (simp add: ri_info_equal_def info_bytes_def same)
  qed (simp add: ri_info_equal_def info_bytes_def same)
next
  case False
  then have "info_bytes i0 \<noteq> info_bytes i1"
    using wf_info_length [OF assms(1)] wf_info_length [OF assms(2)]
    by (metis word_unat_eq_iff)
  with False show ?thesis by (simp add: ri_info_equal_def)
qed

lemma channel_equal_iff:
  assumes "wf_info (a_info c0)" and "wf_info (a_info c1)"
  shows "ri_channel_attr_equal c0 c1 = Returns (channel_content c0 = channel_content c1)"
  using info_equal_iff [OF assms] by (auto simp: ri_channel_attr_equal_def channel_content_def)

lemma channels_equal_iff:
  assumes "\<forall>a\<in>set as. wf_info (a_info a)" and "\<forall>a\<in>set bs. wf_info (a_info a)"
    and "\<exists>a\<in>set as. a_msg_size a = 0" and "\<exists>a\<in>set bs. a_msg_size a = 0"
  shows "channels_equal as bs =
    Returns (map channel_content (channels_of as) = map channel_content (channels_of bs))"
  using assms
proof (induction as bs rule: channels_equal.induct)
  case (1 c0 cs0 c1 cs1)
  have eq: "ri_channel_attr_equal c0 c1 = Returns (channel_content c0 = channel_content c1)"
    using 1 by (intro channel_equal_iff) simp_all
  consider "a_msg_size c0 = 0 \<and> a_msg_size c1 = 0" | "a_msg_size c0 \<noteq> 0 \<and> a_msg_size c1 \<noteq> 0"
    | "a_msg_size c0 = 0 \<and> a_msg_size c1 \<noteq> 0" | "a_msg_size c0 \<noteq> 0 \<and> a_msg_size c1 = 0" by blast
  then show ?case
    using 1 eq by cases (auto simp: channels_of_def channel_content_def)
qed auto

lemma group_equal_iff:
  assumes "wf_group_attr g0" and "wf_group_attr g1"
    and "g_consumers g0 \<noteq> None" and "g_producers g0 \<noteq> None"
    and "g_consumers g1 \<noteq> None" and "g_producers g1 \<noteq> None"
  shows "ri_group_attr_equal g0 g1 = Returns (group_content g0 = group_content g1)"
proof -
  have "arrays_equal (g_consumers g0) (g_consumers g1) = Returns
      (map channel_content (table_of (g_consumers g0)) = map channel_content (table_of (g_consumers g1)))"
    and "arrays_equal (g_producers g0) (g_producers g1) = Returns
      (map channel_content (table_of (g_producers g0)) = map channel_content (table_of (g_producers g1)))"
    using assms channels_equal_iff
    by (auto simp: arrays_equal_def table_of_def wf_group_attr_def wf_table_def)
  moreover have "ri_info_equal (g_info g0) (g_info g1) =
      Returns (info_bytes (g_info g0) = info_bytes (g_info g1))"
    using assms(1,2) by (intro info_equal_iff) (simp_all add: wf_group_attr_def)
  ultimately show ?thesis by (simp add: ri_group_attr_equal_def group_content_def)
qed

section \<open>Counting\<close>

lemma count_channels_loop_eq:
  assumes "\<exists>a\<in>set as. a_msg_size a = 0"
  shows "count_channels_loop as i = Returns (i + of_nat (length (channels_of as)))"
  using assms
proof (induction as arbitrary: i)
  case (Cons a as)
  show ?case
  proof (cases "a_msg_size a = 0")
    case False
    with Cons show ?thesis by (simp add: channels_of_def add_ac)
  qed (simp add: channels_of_def)
qed simp

lemma count_channels_eq:
  assumes "\<forall>as. t = Some as \<longrightarrow> wf_table as"
  shows "ri_count_channels t = Returns (of_nat (length (table_of t)))"
    and "unat (of_nat (length (table_of t)) :: u32) = length (table_of t)"
proof -
  show "ri_count_channels t = Returns (of_nat (length (table_of t)))"
    using assms count_channels_loop_eq [where i = 0]
    by (cases t) (auto simp: ri_count_channels_def table_of_def wf_table_def)
  have "length (table_of t) < 2 ^ 31" using assms
    by (cases t) (auto simp: table_of_def wf_table_def)
  then show "unat (of_nat (length (table_of t)) :: u32) = length (table_of t)"
    by (simp add: unsigned_of_nat take_bit_nat_eq_self)
qed

end
