(* ===== verification/Request.thy ===== *)
theory Request
  imports Attr
begin

text \<open>
  The connection request (\<open>src/request.c\<close>, \<open>src/header.c\<close>, \<open>src/header.h\<close>): the bytes a client sends to describe
  its group, and the parser of the server. Integers are copied in the byte order of the host; the
  model fixes little endian, which both ends share. A buffer is the list of its bytes, and
  \<open>memcpy\<close> outside of it is \<open>Undefined\<close>; offsets and sizes are \<open>size_t\<close> words.
\<close>

section \<open>Integers as bytes\<close>

definition le_bytes :: "nat \<Rightarrow> 'a::len word \<Rightarrow> u8 list" where
  "le_bytes n w = map (\<lambda>i. ucast (drop_bit (8 * i) w)) [0..<n]"

fun of_le :: "u8 list \<Rightarrow> 'a::len word" where
  "of_le [] = 0"
| "of_le (b # bs) = ucast b OR push_bit 8 (of_le bs)"

section \<open>Header\<close>

record ri_request_header =
  h_magic :: u16
  h_version :: u16
  h_cacheline_size :: u16
  h_atomic_size :: u16

definition MAGIC :: u16 where
  "MAGIC = 0x1f0c"

definition HEADER_VERSION :: u16 where
  "HEADER_VERSION = 2"

text \<open>\<open>sizeof (ri_atomic_index_t)\<close>.\<close>

definition atomic_index_size :: u64 where
  "atomic_index_size = 4"

definition ri_request_header_init :: "u64 \<Rightarrow> ri_request_header" where
  "ri_request_header_init cls = \<lparr>h_magic = MAGIC, h_version = HEADER_VERSION,
     h_cacheline_size = ucast cls, h_atomic_size = ucast atomic_index_size\<rparr>"

text \<open>The comparisons promote the 16-bit fields.\<close>

definition ri_request_header_validate :: "u64 \<Rightarrow> ri_request_header \<Rightarrow> int" where
  "ri_request_header_validate cls header =
     (if h_magic header \<noteq> MAGIC then - EINVAL
      else if h_version header \<noteq> HEADER_VERSION then - EINVAL
      else if ucast (h_cacheline_size header) \<noteq> cls then - EINVAL
      else if ucast (h_atomic_size header) \<noteq> atomic_index_size then - EINVAL
      else 0)"

definition header_bytes :: "ri_request_header \<Rightarrow> u8 list" where
  "header_bytes h = le_bytes 2 (h_magic h) @ le_bytes 2 (h_version h) @
     le_bytes 2 (h_cacheline_size h) @ le_bytes 2 (h_atomic_size h)"

definition header_of :: "u8 list \<Rightarrow> ri_request_header" where
  "header_of bs = \<lparr>h_magic = of_le (take 2 bs), h_version = of_le (take 2 (drop 2 bs)),
     h_cacheline_size = of_le (take 2 (drop 4 bs)), h_atomic_size = of_le (take 2 (drop 6 bs))\<rparr>"

definition sizeof_header :: u64 where
  "sizeof_header = 8"

section \<open>Table entries\<close>

record entry_t =
  e_add_msgs :: u32
  e_msg_size :: u32
  e_eventfd :: u32
  e_info_size :: u32

definition sizeof_entry :: u64 where
  "sizeof_entry = 16"

definition entry_bytes :: "entry_t \<Rightarrow> u8 list" where
  "entry_bytes e = le_bytes 4 (e_add_msgs e) @ le_bytes 4 (e_msg_size e) @
     le_bytes 4 (e_eventfd e) @ le_bytes 4 (e_info_size e)"

definition entry_of :: "u8 list \<Rightarrow> entry_t" where
  "entry_of bs = \<lparr>e_add_msgs = of_le (take 4 bs), e_msg_size = of_le (take 4 (drop 4 bs)),
     e_eventfd = of_le (take 4 (drop 8 bs)), e_info_size = of_le (take 4 (drop 12 bs))\<rparr>"

section \<open>Writing\<close>

record request_writer =
  wr_data :: "u8 list"
  wr_size :: u64
  wr_offset :: u64
  wr_offset_info :: u64

text \<open>\<open>memcpy\<close> of the bytes \<open>src\<close> to \<open>data + offset\<close>.\<close>

definition put :: "u8 list \<Rightarrow> u64 \<Rightarrow> u8 list \<Rightarrow> u8 list outcome" where
  "put data offset src =
     (if unat offset + length src \<le> length data
      then Returns (take (unat offset) data @ src @ drop (unat offset + length src) data)
      else Undefined)"

definition request_write :: "request_writer \<Rightarrow> u8 list \<Rightarrow> (request_writer \<times> int) outcome" where
  "request_write writer src =
     (let sz = of_nat (length src) in
      if wr_offset writer + sz > wr_size writer then Returns (writer, -1)
      else and_then (put (wr_data writer) (wr_offset writer) src) (\<lambda>data.
        Returns (writer\<lparr>wr_data := data, wr_offset := wr_offset writer + sz\<rparr>, 0)))"

definition request_write_info :: "request_writer \<Rightarrow> ri_info \<Rightarrow> (request_writer \<times> int) outcome" where
  "request_write_info writer info =
     (case i_data info of
        None \<Rightarrow> Returns (writer, 0)
      | Some bytes \<Rightarrow>
          if i_size info = 0 then Returns (writer, 0)
          else if wr_offset_info writer + i_size info > wr_size writer then Returns (writer, -1)
          else if unat (i_size info) > length bytes then Undefined
          else and_then (put (wr_data writer) (wr_offset_info writer) (take (unat (i_size info)) bytes))
            (\<lambda>data. Returns (writer\<lparr>wr_data := data,
                wr_offset_info := wr_offset_info writer + i_size info\<rparr>, 0)))"

definition request_write_channel ::
    "request_writer \<Rightarrow> ri_channel_attr \<Rightarrow> (request_writer \<times> int) outcome" where
  "request_write_channel writer attr =
     (let entry = \<lparr>e_add_msgs = a_add_msgs attr, e_msg_size = ucast (a_msg_size attr),
        e_eventfd = (if a_eventfd attr then 1 else 0), e_info_size = ucast (i_size (a_info attr))\<rparr> in
      and_then (request_write writer (entry_bytes entry)) (\<lambda>(writer, r).
      if r < 0 then Returns (writer, r)
      else if i_data (a_info attr) \<noteq> None then request_write_info writer (a_info attr)
      else Returns (writer, r)))"

text \<open>The loop over the first \<open>n\<close> elements of a table that is null when there is none.\<close>

fun write_channels ::
    "nat \<Rightarrow> ri_channel_attr list \<Rightarrow> request_writer \<Rightarrow> (request_writer \<times> int) outcome" where
  "write_channels 0 attrs writer = Returns (writer, 0)"
| "write_channels (Suc n) [] writer = Undefined"
| "write_channels (Suc n) (a # as) writer =
     and_then (request_write_channel writer a) (\<lambda>(writer, r).
     if r < 0 then Returns (writer, r) else write_channels n as writer)"

definition table_ptr :: "ri_channel_attr list option \<Rightarrow> ri_channel_attr list" where
  "table_ptr t = (case t of None \<Rightarrow> [] | Some as \<Rightarrow> as)"

text \<open>The sum of the info sizes of the first \<open>n\<close> channels.\<close>

definition info_sizes :: "nat \<Rightarrow> ri_channel_attr list \<Rightarrow> u64" where
  "info_sizes n as = sum_list (map (\<lambda>a. i_size (a_info a)) (take n as))"

definition ri_request_calc_size :: "ri_group_attr \<Rightarrow> u64 outcome" where
  "ri_request_calc_size config =
     and_then (ri_count_channels (g_consumers config)) (\<lambda>n_consumers.
     and_then (ri_count_channels (g_producers config)) (\<lambda>n_producers.
     Returns (sizeof_header + 3 * 4 + ucast (n_consumers + n_producers) * sizeof_entry +
       i_size (g_info config) + info_sizes (unat n_consumers) (table_ptr (g_consumers config)) +
       info_sizes (unat n_producers) (table_ptr (g_producers config)))))"

text \<open>
  \<open>ri_request_write\<close>: the result is the buffer and the value returned, an \<open>int\<close>. The outcome of
  writing the number of consumers is not looked at: \<open>r\<close> keeps its value.
\<close>

definition ri_request_write ::
    "u64 \<Rightarrow> ri_group_attr \<Rightarrow> u8 list \<Rightarrow> u64 \<Rightarrow> (u8 list \<times> int) outcome" where
  "ri_request_write cls grp_attr req sz =
     (if sz = 0 then Returns (req, -1)
      else
        and_then (ri_count_channels (g_producers grp_attr)) (\<lambda>n_producers.
        and_then (ri_count_channels (g_consumers grp_attr)) (\<lambda>n_consumers.
        let writer = \<lparr>wr_data = req, wr_size = sz, wr_offset = 0, wr_offset_info = 0\<rparr> in
        and_then (request_write writer (header_bytes (ri_request_header_init cls))) (\<lambda>(writer, r).
        if r < 0 then Returns (wr_data writer, -1) else
        and_then (request_write writer (le_bytes 4 (ucast (i_size (g_info grp_attr)) :: u32))) (\<lambda>(writer, r).
        if r < 0 then Returns (wr_data writer, -1) else
        and_then (request_write writer (le_bytes 4 n_producers)) (\<lambda>(writer, r).
        if r < 0 then Returns (wr_data writer, -1) else
        and_then (request_write writer (le_bytes 4 n_consumers)) (\<lambda>(writer, ignored).
        if r < 0 then Returns (wr_data writer, -1) else
        let writer = writer\<lparr>wr_offset_info :=
              wr_offset writer + ucast (n_producers + n_consumers) * sizeof_entry\<rparr> in
        and_then (request_write_info writer (g_info grp_attr)) (\<lambda>(writer, r).
        if r < 0 then Returns (wr_data writer, -1) else
        and_then (write_channels (unat n_producers) (table_ptr (g_producers grp_attr)) writer) (\<lambda>(writer, r).
        if r < 0 then Returns (wr_data writer, -1) else
        and_then (write_channels (unat n_consumers) (table_ptr (g_consumers grp_attr)) writer) (\<lambda>(writer, r).
        if r < 0 then Returns (wr_data writer, -1) else
        Returns (wr_data writer, sint (ucast (wr_offset writer) :: u32))))))))))))"

section \<open>Reading\<close>

record request_reader =
  rd_data :: "u8 list"
  rd_size :: u64
  rd_offset :: u64

text \<open>The bytes read, \<open>None\<close> when the request is too short (the code returns -1).\<close>

definition request_read ::
    "request_reader \<Rightarrow> u64 \<Rightarrow> (request_reader \<times> u8 list) option outcome" where
  "request_read reader sz =
     (if rd_offset reader + sz > rd_size reader then Returns None
      else if unat (rd_offset reader) + unat sz \<le> length (rd_data reader)
      then Returns (Some (reader\<lparr>rd_offset := rd_offset reader + sz\<rparr>,
             take (unat sz) (drop (unat (rd_offset reader)) (rd_data reader))))
      else Undefined)"

text \<open>
  Reading an entry into the table at \<open>i\<close>: the table and the value returned. When the request is
  too short the value returned is \<open>-r\<close>, which is 1.
\<close>

definition request_read_channel ::
    "request_reader \<Rightarrow> channel_data list \<Rightarrow> nat \<Rightarrow> (request_reader \<times> channel_data list \<times> int) outcome" where
  "request_read_channel reader table i =
     and_then (request_read reader sizeof_entry) (\<lambda>res.
     case res of
       None \<Rightarrow> Returns (reader, table, - (-1))
     | Some (reader, bs) \<Rightarrow>
         if i < length table then
           let entry = entry_of bs in
           Returns (reader, table[i := \<lparr>d_msg_size = ucast (e_msg_size entry),
               d_add_msgs = e_add_msgs entry, d_eventfd = (e_eventfd entry \<noteq> 0),
               d_info = \<lparr>m_size = ucast (e_info_size entry), m_data = None\<rparr>\<rparr>], 0)
         else Undefined)"

text \<open>The loop, with \<open>left\<close> entries to go; \<open>Fails\<close> is its \<open>goto fail_channels\<close>.\<close>

fun read_channels ::
    "nat \<Rightarrow> nat \<Rightarrow> request_reader \<Rightarrow> channel_data list \<Rightarrow> (request_reader \<times> channel_data list) outcome" where
  "read_channels 0 i reader table = Returns (reader, table)"
| "read_channels (Suc left) i reader table =
     and_then (request_read_channel reader table i) (\<lambda>(reader, table, r).
     if r < 0 then Fails r else read_channels left (Suc i) reader table)"

text \<open>Reading an info into the block at \<open>mem\<close>; the result is the next free offset.\<close>

definition read_info ::
    "request_reader \<Rightarrow> u8 list \<Rightarrow> nat \<Rightarrow> u64 \<Rightarrow> (request_reader \<times> u8 list \<times> nat) option outcome" where
  "read_info reader block mem sz =
     and_then (request_read reader sz) (\<lambda>res.
     case res of
       None \<Rightarrow> Returns None
     | Some (reader, bs) \<Rightarrow>
         if mem + length bs \<le> length block
         then Returns (Some (reader, overwrite block mem bs, mem + unat (ri_info_align sz)))
         else Undefined)"

fun read_channel_infos :: "nat list \<Rightarrow> request_reader \<Rightarrow> channel_data list \<Rightarrow> u8 list \<Rightarrow> nat
    \<Rightarrow> (request_reader \<times> channel_data list \<times> u8 list \<times> nat) outcome" where
  "read_channel_infos [] reader table block mem = Returns (reader, table, block, mem)"
| "read_channel_infos (i # is) reader table block mem =
     (if i < length table then
        let attr = table ! i in
        if m_size (d_info attr) > 0 then
          and_then (read_info reader block mem (m_size (d_info attr))) (\<lambda>res.
          case res of
            None \<Rightarrow> Fails (-1)
          | Some (reader, block, mem') \<Rightarrow>
              read_channel_infos is reader
                (table[i := attr\<lparr>d_info := (d_info attr)\<lparr>m_data := Some mem\<rparr>\<rparr>]) block mem')
        else read_channel_infos is reader table block mem
      else Undefined)"

definition read_table ::
    "nat \<Rightarrow> request_reader \<Rightarrow> channel_data list option \<Rightarrow> u8 list \<Rightarrow> nat
       \<Rightarrow> (request_reader \<times> channel_data list option \<times> u8 list \<times> nat) outcome" where
  "read_table n reader t block mem =
     (case t of
        None \<Rightarrow> if n = 0 then Returns (reader, None, block, mem) else Undefined
      | Some table \<Rightarrow>
          and_then (read_channel_infos [0..<n] reader table block mem) (\<lambda>(reader, table, block, mem).
          Returns (reader, Some table, block, mem)))"

definition read_infos :: "request_reader \<Rightarrow> ri_group_data \<Rightarrow> u8 list \<Rightarrow> ri_group_data outcome" where
  "read_infos reader rsc block =
     and_then
       (if m_size (gd_info rsc) > 0 then
          and_then (read_info reader block 0 (m_size (gd_info rsc))) (\<lambda>res.
          case res of
            None \<Rightarrow> Fails (-1)
          | Some (reader, block, mem) \<Rightarrow>
              Returns (reader, rsc\<lparr>gd_info := (gd_info rsc)\<lparr>m_data := Some 0\<rparr>\<rparr>, block, mem))
        else Returns (reader, rsc, block, 0))
       (\<lambda>(reader, rsc, block, mem).
     and_then (read_table (unat (gd_n_consumers rsc)) reader (gd_consumers rsc) block mem)
       (\<lambda>(reader, consumers, block, mem).
     and_then (read_table (unat (gd_n_producers rsc)) reader (gd_producers rsc) block mem)
       (\<lambda>(reader, producers, block, mem).
     Returns (rsc\<lparr>gd_consumers := consumers, gd_producers := producers, gd_mem_infos := Some block\<rparr>))))"

text \<open>Reading the entries of one table; it is null when there are none.\<close>

definition read_entries :: "u32 \<Rightarrow> request_reader \<Rightarrow> channel_data list option
    \<Rightarrow> (request_reader \<times> channel_data list option) outcome" where
  "read_entries n reader t =
     (case t of
        None \<Rightarrow> if n = 0 then Returns (reader, None) else Undefined
      | Some table \<Rightarrow>
          and_then (read_channels (unat n) 0 reader table) (\<lambda>(reader, table).
          Returns (reader, Some table)))"

definition read_u32 :: "request_reader \<Rightarrow> (request_reader \<times> u32) outcome" where
  "read_u32 reader =
     and_then (request_read reader 4) (\<lambda>res.
     case res of None \<Rightarrow> Fails (-1) | Some (reader, bs) \<Rightarrow> Returns (reader, of_le bs))"

text \<open>
  \<open>ri_request_parse\<close>: \<open>Fails r\<close> is a return of \<open>r\<close> after the clean-up; \<open>Returns\<close> is a return of 0
  with the group data.
\<close>

definition ri_request_parse :: "u64 \<Rightarrow> allocs \<Rightarrow> u8 list \<Rightarrow> u64 \<Rightarrow> ri_group_data outcome" where
  "ri_request_parse cls al req sz =
     (let reader = \<lparr>rd_data = req, rd_size = sz, rd_offset = 0\<rparr> in
      and_then (request_read reader sizeof_header) (\<lambda>res.
      case res of
        None \<Rightarrow> Fails (-1)
      | Some (reader, bs) \<Rightarrow>
          let r = ri_request_header_validate cls (header_of bs) in
          if r < 0 then Fails r else
          and_then (read_u32 reader) (\<lambda>(reader, group_info_size).
          and_then (read_u32 reader) (\<lambda>(reader, n_consumers).
          and_then (read_u32 reader) (\<lambda>(reader, n_producers).
          and_then (ri_group_data_new al n_consumers n_producers) (\<lambda>grp_data.
          let grp_data = grp_data\<lparr>gd_info := (gd_info grp_data)\<lparr>m_size := ucast group_info_size\<rparr>\<rparr> in
          and_then (read_entries n_consumers reader (gd_consumers grp_data)) (\<lambda>(reader, consumers).
          and_then (read_entries n_producers reader (gd_producers grp_data)) (\<lambda>(reader, producers).
          let grp_data = grp_data\<lparr>gd_consumers := consumers, gd_producers := producers\<rparr> in
          and_then (ri_attr_calc_info_size (ri_group_data_attr grp_data)) (\<lambda>info_size.
          if \<not> al_infos al then Fails (- ENOMEM)
          else read_infos reader grp_data (map (al_raw al) [0..<unat info_size]))))))))))"

end
