(* ===== verification/Attr_Copy.thy ===== *)
theory Attr_Copy
  imports Attr
begin

text \<open>
  When the library's copy of the attributes is faithful. \<open>ri_info_copy\<close> returns a pointer
  to the info structure, not to the free part of the block, when the info is empty; so the copy is
  right as long as no info follows an empty one (group first, then consumers, then
  producers), and undefined otherwise.
\<close>

section \<open>Infos without gaps\<close>

abbreviation empty_info :: "ri_info \<Rightarrow> bool" where
  "empty_info i \<equiv> i_size i = 0"

fun gapless :: "ri_info list \<Rightarrow> bool" where
  "gapless [] = True"
| "gapless (i # is) = (if empty_info i then (\<forall>j\<in>set is. empty_info j) else gapless is)"

lemma all_empty_gapless: "\<forall>i\<in>set is. empty_info i \<Longrightarrow> gapless is"
  by (cases "is") auto

text \<open>The bytes of the block the infos take.\<close>

definition info_room :: "ri_info \<Rightarrow> nat" where
  "info_room i = (if empty_info i then 0 else unat (ri_info_align (i_size i)))"

definition room :: "ri_info list \<Rightarrow> nat" where
  "room is = sum_list (map info_room is)"

lemma room_simps [simp]: "room [] = 0" "room (i # is) = info_room i + room is"
  "room (is @ js) = room is + room js"
  by (simp_all add: room_def)

text \<open>The cursor of the copy is where the infos \<open>is\<close> still to be copied need it.\<close>

definition ready :: "cursor \<Rightarrow> ri_info list \<Rightarrow> u8 list option \<Rightarrow> nat \<Rightarrow> bool" where
  "ready c is block low \<longleftrightarrow> gapless is \<and> (case block of None \<Rightarrow> low = 0 | Some b \<Rightarrow> low \<le> length b) \<and>
     ((\<forall>i\<in>set is. empty_info i) \<or>
      (\<exists>b. c = Block low \<and> block = Some b \<and> low + room is \<le> length b))"

text \<open>The block has changed at \<open>low\<close> and above only.\<close>

definition same_below :: "nat \<Rightarrow> u8 list option \<Rightarrow> u8 list option \<Rightarrow> bool" where
  "same_below low block block' \<longleftrightarrow> (case (block, block') of
      (None, None) \<Rightarrow> True
    | (Some b, Some b') \<Rightarrow> length b' = length b \<and> take low b' = take low b
    | _ \<Rightarrow> False)"

lemma same_below_refl [simp]: "same_below low block block"
  by (cases block) (simp_all add: same_below_def)

lemma same_below_Some:
  "same_below low (Some b) block' \<longleftrightarrow>
     (\<exists>b'. block' = Some b' \<and> length b' = length b \<and> take low b' = take low b)"
  "same_below low None block' \<longleftrightarrow> block' = None"
  by (auto simp: same_below_def split: option.splits)

lemma same_below_trans:
  assumes "same_below low a b" and "same_below low' b c" and "low \<le> low'"
  shows "same_below low a c"
proof (cases a)
  case None
  then show ?thesis using assms(1,2) by (simp add: same_below_Some)
next
  case (Some x)
  then obtain y where y: "b = Some y" "length y = length x" "take low y = take low x"
    using assms(1) by (auto simp: same_below_Some)
  then obtain z where z: "c = Some z" "length z = length y" "take low' z = take low' y"
    using assms(2) by (auto simp: same_below_Some)
  have "take low z = take low y"
    using arg_cong [OF z(3), of "take low"] assms(3) by (simp add: min_absorb1)
  then show ?thesis using y z Some by (simp add: same_below_Some)
qed

definition inside :: "mem_info \<Rightarrow> nat \<Rightarrow> u8 list option \<Rightarrow> bool" where
  "inside m low block \<longleftrightarrow> m_size m = 0 \<or> (\<exists>off b. m_data m = Some off \<and> block = Some b \<and>
     off + unat (m_size m) \<le> low \<and> low \<le> length b)"

lemma info_of_kept:
  assumes "same_below low block block'" and "inside m low block"
  shows "info_bytes (info_of block' m) = info_bytes (info_of block m)"
    and "wf_info (info_of block' m)" and "low \<le> low' \<Longrightarrow> low' \<le> length b \<Longrightarrow> block' = Some b \<Longrightarrow> inside m low' block'"
    and "inside m low block'"
proof -
  have "info_bytes (info_of block' m) = info_bytes (info_of block m) \<and> wf_info (info_of block' m)"
  proof (cases "m_size m = 0")
    case False
    then obtain off b where m: "m_data m = Some off" "block = Some b"
      "off + unat (m_size m) \<le> low" "low \<le> length b" using assms(2) by (auto simp: inside_def)
    then obtain b' where b: "block' = Some b'" "length b' = length b" "take low b' = take low b"
      using assms(1) by (auto simp: same_below_def split: option.splits)
    have "take n (drop off x) = take n (drop off (take low x))" if "off + n \<le> low" for n and x :: "u8 list"
      using that by (simp add: take_drop min_absorb1 add.commute)
    then have "take (unat (m_size m)) (drop off b') = take (unat (m_size m)) (drop off b)"
      using m(3) b(3) by metis
    then show ?thesis using m b by (auto simp: info_of_def info_bytes_def wf_info_def)
  qed (simp add: info_of_def info_bytes_def wf_info_def)
  then show "info_bytes (info_of block' m) = info_bytes (info_of block m)" and "wf_info (info_of block' m)"
    by blast+
  show "low \<le> low' \<Longrightarrow> low' \<le> length b \<Longrightarrow> block' = Some b \<Longrightarrow> inside m low' block'"
    using assms(2) by (auto simp: inside_def)
  show "inside m low block'" using assms by (auto simp: inside_def same_below_def split: option.splits)
qed

section \<open>Copying one info\<close>

lemma overwrite_facts:
  assumes "off + length ys \<le> length xs"
  shows "length (overwrite xs off ys) = length xs" and "take off (overwrite xs off ys) = take off xs"
    and "take (length ys) (drop off (overwrite xs off ys)) = ys"
  using assms by (simp_all add: overwrite_def)

lemma info_align_bound:
  assumes "unat n + 16 \<le> 2 ^ 64"
  shows "unat n \<le> unat (ri_info_align n)" and "unat (ri_info_align n) < unat n + 16"
  using mem_align_bounds [of 4 n] assms
  by (simp_all add: ri_info_align_def mem_maxalign_def max_align_def)

lemma info_copy_step:
  assumes "ready c (i # is) block low" and "wf_info i" and "unat (i_size i) + 16 \<le> 2 ^ 64"
  obtains c' m block' low' where "ri_info_copy c i block = Returns (c', m, block')"
    and "ready c' is block' low'" and "low \<le> low'" and "same_below low block block'"
    and "inside m low' block'" and "info_bytes (info_of block' m) = info_bytes i"
proof (cases "empty_info i")
  case True
  have "ri_info_copy c i block = Returns (Structure, mem_info_zero, block)"
    using True by (simp add: ri_info_copy_def split: option.splits)
  moreover have "ready Structure is block low"
    using assms(1) True by (simp add: ready_def all_empty_gapless)
  ultimately show thesis
    using True by (intro that [of Structure mem_info_zero block low])
      (simp_all add: inside_def mem_info_zero_def info_of_def info_bytes_def)
next
  case False
  let ?n = "unat (i_size i)"
  obtain bytes where bytes: "i_data i = Some bytes" "?n \<le> length bytes"
    using assms(2) False by (auto simp: wf_info_def)
  obtain b where b: "c = Block low" "block = Some b" "low + room (i # is) \<le> length b"
    and g: "gapless is" using assms(1) False by (auto simp: ready_def)
  note A = info_align_bound [OF assms(3)]
  have fits: "low + unat (ri_info_align (i_size i)) + room is \<le> length b"
    using b(3) False by (simp add: info_room_def add.assoc)
  then have le: "low + ?n \<le> length b" using A(1) by simp
  let ?b' = "overwrite b low (take ?n bytes)" and ?low' = "low + unat (ri_info_align (i_size i))"
    and ?m = "\<lparr>m_size = i_size i, m_data = Some low\<rparr>"
  have len: "low + length (take ?n bytes) \<le> length b" using le bytes(2) by simp
  note O = overwrite_facts [OF len]
  have "ri_info_copy c i block = Returns (Block ?low', ?m, Some ?b')"
    using bytes b le False by (simp add: ri_info_copy_def)
  moreover have "ready (Block ?low') is (Some ?b') ?low'"
    using g fits by (simp add: ready_def O(1))
  moreover have "same_below low block (Some ?b')" using b O by (simp add: same_below_Some)
  moreover have "inside ?m ?low' (Some ?b')" using A(1) fits by (simp add: inside_def O(1))
  moreover have "info_bytes (info_of (Some ?b') ?m) = info_bytes i"
    using O(3) bytes False by (simp add: info_bytes_def info_of_def min_absorb2)
  ultimately show thesis by (intro that) simp_all
qed

section \<open>Copying a table\<close>

definition copied :: "u8 list option \<Rightarrow> nat \<Rightarrow> channel_data \<Rightarrow> ri_channel_attr \<Rightarrow> bool" where
  "copied block low d a \<longleftrightarrow> channel_content (attr_of block d) = channel_content a \<and>
     inside (d_info d) low block"

lemma inside_mono:
  assumes "inside m low block" and "ready c is block low'" and "low \<le> low'"
  shows "inside m low' block"
  using assms by (auto simp: inside_def ready_def)

lemma copied_kept:
  assumes "copied block low d a" and "same_below low block block'" and "ready c is block' low'"
    and "low \<le> low'"
  shows "copied block' low' d a"
proof -
  have i: "inside (d_info d) low block" using assms(1) by (simp add: copied_def)
  note K = info_of_kept(1) [OF assms(2) i] info_of_kept(4) [OF assms(2) i]
  have "channel_content (attr_of block' d) = channel_content (attr_of block d)"
    using K(1) by (simp add: channel_content_def attr_of_def)
  then show ?thesis
    using assms(1) inside_mono [OF K(2) assms(3,4)] by (simp add: copied_def)
qed

lemma copy_attrs_step:
  assumes "ready c (map (\<lambda>i. a_info (src ! i)) is @ rest) block low"
    and "distinct is" and "\<forall>i\<in>set is. i < length dest \<and> i < length src \<and> wf_info (a_info (src ! i)) \<and>
      unat (i_size (a_info (src ! i))) + 16 \<le> 2 ^ 64"
  shows "\<exists>c' dest' block' low'. copy_attrs is (Some dest) (Some src) c block =
      Returns (c', Some dest', block') \<and> ready c' rest block' low' \<and> low \<le> low' \<and>
      same_below low block block' \<and> length dest' = length dest \<and>
      (\<forall>i. i \<notin> set is \<longrightarrow> dest' ! i = dest ! i) \<and>
      (\<forall>i\<in>set is. copied block' low' (dest' ! i) (src ! i))"
  using assms
proof (induction "is" arbitrary: c dest block low)
  case (Cons i "is")
  have i: "i < length dest" "i < length src" "wf_info (a_info (src ! i))"
    "unat (i_size (a_info (src ! i))) + 16 \<le> 2 ^ 64" using Cons.prems(3) by simp_all
  have r: "ready c (a_info (src ! i) # (map (\<lambda>i. a_info (src ! i)) is @ rest)) block low"
    using Cons.prems(1) by simp
  obtain c1 m b1 low1 where one: "ri_info_copy c (a_info (src ! i)) block = Returns (c1, m, b1)"
    "ready c1 (map (\<lambda>i. a_info (src ! i)) is @ rest) b1 low1" "low \<le> low1"
    "same_below low block b1" "inside m low1 b1"
    "info_bytes (info_of b1 m) = info_bytes (a_info (src ! i))"
    by (rule info_copy_step [OF r i(3,4)])
  let ?d = "\<lparr>d_msg_size = a_msg_size (src ! i), d_add_msgs = a_add_msgs (src ! i),
    d_eventfd = a_eventfd (src ! i), d_info = m\<rparr>"
  have "\<exists>c' dest' block' low'. copy_attrs is (Some (dest[i := ?d])) (Some src) c1 b1 =
      Returns (c', Some dest', block') \<and> ready c' rest block' low' \<and> low1 \<le> low' \<and>
      same_below low1 b1 block' \<and> length dest' = length (dest[i := ?d]) \<and>
      (\<forall>j. j \<notin> set is \<longrightarrow> dest' ! j = dest[i := ?d] ! j) \<and>
      (\<forall>j\<in>set is. copied block' low' (dest' ! j) (src ! j))"
    by (rule Cons.IH [OF one(2)]) (use Cons.prems in auto)
  then obtain c' dest' block' low' where two:
    "copy_attrs is (Some (dest[i := ?d])) (Some src) c1 b1 = Returns (c', Some dest', block')"
    "ready c' rest block' low'" "low1 \<le> low'" "same_below low1 b1 block'"
    "length dest' = length dest" "\<forall>j. j \<notin> set is \<longrightarrow> dest' ! j = dest[i := ?d] ! j"
    "\<forall>j\<in>set is. copied block' low' (dest' ! j) (src ! j)" by auto
  have "dest' ! i = ?d" using two(6) Cons.prems(2) i(1) by simp
  moreover have "copied b1 low1 ?d (src ! i)"
    using one(5,6) by (simp add: copied_def channel_content_def attr_of_def)
  then have "copied block' low' ?d (src ! i)" by (rule copied_kept [OF _ two(4,2,3)])
  ultimately have "\<forall>j\<in>set (i # is). copied block' low' (dest' ! j) (src ! j)"
    using two(7) by simp
  moreover have "\<forall>j. j \<notin> set (i # is) \<longrightarrow> dest' ! j = dest ! j" using two(6) by auto
  ultimately show ?case
    using one(1,3) two(1-5) i(1,2) same_below_trans [OF one(4) two(4) one(3)]
    by (intro exI [of _ c'] exI [of _ dest'] exI [of _ block'] exI [of _ low']) simp
next
  case Nil
  then show ?case
    by (intro exI [of _ c] exI [of _ dest] exI [of _ block] exI [of _ low]) simp
qed

section \<open>The size of the block\<close>

definition all_infos :: "ri_group_attr \<Rightarrow> ri_info list" where
  "all_infos g = g_info g # map a_info (table_of (g_consumers g)) @ map a_info (table_of (g_producers g))"

definition small_infos :: "ri_info list \<Rightarrow> bool" where
  "small_infos is \<longleftrightarrow> sum_list (map (\<lambda>i. unat (i_size i) + 16) is) < 2 ^ 64"

lemma small_infos_member: "small_infos is \<Longrightarrow> i \<in> set is \<Longrightarrow> unat (i_size i) + 16 \<le> 2 ^ 64"
  using member_le_sum_list [of "unat (i_size i) + 16" "map (\<lambda>i. unat (i_size i) + 16) is"]
  by (force simp: small_infos_def)

lemma room_le: "\<forall>i\<in>set is. unat (i_size i) + 16 \<le> 2 ^ 64 \<Longrightarrow>
    room is \<le> sum_list (map (\<lambda>i. unat (i_size i) + 16) is)"
proof (induction "is")
  case (Cons i "is")
  have "info_room i \<le> unat (i_size i) + 16"
    using info_align_bound(2) [of "i_size i"] Cons.prems by (auto simp: info_room_def)
  then show ?case using Cons by simp
qed simp

lemma info_align_zero: "ri_info_align 0 = 0"
  by (simp add: ri_info_align_def mem_maxalign_def mem_align_def max_align_def)

lemma info_room_eq: "info_room i = unat (ri_info_align (i_size i))"
  by (simp add: info_room_def info_align_zero)

lemma channels_info_loop_eq:
  assumes "\<exists>a\<in>set as. a_msg_size a = 0"
    and "unat sz + room (map a_info (channels_of as)) < 2 ^ 64"
  shows "\<exists>s. channels_info_loop as sz = Returns s \<and>
    unat s = unat sz + room (map a_info (channels_of as))"
  using assms
proof (induction as arbitrary: sz)
  case (Cons a as)
  show ?case
  proof (cases "a_msg_size a = 0")
    case False
    let ?sz = "if i_size (a_info a) > 0 then sz + ri_info_align (i_size (a_info a)) else sz"
    have "unat ?sz = unat sz + info_room (a_info a)"
      using Cons.prems(2) False
      by (auto simp: channels_of_def info_room_eq unat_plus_if_less word_gt_0 info_align_zero)
    moreover have "\<exists>s. channels_info_loop as ?sz = Returns s \<and>
        unat s = unat ?sz + room (map a_info (channels_of as))"
      by (rule Cons.IH) (use Cons.prems False calculation in \<open>auto simp: channels_of_def add.assoc\<close>)
    ultimately show ?thesis using False by (simp add: channels_of_def add.assoc)
  qed (simp add: channels_of_def)
qed simp

lemma channels_info_size_eq:
  assumes "\<forall>as. t = Some as \<longrightarrow> wf_table as" and "room (map a_info (table_of t)) < 2 ^ 64"
  shows "\<exists>s. calc_channels_info_size t = Returns s \<and> unat s = room (map a_info (table_of t))"
proof (cases t)
  case (Some as)
  then show ?thesis using channels_info_loop_eq [of as 0] assms
    by (simp add: calc_channels_info_size_def table_of_def wf_table_def)
qed (simp add: calc_channels_info_size_def table_of_def)

lemma info_size_eq:
  assumes "wf_group_attr g" and "small_infos (all_infos g)"
  shows "\<exists>s. ri_attr_calc_info_size g = Returns s \<and> unat s = room (all_infos g)"
proof -
  have lt: "room (all_infos g) < 2 ^ 64"
    using room_le [of "all_infos g"] small_infos_member [OF assms(2)] assms(2)
    by (fastforce simp: small_infos_def)
  obtain c where c: "calc_channels_info_size (g_consumers g) = Returns c"
    "unat c = room (map a_info (table_of (g_consumers g)))"
    using channels_info_size_eq [of "g_consumers g"] assms(1) lt
    by (auto simp: wf_group_attr_def all_infos_def)
  obtain p where p: "calc_channels_info_size (g_producers g) = Returns p"
    "unat p = room (map a_info (table_of (g_producers g)))"
    using channels_info_size_eq [of "g_producers g"] assms(1) lt
    by (auto simp: wf_group_attr_def all_infos_def)
  let ?m = "ri_info_align (i_size (g_info g))"
  have a: "unat (?m + c) = unat ?m + unat c" and "unat ?m + unat c + unat p < 2 ^ 64"
    using lt c(2) p(2) by (simp_all add: all_infos_def info_room_eq unat_plus_if_less)
  then have "unat (?m + c + p) = unat ?m + unat c + unat p" by (simp add: unat_plus_if_less)
  then show ?thesis using c p
    by (simp add: ri_attr_calc_info_size_def all_infos_def info_room_eq ri_info_align_def)
qed

section \<open>Copying a group\<close>

lemma copied_table:
  assumes n: "n = length (channels_of as)" and len: "length ds = Suc n" and "ds ! n = channel_data_zero"
    and c: "\<forall>i<n. copied block low (ds ! i) (as ! i)"
  shows "map channel_content (channels_of (map (attr_of block) ds)) = map channel_content (channels_of as)"
    and "channels_of (map (attr_of block) ds) = map (attr_of block) (take n ds)"
proof -
  have nz: "d_msg_size (ds ! i) \<noteq> 0" if "i < n" for i
  proof -
    have "channels_of as ! i \<in> set (channels_of as)" using that n by simp
    moreover have "channels_of as ! i = as ! i" using that n by (simp add: channels_of_def takeWhile_nth)
    ultimately have "as ! i \<in> set (channels_of as)" by simp
    then have "a_msg_size (as ! i) \<noteq> 0" by (auto simp: channels_of_def dest: set_takeWhileD)
    then show ?thesis using c that by (simp add: copied_def channel_content_def attr_of_def)
  qed
  have "ds = take n ds @ [ds ! n]" using len by (simp add: take_Suc_conv_app_nth [symmetric])
  then have "map (attr_of block) ds = map (attr_of block) (take n ds) @ [attr_of block (ds ! n)]"
    by (metis list.simps(8,9) map_append)
  moreover have "a_msg_size (attr_of block (ds ! n)) = 0"
    using assms(3) by (simp add: attr_of_def channel_data_zero_def)
  moreover have "\<forall>a\<in>set (map (attr_of block) (take n ds)). a_msg_size a \<noteq> 0"
    using nz len by (auto simp: attr_of_def in_set_conv_nth)
  ultimately show e: "channels_of (map (attr_of block) ds) = map (attr_of block) (take n ds)"
    by (simp add: channels_of_def takeWhile_append2 takeWhile_tail)
  show "map channel_content (channels_of (map (attr_of block) ds)) = map channel_content (channels_of as)"
    unfolding e by (rule nth_equalityI)
      (use n len c in \<open>auto simp: copied_def channels_of_def takeWhile_nth\<close>)
qed

lemma copied_table_wf:
  assumes n: "n = length (channels_of as)" and wf: "wf_table as" and len: "length ds = Suc n"
    and z: "ds ! n = channel_data_zero" and c: "\<forall>i<n. copied block low (ds ! i) (as ! i)"
  shows "wf_table (map (attr_of block) ds)"
proof -
  have "wf_info (a_info (attr_of block (ds ! i)))" if "i < Suc n" for i
  proof (cases "i = n")
    case True
    then show ?thesis using z by (simp add: attr_of_def channel_data_zero_def wf_info_def info_of_def mem_info_zero_def)
  next
    case False
    then have "inside (d_info (ds ! i)) low block" using c that by (simp add: copied_def)
    from info_of_kept(2) [OF same_below_refl this] show ?thesis by (simp add: attr_of_def)
  qed
  then have "\<forall>a\<in>set (map (attr_of block) ds). wf_info (a_info a)" using len by (auto simp: in_set_conv_nth)
  moreover have "attr_of block (ds ! n) \<in> set (map (attr_of block) ds)" using len by simp
  then have "\<exists>a\<in>set (map (attr_of block) ds). a_msg_size a = 0"
    by (rule bexI [rotated]) (simp add: z attr_of_def channel_data_zero_def)
  moreover have "length (channels_of (map (attr_of block) ds)) = n"
    using arg_cong [OF copied_table(1) [OF n len z c], of length] n by simp
  ultimately show ?thesis using wf n by (simp add: wf_table_def)
qed

text \<open>The table \<open>ds\<close>, with the infos in \<open>block\<close>, has the content of the table \<open>t\<close>.\<close>

definition same_table :: "u8 list option \<Rightarrow> channel_data list option \<Rightarrow> ri_channel_attr list option \<Rightarrow> bool" where
  "same_table block ds t \<longleftrightarrow>
     map channel_content (table_of (map_option (map (attr_of block)) ds)) = map channel_content (table_of t) \<and>
     (\<forall>as. map_option (map (attr_of block)) ds = Some as \<longrightarrow> wf_table as)"

text \<open>One of the two tables of the group: null when there is no channel.\<close>

lemma copy_table_step:
  assumes t: "\<forall>as. t = Some as \<longrightarrow> wf_table as" and n: "n = length (table_of t)"
    and r: "ready c (map a_info (table_of t) @ rest) block low"
    and small: "\<forall>i\<in>set (map a_info (table_of t)). unat (i_size i) + 16 \<le> 2 ^ 64"
    and d: "dest = (if 0 < n then Some (replicate (Suc n) channel_data_zero) else None)"
  shows "\<exists>c' dest' block' low'. copy_attrs [0..<n] dest t c block = Returns (c', dest', block') \<and>
    ready c' rest block' low' \<and> low \<le> low' \<and> same_below low block block' \<and>
    (\<forall>block'' low'' c'' rest''. same_below low' block' block'' \<longrightarrow> ready c'' rest'' block'' low'' \<longrightarrow> low' \<le> low'' \<longrightarrow>
       same_table block'' dest' t)"
proof (cases "n = 0")
  case True
  then show ?thesis using r n d
    by (intro exI [of _ c] exI [of _ dest] exI [of _ block] exI [of _ low]) (simp add: same_table_def table_of_def)
next
  case False
  then obtain as where as: "t = Some as" using n by (cases t) (auto simp: table_of_def)
  have n': "n = length (channels_of as)" using n as by (simp add: table_of_def)
  have nth: "as ! i = table_of t ! i" if "i < n" for i
    using that n' as by (simp add: table_of_def channels_of_def takeWhile_nth)
  have infos: "map (\<lambda>i. a_info (as ! i)) [0..<n] = map a_info (table_of t)"
    by (rule nth_equalityI) (use n nth in simp_all)
  have len: "n \<le> length as" using n' by (simp add: channels_of_def length_takeWhile_le)
  let ?ds = "replicate (Suc n) channel_data_zero"
  have "\<exists>c' dest' block' low'. copy_attrs [0..<n] (Some ?ds) (Some as) c block =
      Returns (c', Some dest', block') \<and> ready c' rest block' low' \<and> low \<le> low' \<and>
      same_below low block block' \<and> length dest' = length ?ds \<and>
      (\<forall>i. i \<notin> set [0..<n] \<longrightarrow> dest' ! i = ?ds ! i) \<and>
      (\<forall>i\<in>set [0..<n]. copied block' low' (dest' ! i) (as ! i))"
  proof (rule copy_attrs_step)
    show "ready c (map (\<lambda>i. a_info (as ! i)) [0..<n] @ rest) block low" unfolding infos by (rule r)
    show "\<forall>i\<in>set [0..<n]. i < length ?ds \<and> i < length as \<and> wf_info (a_info (as ! i)) \<and>
        unat (i_size (a_info (as ! i))) + 16 \<le> 2 ^ 64"
    proof
      fix i assume "i \<in> set [0..<n]"
      then have i: "i < n" by simp
      then have "as ! i \<in> set as" using len by simp
      moreover have "a_info (as ! i) \<in> set (map a_info (table_of t))" using i n nth [OF i] by simp
      ultimately show "i < length ?ds \<and> i < length as \<and> wf_info (a_info (as ! i)) \<and>
          unat (i_size (a_info (as ! i))) + 16 \<le> 2 ^ 64"
        using t as len small i by (auto simp: wf_table_def)
    qed
  qed simp
  then obtain c' ds block' low' where S: "copy_attrs [0..<n] (Some ?ds) (Some as) c block =
      Returns (c', Some ds, block')" "ready c' rest block' low'" "low \<le> low'"
      "same_below low block block'" "length ds = Suc n" "ds ! n = channel_data_zero"
      "\<forall>i<n. copied block' low' (ds ! i) (as ! i)"
    by (auto simp del: replicate_Suc)
  have "same_table block'' (Some ds) t"
    if "same_below low' block' block''" "ready c'' rest'' block'' low''" "low' \<le> low''" for block'' low'' c'' rest''
  proof -
    have "\<forall>i<n. copied block'' low'' (ds ! i) (as ! i)" using S(7) copied_kept that by blast
    from copied_table(1) [OF n' S(5,6) this] copied_table_wf [OF n' _ S(5,6) this] t
    show ?thesis by (simp add: as same_table_def table_of_def)
  qed
  then show ?thesis using S(1-4) d False as
    by (intro exI [of _ c'] exI [of _ "Some ds"] exI [of _ block'] exI [of _ low']) simp
qed

lemma copy_tableE:
  assumes "\<forall>as. t = Some as \<longrightarrow> wf_table as" and "n = length (table_of t)"
    and "ready c (map a_info (table_of t) @ rest) block low"
    and "\<forall>i\<in>set (map a_info (table_of t)). unat (i_size i) + 16 \<le> 2 ^ 64"
    and "dest = (if 0 < n then Some (replicate (Suc n) channel_data_zero) else None)"
  obtains c' dest' block' low' where "copy_attrs [0..<n] dest t c block = Returns (c', dest', block')"
    and "ready c' rest block' low'" and "low \<le> low'" and "same_below low block block'"
    and "\<And>b c r l. \<lbrakk>same_below low' block' b; ready c r b l; low' \<le> l\<rbrakk> \<Longrightarrow> same_table b dest' t"
  using copy_table_step [OF assms] by blast

text \<open>The two tables a group gets, and the cursor the copy starts with.\<close>

definition new_table :: "nat \<Rightarrow> channel_data list option" where
  "new_table n = (if 0 < n then Some (replicate (Suc n) channel_data_zero) else None)"

lemma data_new_eq:
  assumes "al_consumers al" and "al_producers al" and "nc < 2 ^ 31" and "np < 2 ^ 31"
  shows "ri_group_data_new al (of_nat nc) (of_nat np) =
    Returns (group_data_zero\<lparr>gd_n_consumers := of_nat nc, gd_n_producers := of_nat np,
      gd_consumers := new_table nc, gd_producers := new_table np\<rparr>)"
proof -
  have u: "unat (of_nat n :: u32) = n" if "n < 2 ^ 31" for n
    using that by (simp add: unsigned_of_nat take_bit_nat_eq_self)
  have z: "(0 :: u32) < of_nat n \<longleftrightarrow> 0 < n" if "n < 2 ^ 31" for n
    using u [OF that] by (simp add: word_less_nat_alt)
  have c: "calloc_channels (of_nat n) = replicate (Suc n) channel_data_zero" if "n < 2 ^ 31" for n
    using u [OF that] that by (simp add: calloc_channels_def unat_plus_if_less)
  show ?thesis
    using assms by (simp add: ri_group_data_new_def Let_def z c new_table_def group_data_zero_def)
qed

lemma start_ready:
  assumes gap: "gapless is" and s: "unat s = room is"
    and small: "\<And>i. i \<in> set is \<Longrightarrow> unat (i_size i) + 16 \<le> 2 ^ 64"
  shows "ready (if (s :: u64) > 0 then Block 0 else No_Block) is
    (if s > 0 then Some (map raw [0..<unat s]) else None) 0"
proof (cases "s > 0")
  case True
  then show ?thesis using gap s by (simp add: ready_def)
next
  case False
  then have "s = 0" by (simp add: word_gt_0)
  then have z: "room is = 0" using s by simp
  have "empty_info i" if i: "i \<in> set is" for i
  proof -
    have "info_room i = 0" using z i by (auto simp: room_def)
    then show ?thesis using info_align_bound(1) [OF small [OF i]]
      by (auto simp: info_room_def unat_eq_zero split: if_splits)
  qed
  then show ?thesis using gap False by (simp add: ready_def)
qed

text \<open>The three copies one after the other.\<close>

lemma copies_ok:
  assumes wf: "wf_group_attr g" and small: "\<And>i. i \<in> set (all_infos g) \<Longrightarrow> unat (i_size i) + 16 \<le> 2 ^ 64"
    and r: "ready c (all_infos g) b 0"
  defines "nc \<equiv> length (table_of (g_consumers g))" and "np \<equiv> length (table_of (g_producers g))"
  obtains c1 m b1 c2 cs b2 c3 ps b3 where "ri_info_copy c (g_info g) b = Returns (c1, m, b1)"
    and "copy_attrs [0..<nc] (new_table nc) (g_consumers g) c1 b1 = Returns (c2, cs, b2)"
    and "copy_attrs [0..<np] (new_table np) (g_producers g) c2 b2 = Returns (c3, ps, b3)"
    and "info_bytes (info_of b3 m) = info_bytes (g_info g)" and "wf_info (info_of b3 m)"
    and "same_table b3 cs (g_consumers g)"
    and "same_table b3 ps (g_producers g)"
proof -
  let ?c = "table_of (g_consumers g)" and ?p = "table_of (g_producers g)"
  have tc: "\<forall>as. g_consumers g = Some as \<longrightarrow> wf_table as"
    and tp: "\<forall>as. g_producers g = Some as \<longrightarrow> wf_table as" and wi: "wf_info (g_info g)"
    using wf by (simp_all add: wf_group_attr_def)
  have sg: "unat (i_size (g_info g)) + 16 \<le> 2 ^ 64"
    and sc: "\<forall>i\<in>set (map a_info ?c). unat (i_size i) + 16 \<le> 2 ^ 64"
    and sp: "\<forall>i\<in>set (map a_info ?p). unat (i_size i) + 16 \<le> 2 ^ 64"
    using small by (auto simp: all_infos_def)
  have r: "ready c (g_info g # (map a_info ?c @ (map a_info ?p @ []))) b 0"
    using r by (simp add: all_infos_def)
  obtain c1 m b1 low1 where one: "ri_info_copy c (g_info g) b = Returns (c1, m, b1)"
    "ready c1 (map a_info ?c @ (map a_info ?p @ [])) b1 low1" "inside m low1 b1"
    "info_bytes (info_of b1 m) = info_bytes (g_info g)"
    by (rule info_copy_step [OF r wi sg])
  obtain c2 cs b2 low2 where two:
    "copy_attrs [0..<nc] (new_table nc) (g_consumers g) c1 b1 = Returns (c2, cs, b2)"
    "ready c2 (map a_info ?p @ []) b2 low2" "low1 \<le> low2" "same_below low1 b1 b2"
    and cs: "\<And>b c r l. \<lbrakk>same_below low2 b2 b; ready c r b l; low2 \<le> l\<rbrakk> \<Longrightarrow> same_table b cs (g_consumers g)"
    by (rule copy_tableE [OF tc nc_def [THEN meta_eq_to_obj_eq] one(2) sc new_table_def]) (rule that; blast)
  obtain c3 ps b3 low3 where three:
    "copy_attrs [0..<np] (new_table np) (g_producers g) c2 b2 = Returns (c3, ps, b3)"
    "ready c3 [] b3 low3" "low2 \<le> low3" "same_below low2 b2 b3"
    and ps: "\<And>b c r l. \<lbrakk>same_below low3 b3 b; ready c r b l; low3 \<le> l\<rbrakk> \<Longrightarrow> same_table b ps (g_producers g)"
    by (rule copy_tableE [OF tp np_def [THEN meta_eq_to_obj_eq] two(2) sp new_table_def]) (rule that; blast)
  have "info_bytes (info_of b3 m) = info_bytes (g_info g)" "wf_info (info_of b3 m)"
    using info_of_kept(1,2) [OF same_below_trans [OF two(4) three(4) two(3)] one(3)] one(4) by simp_all
  from that [OF one(1) two(1) three(1) this cs [OF three(4,2,3)] ps [OF same_below_refl three(2) order_refl]]
  show thesis .
qed

lemma group_copy_ok:
  assumes wf: "wf_group_attr g" and gap: "gapless (all_infos g)" and small: "small_infos (all_infos g)"
    and al: "al_consumers al" "al_producers al" "al_infos al"
  shows "\<exists>data. ri_group_data_from_attr al g = Returns data \<and>
    group_content (ri_group_data_attr data) = group_content g \<and> wf_group_attr (ri_group_data_attr data) \<and>
    gd_n_consumers data = of_nat (length (table_of (g_consumers g))) \<and>
    gd_n_producers data = of_nat (length (table_of (g_producers g)))"
proof -
  let ?nc = "length (table_of (g_consumers g))" and ?np = "length (table_of (g_producers g))"
  have tc: "\<forall>as. g_consumers g = Some as \<longrightarrow> wf_table as"
    and tp: "\<forall>as. g_producers g = Some as \<longrightarrow> wf_table as" using wf by (simp_all add: wf_group_attr_def)
  note C = count_channels_eq [OF tc] and P = count_channels_eq [OF tp]
  have "?nc < 2 ^ 31" "?np < 2 ^ 31"
    using tc tp by (auto simp: table_of_def wf_table_def split: option.splits)
  note new = data_new_eq [OF al(1,2) this]
  obtain s where s: "ri_attr_calc_info_size g = Returns s" "unat s = room (all_infos g)"
    using info_size_eq [OF wf small] by blast
  note r = start_ready [OF gap s(2) small_infos_member [OF small], of "al_raw al"]
  obtain c1 m b1 c2 cs b2 c3 ps b3 where K:
    "ri_info_copy (if s > 0 then Block 0 else No_Block) (g_info g)
       (if s > 0 then Some (map (al_raw al) [0..<unat s]) else None) = Returns (c1, m, b1)"
    "copy_attrs [0..<?nc] (new_table ?nc) (g_consumers g) c1 b1 = Returns (c2, cs, b2)"
    "copy_attrs [0..<?np] (new_table ?np) (g_producers g) c2 b2 = Returns (c3, ps, b3)"
    "info_bytes (info_of b3 m) = info_bytes (g_info g)" "wf_info (info_of b3 m)"
    "same_table b3 cs (g_consumers g)" "same_table b3 ps (g_producers g)"
    by (rule copies_ok [OF wf small_infos_member [OF small] r]) blast
  have "ri_group_data_from_attr al g = Returns (group_data_zero\<lparr>gd_n_consumers := of_nat ?nc,
      gd_n_producers := of_nat ?np, gd_info := m, gd_consumers := cs, gd_producers := ps,
      gd_mem_infos := b3\<rparr>)"
    unfolding ri_group_data_from_attr_def C(1) P(1) and_then.simps new s(1) Let_def
    using al(3) K(1-3) C(2) P(2) by (simp add: group_data_zero_def)
  then show ?thesis using K(4-7) by (simp add: group_content_def ri_group_data_attr_def same_table_def wf_group_attr_def)
qed

end
