(* ===== verification/Request_Encode.thy ===== *)
theory Request_Encode
  imports Request Attr_Copy
begin

text \<open>
  What \<open>ri_request_write\<close> writes: \<open>encode\<close> is the format of a request, and the writer produces
  it in a buffer of exactly the size \<open>ri_request_calc_size\<close> asks for.
\<close>

section \<open>Bytes of integers\<close>

lemma length_le_bytes [simp]: "length (le_bytes n w) = n"
  by (simp add: le_bytes_def)

lemma bit_of_le: "bit (of_le bs :: 'a::len word) k \<longleftrightarrow>
    k < LENGTH('a) \<and> k div 8 < length bs \<and> bit (bs ! (k div 8)) (k mod 8)"
proof (induction bs arbitrary: k)
  case (Cons b bs)
  show ?case
  proof (cases "k < 8")
    case True
    then show ?thesis by (auto simp: bit_simps)
  next
    case False
    then obtain m where m: "k = m + 8" by (metis add.commute le_add_diff_inverse not_less)
    have "\<not> bit b k" using bit_imp_le_length [of b k] False by auto
    moreover have "(m + 8) div 8 = Suc (m div 8)" by simp
    ultimately show ?thesis using Cons [of m] m by (auto simp: bit_simps)
  qed
qed simp

lemma of_le_bytes:
  fixes w :: "'a::len word"
  assumes "LENGTH('a) = 8 * n"
  shows "of_le (le_bytes n w) = w"
proof (rule bit_word_eqI)
  fix k assume k: "k < LENGTH('a)"
  then have "k div 8 < n" using assms by auto
  then have "le_bytes n w ! (k div 8) = ucast (drop_bit (8 * (k div 8)) w)" by (simp add: le_bytes_def)
  moreover have "bit (ucast (drop_bit (8 * (k div 8)) w) :: u8) (k mod 8) = bit w k"
    by (simp add: bit_simps)
  ultimately show "bit (of_le (le_bytes n w) :: 'a word) k = bit w k"
    using k \<open>k div 8 < n\<close> by (simp add: bit_of_le)
qed

lemma of_le_bytes_all:
  "of_le (le_bytes 2 (x :: u16)) = x" "of_le (le_bytes 4 (y :: u32)) = y"
  by (rule of_le_bytes, simp)+

lemma header_roundtrip: "header_of (header_bytes h) = h"
  by (simp add: header_of_def header_bytes_def of_le_bytes_all)

lemma entry_roundtrip: "entry_of (entry_bytes e) = e"
  by (simp add: entry_of_def entry_bytes_def of_le_bytes_all)

lemma length_header_bytes [simp]: "length (header_bytes h) = 8"
  by (simp add: header_bytes_def)

lemma length_entry_bytes [simp]: "length (entry_bytes e) = 16"
  by (simp add: entry_bytes_def)

section \<open>The format\<close>

definition entry_for :: "ri_channel_attr \<Rightarrow> entry_t" where
  "entry_for attr = \<lparr>e_add_msgs = a_add_msgs attr, e_msg_size = ucast (a_msg_size attr),
     e_eventfd = (if a_eventfd attr then 1 else 0), e_info_size = ucast (i_size (a_info attr))\<rparr>"

definition entries :: "ri_channel_attr list \<Rightarrow> u8 list" where
  "entries as = concat (map (\<lambda>a. entry_bytes (entry_for a)) as)"

definition infos_bytes :: "ri_channel_attr list \<Rightarrow> u8 list" where
  "infos_bytes as = concat (map (\<lambda>a. info_bytes (a_info a)) as)"

definition encode :: "u64 \<Rightarrow> ri_group_attr \<Rightarrow> u8 list" where
  "encode cls g = (let ps = table_of (g_producers g); cs = table_of (g_consumers g) in
     header_bytes (ri_request_header_init cls) @ le_bytes 4 (ucast (i_size (g_info g)) :: u32) @
     le_bytes 4 (of_nat (length ps) :: u32) @ le_bytes 4 (of_nat (length cs) :: u32) @
     entries ps @ entries cs @ info_bytes (g_info g) @ infos_bytes ps @ infos_bytes cs)"

definition table_bytes :: "ri_group_attr \<Rightarrow> nat" where
  "table_bytes g = 16 * (length (table_of (g_producers g)) + length (table_of (g_consumers g)))"

lemma entries_simps [simp]: "entries [] = []" "entries (a # as) = entry_bytes (entry_for a) @ entries as"
  "length (entries as) = 16 * length as"
proof -
  show "length (entries as) = 16 * length as" by (induction as) (simp_all add: entries_def)
qed (simp_all add: entries_def)

lemma infos_bytes_simps [simp]: "infos_bytes [] = []"
  "infos_bytes (a # as) = info_bytes (a_info a) @ infos_bytes as"
  by (simp_all add: infos_bytes_def)

section \<open>The writer\<close>

text \<open>
  The writer has filled the table up to its offset and the infos up to theirs: \<open>A\<close>, then \<open>x\<close> bytes
  free, then \<open>B\<close>, then \<open>y\<close> bytes free.
\<close>

definition writing :: "request_writer \<Rightarrow> u8 list \<Rightarrow> nat \<Rightarrow> u8 list \<Rightarrow> nat \<Rightarrow> bool" where
  "writing w A x B y \<longleftrightarrow> (\<exists>X Y. wr_data w = A @ X @ B @ Y \<and> length X = x \<and> length Y = y) \<and>
     unat (wr_offset w) = length A \<and> unat (wr_size w) = length A + x + length B + y \<and>
     length A + x + length B + y < 2 ^ 31"

lemma writingI:
  assumes "wr_data w = A @ X @ B @ Y" and "length X = x" and "length Y = y"
    and "unat (wr_offset w) = length A" and "unat (wr_size w) = length A + x + length B + y"
    and "length A + x + length B + y < 2 ^ 31"
  shows "writing w A x B y"
  using assms unfolding writing_def by blast

lemma writing_write:
  assumes "writing w A (length src + x) B y"
  shows "\<exists>w'. request_write w src = Returns (w', 0) \<and> writing w' (A @ src) x B y \<and>
    wr_offset_info w' = wr_offset_info w"
proof -
  obtain X Y where d: "wr_data w = A @ X @ B @ Y" "length X = length src + x" "length Y = y"
    and o: "unat (wr_offset w) = length A" and s: "unat (wr_size w) = length A + (length src + x) + length B + y"
    and lt: "length A + (length src + x) + length B + y < 2 ^ 31"
    using assms unfolding writing_def by blast
  have u: "unat (of_nat (length src) :: u64) = length src"
    using lt by (simp add: unsigned_of_nat take_bit_nat_eq_self)
  have sum: "unat (wr_offset w + of_nat (length src)) = length A + length src"
    using lt u o by (simp add: unat_plus_if_less)
  then have ok: "\<not> wr_offset w + of_nat (length src) > wr_size w"
    using s by (simp add: word_less_nat_alt)
  have "put (wr_data w) (wr_offset w) src = Returns ((A @ src) @ drop (length src) X @ B @ Y)"
    using d o by (simp add: put_def)
  then have "request_write w src = Returns (w\<lparr>wr_data := (A @ src) @ drop (length src) X @ B @ Y,
      wr_offset := wr_offset w + of_nat (length src)\<rparr>, 0)"
    using ok by (simp add: request_write_def Let_def)
  moreover have "writing (w\<lparr>wr_data := (A @ src) @ drop (length src) X @ B @ Y,
      wr_offset := wr_offset w + of_nat (length src)\<rparr>) (A @ src) x B y"
    by (rule writingI [of _ _ "drop (length src) X" _ Y]) (use d s lt sum in simp_all)
  moreover have "wr_offset_info (w\<lparr>wr_data := (A @ src) @ drop (length src) X @ B @ Y,
      wr_offset := wr_offset w + of_nat (length src)\<rparr>) = wr_offset_info w" by simp
  ultimately show ?thesis by blast
qed

definition info_placed :: "request_writer \<Rightarrow> u8 list \<Rightarrow> nat \<Rightarrow> u8 list \<Rightarrow> nat \<Rightarrow> bool" where
  "info_placed w A x B y \<longleftrightarrow> writing w A x B y \<and> unat (wr_offset_info w) = length A + x + length B"

lemma placed_write:
  assumes "info_placed w A (length src + x) B y"
  shows "\<exists>w'. request_write w src = Returns (w', 0) \<and> info_placed w' (A @ src) x B y"
  using writing_write [of w A src x B y] assms by (auto simp: info_placed_def)

lemma placed_write_info:
  assumes "info_placed w A x B (unat (i_size i) + y)" and "wf_info i"
  shows "\<exists>w'. request_write_info w i = Returns (w', 0) \<and> info_placed w' A x (B @ info_bytes i) y"
proof (cases "i_size i = 0")
  case True
  then show ?thesis using assms
    by (auto simp: request_write_info_def info_bytes_def split: option.splits)
next
  case False
  let ?n = "unat (i_size i)"
  obtain bs where bs: "i_data i = Some bs" "?n \<le> length bs"
    using assms(2) False by (auto simp: wf_info_def)
  have ib: "info_bytes i = take ?n bs" using bs False by (simp add: info_bytes_def)
  obtain X Y where d: "wr_data w = A @ X @ B @ Y" "length X = x" "length Y = ?n + y"
    and o: "unat (wr_offset w) = length A" and s: "unat (wr_size w) = length A + x + length B + (?n + y)"
    and lt: "length A + x + length B + (?n + y) < 2 ^ 31" and oi: "unat (wr_offset_info w) = length A + x + length B"
    using assms(1) unfolding info_placed_def writing_def by blast
  have sum: "unat (wr_offset_info w + i_size i) = length A + x + length B + ?n"
    using lt oi by (simp add: unat_plus_if_less)
  then have ok: "\<not> wr_offset_info w + i_size i > wr_size w" using s by (simp add: word_less_nat_alt)
  have "put (wr_data w) (wr_offset_info w) (take ?n bs) =
      Returns (A @ X @ (B @ take ?n bs) @ drop ?n Y)"
    using d oi bs by (simp add: put_def min_absorb2)
  then have "request_write_info w i = Returns (w\<lparr>wr_data := A @ X @ (B @ take ?n bs) @ drop ?n Y,
      wr_offset_info := wr_offset_info w + i_size i\<rparr>, 0)"
    using ok bs False by (simp add: request_write_info_def)
  moreover have "info_placed (w\<lparr>wr_data := A @ X @ (B @ take ?n bs) @ drop ?n Y,
      wr_offset_info := wr_offset_info w + i_size i\<rparr>) A x (B @ info_bytes i) y"
    unfolding ib info_placed_def
    by (intro conjI writingI [of _ _ X _ "drop ?n Y"]) (use d o s lt sum bs in simp_all)
  ultimately show ?thesis by blast
qed

lemma write_channel_step:
  assumes "info_placed w A (16 + x) B (unat (i_size (a_info a)) + y)" and "wf_info (a_info a)"
  shows "\<exists>w'. request_write_channel w a = Returns (w', 0) \<and>
    info_placed w' (A @ entry_bytes (entry_for a)) x (B @ info_bytes (a_info a)) y"
proof -
  obtain w1 where w1: "request_write w (entry_bytes (entry_for a)) = Returns (w1, 0)"
    "info_placed w1 (A @ entry_bytes (entry_for a)) x B (unat (i_size (a_info a)) + y)"
    using placed_write [of w A "entry_bytes (entry_for a)" x B] assms(1) by auto
  obtain w2 where w2: "request_write_info w1 (a_info a) = Returns (w2, 0)"
    "info_placed w2 (A @ entry_bytes (entry_for a)) x (B @ info_bytes (a_info a)) y"
    using placed_write_info [OF w1(2) assms(2)] by blast
  have "request_write_channel w a = Returns (w2, 0)"
    using w1(1) w2(1)
    by (auto simp: request_write_channel_def Let_def entry_for_def [symmetric] request_write_info_def)
  then show ?thesis using w2(2) by blast
qed

lemma write_channels_step:
  assumes "info_placed w A (16 * n + x) B (length (infos_bytes (take n as)) + y)" and "n \<le> length as"
    and "\<forall>a\<in>set (take n as). wf_info (a_info a)"
  shows "\<exists>w'. write_channels n as w = Returns (w', 0) \<and>
    info_placed w' (A @ entries (take n as)) x (B @ infos_bytes (take n as)) y"
  using assms
proof (induction n arbitrary: as w A B)
  case (Suc n)
  obtain a bs where as: "as = a # bs" using Suc.prems(2) by (cases as) auto
  have wf: "wf_info (a_info a)" using Suc.prems(3) as by simp
  have "info_placed w A (16 + (16 * n + x)) B
      (unat (i_size (a_info a)) + (length (infos_bytes (take n bs)) + y))"
    using Suc.prems(1) as wf_info_length [OF wf] by (simp add: add.assoc)
  then obtain w1 where w1: "request_write_channel w a = Returns (w1, 0)"
    "info_placed w1 (A @ entry_bytes (entry_for a)) (16 * n + x) (B @ info_bytes (a_info a))
      (length (infos_bytes (take n bs)) + y)"
    using write_channel_step wf by blast
  have "\<exists>w'. write_channels n bs w1 = Returns (w', 0) \<and>
    info_placed w' ((A @ entry_bytes (entry_for a)) @ entries (take n bs)) x
      ((B @ info_bytes (a_info a)) @ infos_bytes (take n bs)) y"
    by (rule Suc.IH [OF w1(2)]) (use Suc.prems(2,3) as in simp_all)
  then show ?case using w1(1) as by simp
qed simp

section \<open>The whole request\<close>

definition request_len :: "ri_group_attr \<Rightarrow> nat" where
  "request_len g = 20 + table_bytes g + length (info_bytes (g_info g)) +
     length (infos_bytes (table_of (g_producers g))) + length (infos_bytes (table_of (g_consumers g)))"

lemma length_encode: "length (encode cls g) = request_len g"
  by (simp add: encode_def request_len_def table_bytes_def Let_def)

lemma table_take:
  "table_of t = take (length (table_of t)) (table_ptr t)" "length (table_of t) \<le> length (table_ptr t)"
proof -
  show "length (table_of t) \<le> length (table_ptr t)"
    by (cases t) (simp_all add: table_of_def table_ptr_def channels_of_def length_takeWhile_le)
  show "table_of t = take (length (table_of t)) (table_ptr t)"
    by (cases t) (simp_all add: table_of_def table_ptr_def channels_of_def takeWhile_eq_take [symmetric])
qed

lemma wf_table_infos: "\<forall>as. t = Some as \<longrightarrow> wf_table as \<Longrightarrow> \<forall>a\<in>set (table_of t). wf_info (a_info a)"
  by (cases t) (auto simp: table_of_def channels_of_def wf_table_def dest: set_takeWhileD)

lemma writing_split: "writing w A (x + y) [] 0 \<Longrightarrow> writing w A x [] y"
proof -
  assume "writing w A (x + y) [] 0"
  then obtain X where "wr_data w = A @ X" "length X = x + y" and o: "unat (wr_offset w) = length A"
    "unat (wr_size w) = length A + (x + y)" "length A + (x + y) < 2 ^ 31"
    unfolding writing_def by auto
  then show ?thesis by (intro writingI [of _ _ "take x X" _ "drop x X"]) simp_all
qed

text \<open>The four fixed fields.\<close>

lemma write_prefix:
  assumes "writing w [] (8 + (4 + (4 + (4 + x)))) [] 0"
    and "length h = 8" and "length i = 4" and "length p = 4" and "length c = 4"
  obtains w1 w2 w3 w4 where "request_write w h = Returns (w1, 0)"
    and "request_write w1 i = Returns (w2, 0)" and "request_write w2 p = Returns (w3, 0)"
    and "request_write w3 c = Returns (w4, 0)" and "writing w4 (h @ i @ p @ c) x [] 0"
proof -
  have next_write: "\<exists>w'. request_write w s = Returns (w', 0) \<and> writing w' (A @ s) z [] 0"
    if "writing w A (k + z) [] 0" "length s = k" for w A s k z
    using writing_write [of w A s z "[]" 0] that by auto
  obtain w1 where 1: "request_write w h = Returns (w1, 0)" "writing w1 h (4 + (4 + (4 + x))) [] 0"
    using next_write [OF assms(1,2)] by auto
  obtain w2 where 2: "request_write w1 i = Returns (w2, 0)" "writing w2 (h @ i) (4 + (4 + x)) [] 0"
    using next_write [OF 1(2) assms(3)] by auto
  obtain w3 where 3: "request_write w2 p = Returns (w3, 0)" "writing w3 ((h @ i) @ p) (4 + x) [] 0"
    using next_write [OF 2(2) assms(4)] by auto
  obtain w4 where 4: "request_write w3 c = Returns (w4, 0)" "writing w4 (((h @ i) @ p) @ c) x [] 0"
    using next_write [OF 3(2) assms(5)] by auto
  show thesis by (rule that [OF 1(1) 2(1) 3(1) 4(1)]) (use 4(2) in simp)
qed

text \<open>The table and the infos, once the offset of the infos is set.\<close>

lemma write_rest:
  fixes g :: ri_group_attr
  defines "np \<equiv> length (table_of (g_producers g))" and "nc \<equiv> length (table_of (g_consumers g))"
  assumes wf: "wf_group_attr g"
    and w: "info_placed w A (table_bytes g) [] (unat (i_size (g_info g)) +
      (length (infos_bytes (table_of (g_producers g))) + length (infos_bytes (table_of (g_consumers g)))))"
  obtains w1 w2 w3 where "request_write_info w (g_info g) = Returns (w1, 0)"
    and "write_channels np (table_ptr (g_producers g)) w1 = Returns (w2, 0)"
    and "write_channels nc (table_ptr (g_consumers g)) w2 = Returns (w3, 0)"
    and "info_placed w3 (A @ entries (table_of (g_producers g)) @ entries (table_of (g_consumers g))) 0
      (info_bytes (g_info g) @ infos_bytes (table_of (g_producers g)) @ infos_bytes (table_of (g_consumers g))) 0"
proof -
  let ?ps = "table_of (g_producers g)" and ?cs = "table_of (g_consumers g)"
  have tp: "\<forall>as. g_producers g = Some as \<longrightarrow> wf_table as"
    and tc: "\<forall>as. g_consumers g = Some as \<longrightarrow> wf_table as" and wi: "wf_info (g_info g)"
    using wf by (simp_all add: wf_group_attr_def)
  note P = table_take [of "g_producers g", folded np_def] and C = table_take [of "g_consumers g", folded nc_def]
  obtain w1 where 1: "request_write_info w (g_info g) = Returns (w1, 0)"
    "info_placed w1 A (table_bytes g) (info_bytes (g_info g)) (length (infos_bytes ?ps) + length (infos_bytes ?cs))"
    using placed_write_info [OF w wi] by auto
  have tb: "table_bytes g = 16 * np + 16 * nc" by (simp add: table_bytes_def np_def nc_def)
  note p = P(1) [symmetric] and c = C(1) [symmetric]
  have "info_placed w1 A (16 * np + 16 * nc) (info_bytes (g_info g))
      (length (infos_bytes (take np (table_ptr (g_producers g)))) + length (infos_bytes ?cs))"
    unfolding p using 1(2) by (simp only: tb)
  from write_channels_step [OF this P(2)] obtain w2 where
    2: "write_channels np (table_ptr (g_producers g)) w1 = Returns (w2, 0)"
    "info_placed w2 (A @ entries ?ps) (16 * nc) (info_bytes (g_info g) @ infos_bytes ?ps) (length (infos_bytes ?cs))"
    unfolding p using wf_table_infos [OF tp] by blast
  have "info_placed w2 (A @ entries ?ps) (16 * nc + 0) (info_bytes (g_info g) @ infos_bytes ?ps)
      (length (infos_bytes (take nc (table_ptr (g_consumers g)))) + 0)"
    unfolding c using 2(2) by simp
  from write_channels_step [OF this C(2)] obtain w3 where
    3: "write_channels nc (table_ptr (g_consumers g)) w2 = Returns (w3, 0)"
    "info_placed w3 ((A @ entries ?ps) @ entries ?cs) 0 ((info_bytes (g_info g) @ infos_bytes ?ps) @ infos_bytes ?cs) 0"
    unfolding c using wf_table_infos [OF tc] by blast
  show thesis by (rule that [OF 1(1) 2(1) 3(1)]) (use 3(2) in simp)
qed

lemma set_info_offset:
  assumes w: "writing w A (x + y) [] 0" and n: "x = 16 * unat (k :: u32)"
  shows "info_placed (w\<lparr>wr_offset_info := wr_offset w + ucast k * sizeof_entry\<rparr>) A x [] y"
proof -
  have o: "unat (wr_offset w) = length A" and lt: "length A + (x + y) < 2 ^ 31"
    using w by (auto simp: writing_def)
  have "unat (ucast k :: u64) = unat k" by (rule unat_ucast_wide)
  then have "unat (ucast k * sizeof_entry :: u64) = 16 * unat k"
    using lt n by (simp add: sizeof_entry_def unat_mult_lem [THEN iffD1] unat_word_ariths)
  then have "unat (wr_offset w + ucast k * sizeof_entry) = length A + x"
    using lt n o by (simp add: unat_plus_if_less)
  moreover have "writing w A x [] y" by (rule writing_split [OF w])
  ultimately show ?thesis by (simp add: info_placed_def writing_def)
qed

lemma request_write_eq:
  assumes wf: "wf_group_attr g" and len: "length req = request_len g" and lt: "request_len g < 2 ^ 31"
  shows "ri_request_write cls g req (of_nat (request_len g)) =
    Returns (encode cls g, int (20 + table_bytes g))"
proof -
  let ?ps = "table_of (g_producers g)" and ?cs = "table_of (g_consumers g)"
  let ?np = "of_nat (length ?ps) :: u32" and ?nc = "of_nat (length ?cs) :: u32"
  let ?y = "unat (i_size (g_info g)) + (length (infos_bytes ?ps) + length (infos_bytes ?cs))"
  have tp: "\<forall>as. g_producers g = Some as \<longrightarrow> wf_table as"
    and tc: "\<forall>as. g_consumers g = Some as \<longrightarrow> wf_table as" and wi: "wf_info (g_info g)"
    using wf by (simp_all add: wf_group_attr_def)
  note P = count_channels_eq [OF tp] and C = count_channels_eq [OF tc]
  have n: "request_len g = 20 + (table_bytes g + ?y)"
    using wf_info_length [OF wi] by (simp add: request_len_def)
  have sz: "unat (of_nat (request_len g) :: u64) = request_len g"
    using lt by (simp add: unsigned_of_nat take_bit_nat_eq_self)
  have nz: "(of_nat (request_len g) :: u64) \<noteq> 0" using sz n by (metis unat_0 add_is_0 numeral_neq_zero)
  have k: "table_bytes g = 16 * unat (?np + ?nc)"
    using lt n P(2) C(2) by (subst unat_plus_if_less) (simp_all add: table_bytes_def)
  let ?h = "header_bytes (ri_request_header_init cls)" and ?i = "le_bytes 4 (ucast (i_size (g_info g)) :: u32)"
  let ?w = "\<lparr>wr_data = req, wr_size = of_nat (request_len g), wr_offset = 0, wr_offset_info = 0\<rparr>"
  have w: "writing ?w [] (8 + (4 + (4 + (4 + (table_bytes g + ?y))))) [] 0"
    by (rule writingI [of _ _ req _ "[]"]) (use len n lt sz in simp_all)
  obtain w1 w2 w3 w4 where pre: "request_write ?w ?h = Returns (w1, 0)"
    "request_write w1 ?i = Returns (w2, 0)" "request_write w2 (le_bytes 4 ?np) = Returns (w3, 0)"
    "request_write w3 (le_bytes 4 ?nc) = Returns (w4, 0)"
    and w4: "writing w4 (?h @ ?i @ le_bytes 4 ?np @ le_bytes 4 ?nc) (table_bytes g + ?y) [] 0"
    by (rule write_prefix [OF w length_header_bytes length_le_bytes length_le_bytes length_le_bytes])
  let ?w5 = "w4\<lparr>wr_offset_info := wr_offset w4 + ucast (?np + ?nc) * sizeof_entry\<rparr>"
  obtain w6 w7 w8 where rest: "request_write_info ?w5 (g_info g) = Returns (w6, 0)"
    "write_channels (length ?ps) (table_ptr (g_producers g)) w6 = Returns (w7, 0)"
    "write_channels (length ?cs) (table_ptr (g_consumers g)) w7 = Returns (w8, 0)"
    and w8: "info_placed w8 ((?h @ ?i @ le_bytes 4 ?np @ le_bytes 4 ?nc) @ entries ?ps @ entries ?cs) 0
      (info_bytes (g_info g) @ infos_bytes ?ps @ infos_bytes ?cs) 0"
    by (rule write_rest [OF wf set_info_offset [OF w4 k]])
  have d: "wr_data w8 = encode cls g" and o: "unat (wr_offset w8) = 20 + table_bytes g"
    using w8 by (auto simp: info_placed_def writing_def encode_def Let_def table_bytes_def)
  have "ucast (wr_offset w8) = (of_nat (20 + table_bytes g) :: u32)"
    using o by (metis of_nat_unat)
  moreover have "sint (of_nat (20 + table_bytes g) :: u32) = int (20 + table_bytes g)"
    by (rule sint_of_nat_small) (use lt n in simp)
  ultimately have "sint (ucast (wr_offset w8) :: u32) = int (20 + table_bytes g)" by (simp only:)
  then show ?thesis
    unfolding ri_request_write_def P(1) C(1) Let_def using nz pre rest d P(2) C(2) by simp
qed

end
