(* ===== verification/Request_Decode.thy ===== *)
theory Request_Decode
  imports Request_Encode
begin

text \<open>
  The parser of the server reads back what the writer of the client encodes, with the roles
  exchanged: the producers of the client become the consumers of the server.
\<close>

section \<open>The reader\<close>

definition parsing :: "request_reader \<Rightarrow> u8 list \<Rightarrow> u8 list \<Rightarrow> bool" where
  "parsing r P R \<longleftrightarrow> rd_data r = P @ R \<and> unat (rd_offset r) = length P \<and>
     unat (rd_size r) = length P + length R \<and> length P + length R < 2 ^ 31"

lemma parsing_read:
  assumes "parsing r P (bs @ R)" and "unat n = length bs"
  shows "\<exists>r'. request_read r n = Returns (Some (r', bs)) \<and> parsing r' (P @ bs) R"
proof -
  have sum: "unat (rd_offset r + n) = length P + length bs"
    using assms by (simp add: parsing_def unat_plus_if_less)
  then have "\<not> rd_offset r + n > rd_size r" using assms by (simp add: parsing_def word_less_nat_alt)
  then have "request_read r n = Returns (Some (r\<lparr>rd_offset := rd_offset r + n\<rparr>, bs))"
    using assms by (simp add: request_read_def parsing_def)
  moreover have "parsing (r\<lparr>rd_offset := rd_offset r + n\<rparr>) (P @ bs) R"
    using assms sum by (simp add: parsing_def)
  ultimately show ?thesis by blast
qed

lemma read_u32_eq:
  assumes "parsing r P (le_bytes 4 (x :: u32) @ R)"
  shows "\<exists>r'. read_u32 r = Returns (r', x) \<and> parsing r' (P @ le_bytes 4 x) R"
proof -
  obtain r' where "request_read r 4 = Returns (Some (r', le_bytes 4 x))" "parsing r' (P @ le_bytes 4 x) R"
    using parsing_read [OF assms, of 4] by auto
  then show ?thesis by (simp add: read_u32_def of_le_bytes_all)
qed

section \<open>The channel table\<close>

text \<open>What an entry becomes: the sizes have travelled as 32-bit numbers.\<close>

definition fits :: "ri_channel_attr \<Rightarrow> bool" where
  "fits a \<longleftrightarrow> unat (a_msg_size a) < 2 ^ 32 \<and> unat (i_size (a_info a)) < 2 ^ 32"

definition entry_data :: "ri_channel_attr \<Rightarrow> channel_data" where
  "entry_data a = \<lparr>d_msg_size = a_msg_size a, d_add_msgs = a_add_msgs a, d_eventfd = a_eventfd a,
     d_info = \<lparr>m_size = i_size (a_info a), m_data = None\<rparr>\<rparr>"

lemma ucast_ucast_small: "unat x < 2 ^ 32 \<Longrightarrow> ucast (ucast (x :: u64) :: u32) = x"
  by (simp add: word_unat_eq_iff unsigned_ucast_eq unsigned_take_bit_eq take_bit_nat_eq_self)

lemma read_channel_eq:
  assumes "parsing r P (entry_bytes (entry_for a) @ R)" and "i < length table" and "fits a"
  shows "\<exists>r'. request_read_channel r table i = Returns (r', table[i := entry_data a], 0) \<and>
    parsing r' (P @ entry_bytes (entry_for a)) R"
proof -
  obtain r' where r: "request_read r sizeof_entry = Returns (Some (r', entry_bytes (entry_for a)))"
    "parsing r' (P @ entry_bytes (entry_for a)) R"
    using parsing_read [OF assms(1), of sizeof_entry] by (auto simp: sizeof_entry_def)
  have "request_read_channel r table i = Returns (r', table[i := entry_data a], 0)"
    using r(1) assms(2,3)
    by (simp add: request_read_channel_def entry_roundtrip Let_def entry_for_def entry_data_def
        fits_def ucast_ucast_small)
  then show ?thesis using r(2) by blast
qed

lemma read_channels_eq:
  assumes "parsing r P (entries as @ R)" and "i + length as \<le> length table" and "\<forall>a\<in>set as. fits a"
  shows "\<exists>r'. read_channels (length as) i r table =
      Returns (r', take i table @ map entry_data as @ drop (i + length as) table) \<and>
    parsing r' (P @ entries as) R"
  using assms
proof (induction as arbitrary: i r P table)
  case (Cons a as)
  have "parsing r P (entry_bytes (entry_for a) @ (entries as @ R))" using Cons.prems(1) by simp
  then obtain r1 where r1: "request_read_channel r table i = Returns (r1, table[i := entry_data a], 0)"
    "parsing r1 (P @ entry_bytes (entry_for a)) (entries as @ R)"
    using read_channel_eq [of r P a _ i table] Cons.prems(2,3) by auto
  obtain r2 where "read_channels (length as) (Suc i) r1 (table[i := entry_data a]) =
      Returns (r2, take (Suc i) (table[i := entry_data a]) @ map entry_data as @
        drop (Suc i + length as) (table[i := entry_data a]))"
    and "parsing r2 ((P @ entry_bytes (entry_for a)) @ entries as) R"
    using Cons.IH [OF r1(2), of "Suc i" "table[i := entry_data a]"] Cons.prems(2,3) by auto
  then show ?case using r1(1) Cons.prems(2)
    by (auto simp: take_Suc_conv_app_nth)
qed simp

definition filled_table :: "ri_channel_attr list \<Rightarrow> channel_data list option" where
  "filled_table as = (if as = [] then None else Some (map entry_data as @ [channel_data_zero]))"

lemma read_entries_eq:
  assumes "parsing r P (entries as @ R)" and "length as < 2 ^ 31" and "\<forall>a\<in>set as. fits a"
  shows "\<exists>r'. read_entries (of_nat (length as)) r (new_table (length as)) = Returns (r', filled_table as) \<and>
    parsing r' (P @ entries as) R"
proof (cases "as = []")
  case False
  have u: "unat (of_nat (length as) :: u32) = length as"
    using assms(2) by (simp add: unsigned_of_nat take_bit_nat_eq_self)
  let ?t = "replicate (Suc (length as)) channel_data_zero"
  obtain r' where "read_channels (length as) 0 r ?t =
      Returns (r', take 0 ?t @ map entry_data as @ drop (0 + length as) ?t)" "parsing r' (P @ entries as) R"
    using read_channels_eq [OF assms(1) _ assms(3), of 0 ?t] by auto
  moreover have "drop (length as) ?t = [channel_data_zero]" by (simp only: drop_replicate) simp
  ultimately show ?thesis using False u
    by (simp add: read_entries_def new_table_def filled_table_def del: replicate_Suc)
qed (use assms in \<open>simp add: read_entries_def new_table_def filled_table_def\<close>)

section \<open>The infos\<close>

lemma ready_Nil: "mem \<le> length block \<Longrightarrow> ready c [] (Some block) mem"
  by (simp add: ready_def)

text \<open>One info is read into the block.\<close>

lemma read_info_step:
  assumes "parsing r P (bs @ R)" and "unat n = length bs" and "unat n + 16 \<le> 2 ^ 64"
    and "mem + unat (ri_info_align n) \<le> length block"
  obtains r' where "read_info r block mem n =
      Returns (Some (r', overwrite block mem bs, mem + unat (ri_info_align n)))"
    and "parsing r' (P @ bs) R" and "length (overwrite block mem bs) = length block"
    and "same_below mem (Some block) (Some (overwrite block mem bs))"
    and "inside \<lparr>m_size = n, m_data = Some mem\<rparr> (mem + unat (ri_info_align n)) (Some (overwrite block mem bs))"
    and "info_bytes (info_of (Some (overwrite block mem bs)) \<lparr>m_size = n, m_data = Some mem\<rparr>) = bs"
proof -
  note A = info_align_bound [OF assms(3)]
  have fit: "mem + length bs \<le> length block" using A(1) assms(2,4) by simp
  note O = overwrite_facts [OF fit]
  obtain r' where r: "request_read r n = Returns (Some (r', bs))" "parsing r' (P @ bs) R"
    using parsing_read [OF assms(1,2)] by blast
  have "inside \<lparr>m_size = n, m_data = Some mem\<rparr> (mem + unat (ri_info_align n)) (Some (overwrite block mem bs))"
    using A(1) assms(2,4) by (simp add: inside_def O(1))
  moreover have "info_bytes (info_of (Some (overwrite block mem bs)) \<lparr>m_size = n, m_data = Some mem\<rparr>) = bs"
    using O(3) assms(2) by (auto simp: info_bytes_def info_of_def)
  moreover have "same_below mem (Some block) (Some (overwrite block mem bs))"
    by (simp add: same_below_Some O(1,2))
  ultimately show thesis using that [of r'] r fit O(1) by (simp add: read_info_def)
qed

lemma read_channel_infos_step:
  assumes "parsing r P (infos_bytes (map ((!) as) is) @ R)" and "distinct is"
    and "\<forall>i\<in>set is. i < length table \<and> table ! i = entry_data (as ! i) \<and> wf_info (a_info (as ! i)) \<and>
      unat (i_size (a_info (as ! i))) + 16 \<le> 2 ^ 64"
    and "mem' = mem + room (map (\<lambda>i. a_info (as ! i)) is)" and "mem' \<le> length block"
  shows "\<exists>r' table' block'. read_channel_infos is r table block mem = Returns (r', table', block', mem') \<and>
    parsing r' (P @ infos_bytes (map ((!) as) is)) R \<and> length block' = length block \<and>
    same_below mem (Some block) (Some block') \<and> length table' = length table \<and>
    (\<forall>i. i \<notin> set is \<longrightarrow> table' ! i = table ! i) \<and>
    (\<forall>i\<in>set is. copied (Some block') mem' (table' ! i) (as ! i))"
  using assms
proof (induction "is" arbitrary: r P table block mem)
  case (Cons i "is")
  let ?a = "as ! i" and ?n = "i_size (a_info (as ! i))"
  have i: "i < length table" "table ! i = entry_data ?a" "wf_info (a_info ?a)" "unat ?n + 16 \<le> 2 ^ 64"
    using Cons.prems(3) by simp_all
  have later: "\<forall>j\<in>set is. j < length (table[i := x]) \<and> table[i := x] ! j = entry_data (as ! j) \<and>
      wf_info (a_info (as ! j)) \<and> unat (i_size (a_info (as ! j))) + 16 \<le> 2 ^ 64" for x
  proof
    fix j assume j: "j \<in> set is"
    then have "i \<noteq> j" using Cons.prems(2) by auto
    then show "j < length (table[i := x]) \<and> table[i := x] ! j = entry_data (as ! j) \<and>
        wf_info (a_info (as ! j)) \<and> unat (i_size (a_info (as ! j))) + 16 \<le> 2 ^ 64"
      using Cons.prems(3) j by simp
  qed
  show ?case
  proof (cases "?n = 0")
    case True
    then have nil: "info_bytes (a_info ?a) = []" by (simp add: info_bytes_def)
    from Cons.IH [of r P table mem block] obtain r' table' block' where
      S: "read_channel_infos is r table block mem = Returns (r', table', block', mem')"
      "parsing r' (P @ infos_bytes (map ((!) as) is)) R" "length block' = length block"
      "same_below mem (Some block) (Some block')" "length table' = length table"
      "\<forall>j. j \<notin> set is \<longrightarrow> table' ! j = table ! j"
      "\<forall>j\<in>set is. copied (Some block') mem' (table' ! j) (as ! j)"
      using Cons.prems nil True by (auto simp: info_room_def)
    have "table' ! i = entry_data ?a" using S(6) Cons.prems(2) i(2) by simp
    then have "copied (Some block') mem' (table' ! i) ?a"
      using True by (simp add: copied_def inside_def channel_content_def attr_of_def entry_data_def
          info_of_def info_bytes_def)
    moreover have "read_channel_infos (i # is) r table block mem = Returns (r', table', block', mem')"
      using S(1) i(1,2) True by (simp add: Let_def entry_data_def)
    ultimately show ?thesis using S(2-7) nil by auto
  next
    case False
    let ?bs = "info_bytes (a_info ?a)" and ?m1 = "mem + unat (ri_info_align ?n)"
    have room: "mem' = ?m1 + room (map (\<lambda>i. a_info (as ! i)) is)"
      using Cons.prems(4) False by (simp add: info_room_def)
    have "parsing r P (?bs @ (infos_bytes (map ((!) as) is) @ R))" using Cons.prems(1) by simp
    moreover have "unat ?n = length ?bs" using wf_info_length [OF i(3)] by simp
    moreover have "?m1 \<le> length block" using room Cons.prems(5) by simp
    ultimately obtain r1 where one: "read_info r block mem ?n = Returns (Some (r1, overwrite block mem ?bs, ?m1))"
      "parsing r1 (P @ ?bs) (infos_bytes (map ((!) as) is) @ R)"
      "length (overwrite block mem ?bs) = length block"
      "same_below mem (Some block) (Some (overwrite block mem ?bs))"
      "inside \<lparr>m_size = ?n, m_data = Some mem\<rparr> ?m1 (Some (overwrite block mem ?bs))"
      "info_bytes (info_of (Some (overwrite block mem ?bs)) \<lparr>m_size = ?n, m_data = Some mem\<rparr>) = ?bs"
      by (rule read_info_step [OF _ _ i(4)])
    let ?d = "(entry_data ?a)\<lparr>d_info := \<lparr>m_size = ?n, m_data = Some mem\<rparr>\<rparr>" and ?b1 = "overwrite block mem ?bs"
    have "\<exists>r' table' block'. read_channel_infos is r1 (table[i := ?d]) ?b1 ?m1 = Returns (r', table', block', mem') \<and>
      parsing r' ((P @ ?bs) @ infos_bytes (map ((!) as) is)) R \<and> length block' = length ?b1 \<and>
      same_below ?m1 (Some ?b1) (Some block') \<and> length table' = length (table[i := ?d]) \<and>
      (\<forall>j. j \<notin> set is \<longrightarrow> table' ! j = table[i := ?d] ! j) \<and>
      (\<forall>j\<in>set is. copied (Some block') mem' (table' ! j) (as ! j))"
      by (rule Cons.IH [OF one(2) _ later room]) (use Cons.prems(2,5) one(3) in simp_all)
    then obtain r' table' block' where
      S: "read_channel_infos is r1 (table[i := ?d]) ?b1 ?m1 = Returns (r', table', block', mem')"
      "parsing r' ((P @ ?bs) @ infos_bytes (map ((!) as) is)) R" "length block' = length ?b1"
      "same_below ?m1 (Some ?b1) (Some block')" "length table' = length table"
      "\<forall>j. j \<notin> set is \<longrightarrow> table' ! j = table[i := ?d] ! j"
      "\<forall>j\<in>set is. copied (Some block') mem' (table' ! j) (as ! j)" by auto
    have "copied (Some ?b1) ?m1 ?d ?a"
      using one(5,6) by (simp add: copied_def channel_content_def attr_of_def entry_data_def)
    then have "copied (Some block') mem' ?d ?a"
      by (rule copied_kept [OF _ S(4) ready_Nil]) (use room Cons.prems(5) S(3) one(3) in simp_all)
    moreover have "table' ! i = ?d" using S(6) Cons.prems(2) i(1) by simp
    ultimately have "\<forall>j\<in>set (i # is). copied (Some block') mem' (table' ! j) (as ! j)" using S(7) by simp
    moreover have "read_channel_infos (i # is) r table block mem = Returns (r', table', block', mem')"
      using S(1) one(1) i(1,2) False by (simp add: Let_def entry_data_def word_gt_0)
    moreover have "same_below mem (Some block) (Some block')"
      by (rule same_below_trans [OF one(4) S(4)]) simp
    ultimately show ?thesis using S(2,3,5,6) one(3)
      by (intro exI [of _ r'] exI [of _ table'] exI [of _ block']) auto
  qed
qed simp

section \<open>One table of infos\<close>

definition real_channels :: "ri_channel_attr list \<Rightarrow> bool" where
  "real_channels as \<longleftrightarrow> (\<forall>a\<in>set as. a_msg_size a \<noteq> 0 \<and> wf_info (a_info a) \<and>
     unat (i_size (a_info a)) + 16 \<le> 2 ^ 64)"

lemma channels_of_real: "real_channels as \<Longrightarrow> channels_of as = as"
  by (simp add: channels_of_def real_channels_def takeWhile_eq_all_conv)

lemma map_nth_upt: "map (\<lambda>i. f (as ! i)) [0..<length as] = map f as"
  by (rule nth_equalityI) simp_all

lemma read_table_step:
  assumes r: "parsing r P (infos_bytes as @ R)" and real: "real_channels as"
    and m: "mem' = mem + room (map a_info as)" "mem' \<le> length block"
  shows "\<exists>r' t block'. read_table (length as) r (filled_table as) block mem = Returns (r', t, block', mem') \<and>
    parsing r' (P @ infos_bytes as) R \<and> length block' = length block \<and>
    same_below mem (Some block) (Some block') \<and>
    (\<forall>b low. same_below mem' (Some block') (Some b) \<longrightarrow> mem' \<le> low \<longrightarrow> low \<le> length b \<longrightarrow>
      map channel_content (table_of (map_option (map (attr_of (Some b))) t)) = map channel_content as)"
proof (cases "as = []")
  case True
  then show ?thesis using r m
    by (simp add: read_table_def filled_table_def table_of_def)
next
  case False
  let ?t = "map entry_data as @ [channel_data_zero]"
  have "map ((!) as) [0..<length as] = as" using map_nth_upt [of "\<lambda>x. x" as] by (simp add: map_nth)
  then have r': "parsing r P (infos_bytes (map ((!) as) [0..<length as]) @ R)" using r by simp
  have "\<forall>i\<in>set [0..<length as]. i < length ?t \<and> ?t ! i = entry_data (as ! i) \<and> wf_info (a_info (as ! i)) \<and>
      unat (i_size (a_info (as ! i))) + 16 \<le> 2 ^ 64"
    using real by (simp add: real_channels_def nth_append)
  from read_channel_infos_step [OF r' distinct_upt this, of mem' mem block] obtain r1 t b1 where
    S: "read_channel_infos [0..<length as] r ?t block mem = Returns (r1, t, b1, mem')"
    "parsing r1 (P @ infos_bytes as) R" "length b1 = length block"
    "same_below mem (Some block) (Some b1)" "length t = length ?t"
    "\<forall>i. i \<notin> set [0..<length as] \<longrightarrow> t ! i = ?t ! i"
    "\<forall>i\<in>set [0..<length as]. copied (Some b1) mem' (t ! i) (as ! i)"
    using m \<open>map ((!) as) [0..<length as] = as\<close> by (auto simp: map_nth_upt)
  have z: "t ! length as = channel_data_zero" using S(6) by (simp add: nth_append)
  have "map channel_content (table_of (map_option (map (attr_of (Some b))) (Some t))) = map channel_content as"
    if "same_below mem' (Some b1) (Some b)" "mem' \<le> low" "low \<le> length b" for b low
  proof -
    have "\<forall>i<length as. copied (Some b) low (t ! i) (as ! i)"
      using S(7) copied_kept [OF _ that(1) ready_Nil [OF that(3)] that(2)] by auto
    from copied_table(1) [OF _ _ z this] S(5) channels_of_real [OF real]
    show ?thesis by (simp add: table_of_def)
  qed
  moreover have "read_table (length as) r (filled_table as) block mem = Returns (r1, Some t, b1, mem')"
    using S(1) False by (simp add: read_table_def filled_table_def)
  ultimately show ?thesis using S(2-4) by blast
qed

end
