(* ===== verification/Request_Roundtrip.thy ===== *)
theory Request_Roundtrip
  imports Request_Decode
begin

text \<open>
  The round trip: what \<open>ri_request_write\<close> writes, \<open>ri_request_parse\<close> reads back, with consumers and
  producers exchanged. \<open>portable\<close> says which attributes fit the format.
\<close>

section \<open>Attributes that fit the format\<close>

definition portable :: "ri_group_attr \<Rightarrow> bool" where
  "portable g \<longleftrightarrow> wf_group_attr g \<and> request_len g < 2 ^ 31 \<and>
     (\<forall>a\<in>set (table_of (g_consumers g) @ table_of (g_producers g)). unat (a_msg_size a) < 2 ^ 32)"

lemma table_members:
  assumes "\<forall>as. t = Some as \<longrightarrow> wf_table as" and "a \<in> set (table_of t)"
  shows "a_msg_size a \<noteq> 0" and "wf_info (a_info a)"
proof -
  obtain as where t: "t = Some as" using assms(2) by (cases t) (simp_all add: table_of_def)
  then have a: "a \<in> set (takeWhile (\<lambda>a. a_msg_size a \<noteq> 0) as)"
    using assms(2) by (simp add: table_of_def channels_of_def)
  show "a_msg_size a \<noteq> 0" using set_takeWhileD [OF a] by simp
  show "wf_info (a_info a)" using set_takeWhileD [OF a] assms(1) t by (simp add: wf_table_def)
qed

lemma info_le_infos:
  assumes "a \<in> set as" and "wf_info (a_info a)"
  shows "unat (i_size (a_info a)) \<le> length (infos_bytes as)"
proof -
  have "length (info_bytes (a_info a)) \<le> length (infos_bytes as)"
    using assms(1) by (induction as) auto
  then show ?thesis using wf_info_length [OF assms(2)] by simp
qed

lemma room_le_infos:
  assumes "\<forall>a\<in>set as. wf_info (a_info a) \<and> unat (i_size (a_info a)) + 16 \<le> 2 ^ 64"
  shows "room (map a_info as) \<le> length (infos_bytes as) + 16 * length as"
  using assms
proof (induction as)
  case (Cons a as)
  have "info_room (a_info a) \<le> length (info_bytes (a_info a)) + 16"
    using Cons.prems info_align_bound(2) [of "i_size (a_info a)"] wf_info_length [of "a_info a"]
    by (auto simp: info_room_def)
  then show ?case using Cons by simp
qed simp

lemma portable_table:
  assumes "portable g" and "t = g_consumers g \<or> t = g_producers g"
  shows "real_channels (table_of t)" and "\<forall>a\<in>set (table_of t). fits a" and "length (table_of t) < 2 ^ 31"
proof -
  have wf: "\<forall>as. t = Some as \<longrightarrow> wf_table as"
    using assms by (auto simp: portable_def wf_group_attr_def)
  have "length (infos_bytes (table_of t)) + length (table_of t) < 2 ^ 31"
    using assms by (auto simp: portable_def request_len_def table_bytes_def)
  then have s: "unat (i_size (a_info a)) < 2 ^ 31" if "a \<in> set (table_of t)" for a
    using info_le_infos [OF that table_members(2) [OF wf that]] by simp
  show "length (table_of t) < 2 ^ 31" using \<open>length _ + _ < _\<close> by simp
  show "real_channels (table_of t)"
    unfolding real_channels_def using table_members [OF wf] s by fastforce
  show "\<forall>a\<in>set (table_of t). fits a"
  proof
    fix a assume a: "a \<in> set (table_of t)"
    then have "unat (a_msg_size a) < 2 ^ 32" using assms by (auto simp: portable_def)
    then show "fits a" using s [OF a] by (simp add: fits_def)
  qed
qed

section \<open>The size of the block of infos\<close>

lemma channels_of_filled:
  assumes "real_channels as"
  shows "table_of (map_option (map (attr_of b)) (filled_table as)) = map (\<lambda>a. attr_of b (entry_data a)) as"
proof -
  have "\<forall>a\<in>set as. a_msg_size (attr_of b (entry_data a)) \<noteq> 0"
    using assms by (simp add: real_channels_def attr_of_def entry_data_def)
  then have "takeWhile (\<lambda>a. a_msg_size a \<noteq> 0) (map (\<lambda>a. attr_of b (entry_data a)) as @ [attr_of b channel_data_zero])
      = map (\<lambda>a. attr_of b (entry_data a)) as"
    by (subst takeWhile_append2) (auto simp: attr_of_def channel_data_zero_def)
  then show ?thesis by (simp add: table_of_def filled_table_def channels_of_def o_def)
qed

lemma room_filled:
  "room (map a_info (map (\<lambda>a. attr_of b (entry_data a)) as)) = room (map a_info as)"
  by (induction as) (simp_all add: attr_of_def entry_data_def info_of_def info_room_def)

lemma filled_info_size:
  assumes "real_channels as" and "room (map a_info as) < 2 ^ 64"
  shows "\<exists>s. calc_channels_info_size (map_option (map (attr_of b)) (filled_table as)) = Returns s \<and>
    unat s = room (map a_info as)"
proof (cases "as = []")
  case True
  then show ?thesis by (simp add: filled_table_def calc_channels_info_size_def)
next
  case False
  let ?t = "map (attr_of b) (map entry_data as @ [channel_data_zero])"
  have t: "channels_of ?t = map (\<lambda>a. attr_of b (entry_data a)) as"
    using channels_of_filled [OF assms(1), of b] False by (simp add: filled_table_def table_of_def)
  have "\<exists>a\<in>set ?t. a_msg_size a = 0" by (simp add: attr_of_def channel_data_zero_def)
  from channels_info_loop_eq [OF this, of 0] show ?thesis
    unfolding t room_filled using assms(2) False by (simp add: calc_channels_info_size_def filled_table_def)
qed

section \<open>Parsing\<close>

lemma header_valid: "unat cls < 2 ^ 16 \<Longrightarrow> ri_request_header_validate cls (ri_request_header_init cls) = 0"
  by (simp add: ri_request_header_validate_def ri_request_header_init_def atomic_index_size_def
      word_unat_eq_iff unsigned_ucast_eq unsigned_take_bit_eq take_bit_nat_eq_self)

text \<open>The data as it is when the tables have been read and the infos have not.\<close>

definition tables_read :: "ri_group_attr \<Rightarrow> ri_group_data" where
  "tables_read g = group_data_zero\<lparr>gd_n_consumers := of_nat (length (table_of (g_producers g))),
     gd_n_producers := of_nat (length (table_of (g_consumers g))),
     gd_info := \<lparr>m_size = i_size (g_info g), m_data = None\<rparr>,
     gd_consumers := filled_table (table_of (g_producers g)),
     gd_producers := filled_table (table_of (g_consumers g))\<rparr>"

lemma infos_room:
  assumes "portable g"
  shows "info_room (g_info g) + room (map a_info (table_of (g_producers g))) +
    room (map a_info (table_of (g_consumers g))) < 2 ^ 33" (is "?i + ?p + ?c < _")
    and "unat (i_size (g_info g)) < 2 ^ 31"
proof -
  let ?ps = "table_of (g_producers g)" and ?cs = "table_of (g_consumers g)"
  have l: "request_len g < 2 ^ 31" and wi: "wf_info (g_info g)"
    using assms by (simp_all add: portable_def wf_group_attr_def)
  then have n: "unat (i_size (g_info g)) + length (infos_bytes ?ps) + length (infos_bytes ?cs) +
      16 * length ?ps + 16 * length ?cs < 2 ^ 31"
    using wf_info_length [OF wi] by (simp add: request_len_def table_bytes_def)
  have "?p \<le> length (infos_bytes ?ps) + 16 * length ?ps" "?c \<le> length (infos_bytes ?cs) + 16 * length ?cs"
    using portable_table(1) [OF assms, of "g_producers g"] portable_table(1) [OF assms, of "g_consumers g"]
    by (auto intro!: room_le_infos simp: real_channels_def)
  moreover have "?i \<le> unat (i_size (g_info g)) + 16"
    using info_align_bound(2) [of "i_size (g_info g)"] n by (simp add: info_room_def)
  ultimately show "?i + ?p + ?c < 2 ^ 33" using n by simp
  show "unat (i_size (g_info g)) < 2 ^ 31" using n by simp
qed

lemma tables_read_info_size:
  assumes "portable g"
  shows "\<exists>s. ri_attr_calc_info_size (ri_group_data_attr (tables_read g)) = Returns s \<and>
    unat s = info_room (g_info g) + room (map a_info (table_of (g_producers g))) +
      room (map a_info (table_of (g_consumers g)))"
proof -
  let ?ps = "table_of (g_producers g)" and ?cs = "table_of (g_consumers g)"
  note R = infos_room [OF assms]
  have "room (map a_info ?ps) < 2 ^ 64" "room (map a_info ?cs) < 2 ^ 64" using R(1) by simp_all
  then obtain s0 s1 where
    s0: "calc_channels_info_size (map_option (map (attr_of None)) (filled_table ?ps)) = Returns s0"
      "unat s0 = room (map a_info ?ps)" and
    s1: "calc_channels_info_size (map_option (map (attr_of None)) (filled_table ?cs)) = Returns s1"
      "unat s1 = room (map a_info ?cs)"
    using filled_info_size [OF portable_table(1) [OF assms]] by metis
  let ?m = "mem_maxalign (i_size (g_info g))"
  have m: "unat ?m = info_room (g_info g)" by (simp add: info_room_eq ri_info_align_def)
  have "unat (?m + s0) = unat ?m + unat s0" using R(1) m s0(2) by (simp add: unat_plus_if_less)
  moreover have "unat (?m + s0 + s1) = unat (?m + s0) + unat s1"
    using R(1) m s0(2) s1(2) calculation by (simp add: unat_plus_if_less)
  ultimately show ?thesis using s0 s1 m
    by (simp add: ri_attr_calc_info_size_def ri_group_data_attr_def tables_read_def info_of_def group_data_zero_def)
qed

text \<open>The block is filled in the order group, consumers, producers of the reader.\<close>

lemma read_infos_eq:
  assumes g: "portable g"
    and r: "parsing r P (info_bytes (g_info g) @ infos_bytes (table_of (g_producers g)) @
       infos_bytes (table_of (g_consumers g)))"
    and len: "length block = info_room (g_info g) + room (map a_info (table_of (g_producers g))) +
       room (map a_info (table_of (g_consumers g)))"
  shows "\<exists>data. read_infos r (tables_read g) block = Returns data \<and>
    group_content (ri_group_data_attr data) = (info_bytes (g_info g),
      map channel_content (table_of (g_producers g)), map channel_content (table_of (g_consumers g))) \<and>
    gd_n_consumers data = of_nat (length (table_of (g_producers g))) \<and>
    gd_n_producers data = of_nat (length (table_of (g_consumers g)))"
proof -
  let ?gb = "info_bytes (g_info g)"
  let ?ps = "table_of (g_producers g)" and ?cs = "table_of (g_consumers g)"
  let ?n = "i_size (g_info g)" and ?m1 = "info_room (g_info g)"
  let ?m2 = "?m1 + room (map a_info ?ps)" and ?m3 = "?m1 + room (map a_info ?ps) + room (map a_info ?cs)"
  have wi: "wf_info (g_info g)" using g by (simp add: portable_def wf_group_attr_def)
  have T: "gd_info (tables_read g) = \<lparr>m_size = ?n, m_data = None\<rparr>"
    "gd_n_consumers (tables_read g) = of_nat (length ?ps)" "gd_n_producers (tables_read g) = of_nat (length ?cs)"
    "gd_consumers (tables_read g) = filled_table ?ps" "gd_producers (tables_read g) = filled_table ?cs"
    by (simp_all add: tables_read_def group_data_zero_def)
  obtain r1 b1 i where one:
    "(if m_size (gd_info (tables_read g)) > 0 then
        and_then (read_info r block 0 (m_size (gd_info (tables_read g)))) (\<lambda>res. case res of
          None \<Rightarrow> Fails (-1)
        | Some (reader, block, mem) \<Rightarrow>
            Returns (reader, (tables_read g)\<lparr>gd_info := (gd_info (tables_read g))\<lparr>m_data := Some 0\<rparr>\<rparr>, block, mem))
      else Returns (r, tables_read g, block, 0)) = Returns (r1, (tables_read g)\<lparr>gd_info := i\<rparr>, b1, ?m1)"
    "parsing r1 (P @ ?gb) (infos_bytes ?ps @ infos_bytes ?cs)" "length b1 = length block"
    "inside i ?m1 (Some b1)" "info_bytes (info_of (Some b1) i) = ?gb"
  proof (cases "?n = 0")
    case True
    then have gb: "?gb = []" by (simp add: info_bytes_def)
    show thesis
      by (rule that [of r "\<lparr>m_size = 0, m_data = None\<rparr>" block])
        (use True r gb T(1) in \<open>simp_all add: info_room_def inside_def info_bytes_def info_of_def\<close>)
  next
    case False
    have l: "0 + unat (ri_info_align ?n) \<le> length block" using len by (simp add: info_room_eq)
    have s: "unat ?n = length ?gb" "unat ?n + 16 \<le> 2 ^ 64"
      using wf_info_length [OF wi] infos_room(2) [OF g] by simp_all
    from read_info_step [OF r s l] obtain r1 where
      "read_info r block 0 ?n = Returns (Some (r1, overwrite block 0 ?gb, 0 + unat (ri_info_align ?n)))"
      "parsing r1 (P @ ?gb) (infos_bytes ?ps @ infos_bytes ?cs)"
      "length (overwrite block 0 ?gb) = length block"
      "inside \<lparr>m_size = ?n, m_data = Some 0\<rparr> (0 + unat (ri_info_align ?n)) (Some (overwrite block 0 ?gb))"
      "info_bytes (info_of (Some (overwrite block 0 ?gb)) \<lparr>m_size = ?n, m_data = Some 0\<rparr>) = ?gb"
      by metis
    then show thesis using False
      by (intro that [of r1 "\<lparr>m_size = ?n, m_data = Some 0\<rparr>" "overwrite block 0 ?gb"])
        (simp_all add: info_room_eq word_gt_0 T)
  qed
  have m2: "?m2 \<le> length b1" using one(3) len by simp
  from read_table_step [OF one(2) portable_table(1) [OF g] refl m2] obtain r2 t2 b2 where
    two: "read_table (length ?ps) r1 (filled_table ?ps) b1 ?m1 = Returns (r2, t2, b2, ?m2)"
      "parsing r2 ((P @ ?gb) @ infos_bytes ?ps) (infos_bytes ?cs)" "length b2 = length b1"
      "same_below ?m1 (Some b1) (Some b2)"
    and t2: "\<And>b low. \<lbrakk>same_below ?m2 (Some b2) (Some b); ?m2 \<le> low; low \<le> length b\<rbrakk> \<Longrightarrow>
      map channel_content (table_of (map_option (map (attr_of (Some b))) t2)) = map channel_content ?ps"
    by blast
  have r2: "parsing r2 ((P @ ?gb) @ infos_bytes ?ps) (infos_bytes ?cs @ [])" using two(2) by simp
  have m3: "?m3 \<le> length b2" using two(3) one(3) len by simp
  from read_table_step [OF r2 portable_table(1) [OF g] refl m3] obtain r3 t3 b3 where
    three: "read_table (length ?cs) r2 (filled_table ?cs) b2 ?m2 = Returns (r3, t3, b3, ?m3)"
      "length b3 = length b2" "same_below ?m2 (Some b2) (Some b3)"
    and t3: "\<And>b low. \<lbrakk>same_below ?m3 (Some b3) (Some b); ?m3 \<le> low; low \<le> length b\<rbrakk> \<Longrightarrow>
      map channel_content (table_of (map_option (map (attr_of (Some b))) t3)) = map channel_content ?cs"
    by blast
  have u: "unat (of_nat (length as) :: u32) = length as" if "length as < 2 ^ 31" for as :: "ri_channel_attr list"
    using that by (simp add: unsigned_of_nat take_bit_nat_eq_self)
  let ?d = "(tables_read g)\<lparr>gd_info := i, gd_consumers := t2, gd_producers := t3, gd_mem_infos := Some b3\<rparr>"
  have "read_infos r (tables_read g) block = Returns ?d"
    using one(1) two(1) three(1) u [OF portable_table(3) [OF g, of "g_producers g"]]
      u [OF portable_table(3) [OF g, of "g_consumers g"]]
    unfolding read_infos_def one(1) by (simp add: T)
  moreover have "info_bytes (info_of (Some b3) i) = ?gb"
    using info_of_kept(1) [OF same_below_trans [OF two(4) three(3)] one(4)] one(5) by simp
  moreover note t2 [OF three(3) order_refl] t3 [OF same_below_refl order_refl]
  ultimately show ?thesis using m3 three(2)
    by (simp add: group_content_def ri_group_data_attr_def T)
qed

lemma parse_encoded:
  assumes g: "portable g" and cls: "unat cls < 2 ^ 16"
    and al: "al_consumers al" "al_producers al" "al_infos al"
  shows "\<exists>data. ri_request_parse cls al (encode cls g) (of_nat (request_len g)) = Returns data \<and>
    group_content (ri_group_data_attr data) = (info_bytes (g_info g),
      map channel_content (table_of (g_producers g)), map channel_content (table_of (g_consumers g))) \<and>
    gd_n_consumers data = of_nat (length (table_of (g_producers g))) \<and>
    gd_n_producers data = of_nat (length (table_of (g_consumers g)))"
proof -
  let ?gb = "info_bytes (g_info g)" and ?n = "i_size (g_info g)"
  let ?ps = "table_of (g_producers g)" and ?cs = "table_of (g_consumers g)"
  let ?h = "header_bytes (ri_request_header_init cls)" and ?i = "le_bytes 4 (ucast ?n :: u32)"
  let ?np = "le_bytes 4 (of_nat (length ?ps) :: u32)" and ?nc = "le_bytes 4 (of_nat (length ?cs) :: u32)"
  let ?rest = "?gb @ infos_bytes ?ps @ infos_bytes ?cs"
  note P = portable_table [OF g disjI2 [OF refl]]
    and C = portable_table [OF g disjI1 [OF refl]]
  have lt: "request_len g < 2 ^ 31" using g by (simp add: portable_def)
  let ?r = "\<lparr>rd_data = encode cls g, rd_size = of_nat (request_len g), rd_offset = 0\<rparr>"
  have "parsing ?r [] (?h @ (?i @ ?np @ ?nc @ entries ?ps @ entries ?cs @ ?rest))"
    using lt length_encode [of cls g]
    by (simp add: parsing_def encode_def Let_def unsigned_of_nat take_bit_nat_eq_self)
  from parsing_read [OF this, of sizeof_header] obtain r1 where
    1: "request_read ?r sizeof_header = Returns (Some (r1, ?h))"
      "parsing r1 ?h (?i @ (?np @ ?nc @ entries ?ps @ entries ?cs @ ?rest))" by (auto simp: sizeof_header_def)
  from read_u32_eq [OF 1(2)] obtain r2 where 2: "read_u32 r1 = Returns (r2, ucast ?n)"
      "parsing r2 (?h @ ?i) (?np @ (?nc @ entries ?ps @ entries ?cs @ ?rest))" by blast
  from read_u32_eq [OF 2(2)] obtain r3 where 3: "read_u32 r2 = Returns (r3, of_nat (length ?ps))"
      "parsing r3 ((?h @ ?i) @ ?np) (?nc @ (entries ?ps @ entries ?cs @ ?rest))" by blast
  from read_u32_eq [OF 3(2)] obtain r4 where 4: "read_u32 r3 = Returns (r4, of_nat (length ?cs))"
      "parsing r4 (((?h @ ?i) @ ?np) @ ?nc) (entries ?ps @ (entries ?cs @ ?rest))" by blast
  from read_entries_eq [OF 4(2) P(3,2)] obtain r5 where
    5: "read_entries (of_nat (length ?ps)) r4 (new_table (length ?ps)) = Returns (r5, filled_table ?ps)"
      "parsing r5 ((((?h @ ?i) @ ?np) @ ?nc) @ entries ?ps) (entries ?cs @ ?rest)" by blast
  from read_entries_eq [OF 5(2) C(3,2)] obtain r6 where
    6: "read_entries (of_nat (length ?cs)) r5 (new_table (length ?cs)) = Returns (r6, filled_table ?cs)"
      "parsing r6 (((((?h @ ?i) @ ?np) @ ?nc) @ entries ?ps) @ entries ?cs) ?rest" by blast
  obtain s where s: "ri_attr_calc_info_size (ri_group_data_attr (tables_read g)) = Returns s"
    "unat s = info_room (g_info g) + room (map a_info ?ps) + room (map a_info ?cs)"
    using tables_read_info_size [OF g] by blast
  from read_infos_eq [OF g 6(2), of "map (al_raw al) [0..<unat s]"] obtain data where
    7: "read_infos r6 (tables_read g) (map (al_raw al) [0..<unat s]) = Returns data"
      "group_content (ri_group_data_attr data) = (?gb, map channel_content ?ps, map channel_content ?cs)"
      "gd_n_consumers data = of_nat (length ?ps)" "gd_n_producers data = of_nat (length ?cs)"
    using s(2) by auto
  have new: "ri_group_data_new al (of_nat (length ?ps)) (of_nat (length ?cs)) =
    Returns (group_data_zero\<lparr>gd_n_consumers := of_nat (length ?ps), gd_n_producers := of_nat (length ?cs),
      gd_consumers := new_table (length ?ps), gd_producers := new_table (length ?cs)\<rparr>)"
    by (rule data_new_eq [OF al(1,2) P(3) C(3)])
  have n: "ucast (ucast ?n :: u32) = ?n" using infos_room(2) [OF g] by (intro ucast_ucast_small) simp
  let ?tr = "group_data_zero\<lparr>gd_n_consumers := of_nat (length ?ps), gd_n_producers := of_nat (length ?cs),
      gd_consumers := filled_table ?ps, gd_producers := filled_table ?cs,
      gd_info := \<lparr>m_size = ?n, m_data = None\<rparr>\<rparr>"
  have tr: "tables_read g = ?tr" by (simp add: tables_read_def group_data_zero_def)
  have "ri_request_parse cls al (encode cls g) (of_nat (request_len g)) = Returns data"
    using 1(1) header_valid [OF cls] 2(1) 3(1) 4(1) new 5(1) 6(1) n s(1) 7(1) al(3)
    unfolding tr by (simp add: ri_request_parse_def header_roundtrip group_data_zero_def mem_info_zero_def)
  then show ?thesis using 7(2-4) by blast
qed

section \<open>The size of a request\<close>

lemma unat_info_sum:
  assumes "\<forall>a\<in>set as. wf_info (a_info a)" and "length (infos_bytes as) < 2 ^ 64"
  shows "unat (sum_list (map (\<lambda>a. i_size (a_info a)) as)) = length (infos_bytes as)"
  using assms
proof (induction as)
  case (Cons a as)
  then have "unat (sum_list (map (\<lambda>a. i_size (a_info a)) as)) = length (infos_bytes as)" by simp
  moreover have "unat (i_size (a_info a)) = length (info_bytes (a_info a))"
    using Cons.prems(1) by (simp add: wf_info_length)
  ultimately show ?case using Cons.prems(2) by (simp add: unat_plus_if_less)
qed simp

lemma take_table:
  assumes "\<forall>as. t = Some as \<longrightarrow> wf_table as"
  shows "take (length (table_of t)) (table_ptr t) = table_of t"
proof (cases t)
  case (Some as)
  have "as = takeWhile (\<lambda>a. a_msg_size a \<noteq> 0) as @ dropWhile (\<lambda>a. a_msg_size a \<noteq> 0) as" by simp
  then show ?thesis unfolding Some table_of_def table_ptr_def channels_of_def option.case
    by (metis append_eq_conv_conj)
qed (simp add: table_of_def table_ptr_def)

lemma calc_size_eq:
  assumes g: "portable g"
  shows "\<exists>sz. ri_request_calc_size g = Returns sz \<and> unat sz = request_len g"
proof -
  let ?ps = "table_of (g_producers g)" and ?cs = "table_of (g_consumers g)"
  have tc: "\<forall>as. g_consumers g = Some as \<longrightarrow> wf_table as"
    and tp: "\<forall>as. g_producers g = Some as \<longrightarrow> wf_table as" and wi: "wf_info (g_info g)"
    using g by (simp_all add: portable_def wf_group_attr_def)
  note C = count_channels_eq [OF tc] and P = count_channels_eq [OF tp]
  have lt: "request_len g < 2 ^ 31" using g by (simp add: portable_def)
  let ?n = "of_nat (length ?cs) + of_nat (length ?ps) :: u32"
  have "length ?cs + length ?ps < 2 ^ 32" using lt by (simp add: request_len_def table_bytes_def)
  then have n: "unat ?n = length ?cs + length ?ps"
    using C(2) P(2) by (simp add: unat_plus_if_less)
  have un: "unat (ucast ?n :: u64) = unat ?n" by (rule unat_ucast_wide)
  have e: "unat (ucast ?n * sizeof_entry :: u64) = 16 * (length ?cs + length ?ps)"
    using un n lt by (simp add: sizeof_entry_def unat_word_ariths request_len_def table_bytes_def)
  have s: "unat (info_sizes (length ?cs) (table_ptr (g_consumers g))) = length (infos_bytes ?cs)"
    "unat (info_sizes (length ?ps) (table_ptr (g_producers g))) = length (infos_bytes ?ps)"
    unfolding info_sizes_def take_table [OF tc] take_table [OF tp]
    using lt table_members(2) [OF tc] table_members(2) [OF tp]
    by (simp_all add: unat_info_sum request_len_def)
  let ?a = "sizeof_header + 3 * 4 :: u64" and ?i = "i_size (g_info g)"
  let ?ic = "info_sizes (length ?cs) (table_ptr (g_consumers g))"
    and ?ip = "info_sizes (length ?ps) (table_ptr (g_producers g))"
  have l: "20 + 16 * (length ?cs + length ?ps) + unat ?i + length (infos_bytes ?cs) + length (infos_bytes ?ps) < 2 ^ 31"
    using lt wf_info_length [OF wi] by (simp add: request_len_def table_bytes_def)
  have 1: "unat (?a + ucast ?n * sizeof_entry) = 20 + 16 * (length ?cs + length ?ps)"
    using l e by (subst unat_plus_if_less) (simp_all add: sizeof_header_def)
  have 2: "unat (?a + ucast ?n * sizeof_entry + ?i) = 20 + 16 * (length ?cs + length ?ps) + unat ?i"
    using l 1 by (subst unat_plus_if_less) simp_all
  have 3: "unat (?a + ucast ?n * sizeof_entry + ?i + ?ic) =
      20 + 16 * (length ?cs + length ?ps) + unat ?i + length (infos_bytes ?cs)"
    using l 2 s(1) by (subst unat_plus_if_less) simp_all
  have 4: "unat (?a + ucast ?n * sizeof_entry + ?i + ?ic + ?ip) = request_len g"
    using l 3 s(2) wf_info_length [OF wi]
    by (subst unat_plus_if_less) (simp_all add: request_len_def table_bytes_def)
  have "ri_request_calc_size g = Returns (?a + ucast ?n * sizeof_entry + ?i + ?ic + ?ip)"
    unfolding ri_request_calc_size_def C(1) P(1) and_then.simps C(2) P(2) ..
  then show ?thesis using 4 by blast
qed

text \<open>
  C8. A client that asks \<open>ri_request_calc_size\<close> for the size of its request and writes it into a
  buffer of that size with \<open>ri_request_write\<close> describes its group to the server: \<open>ri_request_parse\<close>
  on those bytes gives a group with the same info, and with the client's producers as consumers
  and its consumers as producers, all their attributes and infos included.
\<close>

theorem request_roundtrip:
  assumes "portable g" and "unat cls < 2 ^ 16"
    and "ri_request_calc_size g = Returns sz" and "length req = unat sz"
    and "al_consumers al" and "al_producers al" and "al_infos al"
  shows "\<exists>req' r data. ri_request_write cls g req sz = Returns (req', r) \<and> 0 \<le> r \<and>
    ri_request_parse cls al req' sz = Returns data \<and>
    (case group_content g of (info, consumers, producers) \<Rightarrow>
      group_content (ri_group_data_attr data) = (info, producers, consumers))"
proof -
  have s: "unat sz = request_len g" using calc_size_eq [OF assms(1)] assms(3) by auto
  then have w: "sz = of_nat (request_len g)" by (simp flip: s)
  show ?thesis unfolding w
    using request_write_eq [of g req cls] parse_encoded [OF assms(1,2,5-7)] assms(1,4) s
    by (auto simp: portable_def group_content_def)
qed

definition sample_group :: ri_group_attr where
  "sample_group = \<lparr>
     g_consumers = Some [\<lparr>a_msg_size = 12, a_add_msgs = 2, a_eventfd = True,
       a_info = \<lparr>i_size = 2, i_data = Some [7, 8]\<rparr>\<rparr>, channel_attr_zero],
     g_producers = Some [\<lparr>a_msg_size = 5, a_add_msgs = 0, a_eventfd = False,
       a_info = \<lparr>i_size = 1, i_data = Some [9]\<rparr>\<rparr>, channel_attr_zero],
     g_info = \<lparr>i_size = 3, i_data = Some [1, 2, 3]\<rparr>\<rparr>"

definition all_allocs :: allocs where
  "all_allocs = \<lparr>al_consumers = True, al_producers = True, al_infos = True, al_raw = (\<lambda>_. 0)\<rparr>"

lemmas sample_simps = sample_group_def channel_attr_zero_def info_zero_def table_of_def channels_of_def
  wf_info_def wf_table_def info_bytes_def

lemma sample_portable: "portable sample_group"
  by (simp add: portable_def wf_group_attr_def request_len_def table_bytes_def sample_simps)

lemma sample_content: "group_content sample_group =
    ([1, 2, 3], [(12, 2, True, [7, 8])], [(5, 0, False, [9])])"
  by (simp add: group_content_def channel_content_def sample_simps)

theorem request_roundtrip_witness: "\<exists>req' r data.
    ri_request_write 64 sample_group (replicate 58 0) 58 = Returns (req', r) \<and> 0 \<le> r \<and>
    ri_request_parse 64 all_allocs req' 58 = Returns data \<and>
    group_content (ri_group_data_attr data) = ([1, 2, 3], [(5, 0, False, [9])], [(12, 2, True, [7, 8])])"
proof -
  have "ri_request_calc_size sample_group = Returns 58" by code_simp
  from request_roundtrip [OF sample_portable _ this, of 64 "replicate 58 0" all_allocs]
  show ?thesis by (simp add: sample_content all_allocs_def)
qed

end
