(* ===== verification/Attr_Properties.thy ===== *)
theory Attr_Properties
  imports Request_Roundtrip
begin

text \<open>
  What a client of the attribute functions may rely on: the comparison of two groups decides whether their
  contents are equal, and the library's copy has the content of the original; and the inputs for
  which neither holds.
\<close>

section \<open>Comparison\<close>

text \<open>
  C21. \<open>ri_group_attr_equal\<close> on two well-formed groups with both tables present answers whether they have
  the same info and, in the same order, the same consumers and producers with the same infos.
\<close>

theorem group_attr_equal_decides:
  assumes "wf_group_attr g0" and "wf_group_attr g1"
    and "g_consumers g0 \<noteq> None" and "g_producers g0 \<noteq> None"
    and "g_consumers g1 \<noteq> None" and "g_producers g1 \<noteq> None"
  shows "ri_group_attr_equal g0 g1 = Returns (group_content g0 = group_content g1)"
  by (rule group_equal_iff [OF assms])

definition other_group :: ri_group_attr where
  "other_group = sample_group\<lparr>g_info := \<lparr>i_size = 3, i_data = Some [1, 2, 4]\<rparr>\<rparr>"

lemma other_wf: "wf_group_attr other_group"
  by (simp add: other_group_def wf_group_attr_def sample_simps)

lemma sample_wf: "wf_group_attr sample_group"
  using sample_portable by (simp add: portable_def)

theorem group_attr_equal_decides_witness:
  "ri_group_attr_equal sample_group sample_group = Returns True \<and>
   ri_group_attr_equal sample_group other_group = Returns False"
proof -
  have "group_content sample_group \<noteq> group_content other_group"
    by (simp add: group_content_def other_group_def sample_simps)
  then show ?thesis
    using group_attr_equal_decides [OF sample_wf sample_wf] group_attr_equal_decides [OF sample_wf other_wf]
    by (simp add: other_group_def sample_group_def)
qed

text \<open>
  The comparison dereferences the tables without a test: a group that has no consumers, or no
  producers, cannot be compared, not even with itself.
\<close>

theorem comparison_needs_tables:
  assumes "wf_group_attr g" and "g_consumers g = None \<or> g_producers g = None"
  shows "ri_group_attr_equal g g = Undefined"
proof -
  have i: "ri_info_equal (g_info g) (g_info g) = Returns True"
    using assms(1) info_equal_iff [of "g_info g" "g_info g"] by (simp add: wf_group_attr_def)
  show ?thesis
  proof (cases "g_consumers g")
    case None
    then show ?thesis using i by (simp add: ri_group_attr_equal_def arrays_equal_def)
  next
    case (Some as)
    then have "wf_table as" using assms(1) by (simp add: wf_group_attr_def)
    then have "arrays_equal (Some as) (Some as) = Returns True"
      by (simp add: arrays_equal_def channels_equal_iff wf_table_def)
    then show ?thesis using i Some assms(2) by (simp add: ri_group_attr_equal_def) (simp add: arrays_equal_def)
  qed
qed

theorem comparison_needs_tables_witness:
  "ri_group_attr_equal (sample_group\<lparr>g_producers := None\<rparr>) (sample_group\<lparr>g_producers := None\<rparr>) = Undefined"
  by (rule comparison_needs_tables) (simp_all add: wf_group_attr_def sample_simps)

section \<open>Copy\<close>

text \<open>
  C22. When no info follows an empty one (in the order group, consumers, producers), and the allocations
  succeed, \<open>ri_group_data_from_attr\<close> returns a copy with the content of the original.
\<close>

theorem group_copy_faithful:
  assumes "wf_group_attr g" and "gapless (all_infos g)" and "small_infos (all_infos g)"
    and "al_consumers al" and "al_producers al" and "al_infos al"
  shows "\<exists>data. ri_group_data_from_attr al g = Returns data \<and>
    group_content (ri_group_data_attr data) = group_content g"
  using group_copy_ok [OF assms] by blast

theorem group_copy_faithful_witness: "\<exists>data. ri_group_data_from_attr all_allocs sample_group = Returns data \<and>
    group_content (ri_group_data_attr data) = ([1, 2, 3], [(12, 2, True, [7, 8])], [(5, 0, False, [9])])"
proof -
  have "gapless (all_infos sample_group)" "small_infos (all_infos sample_group)"
    by (simp_all add: all_infos_def small_infos_def sample_simps)
  then show ?thesis
    using group_copy_faithful [OF sample_wf, of all_allocs]
    by (simp only: sample_content) (simp add: all_allocs_def)
qed

text \<open>
  When the group has no info of its own and its first consumer has one, the copy is undefined:
  \<open>ri_info_copy\<close> has returned the address of the empty info structure, and the consumer's info is written
  over it.
\<close>

theorem copy_after_empty_info_undefined:
  assumes wf: "wf_group_attr g" and small: "small_infos (all_infos g)"
    and none: "i_size (g_info g) = 0" and first: "g_consumers g = Some (a # as)" "a_msg_size a \<noteq> 0"
      "i_size (a_info a) \<noteq> 0"
    and al: "al_consumers al" "al_producers al" "al_infos al"
  shows "ri_group_data_from_attr al g = Undefined"
proof -
  have tc: "\<forall>as. g_consumers g = Some as \<longrightarrow> wf_table as"
    and tp: "\<forall>as. g_producers g = Some as \<longrightarrow> wf_table as" using wf by (simp_all add: wf_group_attr_def)
  note C = count_channels_eq [OF tc] and P = count_channels_eq [OF tp]
  let ?nc = "length (table_of (g_consumers g))" and ?np = "length (table_of (g_producers g))"
  have "?nc < 2 ^ 31" "?np < 2 ^ 31"
    using tc tp by (auto simp: table_of_def wf_table_def split: option.splits)
  note new = data_new_eq [OF al(1,2) this]
  obtain s where s: "ri_attr_calc_info_size g = Returns s" using info_size_eq [OF wf small] by blast
  have "?nc = Suc (length (channels_of as))" using first by (simp add: table_of_def channels_of_def)
  then have js: "[0..<?nc] = 0 # [1..<?nc]" "0 < ?nc" by (simp_all add: upt_rec)
  have i: "ri_info_copy c (g_info g) b = Returns (Structure, mem_info_zero, b)" for c b
    using none by (simp add: ri_info_copy_def split: option.split)
  obtain bytes where bytes: "i_data (a_info a) = Some bytes"
    using tc first by (auto simp: wf_table_def wf_info_def)
  have "copy_attrs (0 # js) (new_table ?nc) (Some (a # as)) Structure b = Undefined" for js b
    using bytes first(3) js(2) by (simp add: new_table_def ri_info_copy_def)
  then show ?thesis
    unfolding ri_group_data_from_attr_def C(1) P(1) and_then.simps new s Let_def i
    using al(3) C(2) js(1) first(1) by (simp add: group_data_zero_def)
qed

theorem copy_after_empty_info_undefined_witness:
  "ri_group_data_from_attr all_allocs (sample_group\<lparr>g_info := info_zero\<rparr>) = Undefined"
  by (rule copy_after_empty_info_undefined)
    (simp_all add: wf_group_attr_def all_allocs_def all_infos_def small_infos_def sample_simps, simp_all)

text \<open>
  An allocation that fails is reported as \<open>-ENOMEM\<close>: for a table that has channels, and for
  the infos when there are any.
\<close>

theorem copy_out_of_memory:
  assumes "wf_group_attr g" and "small_infos (all_infos g)"
    and "(table_of (g_consumers g) \<noteq> [] \<and> \<not> al_consumers al) \<or>
      (table_of (g_producers g) \<noteq> [] \<and> \<not> al_producers al) \<or>
      (room (all_infos g) > 0 \<and> \<not> al_infos al)"
  shows "ri_group_data_from_attr al g = Fails (- ENOMEM)"
proof -
  have tc: "\<forall>as. g_consumers g = Some as \<longrightarrow> wf_table as"
    and tp: "\<forall>as. g_producers g = Some as \<longrightarrow> wf_table as" using assms(1) by (simp_all add: wf_group_attr_def)
  note C = count_channels_eq [OF tc] and P = count_channels_eq [OF tp]
  have pos: "(0 :: u32) < of_nat (length (table_of (g_consumers g))) \<longleftrightarrow> table_of (g_consumers g) \<noteq> []"
    "(0 :: u32) < of_nat (length (table_of (g_producers g))) \<longleftrightarrow> table_of (g_producers g) \<noteq> []"
    using C(2) P(2) by (simp_all add: word_less_nat_alt)
  obtain s where s: "ri_attr_calc_info_size g = Returns s" "unat s = room (all_infos g)"
    using info_size_eq [OF assms(1,2)] by blast
  then have "0 < s \<longleftrightarrow> room (all_infos g) > 0" by (simp add: word_less_nat_alt)
  then show ?thesis
    unfolding ri_group_data_from_attr_def C(1) P(1) and_then.simps
    using assms(3) s(1) pos by (auto simp: ri_group_data_new_def Let_def)
qed

theorem copy_out_of_memory_witness:
  "ri_group_data_from_attr (all_allocs\<lparr>al_infos := False\<rparr>) sample_group = Fails (-12)"
proof -
  have "room (all_infos sample_group) > 0"
    by (simp add: all_infos_def sample_group_def info_room_def ri_info_align_def mem_maxalign_def mem_align_def max_align_def)
  then show ?thesis
    using copy_out_of_memory [OF sample_wf, of "all_allocs\<lparr>al_infos := False\<rparr>"]
    by (simp add: all_infos_def small_infos_def sample_simps ENOMEM_def all_allocs_def)
qed

end
