(* ===== verification/Request_Safety.thy ===== *)
theory Request_Safety
  imports Request_Roundtrip
begin

text \<open>
  Requests that are not what \<open>ri_request_write\<close> would write, and buffers that are not what
  \<open>ri_request_calc_size\<close> asks for: the writer stays inside any buffer, the parser rejects short requests
  and foreign headers, and the inputs for which the parser or the writer goes wrong.
\<close>

section \<open>The writer stays in its buffer\<close>

definition in_buffer :: "request_writer \<Rightarrow> bool" where
  "in_buffer w \<longleftrightarrow> length (wr_data w) = unat (wr_size w) \<and> unat (wr_size w) < 2 ^ 61 \<and>
     unat (wr_offset w) \<le> unat (wr_size w)"

text \<open>What every writing step keeps.\<close>

definition wrote :: "request_writer \<Rightarrow> (request_writer \<times> int) outcome \<Rightarrow> bool" where
  "wrote w res \<longleftrightarrow> (\<exists>w' r. res = Returns (w', r) \<and> in_buffer w' \<and> wr_size w' = wr_size w \<and>
     (unat (wr_offset_info w) < 2 ^ 62 \<longrightarrow> unat (wr_offset_info w') < 2 ^ 62))"

lemma put_ok: "unat off + length src \<le> length d \<Longrightarrow> \<exists>d'. put d off src = Returns d' \<and> length d' = length d"
  by (auto simp: put_def)

lemma wrote_request_write:
  assumes "in_buffer w" and "length src < 2 ^ 62"
  shows "wrote w (request_write w src)"
proof -
  have u: "unat (of_nat (length src) :: u64) = length src"
    using assms(2) by (simp add: unsigned_of_nat take_bit_nat_eq_self)
  have sum: "unat (wr_offset w + of_nat (length src)) = unat (wr_offset w) + length src"
    using assms u by (simp add: in_buffer_def unat_plus_if_less)
  show ?thesis
  proof (cases "wr_offset w + of_nat (length src) > wr_size w")
    case True
    then show ?thesis using assms(1) by (simp add: wrote_def request_write_def)
  next
    case False
    then have le: "unat (wr_offset w) + length src \<le> unat (wr_size w)"
      using sum by (simp add: word_less_nat_alt)
    then obtain d' where "put (wr_data w) (wr_offset w) src = Returns d'" "length d' = length (wr_data w)"
      using put_ok assms(1) by (metis in_buffer_def)
    then show ?thesis using False assms(1) le sum
      by (simp add: wrote_def request_write_def Let_def in_buffer_def)
  qed
qed

lemma wrote_info:
  assumes "in_buffer w" and "unat (wr_offset_info w) < 2 ^ 62" and "wf_info i" and "unat (i_size i) < 2 ^ 62"
  shows "wrote w (request_write_info w i)"
proof (cases "i_data i")
  case None
  then show ?thesis using assms(1) by (simp add: wrote_def request_write_info_def)
next
  case (Some bytes)
  have sum: "unat (wr_offset_info w + i_size i) = unat (wr_offset_info w) + unat (i_size i)"
    using assms(2,4) by (simp add: unat_plus_if_less)
  consider "i_size i = 0" | "wr_offset_info w + i_size i > wr_size w"
    | "i_size i \<noteq> 0" "\<not> wr_offset_info w + i_size i > wr_size w" by blast
  then show ?thesis
  proof cases
    case 3
    then have le: "unat (wr_offset_info w) + unat (i_size i) \<le> unat (wr_size w)"
      using sum by (simp add: word_less_nat_alt)
    have b: "unat (i_size i) \<le> length bytes" using assms(3) 3(1) Some by (simp add: wf_info_def)
    then obtain d' where "put (wr_data w) (wr_offset_info w) (take (unat (i_size i)) bytes) = Returns d'"
      "length d' = length (wr_data w)"
      using put_ok [of "wr_offset_info w" "take (unat (i_size i)) bytes" "wr_data w"] le assms(1)
      by (auto simp: in_buffer_def)
    then show ?thesis using 3 assms(1) Some b le sum
      by (simp add: wrote_def request_write_info_def in_buffer_def)
  qed (use assms(1) Some in \<open>simp_all add: wrote_def request_write_info_def\<close>)
qed

definition plain_channel :: "ri_channel_attr \<Rightarrow> bool" where
  "plain_channel a \<longleftrightarrow> wf_info (a_info a) \<and> unat (i_size (a_info a)) < 2 ^ 62"

lemma wrote_bind:
  assumes "wrote w m" and "\<And>w' r. \<lbrakk>m = Returns (w', r); in_buffer w'; wr_size w' = wr_size w;
    unat (wr_offset_info w) < 2 ^ 62 \<Longrightarrow> unat (wr_offset_info w') < 2 ^ 62\<rbrakk> \<Longrightarrow> wrote w' (k (w', r))"
  shows "wrote w (and_then m k)"
proof -
  obtain w' r where m: "m = Returns (w', r)" "in_buffer w'" "wr_size w' = wr_size w"
    "unat (wr_offset_info w) < 2 ^ 62 \<longrightarrow> unat (wr_offset_info w') < 2 ^ 62"
    using assms(1) by (auto simp: wrote_def)
  have "wrote w' (k (w', r))" by (rule assms(2)) (use m in auto)
  then show ?thesis using m by (auto simp: wrote_def)
qed

lemma wrote_channel:
  assumes "in_buffer w" and "unat (wr_offset_info w) < 2 ^ 62" and "plain_channel a"
  shows "wrote w (request_write_channel w a)"
  unfolding request_write_channel_def Let_def
proof (rule wrote_bind)
  show "wrote w (request_write w (entry_bytes \<lparr>e_add_msgs = a_add_msgs a, e_msg_size = ucast (a_msg_size a),
      e_eventfd = (if a_eventfd a then 1 else 0), e_info_size = ucast (i_size (a_info a))\<rparr>))"
    by (rule wrote_request_write [OF assms(1)]) simp
next
  fix w' r assume w': "in_buffer w'" "unat (wr_offset_info w) < 2 ^ 62 \<Longrightarrow> unat (wr_offset_info w') < 2 ^ 62"
  have "wrote w' (request_write_info w' (a_info a))"
    using assms(2,3) w' by (intro wrote_info) (simp_all add: plain_channel_def)
  moreover have "wrote w' (Returns (w', r))" using w'(1) by (simp add: wrote_def)
  ultimately show "wrote w' (case (w', r) of (writer, r) \<Rightarrow> if r < 0 then Returns (writer, r)
      else if i_data (a_info a) \<noteq> None then request_write_info writer (a_info a) else Returns (writer, r))"
    by simp
qed

lemma wrote_channels:
  assumes "in_buffer w" and "unat (wr_offset_info w) < 2 ^ 62" and "n \<le> length as"
    and "\<forall>a\<in>set (take n as). plain_channel a"
  shows "wrote w (write_channels n as w)"
  using assms
proof (induction n as w rule: write_channels.induct)
  case (1 attrs w)
  then show ?case by (simp add: wrote_def)
next
  case (3 n a as w)
  have "wrote w (request_write_channel w a)" using 3 by (intro wrote_channel) simp_all
  then have "wrote w (and_then (request_write_channel w a) (\<lambda>(writer, r).
     if r < 0 then Returns (writer, r) else write_channels n as writer))"
  proof (rule wrote_bind)
    fix w' r assume w': "request_write_channel w a = Returns (w', r)" "in_buffer w'"
      "unat (wr_offset_info w) < 2 ^ 62 \<Longrightarrow> unat (wr_offset_info w') < 2 ^ 62"
    show "wrote w' (case (w', r) of (writer, r) \<Rightarrow> if r < 0 then Returns (writer, r) else write_channels n as writer)"
    proof (cases "r < 0")
      case True
      then show ?thesis using w'(2) by (simp add: wrote_def)
    next
      case False
      then show ?thesis using "3.IH" [OF False w'(2)] w' "3.prems" by simp
    qed
  qed
  then show ?case by simp
qed simp

text \<open>The same for the whole function, whose result is the buffer.\<close>

definition kept_buffer :: "request_writer \<Rightarrow> (u8 list \<times> int) outcome \<Rightarrow> bool" where
  "kept_buffer w res \<longleftrightarrow> (\<exists>req' r. res = Returns (req', r) \<and> length req' = unat (wr_size w))"

lemma kept_bind:
  assumes "wrote w m" and "\<And>w' r. \<lbrakk>in_buffer w'; unat (wr_offset_info w) < 2 ^ 62 \<Longrightarrow> unat (wr_offset_info w') < 2 ^ 62\<rbrakk>
    \<Longrightarrow> kept_buffer w' (k w' r)"
  shows "kept_buffer w (and_then m (\<lambda>(w', r). if r < 0 then Returns (wr_data w', -1) else k w' r))"
proof -
  obtain w' r where m: "m = Returns (w', r)" "in_buffer w'" "wr_size w' = wr_size w"
    "unat (wr_offset_info w) < 2 ^ 62 \<longrightarrow> unat (wr_offset_info w') < 2 ^ 62"
    using assms(1) by (auto simp: wrote_def)
  have "kept_buffer w' (k w' r)" by (rule assms(2)) (use m in auto)
  then show ?thesis using m by (auto simp: kept_buffer_def in_buffer_def)
qed

lemma kept_bind_ignoring:
  assumes "wrote w m" and "\<And>w' r. in_buffer w' \<Longrightarrow> kept_buffer w' (k w' r)"
  shows "kept_buffer w (and_then m (\<lambda>(w', r). k w' r))"
proof -
  obtain w' r where m: "m = Returns (w', r)" "in_buffer w'" "wr_size w' = wr_size w"
    using assms(1) by (auto simp: wrote_def)
  then show ?thesis using assms(2) [OF m(2), of r] by (simp add: kept_buffer_def)
qed

lemma kept_last: "in_buffer w \<Longrightarrow> kept_buffer w (Returns (wr_data w, r))"
  by (simp add: kept_buffer_def in_buffer_def)

lemma kept_offset_info:
  "kept_buffer (w\<lparr>wr_offset_info := x\<rparr>) res = kept_buffer w res"
  by (simp add: kept_buffer_def)

lemma info_offset_small:
  assumes "in_buffer w"
  shows "unat (wr_offset w + ucast (k :: u32) * sizeof_entry) < 2 ^ 62"
proof -
  have k: "unat (ucast k :: u64) < 2 ^ 32" unfolding unat_ucast_wide using unsigned_less [of k] by simp
  have "unat (ucast k * sizeof_entry :: u64) \<le> unat (ucast k :: u64) * unat (sizeof_entry)"
    by (simp add: unat_word_ariths)
  then have "unat (ucast k * sizeof_entry :: u64) < 2 ^ 37" using k by (simp add: sizeof_entry_def)
  moreover have "unat (wr_offset w) < 2 ^ 61" using assms by (simp add: in_buffer_def)
  moreover have "unat (wr_offset w + ucast k * sizeof_entry) \<le> unat (wr_offset w) + unat (ucast k * sizeof_entry :: u64)"
    by (simp add: unat_word_ariths)
  moreover have "(2 :: nat) ^ 61 + 2 ^ 37 < 2 ^ 62" by simp
  ultimately show ?thesis by linarith
qed

lemma table_ptr_take:
  assumes "\<forall>as. t = Some as \<longrightarrow> wf_table as"
  shows "length (table_of t) \<le> length (table_ptr t)"
  using assms by (cases t) (auto simp: table_of_def table_ptr_def channels_of_def length_takeWhile_le)

text \<open>The part after the counters: infos and channels.\<close>

lemma kept_channels:
  assumes "in_buffer w" and "wf_info (g_info g)" and "unat (i_size (g_info g)) < 2 ^ 62"
    and "np \<le> length ps" and "\<forall>a\<in>set (take np ps). plain_channel a"
    and "nc \<le> length cs" and "\<forall>a\<in>set (take nc cs). plain_channel a"
  shows "kept_buffer w (and_then (request_write_info
       (w\<lparr>wr_offset_info := wr_offset w + ucast (k :: u32) * sizeof_entry\<rparr>) (g_info g)) (\<lambda>(writer, r).
     if r < 0 then Returns (wr_data writer, -1) else
     and_then (write_channels np ps writer) (\<lambda>(writer, r).
     if r < 0 then Returns (wr_data writer, -1) else
     and_then (write_channels nc cs writer) (\<lambda>(writer, r).
     if r < 0 then Returns (wr_data writer, -1) else
     Returns (wr_data writer, sint (ucast (wr_offset writer) :: u32))))))"
    (is "kept_buffer w (and_then (request_write_info ?w _) ?rest)")
proof -
  have w: "in_buffer ?w" "unat (wr_offset_info ?w) < 2 ^ 62"
    using assms(1) info_offset_small [OF assms(1), of k] by (simp_all add: in_buffer_def)
  have "kept_buffer ?w (and_then (request_write_info ?w (g_info g)) ?rest)"
  proof (rule kept_bind)
    show "wrote ?w (request_write_info ?w (g_info g))" by (rule wrote_info [OF w assms(2,3)])
  next
    fix w1 assume "in_buffer w1" and "unat (wr_offset_info ?w) < 2 ^ 62 \<Longrightarrow> unat (wr_offset_info w1) < 2 ^ 62"
    then have w1: "in_buffer w1" "unat (wr_offset_info w1) < 2 ^ 62" using w(2) by simp_all
    show "kept_buffer w1 (and_then (write_channels np ps w1) (\<lambda>(writer, r).
       if r < 0 then Returns (wr_data writer, -1) else
       and_then (write_channels nc cs writer) (\<lambda>(writer, r).
       if r < 0 then Returns (wr_data writer, -1) else
       Returns (wr_data writer, sint (ucast (wr_offset writer) :: u32)))))"
    proof (rule kept_bind)
      show "wrote w1 (write_channels np ps w1)" by (rule wrote_channels [OF w1 assms(4,5)])
    next
      fix w2 assume "in_buffer w2" and "unat (wr_offset_info w1) < 2 ^ 62 \<Longrightarrow> unat (wr_offset_info w2) < 2 ^ 62"
      then have w2: "in_buffer w2" "unat (wr_offset_info w2) < 2 ^ 62" using w1(2) by simp_all
      show "kept_buffer w2 (and_then (write_channels nc cs w2) (\<lambda>(writer, r).
         if r < 0 then Returns (wr_data writer, -1) else
         Returns (wr_data writer, sint (ucast (wr_offset writer) :: u32))))"
        by (rule kept_bind [OF wrote_channels [OF w2 assms(6,7)] kept_last])
    qed
  qed
  then show ?thesis by (simp only: kept_offset_info)
qed

text \<open>
  C20. Whatever the size of the buffer (an object of at most \<open>2 ^ 61\<close> bytes), \<open>ri_request_write\<close> on a
  well-formed group neither reads nor writes outside an object: it returns, with the buffer as long as before.
\<close>

theorem write_stays_in_buffer:
  assumes "wf_group_attr g" and "length req = unat sz" and "unat sz < 2 ^ 61"
    and "unat (i_size (g_info g)) < 2 ^ 62"
    and "\<forall>a\<in>set (table_of (g_consumers g) @ table_of (g_producers g)). unat (i_size (a_info a)) < 2 ^ 62"
  shows "\<exists>req' r. ri_request_write cls g req sz = Returns (req', r) \<and> length req' = length req"
proof (cases "sz = 0")
  case False
  have tc: "\<forall>as. g_consumers g = Some as \<longrightarrow> wf_table as"
    and tp: "\<forall>as. g_producers g = Some as \<longrightarrow> wf_table as" and wi: "wf_info (g_info g)"
    using assms(1) by (simp_all add: wf_group_attr_def)
  note C = count_channels_eq [OF tc] and P = count_channels_eq [OF tp]
  have plain: "\<forall>a\<in>set (table_of (g_producers g)). plain_channel a"
    "\<forall>a\<in>set (table_of (g_consumers g)). plain_channel a"
    using assms(5) table_members(2) [OF tp] table_members(2) [OF tc] by (auto simp: plain_channel_def)
  let ?w = "\<lparr>wr_data = req, wr_size = sz, wr_offset = 0, wr_offset_info = 0\<rparr>"
  have w: "in_buffer ?w" using assms(2,3) by (simp add: in_buffer_def)
  have moved: "in_buffer (w\<lparr>wr_offset_info := x\<rparr>) = in_buffer w" for w x by (simp add: in_buffer_def)
  have tail: "kept_buffer w (if r < 0 then Returns (wr_data w, -1) else
     and_then (request_write_info (w\<lparr>wr_offset_info := wr_offset w + ucast (k :: u32) * sizeof_entry\<rparr>) (g_info g))
     (\<lambda>(writer, r). if r < 0 then Returns (wr_data writer, -1) else
     and_then (write_channels (length (table_of (g_producers g))) (table_ptr (g_producers g)) writer) (\<lambda>(writer, r).
     if r < 0 then Returns (wr_data writer, -1) else
     and_then (write_channels (length (table_of (g_consumers g))) (table_ptr (g_consumers g)) writer) (\<lambda>(writer, r).
     if r < 0 then Returns (wr_data writer, -1) else
     Returns (wr_data writer, sint (ucast (wr_offset writer) :: u32))))))"
    if "in_buffer w" for w and r :: int and k
    using kept_channels [OF that wi assms(4) table_ptr_take [OF tp] _ table_ptr_take [OF tc], of k] plain kept_last [OF that]
    by (simp only: take_table [OF tp] take_table [OF tc] split: if_split) simp
  have "kept_buffer ?w (ri_request_write cls g req sz)"
    unfolding ri_request_write_def C(1) P(1) and_then.simps Let_def if_not_P [OF False] C(2) P(2)
    by (intro kept_bind kept_bind_ignoring tail wrote_request_write w) simp_all
  then show ?thesis using assms(2) by (auto simp: kept_buffer_def)
qed (simp add: ri_request_write_def)

theorem write_stays_in_buffer_witness:
  "\<exists>req' r. ri_request_write 64 sample_group (replicate 20 0) 20 = Returns (req', r) \<and> length req' = 20"
  using write_stays_in_buffer [of sample_group "replicate 20 0" 20 64] sample_portable
  by (simp add: portable_def sample_simps)

text \<open>
  The writer does not look at the outcome of writing the number of consumers: for a group without
  channels a buffer of 16 bytes, which has no room for it, is reported as written.
\<close>

theorem short_buffer_accepted:
  "ri_request_write 64 \<lparr>g_consumers = None, g_producers = None, g_info = info_zero\<rparr> (replicate 16 0) 16 =
     Returns (header_bytes (ri_request_header_init 64) @ replicate 8 0, 16) \<and>
   ri_request_calc_size \<lparr>g_consumers = None, g_producers = None, g_info = info_zero\<rparr> = Returns 20"
proof
  show "ri_request_write 64 \<lparr>g_consumers = None, g_producers = None, g_info = info_zero\<rparr> (replicate 16 0) 16 =
     Returns (header_bytes (ri_request_header_init 64) @ replicate 8 0, 16)" by code_simp
  show "ri_request_calc_size \<lparr>g_consumers = None, g_producers = None, g_info = info_zero\<rparr> = Returns 20"
    by code_simp
qed

section \<open>What the parser rejects\<close>

lemma read_u32_short:
  assumes "unat (rd_offset r) < 2 ^ 32" and "unat (rd_size r) < unat (rd_offset r) + 4"
  shows "read_u32 r = Fails (-1)"
proof -
  have "unat (rd_offset r + 4) = unat (rd_offset r) + 4" using assms(1) by (simp add: unat_plus_if_less)
  then have "rd_offset r + 4 > rd_size r" using assms(2) by (simp add: word_less_nat_alt)
  then show ?thesis by (simp add: read_u32_def request_read_def)
qed

lemma read_u32_result:
  assumes "read_u32 r = res" and "length (rd_data r) = unat (rd_size r)" and "unat (rd_offset r) < 2 ^ 32"
  shows "res = Fails (-1) \<or> (\<exists>r' x. res = Returns (r', x) \<and> unat (rd_offset r') = unat (rd_offset r) + 4 \<and>
    rd_size r' = rd_size r \<and> length (rd_data r') = unat (rd_size r'))"
proof -
  have s: "unat (rd_offset r + 4) = unat (rd_offset r) + 4" using assms(3) by (simp add: unat_plus_if_less)
  show ?thesis
  proof (cases "rd_offset r + 4 > rd_size r")
    case True
    then show ?thesis using assms(1) by (auto simp: read_u32_def request_read_def)
  next
    case False
    then have "unat (rd_offset r) + 4 \<le> length (rd_data r)" using s assms(2) by (simp add: word_less_nat_alt)
    then show ?thesis using assms False s by (auto simp: read_u32_def request_read_def)
  qed
qed

text \<open>A request of less than 20 bytes is rejected.\<close>

theorem short_request_rejected:
  assumes "length req = unat sz" and "unat sz < 20"
  shows "\<exists>e<0. ri_request_parse cls al req sz = Fails e"
proof -
  let ?r = "\<lparr>rd_data = req, rd_size = sz, rd_offset = 0\<rparr>"
  show ?thesis
  proof (cases "8 > sz")
    case True
    then show ?thesis by (auto simp: ri_request_parse_def request_read_def sizeof_header_def)
  next
    case False
    let ?r1 = "?r\<lparr>rd_offset := 8\<rparr>"
    have "8 \<le> length req" using False assms(1) by (simp add: word_less_nat_alt)
    then have h: "request_read ?r sizeof_header = Returns (Some (?r1, take 8 req))"
      using False by (simp add: request_read_def sizeof_header_def)
    show ?thesis
    proof (cases "ri_request_header_validate cls (header_of (take 8 req)) < 0")
      case True
      then show ?thesis using h by (auto simp: ri_request_parse_def Let_def)
    next
      case v: False
      consider "read_u32 ?r1 = Fails (-1)"
        | r2 x where "read_u32 ?r1 = Returns (r2, x)" "unat (rd_offset r2) = 12" "rd_size r2 = sz"
          "length (rd_data r2) = unat (rd_size r2)"
        using read_u32_result [OF refl, of ?r1] assms(1) by auto
      then show ?thesis
      proof cases
        case 1
        then show ?thesis using h v by (auto simp: ri_request_parse_def Let_def)
      next
        case 2
        consider "read_u32 r2 = Fails (-1)"
          | r3 y where "read_u32 r2 = Returns (r3, y)" "unat (rd_offset r3) = 16" "rd_size r3 = sz"
          using read_u32_result [OF refl, of r2] 2 by auto
        then show ?thesis
        proof cases
          case 1
          then show ?thesis using h v 2 by (auto simp: ri_request_parse_def Let_def)
        next
          case 3: 2
          then have "read_u32 r3 = Fails (-1)" using assms(2) by (intro read_u32_short) simp_all
          then show ?thesis using h v 2 3 by (auto simp: ri_request_parse_def Let_def)
        qed
      qed
    qed
  qed
qed

theorem short_request_rejected_witness:
  "\<exists>e<0. ri_request_parse 64 all_allocs (header_bytes (ri_request_header_init 64)) 8 = Fails e"
  by (rule short_request_rejected) simp_all

text \<open>
  Peers whose cache line sizes differ do not understand each other, so do not connect: the
  request of a client with line size \<open>cls\<close> is rejected with \<open>-EINVAL\<close> by a server with another one.
\<close>

theorem line_size_mismatch_rejected:
  assumes "portable g" and "unat cls < 2 ^ 16" and "cls' \<noteq> cls"
    and "ri_request_calc_size g = Returns sz" and "length req = unat sz"
  shows "\<exists>req' r. ri_request_write cls g req sz = Returns (req', r) \<and> 0 \<le> r \<and>
    ri_request_parse cls' al req' sz = Fails (- EINVAL)"
proof -
  have s: "unat sz = request_len g" using calc_size_eq [OF assms(1)] assms(4) by auto
  then have w: "sz = of_nat (request_len g)" by (simp flip: s)
  have lt: "request_len g < 2 ^ 31" using assms(1) by (simp add: portable_def)
  let ?h = "ri_request_header_init cls" and ?r = "\<lparr>rd_data = encode cls g, rd_size = sz, rd_offset = 0\<rparr>"
  obtain R where R: "encode cls g = header_bytes ?h @ R" by (simp add: encode_def Let_def)
  have "parsing ?r [] (header_bytes ?h @ R)"
    using lt s length_encode [of cls g] R by (simp add: parsing_def)
  from parsing_read [OF this, of sizeof_header] obtain r1 where
    r1: "request_read ?r sizeof_header = Returns (Some (r1, header_bytes ?h))" by (auto simp: sizeof_header_def)
  have "ucast (h_cacheline_size ?h) = cls"
    using assms(2) by (simp add: ri_request_header_init_def word_unat_eq_iff unsigned_ucast_eq
        unsigned_take_bit_eq take_bit_nat_eq_self)
  then have "ri_request_header_validate cls' ?h = - EINVAL"
    using assms(3) by (simp add: ri_request_header_validate_def)
  then have "ri_request_parse cls' al (encode cls g) sz = Fails (- EINVAL)"
    using r1 by (simp add: ri_request_parse_def header_roundtrip EINVAL_def)
  moreover have "ri_request_write cls g req sz = Returns (encode cls g, int (20 + table_bytes g))"
    unfolding w by (rule request_write_eq) (use assms(1,5) s lt in \<open>simp_all add: portable_def\<close>)
  ultimately show ?thesis by simp
qed

theorem line_size_mismatch_rejected_witness:
  "\<exists>req' r. ri_request_write 64 sample_group (replicate 58 0) 58 = Returns (req', r) \<and> 0 \<le> r \<and>
    ri_request_parse 128 all_allocs req' 58 = Fails (-22)"
proof -
  have "ri_request_calc_size sample_group = Returns 58" by code_simp
  from line_size_mismatch_rejected [OF sample_portable _ _ this, of 64 128 "replicate 58 0" all_allocs]
  show ?thesis by (simp add: EINVAL_def)
qed

section \<open>What the parser should reject\<close>

text \<open>The fixed part of a request that announces \<open>n\<close> consumers, and an entry.\<close>

definition announcing :: "u32 \<Rightarrow> u8 list" where
  "announcing n = header_bytes (ri_request_header_init 64) @ le_bytes 4 (0 :: u32) @ le_bytes 4 n @ le_bytes 4 (0 :: u32)"

definition entry_with :: "u32 \<Rightarrow> u32 \<Rightarrow> u8 list" where
  "entry_with msg_size info_size =
     entry_bytes \<lparr>e_add_msgs = 0, e_msg_size = msg_size, e_eventfd = 0, e_info_size = info_size\<rparr>"

text \<open>
  \<open>request_read_channel\<close> returns \<open>-r\<close>, so a request that ends before its table is accepted: the
  group has the announced consumer, with a message size of 0.
\<close>

theorem truncated_table_accepted:
  "case ri_request_parse 64 all_allocs (announcing 1) 20 of
     Returns data \<Rightarrow> gd_n_consumers data = 1 \<and> gd_consumers data = Some [channel_data_zero, channel_data_zero]
   | _ \<Rightarrow> False"
  by code_simp

text \<open>
  A channel with message size 0 ends the loop that adds up the infos but not the loop that
  reads them: a request of 68 bytes makes the parser write its info past the end of an empty block.
\<close>

theorem zero_size_channel_overflows:
  "ri_request_parse 64 all_allocs (announcing 1 @ entry_with 0 32 @ replicate 32 0xAA) 68 = Undefined"
  by code_simp

end
