(* ===== verification/World.thy ===== *)
theory World
  imports Attr Producer Consumer "HOL-Library.AList" "HOL-Library.Monad_Syntax"
begin

text \<open>
  One process as the channel, group and connection code sees it: its descriptors, the files behind
  them, and the objects the library has allocated. The files are those of the kernel, so two
  processes that exchange descriptors share them.

  What the environment decides is a parameter: \<open>w_ok k\<close> says whether the k-th call that may
  fail (an allocation or a system call) succeeds, \<open>w_errno k\<close> gives \<open>errno - 1\<close> when it does not, \<open>w_addr k\<close> the
  address a mapping gets; \<open>w_calls\<close> counts those calls. An operation is a function of the world whose
  result is \<open>None\<close> when C leaves the behaviour undefined: a use or a second release of a
  freed object, an access outside the mapped file.
\<close>

section \<open>Files and descriptors\<close>

text \<open>
  A memory file has a size and a content: the 32-bit index words, by their number, and
  the bytes of the messages, by their offset. (Theory \<open>Layout\<close> says when the two areas of a
  channel are disjoint.) An eventfd has a counter and the flag \<open>O_NONBLOCK\<close>; every
  eventfd counts as a semaphore (\<open>EFD_SEMAPHORE\<close>), as the library makes them, also one that was received. Of any other file only
  the text of its link in \<open>/proc/self/fd\<close> matters.
\<close>

datatype kernel_file =
    Memfd u64 "nat \<Rightarrow> u32" "nat \<Rightarrow> u8"
  | Eventfd nat bool
  | Other_File string

record ri_shm =
  s_ref_cnt :: int
  s_mem :: u64
  s_size :: u64
  s_fd :: int
  s_file :: nat

text \<open>
  The queue structures of theories \<open>Producer\<close> and \<open>Consumer\<close> leave out the pointer to the shared
  memory object; it is kept here, as the number of the object. \<open>cache\<close> points to the producer's private copy of a message.
\<close>

record ri_consumer =
  cn_owners :: u32
  cn_queue :: ri_consumer_queue
  cn_shm :: nat
  cn_shm_offset :: u64
  cn_eventfd :: int

record ri_producer =
  pr_owners :: u32
  pr_queue :: ri_producer_queue
  pr_shm :: nat
  pr_shm_offset :: u64
  pr_eventfd :: int
  pr_cache :: "nat option"

text \<open>
  An object that has been freed is \<open>None\<close> in its table. \<open>w_lost\<close> counts the mappings that no shared memory object refers to any
  more, so that nothing will undo them.
\<close>

record world =
  w_ok :: "nat \<Rightarrow> bool"
  w_errno :: "nat \<Rightarrow> nat"
  w_addr :: "nat \<Rightarrow> u64"
  w_calls :: nat
  w_files :: "kernel_file list"
  w_fds :: "(int \<times> nat) list"
  w_shms :: "ri_shm option list"
  w_consumers :: "ri_consumer option list"
  w_producers :: "ri_producer option list"
  w_caches :: "u8 list option list"
  w_lost :: nat

definition ask :: "world \<Rightarrow> bool \<times> world" where
  "ask w = (w_ok w (w_calls w), w\<lparr>w_calls := Suc (w_calls w)\<rparr>)"

text \<open>\<open>-errno\<close> after the last call.\<close>

definition neg_errno :: "world \<Rightarrow> int" where
  "neg_errno w = - int (Suc (w_errno w (w_calls w - 1)))"

text \<open>The kernel gives out the lowest descriptor that is not open.\<close>

definition fresh_fd :: "(int \<times> nat) list \<Rightarrow> int" where
  "fresh_fd fds = int (hd (filter (\<lambda>n. int n \<notin> fst ` set fds) [0..<Suc (length fds)]))"

definition open_file :: "kernel_file \<Rightarrow> world \<Rightarrow> int \<times> world" where
  "open_file f w = (let fd = fresh_fd (w_fds w) in
     (fd, w\<lparr>w_files := w_files w @ [f], w_fds := (fd, length (w_files w)) # w_fds w\<rparr>))"

text \<open>Closing a descriptor that is not open has no effect.\<close>

definition close_fd :: "int \<Rightarrow> world \<Rightarrow> world" where
  "close_fd fd w = w\<lparr>w_fds := AList.delete fd (w_fds w)\<rparr>"

definition file_of :: "int \<Rightarrow> world \<Rightarrow> (nat \<times> kernel_file) option" where
  "file_of fd w = (case map_of (w_fds w) fd of
      None \<Rightarrow> None
    | Some n \<Rightarrow> if n < length (w_files w) then Some (n, w_files w ! n) else None)"

lemma fresh_fd_fresh: "0 \<le> fresh_fd fds" "map_of fds (fresh_fd fds) = None"
proof -
  let ?free = "filter (\<lambda>n. int n \<notin> fst ` set fds) [0..<Suc (length fds)]"
  have "?free \<noteq> []"
  proof
    assume "?free = []"
    then have "int ` {0..<Suc (length fds)} \<subseteq> fst ` set fds" by (auto simp: filter_empty_conv simp del: upt_Suc)
    then have "card (int ` {0..<Suc (length fds)}) \<le> card (fst ` set fds)" by (intro card_mono) simp_all
    also have "\<dots> \<le> length fds" by (metis card_image_le card_length finite_set order_trans)
    finally show False by (simp add: card_image)
  qed
  then have "hd ?free \<in> set ?free" by (rule hd_in_set)
  then have "fresh_fd fds \<notin> fst ` set fds" by (simp add: fresh_fd_def del: upt_Suc)
  then show "map_of fds (fresh_fd fds) = None" by (simp add: map_of_eq_None_iff)
  show "0 \<le> fresh_fd fds" by (simp add: fresh_fd_def)
qed

lemma close_fd_map: "map_of (w_fds (close_fd fd w)) = (map_of (w_fds w))(fd := None)"
  by (simp add: close_fd_def delete_conv')

section \<open>Objects\<close>

definition live :: "'a option list \<Rightarrow> nat \<Rightarrow> 'a option" where
  "live objs i = (if i < length objs then objs ! i else None)"

lemma live_append: "live (xs @ [x]) i = (if i = length xs then x else live xs i)"
  by (simp add: live_def nth_append)

lemma live_update: "live (xs[i := x]) j = (if j = i \<and> i < length xs then x else live xs j)"
  by (simp add: live_def)

lemma live_Some_length: "live xs i = Some x \<Longrightarrow> i < length xs"
  by (auto simp: live_def split: if_splits)

section \<open>System calls\<close>

text \<open>
  \<open>src/unix.c\<close>. \<open>ri_shmfd_create\<close>: \<open>memfd_create\<close>, then \<open>shm_init\<close> with \<open>ftruncate\<close> and the
  seals; the file starts as zeros.
\<close>

definition zeros :: "nat \<Rightarrow> 'a::len word" where
  "zeros i = 0"

definition shm_init :: "int \<Rightarrow> u64 \<Rightarrow> bool \<Rightarrow> world \<Rightarrow> int \<times> world" where
  "shm_init fd sz sealing w =
     (let (ok, w) = ask w in
      if \<not> ok then (neg_errno w, w) else
      let w = (case file_of fd w of
          Some (n, Memfd _ words bytes) \<Rightarrow> w\<lparr>w_files := (w_files w)[n := Memfd sz words bytes]\<rparr>
        | _ \<Rightarrow> w) in
      if sealing then
        let (ok, w) = ask w in
        if \<not> ok then (neg_errno w, w) else (0, w)
      else (0, w))"

definition ri_shmfd_create :: "u64 \<Rightarrow> world \<Rightarrow> int \<times> world" where
  "ri_shmfd_create sz w =
     (let (ok, w) = ask w in
      if \<not> ok then (neg_errno w, w) else
      let (fd, w) = open_file (Memfd 0 zeros zeros) w; (r, w) = shm_init fd sz True w in
      if r < 0 then (r, close_fd fd w) else (fd, w))"

definition ri_eventfd_create :: "world \<Rightarrow> int \<times> world" where
  "ri_eventfd_create w =
     (let (ok, w) = ask w in
      if \<not> ok then (neg_errno w, w) else open_file (Eventfd 0 True) w)"

text \<open>
  The text of the link of a descriptor in \<open>/proc/self/fd\<close>, as the kernel documents it (the name
  given to a memory file, \<open>rtipc_<nr>\<close> in the code, does not matter below); \<open>readlink\<close> stores at
  most the 32 bytes of the buffer.
\<close>

fun link_text :: "kernel_file \<Rightarrow> string" where
  "link_text (Memfd _ _ _) = ''/memfd:rtipc_0 (deleted)''"
| "link_text (Eventfd _ _) = ''anon_inode:[eventfd]''"
| "link_text (Other_File s) = s"

definition link_matches :: "string \<Rightarrow> int \<Rightarrow> world \<Rightarrow> int" where
  "link_matches expected fd w =
     (case file_of fd w of
        None \<Rightarrow> -1
      | Some (_, f) \<Rightarrow>
          let link = take 32 (link_text f) in
          if length link < Suc (length expected) then -1
          else if take (length expected) link = expected then 0 else -1)"

definition ri_memfd_verify :: "int \<Rightarrow> world \<Rightarrow> int" where
  "ri_memfd_verify fd w = link_matches ''/memfd:'' fd w"

definition ri_eventfd_verify :: "int \<Rightarrow> world \<Rightarrow> int" where
  "ri_eventfd_verify fd w = link_matches ''anon_inode:[eventfd'' fd w"

definition ri_set_nonblocking :: "int \<Rightarrow> world \<Rightarrow> int \<times> world" where
  "ri_set_nonblocking fd w =
     (let (ok, w) = ask w in
      if \<not> ok then (neg_errno w, w)
      else (0, case file_of fd w of
          Some (n, Eventfd c _) \<Rightarrow> w\<lparr>w_files := (w_files w)[n := Eventfd c True]\<rparr>
        | _ \<Rightarrow> w))"

end
