(* ===== verification/Shm.thy ===== *)
theory Shm
  imports World
begin

text \<open>
  The shared memory object (\<open>src/shm.c\<close>): a mapping of a memory file, with a reference counter that
  the group and every queue placed in the memory hold. The descriptor belongs to the object and is closed with it.
\<close>

section \<open>Operations\<close>

text \<open>
  \<open>mmap\<close> needs a file that can be mapped; the address is the kernel's choice. When \<open>mlock\<close> fails the mapping stays.
\<close>

definition ri_shm_map :: "int \<Rightarrow> world \<Rightarrow> nat option \<times> world" where
  "ri_shm_map fd w =
     (let (ok, w) = ask w in
      if \<not> ok then (None, w) else
      let (ok, w) = ask w in
      case (ok, file_of fd w) of
        (True, Some (n, Memfd sz words bytes)) \<Rightarrow>
          let (ok, w) = ask w in
          if \<not> ok then (None, w) else
          let addr = w_addr w (w_calls w - 1); (ok, w) = ask w in
          if \<not> ok then (None, w\<lparr>w_lost := Suc (w_lost w)\<rparr>) else
          (Some (length (w_shms w)),
           w\<lparr>w_shms := w_shms w @ [Some \<lparr>s_ref_cnt = 1, s_mem = addr, s_size = sz, s_fd = fd, s_file = n\<rparr>]\<rparr>)
      | _ \<Rightarrow> (None, w))"

definition shm_delete :: "nat \<Rightarrow> ri_shm \<Rightarrow> world \<Rightarrow> world" where
  "shm_delete i shm w = close_fd (s_fd shm) (w\<lparr>w_shms := (w_shms w)[i := None]\<rparr>)"

definition ri_shm_ref :: "nat \<Rightarrow> world \<Rightarrow> world option" where
  "ri_shm_ref i w = map_option
     (\<lambda>shm. w\<lparr>w_shms := (w_shms w)[i := Some (shm\<lparr>s_ref_cnt := s_ref_cnt shm + 1\<rparr>)]\<rparr>)
     (live (w_shms w) i)"

text \<open>The counter before the subtraction decides.\<close>

definition ri_shm_unref :: "nat \<Rightarrow> world \<Rightarrow> world option" where
  "ri_shm_unref i w = map_option
     (\<lambda>shm. let cnt = s_ref_cnt shm; shm = shm\<lparr>s_ref_cnt := cnt - 1\<rparr> in
       if cnt = 1 then shm_delete i shm w
       else w\<lparr>w_shms := (w_shms w)[i := Some shm]\<rparr>)
     (live (w_shms w) i)"

text \<open>The address at an offset, \<open>None\<close> for \<open>NULL\<close>.\<close>

definition ri_shm_ptr :: "ri_shm \<Rightarrow> u64 \<Rightarrow> u64 option" where
  "ri_shm_ptr shm offset = (if offset \<ge> s_size shm then None else Some (mem_offset (s_mem shm) offset))"

definition ri_shm_size :: "ri_shm \<Rightarrow> u64" where
  "ri_shm_size shm = s_size shm"

definition ri_shm_get_fd :: "ri_shm \<Rightarrow> int" where
  "ri_shm_get_fd shm = s_fd shm"

section \<open>Counting references\<close>

lemma shm_ref_live:
  assumes "live (w_shms w) i = Some shm"
  shows "\<exists>w'. ri_shm_ref i w = Some w' \<and> live (w_shms w') i = Some (shm\<lparr>s_ref_cnt := s_ref_cnt shm + 1\<rparr>)"
  using assms live_Some_length [OF assms] by (simp add: ri_shm_ref_def live_update)

text \<open>\<open>n\<close> references given back one after the other.\<close>

fun unref_times :: "nat \<Rightarrow> nat \<Rightarrow> world \<Rightarrow> world option" where
  "unref_times 0 i w = Some w"
| "unref_times (Suc n) i w = do { w \<leftarrow> ri_shm_unref i w; unref_times n i w }"

lemma unref_times_eq:
  assumes "live (w_shms w) i = Some shm" and "s_ref_cnt shm = int (Suc n)" and "k \<le> n"
  shows "\<exists>u. unref_times k i w = Some u \<and> live (w_shms u) i = Some (shm\<lparr>s_ref_cnt := int (Suc n - k)\<rparr>) \<and>
    w_fds u = w_fds w"
  using assms
proof (induction k arbitrary: w shm n)
  case 0
  then have "shm\<lparr>s_ref_cnt := int (Suc n - 0)\<rparr> = shm" by simp
  then show ?case using 0 by simp
next
  case (Suc k)
  then obtain m where n: "n = Suc m" "k \<le> m" by (cases n) auto
  let ?s = "shm\<lparr>s_ref_cnt := int (Suc m)\<rparr>" and ?w = "w\<lparr>w_shms := (w_shms w)[i := Some (shm\<lparr>s_ref_cnt := int (Suc m)\<rparr>)]\<rparr>"
  have u: "ri_shm_unref i w = Some ?w"
    using Suc.prems n by (simp add: ri_shm_unref_def Let_def)
  have l: "live (w_shms ?w) i = Some ?s"
    using live_Some_length [OF Suc.prems(1)] by (simp add: live_update)
  obtain v where "unref_times k i ?w = Some v" "live (w_shms v) i = Some (?s\<lparr>s_ref_cnt := int (Suc m - k)\<rparr>)"
    "w_fds v = w_fds ?w"
    using Suc.IH [OF l _ n(2)] by auto
  then show ?case using u n by simp
qed

text \<open>
  C23. A mapping with \<open>n\<close> references besides the one of its creator survives \<open>n\<close> releases; the next one
  unmaps it and closes its descriptor, and one more would be a use after free.
\<close>

theorem shm_freed_by_last_reference:
  assumes "live (w_shms w) i = Some shm" and "s_ref_cnt shm = int (Suc n)"
  shows "\<exists>u v. unref_times n i w = Some u \<and> live (w_shms u) i = Some (shm\<lparr>s_ref_cnt := 1\<rparr>) \<and>
    w_fds u = w_fds w \<and>
    ri_shm_unref i u = Some v \<and> live (w_shms v) i = None \<and>
    map_of (w_fds v) = (map_of (w_fds w))(s_fd shm := None) \<and> ri_shm_unref i v = None"
proof -
  obtain u where u: "unref_times n i w = Some u" "live (w_shms u) i = Some (shm\<lparr>s_ref_cnt := 1\<rparr>)"
    "w_fds u = w_fds w"
    using unref_times_eq [OF assms order_refl] by auto
  let ?v = "close_fd (s_fd shm) (u\<lparr>w_shms := (w_shms u)[i := None]\<rparr>)"
  have v: "ri_shm_unref i u = Some ?v" using u(2) by (simp add: ri_shm_unref_def shm_delete_def)
  have "live ((w_shms u)[i := None]) i = None" by (simp add: live_def)
  then have l: "live (w_shms ?v) i = None" by (simp add: close_fd_def)
  moreover from l have "ri_shm_unref i ?v = None" by (simp add: ri_shm_unref_def)
  ultimately show ?thesis using u v by (intro exI [of _ u] exI [of _ ?v]) (simp add: close_fd_map)
qed

definition empty_world :: world where
  "empty_world = \<lparr>w_ok = (\<lambda>_. True), w_errno = (\<lambda>_. 0), w_addr = (\<lambda>_. 4096), w_calls = 0, w_files = [],
     w_fds = [], w_shms = [], w_consumers = [], w_producers = [], w_caches = [], w_lost = 0\<rparr>"

definition mapped_world :: world where
  "mapped_world = (let (fd, w) = ri_shmfd_create 1024 empty_world; (i, w) = ri_shm_map fd w in
     the (ri_shm_ref 0 (the (ri_shm_ref 0 w))))"

theorem shm_freed_by_last_reference_witness:
  "\<exists>u v. unref_times 2 0 mapped_world = Some u \<and> w_fds u = [(0, 0)] \<and>
     ri_shm_unref 0 u = Some v \<and> map_of (w_fds v) = Map.empty \<and> ri_shm_unref 0 v = None"
proof -
  let ?s = "\<lparr>s_ref_cnt = 3, s_mem = 4096, s_size = 1024, s_fd = 0, s_file = 0\<rparr>"
  have l: "live (w_shms mapped_world) 0 = Some ?s" by code_simp
  have f: "w_fds mapped_world = [(0, 0)]" by code_simp
  from shm_freed_by_last_reference [OF l, of 2] show ?thesis by (simp add: f) (metis fun_upd_upd map_of.simps(1) fun_upd_idem_iff)
qed

end
