(* ===== verification/Channel.thy ===== *)
theory Channel
  imports Shm
begin

text \<open>
  Channels (\<open>src/channel.c\<close>): a queue in shared memory with an optional eventfd, owned by the
  group and by the user that acquired it; the producer may have a cache, a private copy of the message
  it is writing. The queue operations are the programs of theories \<open>Producer\<close> and \<open>Consumer\<close>; here they
  run without interference on the words of the mapped file (the interleavings are the subject of theory
  \<open>Concurrency\<close>).
\<close>

section \<open>Queue words in a memory file\<close>

text \<open>
  The words of a queue of \<open>n\<close> slots at an offset of the file: tail, head, chain. The chain ends with
  the mapping, so that an entry behind it is an access outside the chain.
\<close>

definition queue_words :: "(nat \<Rightarrow> u32) \<Rightarrow> u64 \<Rightarrow> u64 \<Rightarrow> u32 \<Rightarrow> shared" where
  "queue_words words sz offset n = (let b = unat offset div 4 in
     \<lparr>sh_tail = words b, sh_head = words (b + 1),
      sh_chain = map (\<lambda>i. words (b + 2 + i)) [0..<min (unat n) (unat sz div 4 - (b + 2))]\<rparr>)"

definition store_words :: "shared \<Rightarrow> u64 \<Rightarrow> (nat \<Rightarrow> u32) \<Rightarrow> nat \<Rightarrow> u32" where
  "store_words sh offset words i = (let b = unat offset div 4 in
     if i = b then sh_tail sh else if i = b + 1 then sh_head sh
     else if b + 2 \<le> i \<and> i < b + 2 + length (sh_chain sh) then sh_chain sh ! (i - (b + 2))
     else words i)"

text \<open>Running \<open>f\<close> on the words of the queue at \<open>offset\<close> of shared memory object \<open>i\<close>.\<close>

definition on_words ::
    "nat \<Rightarrow> u64 \<Rightarrow> u32 \<Rightarrow> (shared \<Rightarrow> (shared \<times> 'r) option) \<Rightarrow> world \<Rightarrow> ('r \<times> world) option" where
  "on_words i offset n f w = do {
     shm \<leftarrow> live (w_shms w) i;
     (case w_files w ! s_file shm of
        Memfd sz words bytes \<Rightarrow>
          if unat offset + 8 \<le> unat (s_size shm) then do {
            (sh, r) \<leftarrow> f (queue_words words (s_size shm) offset n);
            Some (r, w\<lparr>w_files := (w_files w)[s_file shm := Memfd sz (store_words sh offset words) bytes]\<rparr>)
          } else None
      | _ \<Rightarrow> None)
   }"

text \<open>A program that ends at once needs no memory.\<close>

definition run_on :: "nat \<Rightarrow> u64 \<Rightarrow> u32 \<Rightarrow> 'r prog \<Rightarrow> world \<Rightarrow> ('r \<times> world) option" where
  "run_on i offset n p w = (case p of Ret r \<Rightarrow> Some (r, w) | _ \<Rightarrow> on_words i offset n (run p) w)"

section \<open>Creation\<close>

definition RI_OWNER_GROUP_FLAG :: u32 where
  "RI_OWNER_GROUP_FLAG = 0x1"

definition RI_OWNER_USER_FLAG :: u32 where
  "RI_OWNER_USER_FLAG = 0x2"

text \<open>\<open>ri_calc_shm_size\<close>: consumers first, then producers.\<close>

definition shm_sizes :: "u64 \<Rightarrow> ri_channel_attr list \<Rightarrow> u64" where
  "shm_sizes cls as = sum_list (map (ri_channel_shm_size cls) as)"

definition ri_calc_shm_size ::
    "u64 \<Rightarrow> ri_channel_attr list option \<Rightarrow> ri_channel_attr list option \<Rightarrow> u64 outcome" where
  "ri_calc_shm_size cls consumers producers =
     and_then (ri_count_channels consumers) (\<lambda>n_consumers.
     and_then (ri_count_channels producers) (\<lambda>n_producers.
     Returns (shm_sizes cls (take (unat n_consumers) (case consumers of None \<Rightarrow> [] | Some as \<Rightarrow> as)) +
       shm_sizes cls (take (unat n_producers) (case producers of None \<Rightarrow> [] | Some as \<Rightarrow> as)))))"

definition ri_consumer_map ::
    "u64 \<Rightarrow> ri_channel_attr \<Rightarrow> int \<Rightarrow> nat \<Rightarrow> u64 \<Rightarrow> world \<Rightarrow> (nat option \<times> world) option" where
  "ri_consumer_map cls attr eventfd i shm_offset w =
     (let (ok, w) = ask w in
      if \<not> ok then Some (None, w) else
      let (ok, w) = ask w in do {
        shm \<leftarrow> live (w_shms w) i;
        (case ri_consumer_queue_new cls ok (ri_shm_ptr shm shm_offset) attr of
           None \<Rightarrow> Some (None, w)
         | Some queue \<Rightarrow> do {
             w \<leftarrow> ri_shm_ref i w;
             let consumer = \<lparr>cn_owners = RI_OWNER_GROUP_FLAG, cn_queue = queue, cn_shm = i,
                  cn_shm_offset = shm_offset, cn_eventfd = (if a_eventfd attr then eventfd else -1)\<rparr>;
             Some (Some (length (w_consumers w)), w\<lparr>w_consumers := w_consumers w @ [Some consumer]\<rparr>)
           })
      })"

text \<open>
  The private chain of the new producer is allocated without being initialised; every entry of
  it is written before it is read.
\<close>

definition ri_producer_map ::
    "u64 \<Rightarrow> ri_channel_attr \<Rightarrow> int \<Rightarrow> nat \<Rightarrow> u64 \<Rightarrow> world \<Rightarrow> (nat option \<times> world) option" where
  "ri_producer_map cls attr eventfd i shm_offset w =
     (let (ok, w) = ask w in
      if \<not> ok then Some (None, w) else
      let (ok, w) = ask w in do {
        shm \<leftarrow> live (w_shms w) i;
        (res, w) \<leftarrow> run_on i shm_offset (ri_channel_queue_len attr)
           (ri_producer_queue_new cls ok zeros (ri_shm_ptr shm shm_offset) attr) w;
        (case res of
           None \<Rightarrow> Some (None, w)
         | Some queue \<Rightarrow> do {
             w \<leftarrow> ri_shm_ref i w;
             let producer = \<lparr>pr_owners = RI_OWNER_GROUP_FLAG, pr_queue = queue, pr_shm = i,
                  pr_shm_offset = shm_offset, pr_eventfd = (if a_eventfd attr then eventfd else -1),
                  pr_cache = None\<rparr>;
             Some (Some (length (w_producers w)), w\<lparr>w_producers := w_producers w @ [Some producer]\<rparr>)
           })
      })"

text \<open>\<open>ri_consumer_new\<close>, \<open>ri_producer_new\<close>: the owner of the memory creates the eventfd and resets the words.\<close>

definition create_eventfd :: "ri_channel_attr \<Rightarrow> world \<Rightarrow> int option \<times> world" where
  "create_eventfd attr w =
     (if a_eventfd attr then
        let (fd, w) = ri_eventfd_create w in if fd < 0 then (None, w) else (Some fd, w)
      else (Some (-1), w))"

definition ri_consumer_new ::
    "u64 \<Rightarrow> ri_channel_attr \<Rightarrow> nat \<Rightarrow> u64 \<Rightarrow> world \<Rightarrow> (nat option \<times> world) option" where
  "ri_consumer_new cls attr i shm_offset w =
     (case create_eventfd attr w of
        (None, w) \<Rightarrow> Some (None, w)
      | (Some eventfd, w) \<Rightarrow> do {
          (res, w) \<leftarrow> ri_consumer_map cls attr eventfd i shm_offset w;
          (case res of
             None \<Rightarrow> Some (None, if eventfd \<ge> 0 then close_fd eventfd w else w)
           | Some c \<Rightarrow> do {
               (_, w) \<leftarrow> on_words i shm_offset (ri_channel_queue_len attr)
                  (\<lambda>sh. Some (ri_consumer_queue_init_shm sh, ())) w;
               Some (Some c, w)
             })
        })"

definition ri_producer_new ::
    "u64 \<Rightarrow> ri_channel_attr \<Rightarrow> nat \<Rightarrow> u64 \<Rightarrow> world \<Rightarrow> (nat option \<times> world) option" where
  "ri_producer_new cls attr i shm_offset w =
     (case create_eventfd attr w of
        (None, w) \<Rightarrow> Some (None, w)
      | (Some eventfd, w) \<Rightarrow> do {
          (res, w) \<leftarrow> ri_producer_map cls attr eventfd i shm_offset w;
          (case res of
             None \<Rightarrow> Some (None, if eventfd \<ge> 0 then close_fd eventfd w else w)
           | Some p \<Rightarrow> do {
               (_, w) \<leftarrow> on_words i shm_offset (ri_channel_queue_len attr)
                  (\<lambda>sh. Some (ri_producer_queue_init_shm sh, ())) w;
               Some (Some p, w)
             })
        })"

section \<open>Ownership\<close>

text \<open>Deleting a queue gives its reference to the memory back; \<open>i\<close> is the memory object.\<close>

definition ri_consumer_queue_delete :: "nat \<Rightarrow> world \<Rightarrow> world option" where
  "ri_consumer_queue_delete i w = ri_shm_unref i w"

definition ri_producer_queue_delete :: "nat \<Rightarrow> world \<Rightarrow> world option" where
  "ri_producer_queue_delete i w = ri_shm_unref i w"

declare ri_consumer_queue_delete_def [simp] ri_producer_queue_delete_def [simp]

definition ri_consumer_delete :: "nat \<Rightarrow> ri_consumer \<Rightarrow> world \<Rightarrow> world option" where
  "ri_consumer_delete i consumer w = do {
     w \<leftarrow> ri_consumer_queue_delete (cn_shm consumer) w;
     let w = (if cn_eventfd consumer \<ge> 0 then close_fd (cn_eventfd consumer) w else w);
     Some (w\<lparr>w_consumers := (w_consumers w)[i := None]\<rparr>)
   }"

definition ri_producer_delete :: "nat \<Rightarrow> ri_producer \<Rightarrow> world \<Rightarrow> world option" where
  "ri_producer_delete i producer w = do {
     w \<leftarrow> ri_producer_queue_delete (pr_shm producer) w;
     let w = (if pr_eventfd producer \<ge> 0 then close_fd (pr_eventfd producer) w else w);
     Some (w\<lparr>w_producers := (w_producers w)[i := None]\<rparr>)
   }"

text \<open>An atomic update of the owners of a channel: the old value and the new world.\<close>

definition consumer_owners :: "(u32 \<Rightarrow> u32) \<Rightarrow> nat \<Rightarrow> world \<Rightarrow> (ri_consumer \<times> world) option" where
  "consumer_owners f i w = do {
     consumer \<leftarrow> live (w_consumers w) i;
     Some (consumer, w\<lparr>w_consumers := (w_consumers w)[i := Some (consumer\<lparr>cn_owners := f (cn_owners consumer)\<rparr>)]\<rparr>)
   }"

definition producer_owners :: "(u32 \<Rightarrow> u32) \<Rightarrow> nat \<Rightarrow> world \<Rightarrow> (ri_producer \<times> world) option" where
  "producer_owners f i w = do {
     producer \<leftarrow> live (w_producers w) i;
     Some (producer, w\<lparr>w_producers := (w_producers w)[i := Some (producer\<lparr>pr_owners := f (pr_owners producer)\<rparr>)]\<rparr>)
   }"

definition ri_consumer_acquire :: "nat \<Rightarrow> world \<Rightarrow> (int \<times> world) option" where
  "ri_consumer_acquire i w = do {
     (old, w) \<leftarrow> consumer_owners (\<lambda>owners. owners OR RI_OWNER_USER_FLAG) i w;
     Some (if flagged (cn_owners old) RI_OWNER_USER_FLAG then -1 else 0, w)
   }"

definition ri_consumer_release :: "nat \<Rightarrow> world \<Rightarrow> world option" where
  "ri_consumer_release i w = do {
     (old, w) \<leftarrow> consumer_owners (\<lambda>owners. owners AND RI_OWNER_GROUP_FLAG) i w;
     if \<not> flagged (cn_owners old) RI_OWNER_GROUP_FLAG then ri_consumer_delete i old w else Some w
   }"

definition ri_group_release_consumer :: "nat \<Rightarrow> world \<Rightarrow> world option" where
  "ri_group_release_consumer i w = do {
     (old, w) \<leftarrow> consumer_owners (\<lambda>owners. owners AND RI_OWNER_USER_FLAG) i w;
     if \<not> flagged (cn_owners old) RI_OWNER_USER_FLAG then ri_consumer_delete i old w else Some w
   }"

definition ri_producer_acquire :: "nat \<Rightarrow> world \<Rightarrow> (int \<times> world) option" where
  "ri_producer_acquire i w = do {
     (old, w) \<leftarrow> producer_owners (\<lambda>owners. owners OR RI_OWNER_USER_FLAG) i w;
     Some (if flagged (pr_owners old) RI_OWNER_USER_FLAG then -1 else 0, w)
   }"

definition ri_producer_release :: "nat \<Rightarrow> world \<Rightarrow> world option" where
  "ri_producer_release i w = do {
     (old, w) \<leftarrow> producer_owners (\<lambda>owners. owners AND RI_OWNER_GROUP_FLAG) i w;
     if \<not> flagged (pr_owners old) RI_OWNER_GROUP_FLAG then ri_producer_delete i old w else Some w
   }"

definition ri_group_release_producer :: "nat \<Rightarrow> world \<Rightarrow> world option" where
  "ri_group_release_producer i w = do {
     (old, w) \<leftarrow> producer_owners (\<lambda>owners. owners AND RI_OWNER_USER_FLAG) i w;
     if \<not> flagged (pr_owners old) RI_OWNER_USER_FLAG then ri_producer_delete i old w else Some w
   }"

end
