(* ===== verification/Channel_Ops.thy ===== *)
theory Channel_Ops
  imports Channel
begin

text \<open>
  What a user does with an acquired channel (\<open>src/channel.c\<close>): messages, queries, the eventfd, pop, flush and
  push, the cache. An eventfd is read and written as a semaphore; reading one that is empty and blocking does
  not return, which is \<open>None\<close> here as well.
\<close>

section \<open>Eventfds\<close>

definition eventfd_read :: "int \<Rightarrow> world \<Rightarrow> (int \<times> world) option" where
  "eventfd_read fd w =
     (case file_of fd w of
        Some (n, Eventfd c nonblocking) \<Rightarrow>
          if c > 0 then Some (8, w\<lparr>w_files := (w_files w)[n := Eventfd (c - 1) nonblocking]\<rparr>)
          else if nonblocking then Some (-1, w) else None
      | _ \<Rightarrow> Some (-1, w))"

text \<open>Writing 1; a full counter leaves the call without effect, and its result is not looked at.\<close>

definition eventfd_write :: "int \<Rightarrow> world \<Rightarrow> world option" where
  "eventfd_write fd w =
     (case file_of fd w of
        Some (n, Eventfd c nonblocking) \<Rightarrow>
          if c + 1 < 2 ^ 64 - 1 then Some (w\<lparr>w_files := (w_files w)[n := Eventfd (c + 1) nonblocking]\<rparr>)
          else if nonblocking then Some w else None
      | _ \<Rightarrow> Some w)"

definition ri_consumer_eventfd :: "ri_consumer \<Rightarrow> int" where
  "ri_consumer_eventfd consumer = cn_eventfd consumer"

definition ri_producer_eventfd :: "ri_producer \<Rightarrow> int" where
  "ri_producer_eventfd producer = pr_eventfd producer"

definition ri_consumer_take_eventfd :: "nat \<Rightarrow> world \<Rightarrow> (int \<times> world) option" where
  "ri_consumer_take_eventfd i w = do {
     consumer \<leftarrow> live (w_consumers w) i;
     Some (cn_eventfd consumer, w\<lparr>w_consumers := (w_consumers w)[i := Some (consumer\<lparr>cn_eventfd := -1\<rparr>)]\<rparr>)
   }"

definition ri_producer_take_eventfd :: "nat \<Rightarrow> world \<Rightarrow> (int \<times> world) option" where
  "ri_producer_take_eventfd i w = do {
     producer \<leftarrow> live (w_producers w) i;
     Some (pr_eventfd producer, w\<lparr>w_producers := (w_producers w)[i := Some (producer\<lparr>pr_eventfd := -1\<rparr>)]\<rparr>)
   }"

section \<open>Queries\<close>

definition ri_consumer_msg :: "ri_consumer \<Rightarrow> u64 option" where
  "ri_consumer_msg consumer = ri_consumer_queue_msg (cn_queue consumer)"

datatype message_ptr = In_Cache nat | In_Queue "u64 option"

definition ri_producer_msg :: "ri_producer \<Rightarrow> message_ptr" where
  "ri_producer_msg producer =
     (case pr_cache producer of
        Some c \<Rightarrow> In_Cache c
      | None \<Rightarrow> In_Queue (ri_producer_queue_msg (pr_queue producer)))"

definition ri_consumer_count_msgs :: "ri_consumer \<Rightarrow> world \<Rightarrow> (int \<times> world) option" where
  "ri_consumer_count_msgs consumer w = run_on (cn_shm consumer) (cn_shm_offset consumer)
     (q_n_msgs (c_queue (cn_queue consumer))) (ri_consumer_queue_count_msgs (cn_queue consumer)) w"

definition ri_producer_count_msgs :: "ri_producer \<Rightarrow> world \<Rightarrow> (int \<times> world) option" where
  "ri_producer_count_msgs producer w = run_on (pr_shm producer) (pr_shm_offset producer)
     (q_n_msgs (p_queue (pr_queue producer))) (ri_producer_queue_count_msgs (pr_queue producer)) w"

definition ri_consumer_len :: "ri_consumer \<Rightarrow> u32" where
  "ri_consumer_len consumer = ri_consumer_queue_len (cn_queue consumer)"

definition ri_producer_len :: "ri_producer \<Rightarrow> u32" where
  "ri_producer_len producer = ri_producer_queue_len (pr_queue producer)"

definition ri_consumer_msg_size :: "ri_consumer \<Rightarrow> u64" where
  "ri_consumer_msg_size consumer = ri_consumer_queue_msg_size (cn_queue consumer)"

definition ri_producer_msg_size :: "ri_producer \<Rightarrow> u64" where
  "ri_producer_msg_size producer = ri_producer_queue_msg_size (pr_queue producer)"

definition ri_consumer_shm_offset :: "ri_consumer \<Rightarrow> u64" where
  "ri_consumer_shm_offset consumer = cn_shm_offset consumer"

definition ri_prdoucer_shm_offset :: "ri_producer \<Rightarrow> u64" where
  "ri_prdoucer_shm_offset producer = pr_shm_offset producer"

section \<open>Popping and flushing\<close>

text \<open>An operation of the queue of consumer \<open>i\<close> that updates the private structure.\<close>

definition consumer_queue_op ::
    "nat \<Rightarrow> ri_consumer \<Rightarrow> (shared \<Rightarrow> (shared \<times> ri_consumer_queue \<times> 'r) option) \<Rightarrow> world
       \<Rightarrow> ('r \<times> world) option" where
  "consumer_queue_op i consumer f w = do {
     ((queue, r), w) \<leftarrow> on_words (cn_shm consumer) (cn_shm_offset consumer)
        (q_n_msgs (c_queue (cn_queue consumer))) f w;
     Some (r, w\<lparr>w_consumers := (w_consumers w)[i := Some (consumer\<lparr>cn_queue := queue\<rparr>)]\<rparr>)
   }"

definition ri_consumer_pop :: "nat \<Rightarrow> world \<Rightarrow> (ri_pop_result \<times> world) option" where
  "ri_consumer_pop i w = do {
     consumer \<leftarrow> live (w_consumers w) i;
     (r, w) \<leftarrow> (if cn_eventfd consumer \<ge> 0 then eventfd_read (cn_eventfd consumer) w else Some (0, w));
     if cn_eventfd consumer \<ge> 0 \<and> r < 0 then
       Some (if ri_consumer_queue_msg (cn_queue consumer) \<noteq> None
             then RI_POP_RESULT_NO_UPDATE else RI_POP_RESULT_NO_MSG, w)
     else consumer_queue_op i consumer (run (ri_consumer_queue_pop (cn_queue consumer))) w
   }"

text \<open>The loop of the flush of a channel with an eventfd.\<close>

partial_function (option) pop_all :: "nat \<Rightarrow> world \<Rightarrow> (ri_pop_result \<times> world) option" where
  "pop_all i w = do {
     (r, w) \<leftarrow> ri_consumer_pop i w;
     if r = RI_POP_RESULT_SUCCESS then pop_all i w else Some (r, w)
   }"

text \<open>Without interference the queue's flush needs one round (\<open>flush_one_round\<close>).\<close>

definition ri_consumer_flush :: "nat \<Rightarrow> world \<Rightarrow> (ri_pop_result \<times> world) option" where
  "ri_consumer_flush i w = do {
     consumer \<leftarrow> live (w_consumers w) i;
     if cn_eventfd consumer \<ge> 0 then pop_all i w
     else consumer_queue_op i consumer (flush_loop 1 (cn_queue consumer)) w
   }"

section \<open>Pushing\<close>

definition producer_queue_op ::
    "nat \<Rightarrow> ri_producer \<Rightarrow> (shared \<Rightarrow> (shared \<times> ri_producer_queue \<times> 'r) option) \<Rightarrow> world
       \<Rightarrow> ('r \<times> world) option" where
  "producer_queue_op i producer f w = do {
     ((queue, r), w) \<leftarrow> on_words (pr_shm producer) (pr_shm_offset producer)
        (q_n_msgs (p_queue (pr_queue producer))) f w;
     Some (r, w\<lparr>w_producers := (w_producers w)[i := Some (producer\<lparr>pr_queue := queue\<rparr>)]\<rparr>)
   }"

text \<open>The bytes at an address of the mapping of \<open>producer\<close>, and overwriting them.\<close>

definition load_msg :: "ri_producer \<Rightarrow> u64 option \<Rightarrow> nat \<Rightarrow> world \<Rightarrow> u8 list option" where
  "load_msg producer msg len w = do {
     addr \<leftarrow> msg;
     shm \<leftarrow> live (w_shms w) (pr_shm producer);
     (case w_files w ! s_file shm of
        Memfd sz words bytes \<Rightarrow>
          (let off = unat (addr - s_mem shm) in
           if off + len \<le> unat (s_size shm) then Some (map bytes [off..<off + len]) else None)
      | _ \<Rightarrow> None)
   }"

definition store_msg :: "ri_producer \<Rightarrow> u64 option \<Rightarrow> u8 list \<Rightarrow> world \<Rightarrow> world option" where
  "store_msg producer msg src w = do {
     addr \<leftarrow> msg;
     shm \<leftarrow> live (w_shms w) (pr_shm producer);
     (case w_files w ! s_file shm of
        Memfd sz words bytes \<Rightarrow>
          (let off = unat (addr - s_mem shm) in
           if off + length src \<le> unat (s_size shm) then
             Some (w\<lparr>w_files := (w_files w)[s_file shm := Memfd sz words
               (\<lambda>k. if off \<le> k \<and> k < off + length src then src ! (k - off) else bytes k)]\<rparr>)
           else None)
      | _ \<Rightarrow> None)
   }"

text \<open>\<open>memcpy\<close> of the first \<open>msg_size\<close> bytes of the cache into the current message.\<close>

definition producer_cache_write :: "ri_producer \<Rightarrow> nat \<Rightarrow> world \<Rightarrow> world option" where
  "producer_cache_write producer c w = do {
     cache \<leftarrow> live (w_caches w) c;
     let msg_size = unat (ri_producer_queue_msg_size (pr_queue producer));
     if msg_size \<le> length cache
     then store_msg producer (ri_producer_queue_msg (pr_queue producer)) (take msg_size cache) w
     else None
   }"

definition ri_producer_force_push :: "nat \<Rightarrow> world \<Rightarrow> (ri_force_push_result \<times> world) option" where
  "ri_producer_force_push i w = do {
     producer \<leftarrow> live (w_producers w) i;
     w \<leftarrow> (case pr_cache producer of Some c \<Rightarrow> producer_cache_write producer c w | None \<Rightarrow> Some w);
     (r, w) \<leftarrow> producer_queue_op i producer (run (ri_producer_queue_force_push (pr_queue producer))) w;
     w \<leftarrow> (if pr_eventfd producer \<ge> 0 \<and> r = RI_FORCE_PUSH_RESULT_SUCCESS
           then eventfd_write (pr_eventfd producer) w else Some w);
     Some (r, w)
   }"

definition ri_producer_try_push :: "nat \<Rightarrow> world \<Rightarrow> (ri_try_push_result \<times> world) option" where
  "ri_producer_try_push i w = do {
     producer \<leftarrow> live (w_producers w) i;
     (full, w) \<leftarrow> (case pr_cache producer of
         Some c \<Rightarrow> run_on (pr_shm producer) (pr_shm_offset producer) (q_n_msgs (p_queue (pr_queue producer)))
           (ri_producer_queue_full (pr_queue producer)) w
       | None \<Rightarrow> Some (False, w));
     if full then Some (RI_TRY_PUSH_RESULT_FAIL, w) else do {
       w \<leftarrow> (case pr_cache producer of Some c \<Rightarrow> producer_cache_write producer c w | None \<Rightarrow> Some w);
       (r, w) \<leftarrow> producer_queue_op i producer (run (ri_producer_queue_try_push (pr_queue producer))) w;
       w \<leftarrow> (if pr_eventfd producer \<ge> 0 \<and> r = RI_TRY_PUSH_RESULT_SUCCESS
             then eventfd_write (pr_eventfd producer) w else Some w);
       Some (r, w)
     }
   }"

section \<open>The cache\<close>

definition ri_producer_cache_enable :: "nat \<Rightarrow> world \<Rightarrow> (int \<times> world) option" where
  "ri_producer_cache_enable i w = do {
     producer \<leftarrow> live (w_producers w) i;
     (case pr_cache producer of
        Some c \<Rightarrow> Some (0, w)
      | None \<Rightarrow>
          let msg_size = ri_producer_queue_msg_size (pr_queue producer); (ok, w) = ask w in
          if \<not> ok then Some (- ENOMEM, w) else do {
            cache \<leftarrow> load_msg producer (ri_producer_queue_msg (pr_queue producer)) (unat msg_size) w;
            Some (0, w\<lparr>w_caches := w_caches w @ [Some cache],
              w_producers := (w_producers w)[i := Some (producer\<lparr>pr_cache := Some (length (w_caches w))\<rparr>)]\<rparr>)
          })
   }"

definition ri_producer_cache_disable :: "nat \<Rightarrow> world \<Rightarrow> world option" where
  "ri_producer_cache_disable i w = do {
     producer \<leftarrow> live (w_producers w) i;
     (case pr_cache producer of
        None \<Rightarrow> Some w
      | Some c \<Rightarrow> do {
          w \<leftarrow> producer_cache_write producer c w;
          Some (w\<lparr>w_caches := (w_caches w)[c := None],
            w_producers := (w_producers w)[i := Some (producer\<lparr>pr_cache := None\<rparr>)]\<rparr>)
        })
   }"

end
