(* ===== verification/Ownership.thy ===== *)
theory Ownership
  imports Channel
begin

text \<open>
  Who frees a channel. The group and the user each have a flag in \<open>owners\<close>; all three operations on it are single
  atomic accesses, so every interleaving of the two owners is a sequence of them. The locale
  \<open>owned\<close> is the contract of the operations, for consumers and producers alike; the protocol of the
  owners is proved once in it.
\<close>

section \<open>The protocol\<close>

datatype owner_event = Acquire | User_Release | Group_Release

text \<open>
  \<open>u\<close>, \<open>g\<close>: user and group own the channel. The user releases what it has acquired, through a group
  that still exists; the group is deleted once.
\<close>

fun protocol :: "bool \<Rightarrow> bool \<Rightarrow> owner_event list \<Rightarrow> bool" where
  "protocol u g [] = True"
| "protocol u g (Acquire # es) = (g \<and> protocol True g es)"
| "protocol u g (User_Release # es) = (u \<and> protocol False g es)"
| "protocol u g (Group_Release # es) = (g \<and> protocol u False es)"

fun owners_after :: "bool \<Rightarrow> bool \<Rightarrow> owner_event list \<Rightarrow> bool \<times> bool" where
  "owners_after u g [] = (u, g)"
| "owners_after u g (Acquire # es) = owners_after True g es"
| "owners_after u g (User_Release # es) = owners_after False g es"
| "owners_after u g (Group_Release # es) = owners_after u False es"

text \<open>An acquisition succeeds (0) when the user does not own the channel already.\<close>

fun acquire_results :: "bool \<Rightarrow> owner_event list \<Rightarrow> int list" where
  "acquire_results u [] = []"
| "acquire_results u (Acquire # es) = (if u then -1 else 0) # acquire_results True es"
| "acquire_results u (User_Release # es) = acquire_results False es"
| "acquire_results u (Group_Release # es) = acquire_results u es"

text \<open>The events carried out by the operations of the channel; the results of the acquisitions.\<close>

fun play :: "(nat \<Rightarrow> world \<Rightarrow> (int \<times> world) option) \<Rightarrow> (nat \<Rightarrow> world \<Rightarrow> world option)
    \<Rightarrow> (nat \<Rightarrow> world \<Rightarrow> world option) \<Rightarrow> owner_event list \<Rightarrow> nat \<Rightarrow> world \<Rightarrow> (int list \<times> world) option" where
  "play acq rel grel [] i w = Some ([], w)"
| "play acq rel grel (Acquire # es) i w = do {
     (r, w) \<leftarrow> acq i w; (rs, w) \<leftarrow> play acq rel grel es i w; Some (r # rs, w) }"
| "play acq rel grel (User_Release # es) i w = do { w \<leftarrow> rel i w; play acq rel grel es i w }"
| "play acq rel grel (Group_Release # es) i w = do { w \<leftarrow> grel i w; play acq rel grel es i w }"

definition owners_word :: "bool \<Rightarrow> bool \<Rightarrow> u32" where
  "owners_word u g = (if g then RI_OWNER_GROUP_FLAG else 0) OR (if u then RI_OWNER_USER_FLAG else 0)"

lemmas owner_flags = RI_OWNER_GROUP_FLAG_def RI_OWNER_USER_FLAG_def

lemma owners_word_flags:
  "flagged (owners_word u g) RI_OWNER_USER_FLAG = u" "flagged (owners_word u g) RI_OWNER_GROUP_FLAG = g"
  "owners_word u g OR RI_OWNER_USER_FLAG = owners_word True g"
  "owners_word u g AND RI_OWNER_GROUP_FLAG = owners_word False g"
  "owners_word u g AND RI_OWNER_USER_FLAG = owners_word u False"
  by (auto simp: owners_word_def owner_flags flagged_def)

section \<open>The contract\<close>

locale owned =
  fixes objs :: "world \<Rightarrow> 'o option list" and owners :: "'o \<Rightarrow> u32" and mem :: "'o \<Rightarrow> nat"
    and acq :: "nat \<Rightarrow> world \<Rightarrow> (int \<times> world) option"
    and rel :: "nat \<Rightarrow> world \<Rightarrow> world option" and grel :: "nat \<Rightarrow> world \<Rightarrow> world option"
  assumes acquiring: "live (objs w) i = Some x \<Longrightarrow> \<exists>w' y.
      acq i w = Some (if flagged (owners x) RI_OWNER_USER_FLAG then -1 else 0, w') \<and>
      live (objs w') i = Some y \<and> owners y = owners x OR RI_OWNER_USER_FLAG \<and> mem y = mem x \<and> w_shms w' = w_shms w"
    and releasing: "\<lbrakk>live (objs w) i = Some x; flagged (owners x) RI_OWNER_GROUP_FLAG\<rbrakk> \<Longrightarrow> \<exists>w' y.
      rel i w = Some w' \<and> live (objs w') i = Some y \<and> owners y = owners x AND RI_OWNER_GROUP_FLAG \<and>
      mem y = mem x \<and> w_shms w' = w_shms w"
    and group_releasing: "\<lbrakk>live (objs w) i = Some x; flagged (owners x) RI_OWNER_USER_FLAG\<rbrakk> \<Longrightarrow> \<exists>w' y.
      grel i w = Some w' \<and> live (objs w') i = Some y \<and> owners y = owners x AND RI_OWNER_USER_FLAG \<and>
      mem y = mem x \<and> w_shms w' = w_shms w"
    and freeing: "\<lbrakk>live (objs w) i = Some x; \<not> flagged (owners x) RI_OWNER_GROUP_FLAG;
      live (w_shms w) (mem x) \<noteq> None\<rbrakk> \<Longrightarrow> \<exists>w'. rel i w = Some w' \<and> live (objs w') i = None"
    and group_freeing: "\<lbrakk>live (objs w) i = Some x; \<not> flagged (owners x) RI_OWNER_USER_FLAG;
      live (w_shms w) (mem x) \<noteq> None\<rbrakk> \<Longrightarrow> \<exists>w'. grel i w = Some w' \<and> live (objs w') i = None"
begin

text \<open>Nobody is left to touch a channel that has been freed.\<close>

lemma nobody_left: "protocol False False es \<Longrightarrow> es = []"
  by (induction "False" "False" es rule: protocol.induct) simp_all

lemma freed_once:
  assumes "protocol u g es" and "live (objs w) i = Some x" and "owners x = owners_word u g"
    and "live (w_shms w) (mem x) \<noteq> None" and "u \<or> g"
  shows "\<exists>w'. play acq rel grel es i w = Some (acquire_results u es, w') \<and>
    (live (objs w') i \<noteq> None) = (owners_after u g es \<noteq> (False, False))"
  using assms
proof (induction u g es arbitrary: w x rule: protocol.induct)
  case (1 u g)
  then show ?case by simp
next
  case (2 u g es)
  obtain w' y where y: "acq i w = Some (if u then -1 else 0, w')" "live (objs w') i = Some y"
    "owners y = owners_word True g" "mem y = mem x" "w_shms w' = w_shms w"
    using acquiring [OF 2(3)] 2(4) by (auto simp: owners_word_flags)
  then show ?case using "2.IH" [of w' y] 2(2,5) by auto
next
  case (3 u g es)
  show ?case
  proof (cases g)
    case True
    obtain w' y where "rel i w = Some w'" "live (objs w') i = Some y"
      "owners y = owners_word False g" "mem y = mem x" "w_shms w' = w_shms w"
      using releasing [OF 3(3)] 3(4) True by (auto simp: owners_word_flags)
    then show ?thesis using "3.IH" [of w' y] 3(2,5) True by auto
  next
    case False
    obtain w' where "rel i w = Some w'" "live (objs w') i = None"
      using freeing [OF 3(3) _ 3(5)] 3(4) False by (auto simp: owners_word_flags)
    moreover have "es = []" using 3(2) False by (auto dest: nobody_left)
    ultimately show ?thesis using False by simp
  qed
next
  case (4 u g es)
  show ?case
  proof (cases u)
    case True
    obtain w' y where "grel i w = Some w'" "live (objs w') i = Some y"
      "owners y = owners_word u False" "mem y = mem x" "w_shms w' = w_shms w"
      using group_releasing [OF 4(3)] 4(4) True by (auto simp: owners_word_flags)
    then show ?thesis using "4.IH" [of w' y] 4(2,5) True by auto
  next
    case False
    obtain w' where "grel i w = Some w'" "live (objs w') i = None"
      using group_freeing [OF 4(3) _ 4(5)] 4(4) False by (auto simp: owners_word_flags)
    moreover have "es = []" using 4(2) False by (auto dest: nobody_left)
    ultimately show ?thesis using False by simp
  qed
qed

end

section \<open>Consumers and producers keep the contract\<close>

lemma unref_live: "live (w_shms w) i \<noteq> None \<Longrightarrow> \<exists>w'. ri_shm_unref i w = Some w' \<and>
    w_consumers w' = w_consumers w \<and> w_producers w' = w_producers w"
proof -
  assume "live (w_shms w) i \<noteq> None"
  then obtain s where s: "live (w_shms w) i = Some s" by blast
  show ?thesis by (cases "s_ref_cnt s = 1") (simp_all add: s ri_shm_unref_def shm_delete_def close_fd_def Let_def)
qed

lemma live_freed: "live (xs[i := None]) i = None"
  by (simp add: live_def)

interpretation consumers: owned w_consumers cn_owners cn_shm ri_consumer_acquire ri_consumer_release
  ri_group_release_consumer
proof (unfold_locales, goal_cases)
  case (1 w i x)
  then show ?case using live_Some_length [OF 1]
    by (simp add: ri_consumer_acquire_def consumer_owners_def live_update)
next
  case (2 w i x)
  then show ?case using live_Some_length [OF 2(1)]
    by (simp add: ri_consumer_release_def consumer_owners_def live_update)
next
  case (3 w i x)
  then show ?case using live_Some_length [OF 3(1)]
    by (simp add: ri_group_release_consumer_def consumer_owners_def live_update)
next
  case (4 w i x)
  then show ?case using unref_live [of "w\<lparr>w_consumers := (w_consumers w)[i := Some (x\<lparr>cn_owners := cn_owners x AND RI_OWNER_GROUP_FLAG\<rparr>)]\<rparr>" "cn_shm x"]
    by (auto simp: ri_consumer_release_def consumer_owners_def ri_consumer_delete_def live_freed Let_def)
next
  case (5 w i x)
  then show ?case using unref_live [of "w\<lparr>w_consumers := (w_consumers w)[i := Some (x\<lparr>cn_owners := cn_owners x AND RI_OWNER_USER_FLAG\<rparr>)]\<rparr>" "cn_shm x"]
    by (auto simp: ri_group_release_consumer_def consumer_owners_def ri_consumer_delete_def live_freed Let_def)
qed

interpretation producers: owned w_producers pr_owners pr_shm ri_producer_acquire ri_producer_release
  ri_group_release_producer
proof (unfold_locales, goal_cases)
  case (1 w i x)
  then show ?case using live_Some_length [OF 1]
    by (simp add: ri_producer_acquire_def producer_owners_def live_update)
next
  case (2 w i x)
  then show ?case using live_Some_length [OF 2(1)]
    by (simp add: ri_producer_release_def producer_owners_def live_update)
next
  case (3 w i x)
  then show ?case using live_Some_length [OF 3(1)]
    by (simp add: ri_group_release_producer_def producer_owners_def live_update)
next
  case (4 w i x)
  then show ?case using unref_live [of "w\<lparr>w_producers := (w_producers w)[i := Some (x\<lparr>pr_owners := pr_owners x AND RI_OWNER_GROUP_FLAG\<rparr>)]\<rparr>" "pr_shm x"]
    by (auto simp: ri_producer_release_def producer_owners_def ri_producer_delete_def live_freed Let_def)
next
  case (5 w i x)
  then show ?case using unref_live [of "w\<lparr>w_producers := (w_producers w)[i := Some (x\<lparr>pr_owners := pr_owners x AND RI_OWNER_USER_FLAG\<rparr>)]\<rparr>" "pr_shm x"]
    by (auto simp: ri_group_release_producer_def producer_owners_def ri_producer_delete_def live_freed Let_def)
qed

section \<open>No use after free, no second free, no leak\<close>

text \<open>
  C16. Whatever the order in which the group and the user of a consumer give it up, and however often
  the user acquires and releases it before, no operation touches a freed channel, the channel is freed when
  neither owns it any more and not before, and an acquisition fails exactly while the user has it.
\<close>

theorem consumer_freed_once:
  assumes "protocol u g es" and "live (w_consumers w) i = Some x" and "cn_owners x = owners_word u g"
    and "live (w_shms w) (cn_shm x) \<noteq> None" and "u \<or> g"
  shows "\<exists>w'. play ri_consumer_acquire ri_consumer_release ri_group_release_consumer es i w =
      Some (acquire_results u es, w') \<and>
    (live (w_consumers w') i \<noteq> None) = (owners_after u g es \<noteq> (False, False))"
  by (rule consumers.freed_once [OF assms])

definition attr_fd :: ri_channel_attr where
  "attr_fd = \<lparr>a_msg_size = 8, a_add_msgs = 0, a_eventfd = True, a_info = info_zero\<rparr>"

text \<open>A process with one consumer and one producer in a mapping of 1024 bytes.\<close>

definition channel_world :: world where
  "channel_world = (case ri_consumer_new 64 attr_fd 0 0 mapped_world of
      Some (_, w) \<Rightarrow> (case ri_producer_new 64 attr_fd 0 512 w of Some (_, w) \<Rightarrow> w | None \<Rightarrow> w)
    | None \<Rightarrow> mapped_world)"

lemma channel_world_consumer:
  "case live (w_consumers channel_world) 0 of None \<Rightarrow> False
   | Some x \<Rightarrow> cn_owners x = owners_word False True \<and> live (w_shms channel_world) (cn_shm x) \<noteq> None"
  by code_simp

lemma channel_world_producer:
  "case live (w_producers channel_world) 0 of None \<Rightarrow> False
   | Some x \<Rightarrow> pr_owners x = owners_word False True \<and> live (w_shms channel_world) (pr_shm x) \<noteq> None"
  by code_simp

definition some_events :: "owner_event list" where
  "some_events = [Acquire, Acquire, User_Release, Acquire, Group_Release, User_Release]"

theorem consumer_freed_once_witness:
  "\<exists>w'. play ri_consumer_acquire ri_consumer_release ri_group_release_consumer some_events 0 channel_world =
      Some ([0, -1, 0], w') \<and> live (w_consumers w') 0 = None"
proof -
  obtain x where x: "live (w_consumers channel_world) 0 = Some x" "cn_owners x = owners_word False True"
    "live (w_shms channel_world) (cn_shm x) \<noteq> None"
    using channel_world_consumer by (auto split: option.splits)
  from consumer_freed_once [OF _ x, of some_events] show ?thesis by (simp add: some_events_def)
qed

text \<open>C17. The same for a producer.\<close>

theorem producer_freed_once:
  assumes "protocol u g es" and "live (w_producers w) i = Some x" and "pr_owners x = owners_word u g"
    and "live (w_shms w) (pr_shm x) \<noteq> None" and "u \<or> g"
  shows "\<exists>w'. play ri_producer_acquire ri_producer_release ri_group_release_producer es i w =
      Some (acquire_results u es, w') \<and>
    (live (w_producers w') i \<noteq> None) = (owners_after u g es \<noteq> (False, False))"
  by (rule producers.freed_once [OF assms])

theorem producer_freed_once_witness:
  "\<exists>w'. play ri_producer_acquire ri_producer_release ri_group_release_producer some_events 0 channel_world =
      Some ([0, -1, 0], w') \<and> live (w_producers w') 0 = None"
proof -
  obtain x where x: "live (w_producers channel_world) 0 = Some x" "pr_owners x = owners_word False True"
    "live (w_shms channel_world) (pr_shm x) \<noteq> None"
    using channel_world_producer by (auto split: option.splits)
  from producer_freed_once [OF _ x, of some_events] show ?thesis by (simp add: some_events_def)
qed

end
