(* ===== verification/Channel_Properties.thy ===== *)
theory Channel_Properties
  imports Channel_Ops Ownership
begin

text \<open>
  What the operations of a channel do to the memory, the eventfd and the cache: flushing a channel with an eventfd
  ends, what is written into a cache reaches the queue when the cache is disabled, a cached try-push fails while there is room,
  and the cache of a deleted producer is lost.
\<close>

section \<open>Queue words of a mapped channel\<close>

text \<open>The queue of \<open>n\<close> slots at \<open>offset\<close> of memory object \<open>i\<close> lies in its file.\<close>

definition words_mapped :: "world \<Rightarrow> nat \<Rightarrow> u64 \<Rightarrow> u32 \<Rightarrow> ri_shm \<Rightarrow> u64 \<Rightarrow> (nat \<Rightarrow> u32) \<Rightarrow> (nat \<Rightarrow> u8) \<Rightarrow> bool" where
  "words_mapped w i offset n s sz words bytes \<longleftrightarrow> live (w_shms w) i = Some s \<and> s_file s < length (w_files w) \<and>
     w_files w ! s_file s = Memfd sz words bytes \<and> unat offset + 8 + 4 * unat n \<le> unat (s_size s)"

lemma words_length:
  assumes "words_mapped w i offset n s sz words bytes"
  shows "length (sh_chain (queue_words words (s_size s) offset n)) = unat n"
proof -
  have "unat offset div 4 + 2 + unat n \<le> unat (s_size s) div 4"
  proof -
    have "(unat offset + 8 + 4 * unat n) div 4 \<le> unat (s_size s) div 4"
      using assms by (intro div_le_mono) (simp add: words_mapped_def)
    moreover have "(unat offset + 8 + 4 * unat n) div 4 = unat offset div 4 + 2 + unat n" by presburger
    ultimately show ?thesis by simp
  qed
  then show ?thesis by (simp add: queue_words_def Let_def)
qed

lemma on_words_eq:
  assumes "words_mapped w i offset n s sz words bytes"
    and "f (queue_words words (s_size s) offset n) = Some (sh, r)"
  shows "on_words i offset n f w =
    Some (r, w\<lparr>w_files := (w_files w)[s_file s := Memfd sz (store_words sh offset words) bytes]\<rparr>)"
  using assms by (simp add: on_words_def words_mapped_def)

lemma nth_map_shift: "b \<le> i \<Longrightarrow> i < b + m \<Longrightarrow> map (\<lambda>i. f (b + i)) [0..<m] ! (i - b) = f i"
proof -
  assume "b \<le> i" "i < b + m"
  then have "i - b < m" by arith
  then show ?thesis using \<open>b \<le> i\<close> by simp
qed

lemma store_queue_words: "store_words (queue_words words sz offset n) offset words = words"
proof
  fix i
  let ?b = "unat offset div 4" and ?m = "min (unat n) (unat sz div 4 - (unat offset div 4 + 2))"
  have "?b + 2 \<le> i \<Longrightarrow> i < ?b + 2 + ?m \<Longrightarrow> map (\<lambda>i. words (?b + 2 + i)) [0..<?m] ! (i - (?b + 2)) = words i"
    by (rule nth_map_shift)
  then show "store_words (queue_words words sz offset n) offset words i = words i"
    unfolding store_words_def queue_words_def Let_def by simp
qed

lemma file_update_same: "w_files w ! k = f \<Longrightarrow> w\<lparr>w_files := (w_files w)[k := f]\<rparr> = w"
  by auto

section \<open>Popping\<close>

lemma pop_defined:
  assumes "length (sh_chain sh) = unat (q_n_msgs (c_queue consumer))"
    and "c_current consumer = RI_INDEX_INVALID \<or> ri_queue_index_valid (c_queue consumer) (c_current consumer)"
  shows "\<exists>sh' consumer' r. run (ri_consumer_queue_pop consumer) sh = Some (sh', consumer', r) \<and>
    c_queue consumer' = c_queue consumer \<and>
    (c_current consumer' = RI_INDEX_INVALID \<or> ri_queue_index_valid (c_queue consumer) (c_current consumer')) \<and>
    (r = RI_POP_RESULT_SUCCESS \<longrightarrow> c_current consumer' \<noteq> RI_INDEX_INVALID)"
proof -
  have valid: "ri_queue_index_valid (c_queue consumer) idx \<Longrightarrow> unat idx < length (sh_chain sh)" for idx
    using assms(1) by (simp add: ri_queue_index_valid_def word_less_nat_alt)
  have ne: "ri_queue_index_valid queue idx \<Longrightarrow> idx \<noteq> RI_INDEX_INVALID" for queue idx
    using word_n1_ge [of "q_n_msgs queue"]
    by (auto simp: ri_queue_index_valid_def RI_INDEX_INVALID_def UINT_MAX_def simp flip: linorder_not_less)
  show ?thesis using assms(2)
    by (auto simp: ri_consumer_queue_pop_def shared_ops Let_def or_consumed_idem dest: valid ne)
qed


text \<open>
  A consumer in good order: its words are mapped, its index is valid, and its eventfd, which does not block, holds the
  count \<open>c\<close>.
\<close>

definition sound_consumer :: "world \<Rightarrow> nat \<Rightarrow> ri_consumer \<Rightarrow> nat \<Rightarrow> nat \<Rightarrow> bool" where
  "sound_consumer w i x k c \<longleftrightarrow> live (w_consumers w) i = Some x \<and>
     (\<exists>s sz words bytes. words_mapped w (cn_shm x) (cn_shm_offset x) (q_n_msgs (c_queue (cn_queue x))) s sz words bytes) \<and>
     (c_current (cn_queue x) = RI_INDEX_INVALID \<or> ri_queue_index_valid (c_queue (cn_queue x)) (c_current (cn_queue x))) \<and>
     map_of (w_fds w) (cn_eventfd x) = Some k \<and> k < length (w_files w) \<and> w_files w ! k = Eventfd c True"

lemma consumer_pop_step:
  assumes "sound_consumer w i x k c" and "0 \<le> cn_eventfd x"
  shows "case c of
      0 \<Rightarrow> \<exists>r. r \<noteq> RI_POP_RESULT_SUCCESS \<and> ri_consumer_pop i w = Some (r, w)
    | Suc d \<Rightarrow> \<exists>r w' x'. ri_consumer_pop i w = Some (r, w') \<and> sound_consumer w' i x' k d \<and> cn_eventfd x' = cn_eventfd x"
proof -
  from assms(1) obtain s sz words bytes where x: "live (w_consumers w) i = Some x" and
    m: "words_mapped w (cn_shm x) (cn_shm_offset x) (q_n_msgs (c_queue (cn_queue x))) s sz words bytes" and
    c: "c_current (cn_queue x) = RI_INDEX_INVALID \<or> ri_queue_index_valid (c_queue (cn_queue x)) (c_current (cn_queue x))" and
    e: "map_of (w_fds w) (cn_eventfd x) = Some k" "k < length (w_files w)" "w_files w ! k = Eventfd c True"
    by (auto simp: sound_consumer_def)
  have f: "file_of (cn_eventfd x) w = Some (k, Eventfd c True)" using e by (simp add: file_of_def)
  show ?thesis
  proof (cases c)
    case 0
    then show ?thesis using x f assms(2) by (simp add: ri_consumer_pop_def eventfd_read_def)
  next
    case (Suc d)
    let ?w = "w\<lparr>w_files := (w_files w)[k := Eventfd d True]\<rparr>"
    have sk: "s_file s \<noteq> k" using m e(3) by (auto simp: words_mapped_def)
    then have m': "words_mapped ?w (cn_shm x) (cn_shm_offset x) (q_n_msgs (c_queue (cn_queue x))) s sz words bytes"
      using m by (simp add: words_mapped_def)
    obtain sh q r where p: "run (ri_consumer_queue_pop (cn_queue x))
        (queue_words words (s_size s) (cn_shm_offset x) (q_n_msgs (c_queue (cn_queue x)))) = Some (sh, q, r)" and
      q: "c_queue q = c_queue (cn_queue x)" "c_current q = RI_INDEX_INVALID \<or> ri_queue_index_valid (c_queue (cn_queue x)) (c_current q)"
      using pop_defined [OF words_length [OF m] c] by blast
    let ?words = "store_words sh (cn_shm_offset x) words"
    let ?v = "?w\<lparr>w_files := (w_files ?w)[s_file s := Memfd sz ?words bytes],
      w_consumers := (w_consumers w)[i := Some (x\<lparr>cn_queue := q\<rparr>)]\<rparr>"
    have "ri_consumer_pop i w = Some (r, ?v)"
      using x f assms(2) Suc on_words_eq [OF m', of "run (ri_consumer_queue_pop (cn_queue x))" sh "(q, r)", OF p] by (simp add: ri_consumer_pop_def eventfd_read_def consumer_queue_op_def)
    moreover have "sound_consumer ?v i (x\<lparr>cn_queue := q\<rparr>) k d"
      unfolding sound_consumer_def
    proof (intro conjI)
      show "live (w_consumers ?v) i = Some (x\<lparr>cn_queue := q\<rparr>)" using live_Some_length [OF x] by (simp add: live_update)
      show "\<exists>s sz words bytes. words_mapped ?v (cn_shm (x\<lparr>cn_queue := q\<rparr>)) (cn_shm_offset (x\<lparr>cn_queue := q\<rparr>))
          (q_n_msgs (c_queue (cn_queue (x\<lparr>cn_queue := q\<rparr>)))) s sz words bytes"
        by (rule exI [of _ s], rule exI [of _ sz], rule exI [of _ ?words], rule exI [of _ bytes])
          (use m q sk in \<open>simp add: words_mapped_def\<close>)
    qed (use q e sk in simp_all)
    ultimately show ?thesis using Suc by fastforce
  qed
qed

text \<open>\<open>k\<close> pops that each find a message.\<close>

fun successes :: "nat \<Rightarrow> nat \<Rightarrow> world \<Rightarrow> world option" where
  "successes i 0 w = Some w"
| "successes i (Suc k) w = do {
     (r, w) \<leftarrow> ri_consumer_pop i w;
     if r = RI_POP_RESULT_SUCCESS then successes i k w else None
   }"

text \<open>
  C24. Flushing a channel with an eventfd ends: as every pop that finds a message takes one from the counter of the eventfd, there are at
  most as many of them as the counter says, and one pop more, whose result is that of the flush. All of them are defined: they
  stay inside the words of the queue.
\<close>

theorem flush_with_eventfd_ends:
  assumes "sound_consumer w i x k c" and "0 \<le> cn_eventfd x"
  shows "\<exists>m w1 r w'. m \<le> c \<and> successes i m w = Some w1 \<and> ri_consumer_pop i w1 = Some (r, w') \<and> r \<noteq> RI_POP_RESULT_SUCCESS \<and>
    ri_consumer_flush i w = Some (r, w')"
proof -
  have "\<exists>m w1 r w'. m \<le> c \<and> successes i m w = Some w1 \<and> ri_consumer_pop i w1 = Some (r, w') \<and> r \<noteq> RI_POP_RESULT_SUCCESS \<and>
    pop_all i w = Some (r, w')"
    using assms
  proof (induction c arbitrary: w x)
    case 0
    obtain r where "r \<noteq> RI_POP_RESULT_SUCCESS" "ri_consumer_pop i w = Some (r, w)" using consumer_pop_step [OF 0] by auto
    then show ?case by (intro exI [of _ 0] exI [of _ w] exI [of _ r]) (simp add: pop_all.simps [of i w])
  next
    case (Suc c)
    obtain r w' x' where p: "ri_consumer_pop i w = Some (r, w')" "sound_consumer w' i x' k c" "cn_eventfd x' = cn_eventfd x"
      using consumer_pop_step [OF Suc.prems] by auto
    show ?case
    proof (cases "r = RI_POP_RESULT_SUCCESS")
      case True
      from Suc.IH [OF p(2)] Suc.prems(2) p(3) obtain m w1 r1 w2 where "m \<le> c" "successes i m w' = Some w1"
        "ri_consumer_pop i w1 = Some (r1, w2)" "r1 \<noteq> RI_POP_RESULT_SUCCESS" "pop_all i w' = Some (r1, w2)" by auto
      then show ?thesis using p(1) True
        by (intro exI [of _ "Suc m"] exI [of _ w1] exI [of _ r1] exI [of _ w2]) (simp add: pop_all.simps [of i w])
    next
      case False
      then show ?thesis using p(1) by (intro exI [of _ 0] exI [of _ w] exI [of _ r] exI [of _ w']) (simp add: pop_all.simps [of i w])
    qed
  qed
  then show ?thesis using assms by (auto simp: ri_consumer_flush_def sound_consumer_def)
qed

text \<open>A mapped channel with an eventfd whose counter stands at 2.\<close>

definition counted_consumer :: ri_consumer where
  "counted_consumer = \<lparr>cn_owners = RI_OWNER_GROUP_FLAG,
     cn_queue = \<lparr>c_queue = ri_queue_init 64 attr_fd 4096, c_current = RI_INDEX_INVALID\<rparr>,
     cn_shm = 0, cn_shm_offset = 0, cn_eventfd = 1\<rparr>"

definition counted_world :: world where
  "counted_world = empty_world\<lparr>w_files := [Memfd 1024 zeros zeros, Eventfd 2 True], w_fds := [(0, 0), (1, 1)],
     w_shms := [Some \<lparr>s_ref_cnt = 2, s_mem = 4096, s_size = 1024, s_fd = 0, s_file = 0\<rparr>],
     w_consumers := [Some counted_consumer]\<rparr>"

lemma counted_sound: "sound_consumer counted_world 0 counted_consumer 1 2 \<and> 0 \<le> cn_eventfd counted_consumer"
proof -
  have "q_n_msgs (ri_queue_init 64 attr_fd 4096) = 3" by code_simp
  then show ?thesis
    by (simp add: sound_consumer_def words_mapped_def counted_world_def counted_consumer_def live_def empty_world_def)
qed

theorem flush_with_eventfd_ends_witness:
  "\<exists>m w1 r w'. m \<le> 2 \<and> successes 0 m counted_world = Some w1 \<and> ri_consumer_pop 0 w1 = Some (r, w') \<and> r \<noteq> RI_POP_RESULT_SUCCESS \<and>
    ri_consumer_flush 0 counted_world = Some (r, w')"
  using counted_sound flush_with_eventfd_ends by blast

section \<open>The cache\<close>

text \<open>The message of the producer lies in its file, behind the words of the queue.\<close>

definition message_mapped :: "world \<Rightarrow> ri_producer \<Rightarrow> ri_shm \<Rightarrow> nat \<Rightarrow> bool" where
  "message_mapped w x s off \<longleftrightarrow> live (w_shms w) (pr_shm x) = Some s \<and> s_file s < length (w_files w) \<and>
     (\<exists>addr. ri_producer_queue_msg (pr_queue x) = Some addr \<and> off = unat (addr - s_mem s)) \<and>
     unat (pr_shm_offset x) + 8 + 4 * unat (q_n_msgs (p_queue (pr_queue x))) \<le> off \<and>
     off + unat (ri_producer_queue_msg_size (pr_queue x)) \<le> unat (s_size s)"

text \<open>The bytes of a file from \<open>off\<close> on replaced by \<open>new\<close>.\<close>

definition overwritten :: "nat \<Rightarrow> u8 list \<Rightarrow> (nat \<Rightarrow> u8) \<Rightarrow> nat \<Rightarrow> u8" where
  "overwritten off new bytes k = (if off \<le> k \<and> k < off + length new then new ! (k - off) else bytes k)"

text \<open>
  C25. Enabling the cache copies the current message out of the queue; whatever the user then writes into the cache, disabling it puts
  exactly that into the message in the queue, changes no other byte and no word of the file, and frees the cache. The
  message must lie behind the words of its queue.
\<close>

theorem cache_enable_disable:
  assumes "live (w_producers w) i = Some x" and "pr_cache x = None" and "message_mapped w x s off"
    and "w_files w ! s_file s = Memfd sz words bytes" and "w_ok w (w_calls w)"
    and "length new = unat (ri_producer_queue_msg_size (pr_queue x))" and "c = length (w_caches w)"
  shows "\<exists>w1 w2. ri_producer_cache_enable i w = Some (0, w1) \<and>
      (\<exists>y. live (w_producers w1) i = Some y \<and> ri_producer_msg y = In_Cache c) \<and>
      live (w_caches w1) c = Some (map bytes [off..<off + length new]) \<and> w_files w1 = w_files w \<and>
    ri_producer_cache_disable i (w1\<lparr>w_caches := (w_caches w1)[c := Some new]\<rparr>) = Some w2 \<and>
      live (w_producers w2) i = Some x \<and> live (w_caches w2) = live (w_caches w) \<and>
      w_files w2 = (w_files w)[s_file s := Memfd sz words (overwritten off new bytes)]"
proof -
  let ?n = "unat (ri_producer_queue_msg_size (pr_queue x))"
  let ?cache = "map bytes [off..<off + ?n]" and ?x = "x\<lparr>pr_cache := Some c\<rparr>"
  let ?w1 = "w\<lparr>w_calls := Suc (w_calls w), w_caches := w_caches w @ [Some ?cache], w_producers := (w_producers w)[i := Some ?x]\<rparr>"
  let ?v = "?w1\<lparr>w_caches := (w_caches ?w1)[c := Some new]\<rparr>"
  let ?files = "(w_files w)[s_file s := Memfd sz words (overwritten off new bytes)]"
  obtain addr where a: "ri_producer_queue_msg (pr_queue x) = Some addr" "unat (addr - s_mem s) = off"
    "live (w_shms w) (pr_shm x) = Some s" "off + ?n \<le> unat (s_size s)"
    using assms(3) by (auto simp: message_mapped_def)
  have i: "i < length (w_producers w)" using live_Some_length [OF assms(1)] .
  have e: "ri_producer_cache_enable i w = Some (0, ?w1)"
    using assms(1,2,4,5,7) a by (simp add: ri_producer_cache_enable_def ask_def Let_def load_msg_def)
  let ?w2 = "?v\<lparr>w_files := ?files, w_caches := (w_caches ?v)[c := None], w_producers := (w_producers ?v)[i := Some (?x\<lparr>pr_cache := None\<rparr>)]\<rparr>"
  have x: "?x\<lparr>pr_cache := None\<rparr> = x" using assms(2) by simp
  have o: "overwritten off new bytes = (\<lambda>k. if off \<le> k \<and> k < off + ?n then new ! (k - off) else bytes k)"
    by (simp add: fun_eq_iff overwritten_def assms(6))
  have "store_msg ?x (Some addr) new ?v = Some (?v\<lparr>w_files := ?files\<rparr>)"
    using a(3,4) assms(4,6) unfolding store_msg_def Let_def by (simp add: a(2) o cong: if_cong)
  then have "producer_cache_write ?x c ?v = Some (?v\<lparr>w_files := ?files\<rparr>)"
    using a(1) assms(6,7) by (simp add: producer_cache_write_def live_append live_update Let_def)
  then have d: "ri_producer_cache_disable i ?v = Some ?w2"
    using i x by (simp add: ri_producer_cache_disable_def live_update)
  have "live (w_caches ?w2) = live (w_caches w)" using assms(7) by (auto simp: fun_eq_iff live_def nth_append nth_list_update)
  then show ?thesis using e d i x assms(6,7)
    by (intro exI [of _ ?w1] exI [of _ ?w2]) (simp add: live_update live_append ri_producer_msg_def)
qed

text \<open>A producer with a cache that has pushed its first message.\<close>

definition cached_producer :: ri_producer where
  "cached_producer = \<lparr>pr_owners = RI_OWNER_GROUP_FLAG,
     pr_queue = \<lparr>p_queue = ri_queue_init 64 attr_fd 4096, p_head = 0, p_current = 1, p_overrun = RI_INDEX_INVALID,
       p_chain = [RI_INDEX_INVALID, 2, 0]\<rparr>,
     pr_shm = 0, pr_shm_offset = 0, pr_eventfd = -1, pr_cache = Some 0\<rparr>"

definition cached_words :: "nat \<Rightarrow> u32" where
  "cached_words i = [RI_FIRST_FLAG, 0, RI_INDEX_INVALID, 2, 0] ! i"

definition cached_world :: world where
  "cached_world = empty_world\<lparr>w_files := [Memfd 1024 cached_words zeros], w_fds := [(0, 0)],
     w_shms := [Some \<lparr>s_ref_cnt = 2, s_mem = 4096, s_size = 1024, s_fd = 0, s_file = 0\<rparr>],
     w_producers := [Some cached_producer], w_caches := [Some (replicate 8 1)]\<rparr>"

lemma cached_world_state:
  "q_n_msgs (p_queue (pr_queue cached_producer)) = 3"
  "sh_tail (queue_words cached_words 1024 0 3) AND RI_INDEX_MASK = 0"
  by code_simp+

lemma cached_message: "ri_producer_queue_msg (pr_queue cached_producer) = Some 4224 \<and>
    ri_producer_queue_msg_size (pr_queue cached_producer) = 8"
  by code_simp

text \<open>The same without the cache.\<close>

definition plain_world :: world where
  "plain_world = cached_world\<lparr>w_producers := [Some (cached_producer\<lparr>pr_cache := None\<rparr>)], w_caches := []\<rparr>"

theorem cache_enable_disable_witness:
  "\<exists>w1 w2. ri_producer_cache_enable 0 plain_world = Some (0, w1) \<and> live (w_caches w1) 0 = Some (map zeros [128..<136]) \<and>
     ri_producer_cache_disable 0 (w1\<lparr>w_caches := (w_caches w1)[0 := Some [1, 2, 3, 4, 5, 6, 7, 8]]\<rparr>) = Some w2 \<and>
     live (w_producers w2) 0 = Some (cached_producer\<lparr>pr_cache := None\<rparr>) \<and> live (w_caches w2) 0 = None \<and>
     w_files w2 = [Memfd 1024 cached_words (overwritten 128 [1, 2, 3, 4, 5, 6, 7, 8] zeros)]"
proof -
  let ?x = "cached_producer\<lparr>pr_cache := None\<rparr>" and ?s = "\<lparr>s_ref_cnt = 2, s_mem = 4096, s_size = 1024, s_fd = 0, s_file = 0\<rparr>"
  let ?new = "[1, 2, 3, 4, 5, 6, 7, 8] :: u8 list"
  have x: "live (w_producers plain_world) 0 = Some ?x" "pr_cache ?x = None" by (simp_all add: plain_world_def live_def)
  have m: "message_mapped plain_world ?x ?s 128"
    using cached_message cached_world_state(1) by (simp add: message_mapped_def plain_world_def cached_world_def live_def)
      (simp add: cached_producer_def)
  have f: "w_files plain_world ! s_file ?s = Memfd 1024 cached_words zeros" by (simp add: plain_world_def cached_world_def)
  have "w_ok plain_world (w_calls plain_world)" "0 = length (w_caches plain_world)"
    by (simp_all add: plain_world_def cached_world_def empty_world_def)
  from cache_enable_disable [OF x m f this(1) _ this(2), of ?new] cached_message obtain w1 w2 where
    r: "ri_producer_cache_enable 0 plain_world = Some (0, w1)" "live (w_caches w1) 0 = Some (map zeros [128..<128 + length ?new])"
      "ri_producer_cache_disable 0 (w1\<lparr>w_caches := (w_caches w1)[0 := Some ?new]\<rparr>) = Some w2"
      "live (w_producers w2) 0 = Some ?x" "live (w_caches w2) = live (w_caches plain_world)"
      "w_files w2 = (w_files plain_world)[0 := Memfd 1024 cached_words (overwritten 128 ?new zeros)]" by auto
  have "live (w_caches w2) 0 = None" "w_files w2 = [Memfd 1024 cached_words (overwritten 128 ?new zeros)]"
    using r(5,6) by (simp_all add: plain_world_def cached_world_def live_def)
  then show ?thesis using r by (intro exI conjI) simp_all
qed

text \<open>A query, or an operation, of the queue that leaves its words as they are.\<close>

lemma on_words_same:
  assumes "words_mapped w i offset n s sz words bytes" and "f (queue_words words (s_size s) offset n) = Some (queue_words words (s_size s) offset n, r)"
  shows "on_words i offset n f w = Some (r, w)"
  using on_words_eq [OF assms(1), of f, OF assms(2)] file_update_same [of w "s_file s" "Memfd sz words bytes"] assms(1)
  by (simp add: store_queue_words words_mapped_def)

text \<open>
  C40. Once its first message is out, a producer with a cache sends nothing by \<open>ri_producer_try_push\<close> as long as no overrun is pending: with
  room in the queue the call fails at once, as it trusts the inverted test for fullness, and without room it fails after having copied
  the cache into the queue. No word of the queue changes.
\<close>

theorem cached_try_push_fails:
  assumes "live (w_producers w) i = Some x" and "pr_cache x = Some c"
    and "p_head (pr_queue x) \<noteq> RI_INDEX_INVALID" and "p_overrun (pr_queue x) = RI_INDEX_INVALID"
    and "unat (p_current (pr_queue x)) < length (p_chain (pr_queue x))"
    and "words_mapped w (pr_shm x) (pr_shm_offset x) (q_n_msgs (p_queue (pr_queue x))) s sz words bytes"
    and "tail = sh_tail (queue_words words (s_size s) (pr_shm_offset x) (q_n_msgs (p_queue (pr_queue x)))) AND RI_INDEX_MASK"
    and "ri_queue_index_valid (p_queue (pr_queue x)) tail"
    and "message_mapped w x s off" and "live (w_caches w) c = Some cache"
    and "length cache = unat (ri_producer_queue_msg_size (pr_queue x))"
  shows "ri_producer_try_push i w = Some (RI_TRY_PUSH_RESULT_FAIL,
    if p_chain (pr_queue x) ! unat (p_current (pr_queue x)) \<noteq> tail then w
    else w\<lparr>w_files := (w_files w)[s_file s := Memfd sz words (overwritten off cache bytes)]\<rparr>)"
proof -
  let ?q = "pr_queue x" and ?n = "q_n_msgs (p_queue (pr_queue x))" and ?room = "p_chain (pr_queue x) ! unat (p_current (pr_queue x)) \<noteq> tail"
  let ?sh = "queue_words words (s_size s) (pr_shm_offset x) ?n"
  have f: "run (ri_producer_queue_full ?q) ?sh = Some (?sh, ?room)"
    using assms(3-5,7,8) by (simp add: ri_producer_queue_full_def chain_get_def shared_ops Let_def)
  have q: "run_on (pr_shm x) (pr_shm_offset x) ?n (ri_producer_queue_full ?q) w = Some (?room, w)"
    using on_words_same [OF assms(6), of "run (ri_producer_queue_full ?q)", OF f] assms(3)
    by (simp add: run_on_def ri_producer_queue_full_def)
  show ?thesis
  proof (cases ?room)
    case True
    then show ?thesis using assms(1,2) q by (simp add: ri_producer_try_push_def)
  next
    case False
    let ?v = "w\<lparr>w_files := (w_files w)[s_file s := Memfd sz words (overwritten off cache bytes)]\<rparr>"
    obtain addr where a: "ri_producer_queue_msg ?q = Some addr" "unat (addr - s_mem s) = off" "live (w_shms w) (pr_shm x) = Some s"
      "off + length cache \<le> unat (s_size s)" using assms(9,11) by (auto simp: message_mapped_def)
    have "store_msg x (Some addr) cache w = Some ?v"
      using a(3,4) assms(6) unfolding store_msg_def Let_def by (simp add: a(2) words_mapped_def overwritten_def [abs_def] cong: if_cong)
    then have c: "producer_cache_write x c w = Some ?v" using a(1) assms(10,11) by (simp add: producer_cache_write_def Let_def)
    have m: "words_mapped ?v (pr_shm x) (pr_shm_offset x) ?n s sz words (overwritten off cache bytes)"
      using assms(6) by (simp add: words_mapped_def)
    have "run (ri_producer_queue_try_push ?q) ?sh = Some (?sh, ?q, RI_TRY_PUSH_RESULT_FAIL)"
      using assms(3-5,7,8) False by (simp add: ri_producer_queue_try_push_def chain_get_def shared_ops Let_def)
    from on_words_same [OF m, of "run (ri_producer_queue_try_push ?q)", OF this]
    have "producer_queue_op i x (run (ri_producer_queue_try_push ?q)) ?v = Some (RI_TRY_PUSH_RESULT_FAIL, ?v\<lparr>w_producers := (w_producers w)[i := Some x]\<rparr>)"
      by (simp add: producer_queue_op_def)
    moreover have "(w_producers w)[i := Some x] = w_producers w"
      using assms(1) live_Some_length [OF assms(1)] by (simp add: live_def list_update_same_conv)
    ultimately have "producer_queue_op i x (run (ri_producer_queue_try_push ?q)) ?v = Some (RI_TRY_PUSH_RESULT_FAIL, ?v)" by simp
    then show ?thesis using assms(1,2) q False c by (simp add: ri_producer_try_push_def)
  qed
qed

theorem cached_try_push_fails_witness:
  "ri_producer_try_push 0 cached_world = Some (RI_TRY_PUSH_RESULT_FAIL, cached_world)"
proof -
  let ?s = "\<lparr>s_ref_cnt = 2, s_mem = 4096, s_size = 1024, s_fd = 0, s_file = 0\<rparr>"
  have x: "live (w_producers cached_world) 0 = Some cached_producer" by (simp add: cached_world_def live_def)
  have m: "words_mapped cached_world (pr_shm cached_producer) (pr_shm_offset cached_producer)
      (q_n_msgs (p_queue (pr_queue cached_producer))) ?s 1024 cached_words zeros"
    unfolding cached_world_state by (simp add: words_mapped_def cached_world_def cached_producer_def live_def)
  have d: "message_mapped cached_world cached_producer ?s 128"
    using cached_message cached_world_state(1) by (simp add: message_mapped_def cached_world_def live_def) (simp add: cached_producer_def)
  have "p_chain (pr_queue cached_producer) ! unat (p_current (pr_queue cached_producer)) \<noteq> 0" by (simp add: cached_producer_def)
  moreover have "live (w_caches cached_world) 0 = Some (replicate 8 1)" by (simp add: cached_world_def live_def)
  ultimately show ?thesis
    using cached_try_push_fails [OF x _ _ _ _ m _ _ d, of 0 0 "replicate 8 1"] cached_message cached_world_state
    by (simp add: cached_producer_def invalid_eq ri_queue_index_valid_def)
qed

text \<open>
  Releasing a producer for good, whichever of its owners does it last, frees the producer but never its cache: the cache of
  a producer that has one is lost.
\<close>

theorem cache_lost_on_release:
  assumes "live (w_producers w) i = Some x" and "pr_cache x = Some c" and "live (w_caches w) c = Some bytes"
    and "ri_producer_release i w = Some v \<or> ri_group_release_producer i w = Some v" and "live (w_producers v) i = None"
  shows "live (w_caches v) c = Some bytes"
proof -
  have u: "w_caches v = w_caches w" if "ri_shm_unref j w = Some v" for j w v
    using that by (auto simp: ri_shm_unref_def Let_def shm_delete_def close_fd_def split: if_splits)
  have d: "w_caches v = w_caches w" if "ri_producer_delete j y w = Some v" for j y w v
  proof -
    from that obtain w' where w': "ri_shm_unref (pr_shm y) w = Some w'" "w_caches v = w_caches w'"
      by (auto simp: ri_producer_delete_def bind_eq_Some_conv close_fd_def Let_def split: if_splits)
    then show ?thesis using u [OF w'(1)] by simp
  qed
  have "w_caches v = w_caches w"
    using assms(1,4)
    by (auto simp: ri_producer_release_def ri_group_release_producer_def producer_owners_def split: if_splits dest!: d)
  then show ?thesis using assms(3) by simp
qed

theorem cache_lost_on_release_witness:
  "\<exists>v bytes. ri_group_release_producer 0 cached_world = Some v \<and> live (w_producers v) 0 = None \<and> live (w_caches v) 0 = Some bytes"
proof -
  have x: "live (w_producers cached_world) 0 = Some cached_producer" "pr_cache cached_producer = Some 0"
    by (simp_all add: cached_world_def live_def cached_producer_def)
  let ?s = "\<lparr>s_ref_cnt = 2, s_mem = 4096, s_size = 1024, s_fd = 0, s_file = 0\<rparr>"
  have s: "live (w_shms cached_world) 0 = Some ?s" by (simp add: cached_world_def live_def)
  have o: "\<not> flagged (pr_owners cached_producer) RI_OWNER_USER_FLAG" "pr_shm cached_producer = 0" "pr_eventfd cached_producer = -1"
    by (simp_all add: cached_producer_def flagged_def RI_OWNER_GROUP_FLAG_def RI_OWNER_USER_FLAG_def)
  have "\<exists>v. ri_group_release_producer 0 cached_world = Some v \<and> live (w_producers v) 0 = None"
    using x(1) s o by (simp add: ri_group_release_producer_def producer_owners_def ri_producer_delete_def ri_shm_unref_def live_freed)
  then obtain v where v: "ri_group_release_producer 0 cached_world = Some v" "live (w_producers v) 0 = None" by blast
  have "live (w_caches cached_world) 0 = Some (replicate 8 1)" by (simp add: cached_world_def live_def)
  from cache_lost_on_release [OF x this _ v(2)] v show ?thesis by blast
qed

end
