(* ===== verification/Group.thy ===== *)
theory Group
  imports Channel_Ops Request
begin

text \<open>
  Groups (\<open>src/group.c\<close>): a memory file with the channels one after the other, producers first and then
  consumers as their creator sees them; a peer that maps the file takes its consumers for the creator's producers.
  The structure \<open>ri_group\<close> is returned and passed by value; its channels are numbers of objects of the world.
\<close>

record ri_group =
  gr_data :: ri_group_data
  gr_shm :: "nat option"
  gr_consumers :: "nat option list option"
  gr_producers :: "nat option list option"

definition ri_group_get_attr :: "ri_group \<Rightarrow> ri_group_attr" where
  "ri_group_get_attr grp = ri_group_data_attr (gr_data grp)"

definition ri_group_get_consumer_attr :: "ri_group \<Rightarrow> u32 \<Rightarrow> channel_data option outcome" where
  "ri_group_get_consumer_attr grp index = ri_group_data_get_consumer_attr (gr_data grp) index"

definition ri_group_get_producer_attr :: "ri_group \<Rightarrow> u32 \<Rightarrow> channel_data option outcome" where
  "ri_group_get_producer_attr grp index = ri_group_data_get_producer_attr (gr_data grp) index"

definition ri_group_num_producers :: "ri_group \<Rightarrow> u32" where
  "ri_group_num_producers grp = gd_n_producers (gr_data grp)"

definition ri_group_num_consumers :: "ri_group \<Rightarrow> u32" where
  "ri_group_num_consumers grp = gd_n_consumers (gr_data grp)"

definition ri_group_get_info :: "ri_group \<Rightarrow> mem_info" where
  "ri_group_get_info grp = gd_info (gr_data grp)"

section \<open>Deletion\<close>

text \<open>The loop over an array of channels; null pointers are skipped.\<close>

fun release_all :: "(nat \<Rightarrow> world \<Rightarrow> world option) \<Rightarrow> nat option list \<Rightarrow> world \<Rightarrow> world option" where
  "release_all grel [] w = Some w"
| "release_all grel (None # cs) w = release_all grel cs w"
| "release_all grel (Some c # cs) w = do { w \<leftarrow> grel c w; release_all grel cs w }"

definition release_array ::
    "(nat \<Rightarrow> world \<Rightarrow> world option) \<Rightarrow> nat option list option \<Rightarrow> u32 \<Rightarrow> world \<Rightarrow> world option" where
  "release_array grel cs n w =
     (case cs of
        None \<Rightarrow> Some w
      | Some cs \<Rightarrow> if unat n \<le> length cs then release_all grel (take (unat n) cs) w else None)"

definition ri_group_delete :: "ri_group \<Rightarrow> world \<Rightarrow> world option" where
  "ri_group_delete grp w = do {
     w \<leftarrow> release_array ri_group_release_consumer (gr_consumers grp) (gd_n_consumers (gr_data grp)) w;
     w \<leftarrow> release_array ri_group_release_producer (gr_producers grp) (gd_n_producers (gr_data grp)) w;
     (case gr_shm grp of None \<Rightarrow> Some w | Some i \<Rightarrow> ri_shm_unref i w)
   }"

section \<open>Creation\<close>

text \<open>The arrays of null pointers, \<open>None\<close> when an allocation fails.\<close>

definition ri_group_alloc_channels ::
    "ri_group_data \<Rightarrow> world \<Rightarrow> (nat option list option \<times> nat option list option) option \<times> world" where
  "ri_group_alloc_channels data w =
     (let nc = gd_n_consumers data; np = gd_n_producers data;
          (ok, w) = (if nc > 0 then ask w else (True, w)) in
      if \<not> ok then (None, w) else
      let (ok, w) = (if np > 0 then ask w else (True, w)) in
      if \<not> ok then (None, w) else
      (Some (if nc > 0 then Some (replicate (unat nc) None) else None,
             if np > 0 then Some (replicate (unat np) None) else None), w))"

definition shm_new :: "u64 \<Rightarrow> world \<Rightarrow> nat option \<times> world" where
  "shm_new shm_size w =
     (let (shmfd, w) = ri_shmfd_create shm_size w in
      if shmfd < 0 then (None, w) else
      let (res, w) = ri_shm_map shmfd w in
      case res of None \<Rightarrow> (None, close_fd shmfd w) | Some i \<Rightarrow> (Some i, w))"

text \<open>
  The loop that makes the channels of a table: the ones made, whether all were, and the offset
  behind them. \<open>mk\<close> is \<open>ri_producer_new\<close> or \<open>ri_consumer_new\<close>.
\<close>

fun new_channels :: "(ri_channel_attr \<Rightarrow> u64 \<Rightarrow> world \<Rightarrow> (nat option \<times> world) option) \<Rightarrow> u64
    \<Rightarrow> ri_channel_attr list \<Rightarrow> u64 \<Rightarrow> world \<Rightarrow> ((nat list \<times> bool \<times> u64) \<times> world) option" where
  "new_channels mk cls [] shm_offset w = Some (([], True, shm_offset), w)"
| "new_channels mk cls (attr # attrs) shm_offset w = do {
     (res, w) \<leftarrow> mk attr shm_offset w;
     (case res of
        None \<Rightarrow> Some (([], False, shm_offset), w)
      | Some c \<Rightarrow> do {
          ((cs, ok, shm_offset), w) \<leftarrow> new_channels mk cls attrs (shm_offset + ri_channel_shm_size cls attr) w;
          Some ((c # cs, ok, shm_offset), w)
        })
   }"

text \<open>The first \<open>n\<close> entries of a table of the group's own data.\<close>

definition table_attrs :: "ri_group_data \<Rightarrow> channel_data list option \<Rightarrow> u32 \<Rightarrow> ri_channel_attr list option" where
  "table_attrs data t n =
     (case t of
        None \<Rightarrow> if n = 0 then Some [] else None
      | Some ds \<Rightarrow> if unat n \<le> length ds then Some (map (attr_of (gd_mem_infos data)) (take (unat n) ds)) else None)"

text \<open>The array after the loop: the pointers made so far, null pointers behind them.\<close>

definition filled :: "nat option list option \<Rightarrow> nat list \<Rightarrow> nat option list option" where
  "filled arr cs = map_option (\<lambda>arr. map Some cs @ drop (length cs) arr) arr"

text \<open>
  The answers the three allocations of the data get. When the second table cannot be allocated, the first is
  freed but the pointer to it stays (\<open>fail_producers\<close> of \<open>ri_group_data_new\<close>): \<open>freed_table_kept\<close>.
\<close>

definition take_allocs :: "(nat \<Rightarrow> u8) \<Rightarrow> world \<Rightarrow> allocs \<times> world" where
  "take_allocs raw w =
     (let (c, w) = ask w; (p, w) = ask w; (i, w) = ask w in
      (\<lparr>al_consumers = c, al_producers = p, al_infos = i, al_raw = raw\<rparr>, w))"

definition freed_table_kept :: "allocs \<Rightarrow> u32 \<Rightarrow> u32 \<Rightarrow> bool" where
  "freed_table_kept al n_consumers n_producers \<longleftrightarrow>
     n_consumers > 0 \<and> al_consumers al \<and> n_producers > 0 \<and> \<not> al_producers al"

definition count_of :: "ri_channel_attr list option \<Rightarrow> u32" where
  "count_of t = (case ri_count_channels t of Returns n \<Rightarrow> n | _ \<Rightarrow> 0)"

text \<open>What remains is done with the structure in place: memory, producers, consumers.\<close>

definition build_group :: "u64 \<Rightarrow> ri_group_data \<Rightarrow> u64 \<Rightarrow> world \<Rightarrow> (ri_group option \<times> world) option" where
  "build_group cls data shm_size w =
     (case ri_group_alloc_channels data w of
        (None, w) \<Rightarrow> Some (None, w)
      | (Some (consumers, producers), w) \<Rightarrow>
          (case shm_new shm_size w of
             (None, w) \<Rightarrow> Some (None, w)
           | (Some i, w) \<Rightarrow> do {
               pattrs \<leftarrow> table_attrs data (gd_producers data) (gd_n_producers data);
               ((ps, ok, shm_offset), w) \<leftarrow> new_channels (\<lambda>attr. ri_producer_new cls attr i) cls pattrs 0 w;
               let grp = \<lparr>gr_data = data, gr_shm = Some i, gr_consumers = consumers,
                 gr_producers = filled producers ps\<rparr>;
               if \<not> ok then do { w \<leftarrow> ri_group_delete grp w; Some (None, w) } else do {
                 cattrs \<leftarrow> table_attrs data (gd_consumers data) (gd_n_consumers data);
                 ((cs, ok, _), w) \<leftarrow> new_channels (\<lambda>attr. ri_consumer_new cls attr i) cls cattrs shm_offset w;
                 let grp = grp\<lparr>gr_consumers := filled consumers cs\<rparr>;
                 if \<not> ok then do { w \<leftarrow> ri_group_delete grp w; Some (None, w) } else Some (Some grp, w)
               }
             }))"

text \<open>
  \<open>ri_group_from_attr\<close>. A failure before there is a channel or memory deletes an empty group, which leaves the world as it
  is, except that a kept pointer to a freed table is freed again.
\<close>

definition ri_group_from_attr ::
    "u64 \<Rightarrow> (nat \<Rightarrow> u8) \<Rightarrow> ri_group_attr \<Rightarrow> world \<Rightarrow> (ri_group option \<times> world) option" where
  "ri_group_from_attr cls raw attr w =
     (let (ok, w) = ask w in
      if \<not> ok then Some (None, w) else
      let (al, w) = take_allocs raw w in
      case ri_group_data_from_attr al attr of
        Undefined \<Rightarrow> None
      | Fails r \<Rightarrow>
          if freed_table_kept al (count_of (g_consumers attr)) (count_of (g_producers attr)) then None
          else Some (None, w)
      | Returns data \<Rightarrow>
          (case ri_calc_shm_size cls (g_consumers attr) (g_producers attr) of
             Returns shm_size \<Rightarrow> build_group cls data shm_size w
           | _ \<Rightarrow> None))"

section \<open>Serialisation\<close>

definition ri_group_serialize_size :: "ri_group \<Rightarrow> u64 outcome" where
  "ri_group_serialize_size grp = ri_request_calc_size (ri_group_data_attr (gr_data grp))"

text \<open>
  The loop of \<open>collect_fds\<close> over one array: \<open>eventfd c\<close> is the eventfd of channel \<open>c\<close>. The result is the
  next index, or \<open>-ENOMEM\<close>, and the descriptors.
\<close>

fun collect_loop :: "(nat \<Rightarrow> int option) \<Rightarrow> nat option list \<Rightarrow> u32 \<Rightarrow> nat \<Rightarrow> int list \<Rightarrow> (int \<times> int list) option" where
  "collect_loop eventfd [] n_fds idx fds = Some (int idx, fds)"
| "collect_loop eventfd (None # cs) n_fds idx fds = collect_loop eventfd cs n_fds idx fds"
| "collect_loop eventfd (Some c # cs) n_fds idx fds = do {
     fd \<leftarrow> eventfd c;
     if fd \<ge> 0 then
       if idx \<ge> unat n_fds then Some (- ENOMEM, fds)
       else if idx < length fds then collect_loop eventfd cs n_fds (Suc idx) (fds[idx := fd])
       else None
     else collect_loop eventfd cs n_fds idx fds
   }"

definition array_of :: "nat option list option \<Rightarrow> u32 \<Rightarrow> nat option list option" where
  "array_of arr n =
     (case arr of
        None \<Rightarrow> if n = 0 then Some [] else None
      | Some cs \<Rightarrow> if unat n \<le> length cs then Some (take (unat n) cs) else None)"

definition collect_fds :: "ri_group \<Rightarrow> int list \<Rightarrow> u32 \<Rightarrow> world \<Rightarrow> (int \<times> int list) option" where
  "collect_fds grp fds n_fds w =
     (if n_fds < 1 then Some (- EINVAL, fds) else do {
        shm \<leftarrow> (case gr_shm grp of None \<Rightarrow> None | Some i \<Rightarrow> live (w_shms w) i);
        ps \<leftarrow> array_of (gr_producers grp) (gd_n_producers (gr_data grp));
        cs \<leftarrow> array_of (gr_consumers grp) (gd_n_consumers (gr_data grp));
        if fds = [] then None else do {
          (idx, fds) \<leftarrow> collect_loop (\<lambda>p. map_option ri_producer_eventfd (live (w_producers w) p)) ps n_fds 1
             (fds[0 := ri_shm_get_fd shm]);
          if idx < 0 then Some (idx, fds)
          else collect_loop (\<lambda>c. map_option ri_consumer_eventfd (live (w_consumers w) c)) cs n_fds (nat idx) fds
        }
      })"

text \<open>The value returned, the request, the descriptors and their number.\<close>

definition ri_group_serialize :: "u64 \<Rightarrow> ri_group \<Rightarrow> u8 list \<Rightarrow> u64 \<Rightarrow> int list \<Rightarrow> u32 option \<Rightarrow> world
    \<Rightarrow> (int \<times> u8 list \<times> int list \<times> u32 option) option" where
  "ri_group_serialize cls grp req sz fds n_fds w =
     (case n_fds of
        None \<Rightarrow> Some (- EINVAL, req, fds, n_fds)
      | Some n \<Rightarrow>
          if n < 1 then Some (- EINVAL, req, fds, n_fds)
          else case ri_request_write cls (ri_group_data_attr (gr_data grp)) req sz of
            Returns (req, r) \<Rightarrow>
              if r < 0 then Some (r, req, fds, n_fds) else do {
                (cnt, fds) \<leftarrow> collect_fds grp fds n w;
                if cnt < 0 then Some (cnt, req, fds, n_fds) else Some (r, req, fds, Some (word_of_int cnt))
              }
          | _ \<Rightarrow> None)"

section \<open>Deserialisation\<close>

definition take_eventfd :: "nat \<Rightarrow> int list \<Rightarrow> u32 \<Rightarrow> world \<Rightarrow> ((int \<times> int list) \<times> world) option" where
  "take_eventfd idx fds n_fds w =
     (if idx \<ge> unat n_fds then Some ((-1, fds), w)
      else if idx \<ge> length fds then None
      else let eventfd = fds ! idx in
        if eventfd < 0 then Some ((eventfd, fds), w)
        else let r = ri_eventfd_verify eventfd w in
          if r < 0 then Some ((r, fds), w)
          else let (r, w) = ri_set_nonblocking eventfd w in
            if r < 0 then Some ((r, fds), w) else Some ((eventfd, fds[idx := -1]), w))"

text \<open>
  The loop that maps the channels of a table: the ones mapped, whether all were, and the next
  offset, index and descriptors. On failure an eventfd already taken is closed.
\<close>

fun map_channels :: "(ri_channel_attr \<Rightarrow> int \<Rightarrow> u64 \<Rightarrow> world \<Rightarrow> (nat option \<times> world) option) \<Rightarrow> u64
    \<Rightarrow> ri_channel_attr list \<Rightarrow> u64 \<Rightarrow> nat \<Rightarrow> int list \<Rightarrow> u32 \<Rightarrow> world
    \<Rightarrow> ((nat list \<times> bool \<times> u64 \<times> nat \<times> int list) \<times> world) option" where
  "map_channels mk cls [] shm_offset idx fds n_fds w = Some (([], True, shm_offset, idx, fds), w)"
| "map_channels mk cls (attr # attrs) shm_offset idx fds n_fds w = do {
     ((eventfd, fds), w) \<leftarrow> (if a_eventfd attr then take_eventfd idx fds n_fds w else Some ((-1, fds), w));
     let idx = (if a_eventfd attr then Suc idx else idx);
     if a_eventfd attr \<and> eventfd < 0 then Some (([], False, shm_offset, idx, fds), w) else do {
       (res, w) \<leftarrow> mk attr eventfd shm_offset w;
       (case res of
          None \<Rightarrow> Some (([], False, shm_offset, idx, fds), if eventfd \<ge> 0 then close_fd eventfd w else w)
        | Some c \<Rightarrow> do {
            ((cs, ok, rest), w) \<leftarrow> map_channels mk cls attrs (shm_offset + ri_channel_shm_size cls attr) idx fds n_fds w;
            Some ((c # cs, ok, rest), w)
          })
     }
   }"

text \<open>\<open>ri_group_map\<close>: the group as it is at the end, whether it is complete, and the descriptors.\<close>

definition ri_group_map ::
    "u64 \<Rightarrow> ri_group \<Rightarrow> int list \<Rightarrow> u32 \<Rightarrow> world \<Rightarrow> ((ri_group \<times> bool \<times> int list) \<times> world) option" where
  "ri_group_map cls grp fds n_fds w =
     (if n_fds < 1 then Some ((grp, False, fds), w)
      else case fds of
        [] \<Rightarrow> None
      | fd # _ \<Rightarrow>
          if ri_memfd_verify fd w < 0 then Some ((grp, False, fds), w)
          else case ri_shm_map fd w of
            (None, w) \<Rightarrow> Some ((grp, False, fds), w)
          | (Some i, w) \<Rightarrow> do {
              let data = gr_data grp;
              cattrs \<leftarrow> table_attrs data (gd_consumers data) (gd_n_consumers data);
              ((cs, ok, shm_offset, idx, fds), w) \<leftarrow>
                map_channels (\<lambda>attr eventfd. ri_consumer_map cls attr eventfd i) cls cattrs 0 1 (fds[0 := -1]) n_fds w;
              let grp = grp\<lparr>gr_shm := Some i, gr_consumers := filled (gr_consumers grp) cs\<rparr>;
              if \<not> ok then Some ((grp, False, fds), w) else do {
                pattrs \<leftarrow> table_attrs data (gd_producers data) (gd_n_producers data);
                ((ps, ok, shm_offset, idx, fds), w) \<leftarrow>
                  map_channels (\<lambda>attr eventfd. ri_producer_map cls attr eventfd i) cls pattrs shm_offset idx fds n_fds w;
                Some ((grp\<lparr>gr_producers := filled (gr_producers grp) ps\<rparr>, ok, fds), w)
              }
            })"

text \<open>The same failure of \<open>ri_group_data_new\<close>, for the counters in a request.\<close>

definition parse_keeps_freed_table :: "u64 \<Rightarrow> allocs \<Rightarrow> u8 list \<Rightarrow> u64 \<Rightarrow> bool" where
  "parse_keeps_freed_table cls al req sz \<longleftrightarrow>
     (case request_read \<lparr>rd_data = req, rd_size = sz, rd_offset = 0\<rparr> sizeof_header of
        Returns (Some (reader, bs)) \<Rightarrow>
          ri_request_header_validate cls (header_of bs) \<ge> 0 \<and>
          (case and_then (read_u32 reader) (\<lambda>(reader, group_info_size).
             and_then (read_u32 reader) (\<lambda>(reader, n_consumers).
             and_then (read_u32 reader) (\<lambda>(reader, n_producers). Returns (n_consumers, n_producers)))) of
             Returns (n_consumers, n_producers) \<Rightarrow> freed_table_kept al n_consumers n_producers
           | _ \<Rightarrow> False)
      | _ \<Rightarrow> False)"

definition ri_group_deserialize :: "u64 \<Rightarrow> (nat \<Rightarrow> u8) \<Rightarrow> u8 list \<Rightarrow> u64 \<Rightarrow> int list \<Rightarrow> u32 option \<Rightarrow> world
    \<Rightarrow> ((ri_group option \<times> int list) \<times> world) option" where
  "ri_group_deserialize cls raw req sz fds n_fds w =
     (case n_fds of
        None \<Rightarrow> Some ((None, fds), w)
      | Some n \<Rightarrow>
          if n < 1 then Some ((None, fds), w) else
          let (ok, w) = ask w in
          if \<not> ok then Some ((None, fds), w) else
          let (al, w) = take_allocs raw w in
          case ri_request_parse cls al req sz of
            Undefined \<Rightarrow> None
          | Fails r \<Rightarrow> if parse_keeps_freed_table cls al req sz then None else Some ((None, fds), w)
          | Returns data \<Rightarrow>
              (case ri_group_alloc_channels data w of
                 (None, w) \<Rightarrow> Some ((None, fds), w)
               | (Some (consumers, producers), w) \<Rightarrow> do {
                   let grp = \<lparr>gr_data = data, gr_shm = None, gr_consumers = consumers, gr_producers = producers\<rparr>;
                   ((grp, ok, fds), w) \<leftarrow> ri_group_map cls grp fds n w;
                   if \<not> ok then do { w \<leftarrow> ri_group_delete grp w; Some ((None, fds), w) }
                   else Some ((Some grp, fds), w)
                 }))"

section \<open>Acquisition\<close>

definition ri_group_acquire_producer :: "ri_group \<Rightarrow> u32 \<Rightarrow> world \<Rightarrow> (nat option \<times> world) option" where
  "ri_group_acquire_producer grp index w =
     (if index \<ge> gd_n_producers (gr_data grp) then Some (None, w) else do {
        ps \<leftarrow> array_of (gr_producers grp) (gd_n_producers (gr_data grp));
        p \<leftarrow> ps ! unat index;
        (r, w) \<leftarrow> ri_producer_acquire p w;
        Some (if r < 0 then None else Some p, w)
      })"

definition ri_group_acquire_consumer :: "ri_group \<Rightarrow> u32 \<Rightarrow> world \<Rightarrow> (nat option \<times> world) option" where
  "ri_group_acquire_consumer grp index w =
     (if index \<ge> gd_n_consumers (gr_data grp) then Some (None, w) else do {
        cs \<leftarrow> array_of (gr_consumers grp) (gd_n_consumers (gr_data grp));
        c \<leftarrow> cs ! unat index;
        (r, w) \<leftarrow> ri_consumer_acquire c w;
        Some (if r < 0 then None else Some c, w)
      })"

end
