(* ===== verification/Unix.thy ===== *)
theory Unix
  imports World Request
begin

text \<open>
  Messages on a Unix domain socket (\<open>src/unix.c\<close>). A call of the library uses one connection; \<open>h_in\<close> are the messages that
  arrive on it before the peer closes its end, \<open>h_sent\<close> those that were sent. Descriptors passed along (\<open>SCM_RIGHTS\<close>) travel as
  the files behind them, and the receiver gets new descriptors for them.
\<close>

section \<open>The connection\<close>

record message =
  mg_data :: "u8 list"
  mg_files :: "nat list"

text \<open>\<open>h_paths\<close>: the socket files in the file system.\<close>

record host =
  h_world :: world
  h_in :: "message list"
  h_sent :: "message list"
  h_paths :: "string list"

definition ask_host :: "host \<Rightarrow> bool \<times> host" where
  "ask_host h = (let (ok, w) = ask (h_world h) in (ok, h\<lparr>h_world := w\<rparr>))"

definition close_host :: "int \<Rightarrow> host \<Rightarrow> host" where
  "close_host fd h = h\<lparr>h_world := close_fd fd (h_world h)\<rparr>"

definition SCM_MAX_FD :: u32 where
  "SCM_MAX_FD = 253"

text \<open>The \<open>ssize_t\<close> results of \<open>sendmsg\<close> and \<open>recvmsg\<close> are converted to \<open>int\<close>.\<close>

definition int_of_size :: "nat \<Rightarrow> int" where
  "int_of_size n = sint (of_nat n :: u32)"

text \<open>
  \<open>sendmsg\<close>: the call may fail, and does when a descriptor is not open or there are more than the kernel passes. \<open>None\<close>: the data
  is read beyond its buffer.
\<close>

definition sendmsg :: "u8 list \<Rightarrow> u64 \<Rightarrow> int list \<Rightarrow> host \<Rightarrow> (int \<times> host) option" where
  "sendmsg data sz fds h =
     (if unat sz > length data then None else
      let (ok, h) = ask_host h; files = map (map_of (w_fds (h_world h))) fds in
      if \<not> ok \<or> None \<in> set files \<or> length fds > unat SCM_MAX_FD then Some (-1, h)
      else Some (int_of_size (unat sz),
        h\<lparr>h_sent := h_sent h @ [\<lparr>mg_data = take (unat sz) data, mg_files = map the files\<rparr>]\<rparr>))"

text \<open>\<open>recvmsg\<close> with \<open>MSG_PEEK | MSG_TRUNC\<close>: the size of the next message, 0 when the peer has closed.\<close>

definition peek :: "host \<Rightarrow> int \<times> host" where
  "peek h = (let (ok, h) = ask_host h in
     if \<not> ok then (-1, h)
     else (case h_in h of [] \<Rightarrow> 0 | msg # _ \<Rightarrow> int_of_size (length (mg_data msg)), h))"

text \<open>New descriptors for the files, in order.\<close>

fun install :: "nat list \<Rightarrow> world \<Rightarrow> int list \<times> world" where
  "install [] w = ([], w)"
| "install (n # ns) w = (let fd = fresh_fd (w_fds w); (fds, w) = install ns (w\<lparr>w_fds := (fd, n) # w_fds w\<rparr>) in (fd # fds, w))"

text \<open>
  \<open>recvmsg\<close> into a buffer of \<open>sz\<close> bytes with room for \<open>max_fds\<close> descriptors: the result, the bytes and the descriptors. Files
  beyond the room are dropped.
\<close>

definition recvmsg :: "u64 \<Rightarrow> nat \<Rightarrow> host \<Rightarrow> (int \<times> u8 list \<times> int list) \<times> host" where
  "recvmsg sz max_fds h = (let (ok, h) = ask_host h in
     if \<not> ok then ((-1, [], []), h) else
     (case h_in h of
        [] \<Rightarrow> ((0, [], []), h)
      | msg # rest \<Rightarrow>
          let (fds, w) = install (take max_fds (mg_files msg)) (h_world h); data = take (unat sz) (mg_data msg) in
          ((int_of_size (length data), data, fds), h\<lparr>h_world := w, h_in := rest\<rparr>)))"

section \<open>Plain messages\<close>

definition ri_uxsocket_send :: "u8 list \<Rightarrow> u64 \<Rightarrow> host \<Rightarrow> (int \<times> host) option" where
  "ri_uxsocket_send data sz h = sendmsg data sz [] h"

text \<open>The second receive may find less than the first announced; the block is zeroed by \<open>calloc\<close>.\<close>

definition ri_uxsocket_receive :: "host \<Rightarrow> (u8 list \<times> u64) option \<times> host" where
  "ri_uxsocket_receive h =
     (let (r, h) = peek h in
      if r \<le> 0 then (None, h) else
      let sz = word_of_int r :: u64; (ok, h) = ask_host h in
      if \<not> ok then (None, h) else
      let ((r, data, fds), h) = recvmsg sz 0 h in
      if r \<noteq> sint (ucast sz :: u32) then (None, h)
      else (Some (data @ replicate (unat sz - length data) 0, sz), h))"

section \<open>Messages with descriptors\<close>

datatype ri_uxmsg_dir = RI_UXMSG_RX | RI_UXMSG_TX

record ri_uxmsg =
  um_dir :: ri_uxmsg_dir
  um_data :: "u8 list"
  um_size :: u64
  um_n_fds :: u32
  um_fds :: "int list"

text \<open>The initial content \<open>raw\<close> of the data is not determined.\<close>

definition ri_uxmsg_new :: "(nat \<Rightarrow> u8) \<Rightarrow> u64 \<Rightarrow> host \<Rightarrow> ri_uxmsg option \<times> host" where
  "ri_uxmsg_new raw sz h =
     (let (ok, h) = ask_host h in
      if \<not> ok then (None, h) else
      let (ok, h) = ask_host h in
      if \<not> ok then (None, h) else
      (Some \<lparr>um_dir = RI_UXMSG_TX, um_data = map raw [0..<unat sz], um_size = sz, um_n_fds = 0,
         um_fds = replicate (unat SCM_MAX_FD) 0\<rparr>, h))"

fun close_all :: "int list \<Rightarrow> host \<Rightarrow> host" where
  "close_all [] h = h"
| "close_all (fd # fds) h = close_all fds (if fd > 0 then close_host fd h else h)"

text \<open>\<open>None\<close>: the descriptors are read beyond the message.\<close>

definition ri_uxmsg_delete :: "ri_uxmsg \<Rightarrow> host \<Rightarrow> host option" where
  "ri_uxmsg_delete msg h =
     (if um_dir msg = RI_UXMSG_RX then
        if unat (um_n_fds msg) \<le> length (um_fds msg) then Some (close_all (take (unat (um_n_fds msg)) (um_fds msg)) h) else None
      else Some h)"

definition ri_uxmsg_data :: "ri_uxmsg \<Rightarrow> u8 list \<times> u64" where
  "ri_uxmsg_data msg = (um_data msg, um_size msg)"

definition ri_uxmsg_fds :: "ri_uxmsg \<Rightarrow> int list \<times> u32" where
  "ri_uxmsg_fds msg = (um_fds msg, if um_dir msg = RI_UXMSG_RX then um_n_fds msg else SCM_MAX_FD)"

definition ri_uxmsg_set_num_fds :: "ri_uxmsg \<Rightarrow> u32 \<Rightarrow> ri_uxmsg \<times> int" where
  "ri_uxmsg_set_num_fds msg n_fds =
     (if um_dir msg \<noteq> RI_UXMSG_TX \<or> n_fds < 1 then (msg, - EINVAL) else (msg\<lparr>um_n_fds := n_fds\<rparr>, 0))"

text \<open>
  A control buffer for more descriptors than the structure holds would be read beyond its end: the kernel refuses it after
  copying it from the process.
\<close>

definition ri_uxmsg_send :: "ri_uxmsg \<Rightarrow> host \<Rightarrow> (int \<times> host) option" where
  "ri_uxmsg_send msg h =
     (if unat (um_n_fds msg) > length (um_fds msg) then None
      else sendmsg (um_data msg) (um_size msg) (take (unat (um_n_fds msg)) (um_fds msg)) h)"

definition ri_uxmsg_receive :: "(nat \<Rightarrow> u8) \<Rightarrow> host \<Rightarrow> (ri_uxmsg option \<times> host) option" where
  "ri_uxmsg_receive raw h =
     (let (r, h) = peek h in
      if r \<le> 0 then Some (None, h) else
      case ri_uxmsg_new raw (word_of_int r) h of
        (None, h) \<Rightarrow> Some (None, h)
      | (Some msg, h) \<Rightarrow>
          let msg = msg\<lparr>um_dir := RI_UXMSG_RX\<rparr>;
              ((r, data, fds), h) = recvmsg (um_size msg) (unat SCM_MAX_FD) h;
              msg = msg\<lparr>um_data := data @ drop (length data) (um_data msg),
                um_fds := fds @ drop (length fds) (um_fds msg)\<rparr> in
          if r \<noteq> sint (ucast (um_size msg) :: u32) then map_option (\<lambda>h. (None, h)) (ri_uxmsg_delete msg h)
          else Some (Some (msg\<lparr>um_n_fds := of_nat (length fds)\<rparr>), h))"

end
