(* ===== verification/Connect.thy ===== *)
theory Connect
  imports Group Unix
begin

text \<open>
  Establishing a group between two processes (\<open>src/connect.c\<close>): the client creates the group, sends the request with
  the descriptors and waits for the response; the server maps what it receives and answers. \<open>cls\<close> is the result of
  \<open>cacheline_size\<close>, \<open>raw\<close> the content of fresh memory. The address of a server keeps at most 107 characters of the path.
\<close>

section \<open>Running an operation of the process\<close>

definition on_world :: "(world \<Rightarrow> ('r \<times> world) option) \<Rightarrow> host \<Rightarrow> ('r \<times> host) option" where
  "on_world f h = map_option (\<lambda>(r, w). (r, h\<lparr>h_world := w\<rparr>)) (f (h_world h))"

definition delete_group :: "ri_group \<Rightarrow> host \<Rightarrow> host option" where
  "delete_group grp h = map_option (\<lambda>w. h\<lparr>h_world := w\<rparr>) (ri_group_delete grp (h_world h))"

text \<open>The system call \<open>socket\<close>.\<close>

definition new_socket :: "host \<Rightarrow> int \<times> host" where
  "new_socket h = (let (ok, h) = ask_host h in
     if \<not> ok then (-1, h)
     else let (fd, w) = open_file (Other_File ''socket:[0]'') (h_world h) in (fd, h\<lparr>h_world := w\<rparr>))"

section \<open>The server's socket\<close>

record ri_server =
  sv_sockfd :: int
  sv_path :: string

definition sun_path :: "string \<Rightarrow> string" where
  "sun_path path = take 107 path"

text \<open>\<open>bind\<close> makes the socket file and fails when there is one already.\<close>

definition ri_server_new :: "string \<Rightarrow> host \<Rightarrow> ri_server option \<times> host" where
  "ri_server_new path h =
     (let (ok, h) = ask_host h in
      if \<not> ok then (None, h) else
      let (sockfd, h) = new_socket h in
      if sockfd < 0 then (None, h) else
      let (ok, h) = ask_host h in
      if \<not> ok \<or> sun_path path \<in> set (h_paths h) then (None, close_host sockfd h) else
      let h = h\<lparr>h_paths := sun_path path # h_paths h\<rparr>; (ok, h) = ask_host h in
      if \<not> ok then (None, close_host sockfd h)
      else (Some \<lparr>sv_sockfd = sockfd, sv_path = sun_path path\<rparr>, h))"

definition ri_server_socket :: "ri_server \<Rightarrow> int" where
  "ri_server_socket server = sv_sockfd server"

definition ri_server_delete :: "ri_server \<Rightarrow> host \<Rightarrow> host" where
  "ri_server_delete server h = (let h = close_host (sv_sockfd server) h in
     h\<lparr>h_paths := removeAll (sv_path server) (h_paths h)\<rparr>)"

section \<open>Accepting a group\<close>

definition server_send_response :: "u32 \<Rightarrow> host \<Rightarrow> (int \<times> host) option" where
  "server_send_response res h = ri_uxsocket_send (le_bytes 4 res) 4 h"

text \<open>The group, and the message with the descriptors that were not taken.\<close>

definition request_to_group :: "u64 \<Rightarrow> (nat \<Rightarrow> u8) \<Rightarrow> ri_uxmsg \<Rightarrow> host \<Rightarrow> ((ri_group option \<times> ri_uxmsg) \<times> host) option" where
  "request_to_group cls raw req h =
     (let (data, sz) = ri_uxmsg_data req; (fds, n_fds) = ri_uxmsg_fds req in do {
        ((grp, fds), h) \<leftarrow> on_world (ri_group_deserialize cls raw data sz fds (Some n_fds)) h;
        Some ((grp, req\<lparr>um_fds := fds\<rparr>), h)
      })"

text \<open>
  The user's callback is a parameter; it is given the attributes and the numbers of channels as the server sees them. Anything but
  \<open>Returns\<close> is a callback whose behaviour is undefined.
\<close>

type_synonym ri_filter_fn = "ri_group_attr \<Rightarrow> u32 \<Rightarrow> u32 \<Rightarrow> bool outcome"

definition filter_accepts :: "ri_filter_fn option \<Rightarrow> ri_group \<Rightarrow> bool option" where
  "filter_accepts filter_fn grp =
     (case filter_fn of
        None \<Rightarrow> Some True
      | Some f \<Rightarrow>
          (case f (ri_group_get_attr grp) (ri_group_num_consumers grp) (ri_group_num_producers grp) of
             Returns accepted \<Rightarrow> Some accepted
           | _ \<Rightarrow> None))"

definition ri_server_socket_accept ::
    "u64 \<Rightarrow> (nat \<Rightarrow> u8) \<Rightarrow> ri_filter_fn option \<Rightarrow> host \<Rightarrow> (ri_group option \<times> host) option" where
  "ri_server_socket_accept cls raw filter_fn h = do {
     (req, h) \<leftarrow> ri_uxmsg_receive raw h;
     (case req of
        None \<Rightarrow> do { (_, h) \<leftarrow> server_send_response (-1) h; Some (None, h) }
      | Some req \<Rightarrow> do {
          ((grp, req), h) \<leftarrow> request_to_group cls raw req h;
          (case grp of
             None \<Rightarrow> do { h \<leftarrow> ri_uxmsg_delete req h; (_, h) \<leftarrow> server_send_response (-1) h; Some (None, h) }
           | Some grp \<Rightarrow> do {
               accepted \<leftarrow> filter_accepts filter_fn grp;
               if accepted
               then do { (_, h) \<leftarrow> server_send_response 0 h; h \<leftarrow> ri_uxmsg_delete req h; Some (Some grp, h) }
               else do {
                 h \<leftarrow> delete_group grp h; h \<leftarrow> ri_uxmsg_delete req h;
                 (_, h) \<leftarrow> server_send_response (-1) h;
                 Some (None, h)
               }
             })
        })
   }"

text \<open>\<open>accept\<close> gives a descriptor for the connection.\<close>

definition ri_server_accept ::
    "u64 \<Rightarrow> (nat \<Rightarrow> u8) \<Rightarrow> ri_server \<Rightarrow> ri_filter_fn option \<Rightarrow> host \<Rightarrow> (ri_group option \<times> host) option" where
  "ri_server_accept cls raw server filter_fn h =
     (let (socket, h) = new_socket h in
      if socket < 0 then Some (None, h) else do {
        (vec, h) \<leftarrow> ri_server_socket_accept cls raw filter_fn h;
        Some (vec, close_host socket h)
      })"

section \<open>Connecting\<close>

definition connect_path :: "string \<Rightarrow> host \<Rightarrow> int \<times> host" where
  "connect_path path h =
     (let (sockfd, h) = new_socket h in
      if sockfd < 0 then (neg_errno (h_world h), h) else
      let (ok, h) = ask_host h in
      if \<not> ok then (neg_errno (h_world h), close_host sockfd h) else (sockfd, h))"

text \<open>A response of the wrong size makes the result that of sending, which was not negative.\<close>

definition exchange :: "ri_uxmsg \<Rightarrow> host \<Rightarrow> (int \<times> host) option" where
  "exchange req h = do {
     (r, h) \<leftarrow> ri_uxmsg_send req h;
     if r < 0 then Some (r, h) else
     let (response, h) = ri_uxsocket_receive h in
     case response of
       None \<Rightarrow> Some (-1, h)
     | Some (bytes, response_size) \<Rightarrow>
         if response_size \<noteq> 4 then Some (r, h)
         else Some (sint (of_le (take 4 bytes) :: u32), h)
   }"

definition uxmsg_from_group ::
    "u64 \<Rightarrow> (nat \<Rightarrow> u8) \<Rightarrow> ri_group \<Rightarrow> host \<Rightarrow> (ri_uxmsg option \<times> host) option" where
  "uxmsg_from_group cls raw grp h =
     (case ri_group_serialize_size grp of
        Returns req_size \<Rightarrow>
          (case ri_uxmsg_new raw req_size h of
             (None, h) \<Rightarrow> Some (None, h)
           | (Some req, h) \<Rightarrow>
               let (data, req_size) = ri_uxmsg_data req; (fds, n_fds) = ri_uxmsg_fds req in do {
                 (r, data, fds, n_fds) \<leftarrow> ri_group_serialize cls grp data req_size fds (Some n_fds) (h_world h);
                 let req = req\<lparr>um_data := data, um_fds := fds\<rparr>;
                 if r < 0 then map_option (\<lambda>h. (None, h)) (ri_uxmsg_delete req h)
                 else let (req, r) = ri_uxmsg_set_num_fds req (case n_fds of None \<Rightarrow> 0 | Some n \<Rightarrow> n) in
                   if r < 0 then map_option (\<lambda>h. (None, h)) (ri_uxmsg_delete req h)
                   else Some (Some req, h)
               })
      | _ \<Rightarrow> None)"

definition ri_client_socket_connect ::
    "u64 \<Rightarrow> (nat \<Rightarrow> u8) \<Rightarrow> ri_group_attr \<Rightarrow> host \<Rightarrow> (ri_group option \<times> host) option" where
  "ri_client_socket_connect cls raw grp_attr h = do {
     (grp, h) \<leftarrow> on_world (ri_group_from_attr cls raw grp_attr) h;
     (case grp of
        None \<Rightarrow> Some (None, h)
      | Some grp \<Rightarrow> do {
          (req, h) \<leftarrow> uxmsg_from_group cls raw grp h;
          (case req of
             None \<Rightarrow> do { h \<leftarrow> delete_group grp h; Some (None, h) }
           | Some req \<Rightarrow> do {
               (r, h) \<leftarrow> exchange req h;
               h \<leftarrow> ri_uxmsg_delete req h;
               if r < 0 then do { h \<leftarrow> delete_group grp h; Some (None, h) } else Some (Some grp, h)
             })
        })
   }"

definition ri_client_connect ::
    "u64 \<Rightarrow> (nat \<Rightarrow> u8) \<Rightarrow> string \<Rightarrow> ri_group_attr \<Rightarrow> host \<Rightarrow> (ri_group option \<times> host) option" where
  "ri_client_connect cls raw path grp_attr h =
     (let (socket, h) = connect_path path h in
      if socket < 0 then Some (None, h) else do {
        (grp, h) \<leftarrow> ri_client_socket_connect cls raw grp_attr h;
        Some (grp, close_host socket h)
      })"

end
