(* ===== verification/Cxx.thy ===== *)
theory Cxx
  imports Connect
begin

text \<open>
  The C++ wrapper (\<open>src/cxx/include/rtipc/rtipc.hpp\<close>, \<open>src/cxx/src/rtipc.cpp\<close>): attributes as values, results as
  \<open>std::expected\<close>, handles as \<open>std::unique_ptr\<close> that give their object back. A vector is the list of its elements, \<open>expected\<close> a sum
  whose left side is the error, and a handle that is not null is what it points to. \<open>sizeof (T)\<close> of a template is a parameter.
\<close>

section \<open>Types\<close>

datatype Error =
    Error_null_pointer
  | Error_index_out_of_range
  | Error_attribute_mismatch
  | Error_message_size_mismatch

datatype QueueError = QueueError_invalid_index

datatype TryPushResult = TryPushResult_fail | TryPushResult_success

datatype ForcePushResult = ForcePushResult_success | ForcePushResult_message_discarded

datatype PopResult = PopResult_no_message | PopResult_no_update | PopResult_success | PopResult_messages_discarded

datatype bad_alloc = bad_alloc

type_synonym Info = "u8 list"

record ChannelAttributes =
  message_size :: u64
  additional_messages :: u32
  with_eventfd :: bool
  channel_info :: Info

record GroupAttributes =
  consumers :: "ChannelAttributes list"
  producers :: "ChannelAttributes list"
  group_info :: Info

section \<open>The deleters of the handles\<close>

definition consumer_release :: "nat option \<Rightarrow> world \<Rightarrow> world option" where
  "consumer_release consumer w = (case consumer of None \<Rightarrow> Some w | Some c \<Rightarrow> ri_consumer_release c w)"

definition producer_release :: "nat option \<Rightarrow> world \<Rightarrow> world option" where
  "producer_release producer w = (case producer of None \<Rightarrow> Some w | Some p \<Rightarrow> ri_producer_release p w)"

definition group_delete :: "ri_group option \<Rightarrow> world \<Rightarrow> world option" where
  "group_delete p w = (case p of None \<Rightarrow> Some w | Some grp \<Rightarrow> ri_group_delete grp w)"

definition server_delete :: "ri_server option \<Rightarrow> host \<Rightarrow> host" where
  "server_delete server h = (case server of None \<Rightarrow> h | Some server \<Rightarrow> ri_server_delete server h)"

section \<open>Attributes\<close>

definition to_c_info :: "Info \<Rightarrow> ri_info" where
  "to_c_info info = \<lparr>i_size = of_nat (length info), i_data = Some info\<rparr>"

definition to_c_channel_attributes :: "ChannelAttributes \<Rightarrow> ri_channel_attr" where
  "to_c_channel_attributes attr = \<lparr>a_msg_size = message_size attr, a_add_msgs = additional_messages attr,
     a_eventfd = with_eventfd attr, a_info = to_c_info (channel_info attr)\<rparr>"

text \<open>The vector of the bytes between two pointers; it reads as many as the size says.\<close>

definition info_range :: "ri_info \<Rightarrow> Info outcome" where
  "info_range info =
     (if i_size info = 0 then Returns []
      else case i_data info of
        None \<Rightarrow> Undefined
      | Some bytes \<Rightarrow> if unat (i_size info) \<le> length bytes then Returns (take (unat (i_size info)) bytes) else Undefined)"

definition ChannelAttributes_from_c_attributes :: "ri_channel_attr \<Rightarrow> ChannelAttributes outcome" where
  "ChannelAttributes_from_c_attributes c_attr =
     and_then (info_range (a_info c_attr)) (\<lambda>info. Returns
       \<lparr>message_size = a_msg_size c_attr, additional_messages = a_add_msgs c_attr, with_eventfd = a_eventfd c_attr,
        channel_info = info\<rparr>)"

text \<open>The loop over a table that ends at a message size of 0.\<close>

fun from_c_channels :: "ri_channel_attr list \<Rightarrow> ChannelAttributes list outcome" where
  "from_c_channels [] = Undefined"
| "from_c_channels (a # as) =
     (if \<not> a_msg_size a > 0 then Returns []
      else and_then (ChannelAttributes_from_c_attributes a) (\<lambda>attr.
           and_then (from_c_channels as) (\<lambda>attrs. Returns (attr # attrs))))"

definition from_c_table :: "ri_channel_attr list option \<Rightarrow> ChannelAttributes list outcome" where
  "from_c_table table = (case table of None \<Rightarrow> Returns [] | Some as \<Rightarrow> from_c_channels as)"

definition GroupAttributes_from_c_attributes :: "ri_group_attr \<Rightarrow> GroupAttributes outcome" where
  "GroupAttributes_from_c_attributes group_attr =
     and_then (from_c_table (g_consumers group_attr)) (\<lambda>cs.
     and_then (from_c_table (g_producers group_attr)) (\<lambda>ps.
     and_then (info_range (g_info group_attr)) (\<lambda>info.
     Returns \<lparr>consumers = cs, producers = ps, group_info = info\<rparr>)))"

definition CGroupAttributes :: "GroupAttributes \<Rightarrow> ri_group_attr" where
  "CGroupAttributes group_attr =
     \<lparr>g_consumers = Some (map to_c_channel_attributes (consumers group_attr) @ [channel_attr_zero]),
      g_producers = Some (map to_c_channel_attributes (producers group_attr) @ [channel_attr_zero]),
      g_info = to_c_info (group_info group_attr)\<rparr>"

section \<open>Consumers\<close>

definition ConsumerBase_current_message_ptr :: "nat \<Rightarrow> world \<Rightarrow> u64 option option" where
  "ConsumerBase_current_message_ptr consumer w = map_option ri_consumer_msg (live (w_consumers w) consumer)"

fun pop_expected :: "ri_pop_result \<Rightarrow> QueueError + PopResult" where
  "pop_expected RI_POP_RESULT_NO_MSG = Inr PopResult_no_message"
| "pop_expected RI_POP_RESULT_NO_UPDATE = Inr PopResult_no_update"
| "pop_expected RI_POP_RESULT_SUCCESS = Inr PopResult_success"
| "pop_expected RI_POP_RESULT_DISCARDED = Inr PopResult_messages_discarded"
| "pop_expected RI_POP_RESULT_ERROR = Inl QueueError_invalid_index"

definition ConsumerBase_pop :: "nat \<Rightarrow> world \<Rightarrow> ((QueueError + PopResult) \<times> world) option" where
  "ConsumerBase_pop consumer w = do {
     (result, w) \<leftarrow> ri_consumer_pop consumer w;
     Some (pop_expected result, w)
   }"

definition ConsumerBase_count_messages :: "nat \<Rightarrow> world \<Rightarrow> ((QueueError + u32) \<times> world) option" where
  "ConsumerBase_count_messages consumer w = do {
     x \<leftarrow> live (w_consumers w) consumer;
     (cnt, w) \<leftarrow> ri_consumer_count_msgs x w;
     Some (if cnt < 0 then Inl QueueError_invalid_index else Inr (word_of_int cnt), w)
   }"

definition ConsumerBase_get_eventfd :: "nat \<Rightarrow> world \<Rightarrow> int option" where
  "ConsumerBase_get_eventfd consumer w = map_option ri_consumer_eventfd (live (w_consumers w) consumer)"

definition ConsumerBase_take_eventfd :: "nat \<Rightarrow> world \<Rightarrow> (int \<times> world) option" where
  "ConsumerBase_take_eventfd consumer w = ri_consumer_take_eventfd consumer w"

text \<open>The address of the message, \<open>None\<close> for \<open>nullopt\<close>.\<close>

definition Consumer_current_message :: "nat \<Rightarrow> world \<Rightarrow> u64 option option" where
  "Consumer_current_message consumer w = do {
     vptr \<leftarrow> ConsumerBase_current_message_ptr consumer w;
     Some (case vptr of None \<Rightarrow> None | Some addr \<Rightarrow> Some addr)
   }"

section \<open>Producers\<close>

definition ProducerBase_current_message_ptr :: "nat \<Rightarrow> world \<Rightarrow> message_ptr option" where
  "ProducerBase_current_message_ptr producer w = map_option ri_producer_msg (live (w_producers w) producer)"

definition ProducerBase_get_eventfd :: "nat \<Rightarrow> world \<Rightarrow> int option" where
  "ProducerBase_get_eventfd producer w = map_option ri_producer_eventfd (live (w_producers w) producer)"

definition ProducerBase_take_eventfd :: "nat \<Rightarrow> world \<Rightarrow> (int \<times> world) option" where
  "ProducerBase_take_eventfd producer w = ri_producer_take_eventfd producer w"

text \<open>The left side is the exception.\<close>

definition ProducerBase_cache_enable :: "nat \<Rightarrow> world \<Rightarrow> ((bad_alloc + unit) \<times> world) option" where
  "ProducerBase_cache_enable producer w = do {
     (r, w) \<leftarrow> ri_producer_cache_enable producer w;
     Some (if r < 0 then Inl bad_alloc else Inr (), w)
   }"

definition ProducerBase_cache_disable :: "nat \<Rightarrow> world \<Rightarrow> world option" where
  "ProducerBase_cache_disable producer w = ri_producer_cache_disable producer w"

fun force_push_expected :: "ri_force_push_result \<Rightarrow> QueueError + ForcePushResult" where
  "force_push_expected RI_FORCE_PUSH_RESULT_SUCCESS = Inr ForcePushResult_success"
| "force_push_expected RI_FORCE_PUSH_RESULT_DISCARDED = Inr ForcePushResult_message_discarded"
| "force_push_expected RI_FORCE_PUSH_RESULT_ERROR = Inl QueueError_invalid_index"

definition ProducerBase_force_push :: "nat \<Rightarrow> world \<Rightarrow> ((QueueError + ForcePushResult) \<times> world) option" where
  "ProducerBase_force_push producer w = do {
     (result, w) \<leftarrow> ri_producer_force_push producer w;
     Some (force_push_expected result, w)
   }"

fun try_push_expected :: "ri_try_push_result \<Rightarrow> QueueError + TryPushResult" where
  "try_push_expected RI_TRY_PUSH_RESULT_SUCCESS = Inr TryPushResult_success"
| "try_push_expected RI_TRY_PUSH_RESULT_FAIL = Inr TryPushResult_fail"
| "try_push_expected RI_TRY_PUSH_RESULT_ERROR = Inl QueueError_invalid_index"

definition ProducerBase_try_push :: "nat \<Rightarrow> world \<Rightarrow> ((QueueError + TryPushResult) \<times> world) option" where
  "ProducerBase_try_push producer w = do {
     (result, w) \<leftarrow> ri_producer_try_push producer w;
     Some (try_push_expected result, w)
   }"

definition ProducerBase_count_messages :: "nat \<Rightarrow> world \<Rightarrow> ((QueueError + u32) \<times> world) option" where
  "ProducerBase_count_messages producer w = do {
     x \<leftarrow> live (w_producers w) producer;
     (cnt, w) \<leftarrow> ri_producer_count_msgs x w;
     Some (if cnt < 0 then Inl QueueError_invalid_index else Inr (word_of_int cnt), w)
   }"

section \<open>Groups\<close>

text \<open>A null pointer becomes the error \<open>null_pointer\<close>.\<close>

definition expect_pointer :: "'a option \<Rightarrow> Error + 'a" where
  "expect_pointer p = (case p of None \<Rightarrow> Inl Error_null_pointer | Some x \<Rightarrow> Inr x)"

definition ChannelGroup_from_attributes ::
    "u64 \<Rightarrow> (nat \<Rightarrow> u8) \<Rightarrow> GroupAttributes \<Rightarrow> world \<Rightarrow> ((Error + ri_group) \<times> world) option" where
  "ChannelGroup_from_attributes cls raw group_attr w =
     (let c_consumers = map to_c_channel_attributes (consumers group_attr) @ [channel_attr_zero];
          c_producers = map to_c_channel_attributes (producers group_attr) @ [channel_attr_zero];
          c_group_attr = \<lparr>g_consumers = Some c_consumers, g_producers = Some c_producers, g_info = to_c_info (group_info group_attr)\<rparr>
      in do {
        (p, w) \<leftarrow> ri_group_from_attr cls raw c_group_attr w;
        Some (expect_pointer p, w)
      })"

text \<open>The loop over the descriptors that are left.\<close>

fun close_remaining :: "int list \<Rightarrow> world \<Rightarrow> int list \<times> world" where
  "close_remaining [] w = ([], w)"
| "close_remaining (fd # fds) w =
     (let (fd, w) = (if fd \<ge> 0 then (-1, close_fd fd w) else (fd, w)); (fds, w) = close_remaining fds w in (fd # fds, w))"

text \<open>\<open>n_fds\<close> is passed by reference, but \<open>ri_group_deserialize\<close> only reads it.\<close>

definition ChannelGroup_deserialize ::
    "u64 \<Rightarrow> (nat \<Rightarrow> u8) \<Rightarrow> u8 list \<Rightarrow> int list \<Rightarrow> world \<Rightarrow> (((Error + ri_group) \<times> int list) \<times> world) option" where
  "ChannelGroup_deserialize cls raw req fds w =
     (let n_fds = of_nat (length fds) in do {
        ((p, fds), w) \<leftarrow> ri_group_deserialize cls raw req (of_nat (length req)) fds (Some n_fds) w;
        (case p of
           None \<Rightarrow> Some ((Inl Error_null_pointer, fds), w)
         | Some grp \<Rightarrow>
             if unat n_fds \<le> length fds then
               let (rest, w) = close_remaining (drop (unat n_fds) fds) w in
               Some ((Inr grp, take (unat n_fds) fds @ rest), w)
             else None)
      })"

definition ChannelGroup_serialize :: "u64 \<Rightarrow> ri_group \<Rightarrow> world \<Rightarrow> (int + u8 list \<times> int list) option" where
  "ChannelGroup_serialize cls grp w =
     (case ri_group_serialize_size grp of
        Returns req_size \<Rightarrow>
          (let req = replicate (unat req_size) 0; fds = replicate 253 0 in do {
             (r, req, fds, n_fds) \<leftarrow> ri_group_serialize cls grp req (of_nat (length req)) fds (Some 253) w;
             if r < 0 then Some (Inl r) else
             case n_fds of
               None \<Rightarrow> None
             | Some n_fds \<Rightarrow> if unat n_fds \<le> length fds then Some (Inr (req, take (unat n_fds) fds)) else None
           })
      | _ \<Rightarrow> None)"

text \<open>An entry of a table of the group, \<open>None\<close> for a null pointer.\<close>

definition ChannelGroup_get_consumer_attributes :: "ri_group \<Rightarrow> u32 \<Rightarrow> (Error + ChannelAttributes) outcome" where
  "ChannelGroup_get_consumer_attributes grp index =
     and_then (ri_group_get_consumer_attr grp index) (\<lambda>attr.
     case attr of
       None \<Rightarrow> Returns (Inl Error_index_out_of_range)
     | Some d \<Rightarrow> and_then (ChannelAttributes_from_c_attributes (attr_of (gd_mem_infos (gr_data grp)) d)) (\<lambda>a. Returns (Inr a)))"

definition ChannelGroup_get_producer_attributes :: "ri_group \<Rightarrow> u32 \<Rightarrow> (Error + ChannelAttributes) outcome" where
  "ChannelGroup_get_producer_attributes grp index =
     and_then (ri_group_get_producer_attr grp index) (\<lambda>attr.
     case attr of
       None \<Rightarrow> Returns (Inl Error_index_out_of_range)
     | Some d \<Rightarrow> and_then (ChannelAttributes_from_c_attributes (attr_of (gd_mem_infos (gr_data grp)) d)) (\<lambda>a. Returns (Inr a)))"

definition ChannelGroup_acquire_consumer_impl :: "ri_group \<Rightarrow> u32 \<Rightarrow> world \<Rightarrow> ((Error + nat) \<times> world) option" where
  "ChannelGroup_acquire_consumer_impl grp index w = do {
     (consumer, w) \<leftarrow> ri_group_acquire_consumer grp index w;
     Some (case consumer of None \<Rightarrow> Inl Error_index_out_of_range | Some c \<Rightarrow> Inr c, w)
   }"

definition ChannelGroup_acquire_producer_impl :: "ri_group \<Rightarrow> u32 \<Rightarrow> world \<Rightarrow> ((Error + nat) \<times> world) option" where
  "ChannelGroup_acquire_producer_impl grp index w = do {
     (producer, w) \<leftarrow> ri_group_acquire_producer grp index w;
     Some (case producer of None \<Rightarrow> Inl Error_index_out_of_range | Some p \<Rightarrow> Inr p, w)
   }"

definition ChannelGroup_consumer_message_size :: "ri_group \<Rightarrow> u32 \<Rightarrow> (Error + u64) outcome" where
  "ChannelGroup_consumer_message_size grp index =
     and_then (ri_group_get_consumer_attr grp index) (\<lambda>attr.
     Returns (case attr of None \<Rightarrow> Inl Error_index_out_of_range | Some d \<Rightarrow> Inr (d_msg_size d)))"

definition ChannelGroup_producer_message_size :: "ri_group \<Rightarrow> u32 \<Rightarrow> (Error + u64) outcome" where
  "ChannelGroup_producer_message_size grp index =
     and_then (ri_group_get_producer_attr grp index) (\<lambda>attr.
     Returns (case attr of None \<Rightarrow> Inl Error_index_out_of_range | Some d \<Rightarrow> Inr (d_msg_size d)))"

definition ChannelGroup_acquire_consumer :: "u64 \<Rightarrow> ri_group \<Rightarrow> u32 \<Rightarrow> world \<Rightarrow> ((Error + nat) \<times> world) option" where
  "ChannelGroup_acquire_consumer size_of_T grp index w =
     (case ChannelGroup_consumer_message_size grp index of
        Returns (Inl error) \<Rightarrow> Some (Inl error, w)
      | Returns (Inr sz) \<Rightarrow>
          if sz < size_of_T then Some (Inl Error_message_size_mismatch, w)
          else ChannelGroup_acquire_consumer_impl grp index w
      | _ \<Rightarrow> None)"

definition ChannelGroup_acquire_producer :: "u64 \<Rightarrow> ri_group \<Rightarrow> u32 \<Rightarrow> world \<Rightarrow> ((Error + nat) \<times> world) option" where
  "ChannelGroup_acquire_producer size_of_T grp index w =
     (case ChannelGroup_producer_message_size grp index of
        Returns (Inl error) \<Rightarrow> Some (Inl error, w)
      | Returns (Inr sz) \<Rightarrow>
          if sz < size_of_T then Some (Inl Error_message_size_mismatch, w)
          else ChannelGroup_acquire_producer_impl grp index w
      | _ \<Rightarrow> None)"

section \<open>Connections\<close>

text \<open>The user's filter answers for attributes as values.\<close>

type_synonym Filter = "GroupAttributes \<Rightarrow> bool"

definition filter_callback :: "Filter \<Rightarrow> ri_filter_fn" where
  "filter_callback f c_attr n_consumers n_producers =
     and_then (GroupAttributes_from_c_attributes c_attr) (\<lambda>attr. Returns (f attr))"

definition Server_listen :: "string \<Rightarrow> host \<Rightarrow> (Error + ri_server) \<times> host" where
  "Server_listen path h = (let (server, h) = ri_server_new path h in (expect_pointer server, h))"

definition Server_accept ::
    "u64 \<Rightarrow> (nat \<Rightarrow> u8) \<Rightarrow> ri_server \<Rightarrow> Filter \<Rightarrow> host \<Rightarrow> ((Error + ri_group) \<times> host) option" where
  "Server_accept cls raw server f h = do {
     (p, h) \<leftarrow> ri_server_accept cls raw server (Some (filter_callback f)) h;
     Some (expect_pointer p, h)
   }"

definition Server_get_socket :: "ri_server \<Rightarrow> int" where
  "Server_get_socket server = ri_server_socket server"

definition client_connect_socket ::
    "u64 \<Rightarrow> (nat \<Rightarrow> u8) \<Rightarrow> GroupAttributes \<Rightarrow> host \<Rightarrow> ((Error + ri_group) \<times> host) option" where
  "client_connect_socket cls raw attr h = do {
     (p, h) \<leftarrow> ri_client_socket_connect cls raw (CGroupAttributes attr) h;
     Some (expect_pointer p, h)
   }"

definition client_connect ::
    "u64 \<Rightarrow> (nat \<Rightarrow> u8) \<Rightarrow> string \<Rightarrow> GroupAttributes \<Rightarrow> host \<Rightarrow> ((Error + ri_group) \<times> host) option" where
  "client_connect cls raw path attr h = do {
     (p, h) \<leftarrow> ri_client_connect cls raw path (CGroupAttributes attr) h;
     Some (expect_pointer p, h)
   }"

end
