(* ===== verification/Lost_Mappings.thy ===== *)
theory Lost_Mappings
  imports Connect
begin

text \<open>
  The one thing the library can lose: \<open>ri_shm_map\<close> leaves the mapping in place when \<open>mlock\<close> fails, and \<open>w_lost\<close> counts such mappings.
  Every other operation is \<open>calm\<close>: it loses none. \<open>leaky\<close> says of an operation that may map memory that it has lost nothing, or exactly
  one mapping, by a lock that failed during the operation.
\<close>

section \<open>Losing nothing\<close>

definition calm :: "world \<Rightarrow> world \<Rightarrow> bool" where
  "calm w v \<longleftrightarrow> w_ok v = w_ok w \<and> w_calls w \<le> w_calls v \<and> w_lost v = w_lost w"

lemma calm_refl [simp]: "calm w w"
  by (simp add: calm_def)

lemma calm_trans: "calm u v \<Longrightarrow> calm v w \<Longrightarrow> calm u w"
  by (simp add: calm_def)

lemma calm_update [simp]:
  "calm w (v\<lparr>w_files := fs\<rparr>) = calm w v" "calm w (v\<lparr>w_fds := fds\<rparr>) = calm w v" "calm w (v\<lparr>w_shms := shms\<rparr>) = calm w v"
  "calm w (v\<lparr>w_consumers := cs\<rparr>) = calm w v" "calm w (v\<lparr>w_producers := ps\<rparr>) = calm w v" "calm w (v\<lparr>w_caches := ca\<rparr>) = calm w v"
  by (simp_all add: calm_def)

lemma calm_ask: "ask w = (ok, v) \<Longrightarrow> calm w v"
  by (auto simp: ask_def calm_def)

lemma calm_close [simp]: "calm w (close_fd fd v) = calm w v"
  by (simp add: close_fd_def calm_def)

lemma calm_open: "open_file f w = (fd, v) \<Longrightarrow> calm w v"
  by (auto simp: open_file_def Let_def)

lemma calm_shm_init: "shm_init fd sz sealing w = (r, v) \<Longrightarrow> calm w v"
  by (auto simp: shm_init_def ask_def Let_def calm_def split: if_splits option.splits kernel_file.splits)

lemma calm_shmfd_create: "ri_shmfd_create sz w = (fd, v) \<Longrightarrow> calm w v"
  by (auto simp: calm_def close_fd_def ri_shmfd_create_def Let_def split: prod.splits if_splits
      dest!: calm_ask calm_open calm_shm_init)

lemma calm_eventfd_create: "ri_eventfd_create w = (fd, v) \<Longrightarrow> calm w v"
  by (auto simp: calm_def close_fd_def ri_eventfd_create_def Let_def split: prod.splits if_splits dest!: calm_ask calm_open)

lemma calm_set_nonblocking: "ri_set_nonblocking fd w = (r, v) \<Longrightarrow> calm w v"
  by (auto simp: ri_set_nonblocking_def ask_def Let_def calm_def split: if_splits option.splits kernel_file.splits)

lemma calm_shm_ref: "ri_shm_ref i w = Some v \<Longrightarrow> calm w v"
  by (auto simp: ri_shm_ref_def)

lemma calm_shm_unref: "ri_shm_unref i w = Some v \<Longrightarrow> calm w v"
  by (auto simp: ri_shm_unref_def shm_delete_def Let_def split: if_splits)

lemma calm_on_words: "on_words i offset n f w = Some (r, v) \<Longrightarrow> calm w v"
  unfolding on_words_def bind_eq_Some_conv by (elim exE conjE) (auto simp: bind_eq_Some_conv split: kernel_file.split_asm if_split_asm)

lemma calm_run_on: "run_on i offset n p w = Some (r, v) \<Longrightarrow> calm w v"
  by (auto simp: run_on_def split: prog.splits dest: calm_on_words)

section \<open>Channels\<close>

lemma calm_create_eventfd: "create_eventfd attr w = (e, v) \<Longrightarrow> calm w v"
  by (auto simp: create_eventfd_def Let_def split: if_splits prod.splits dest: calm_eventfd_create)

lemma calm_consumer_map: "ri_consumer_map cls attr e i offset w = Some (res, v) \<Longrightarrow> calm w v"
  by (auto simp: calm_def close_fd_def ri_consumer_map_def Let_def bind_eq_Some_conv split: if_splits prod.splits option.splits
      dest!: calm_ask calm_shm_ref)

lemma calm_producer_map: "ri_producer_map cls attr e i offset w = Some (res, v) \<Longrightarrow> calm w v"
  by (auto simp: calm_def close_fd_def ri_producer_map_def Let_def bind_eq_Some_conv split: if_splits prod.splits option.splits
      dest!: calm_ask calm_shm_ref calm_run_on)

lemma calm_consumer_new: "ri_consumer_new cls attr i offset w = Some (res, v) \<Longrightarrow> calm w v"
  by (auto simp: calm_def close_fd_def ri_consumer_new_def Let_def bind_eq_Some_conv split: if_splits prod.splits option.splits
      dest!: calm_create_eventfd calm_consumer_map calm_on_words)

lemma calm_producer_new: "ri_producer_new cls attr i offset w = Some (res, v) \<Longrightarrow> calm w v"
  by (auto simp: calm_def close_fd_def ri_producer_new_def Let_def bind_eq_Some_conv split: if_splits prod.splits option.splits
      dest!: calm_create_eventfd calm_producer_map calm_on_words)

lemma calm_channel_delete: "ri_consumer_delete i x w = Some v \<Longrightarrow> calm w v" "ri_producer_delete i y w = Some v \<Longrightarrow> calm w v"
  by (auto simp: ri_consumer_delete_def ri_producer_delete_def bind_eq_Some_conv Let_def dest: calm_shm_unref)

lemma calm_owners: "consumer_owners f i w = Some (x, v) \<Longrightarrow> calm w v" "producer_owners f i w = Some (y, v) \<Longrightarrow> calm w v"
  by (auto simp: consumer_owners_def producer_owners_def bind_eq_Some_conv)

lemma calm_acquire: "ri_consumer_acquire i w = Some (r, v) \<Longrightarrow> calm w v" "ri_producer_acquire i w = Some (r, v) \<Longrightarrow> calm w v"
  by (auto simp: ri_consumer_acquire_def ri_producer_acquire_def bind_eq_Some_conv dest: calm_owners)

lemma calm_release:
  "ri_consumer_release i w = Some v \<Longrightarrow> calm w v" "ri_producer_release i w = Some v \<Longrightarrow> calm w v"
  "ri_group_release_consumer i w = Some v \<Longrightarrow> calm w v" "ri_group_release_producer i w = Some v \<Longrightarrow> calm w v"
  by (auto simp: calm_def close_fd_def ri_consumer_release_def ri_producer_release_def ri_group_release_consumer_def ri_group_release_producer_def
      bind_eq_Some_conv split: if_splits dest!: calm_owners calm_channel_delete)

section \<open>Groups\<close>

lemma calm_release_all:
  assumes "\<And>i w v. grel i w = Some v \<Longrightarrow> calm w v"
  shows "release_all grel cs w = Some v \<Longrightarrow> calm w v"
proof (induction cs arbitrary: w)
  case (Cons c cs)
  then show ?case using assms by (cases c) (auto simp: bind_eq_Some_conv dest!: Cons.IH assms intro: calm_trans)
qed simp

lemma calm_release_array: "release_array ri_group_release_consumer arr n w = Some v \<Longrightarrow> calm w v"
    "release_array ri_group_release_producer arr n w = Some v \<Longrightarrow> calm w v"
  by (auto simp: release_array_def split: option.splits if_splits elim!: calm_release_all [rotated] dest: calm_release)

lemma calm_group_delete: "ri_group_delete grp w = Some v \<Longrightarrow> calm w v"
  by (auto simp: calm_def close_fd_def ri_group_delete_def bind_eq_Some_conv split: option.splits
      dest!: calm_release_array calm_shm_unref)

lemma calm_alloc_channels: "ri_group_alloc_channels data w = (res, v) \<Longrightarrow> calm w v"
  by (auto simp: calm_def close_fd_def ri_group_alloc_channels_def Let_def split: prod.splits if_splits dest!: calm_ask)

lemma calm_take_allocs: "take_allocs raw w = (al, v) \<Longrightarrow> calm w v"
  by (auto simp: calm_def close_fd_def take_allocs_def split: prod.splits dest!: calm_ask)

lemma calm_new_channels:
  assumes "\<And>attr offset w res v. mk attr offset w = Some (res, v) \<Longrightarrow> calm w v"
  shows "new_channels mk cls attrs offset w = Some (res, v) \<Longrightarrow> calm w v"
proof (induction attrs arbitrary: offset w res)
  case (Cons attr attrs)
  then obtain c w1 where c: "mk attr offset w = Some (c, w1)" by (auto simp: bind_eq_Some_conv)
  show ?case using Cons calm_trans [OF assms [OF c]] c assms [OF c]
    by (cases c) (auto simp: bind_eq_Some_conv)
qed simp

lemma calm_take_eventfd: "take_eventfd idx fds n w = Some (r, v) \<Longrightarrow> calm w v"
  by (auto simp: take_eventfd_def Let_def split: if_splits prod.splits dest: calm_set_nonblocking)

lemma calm_map_channels:
  assumes "\<And>attr e offset w res v. mk attr e offset w = Some (res, v) \<Longrightarrow> calm w v"
  shows "map_channels mk cls attrs offset idx fds n w = Some (res, v) \<Longrightarrow> calm w v"
proof (induction attrs arbitrary: offset idx fds w res)
  case (Cons attr attrs)
  define taking where "taking = (if a_eventfd attr then take_eventfd idx fds n w else Some ((-1, fds), w))"
  from Cons.prems obtain e fds1 w1 where t: "taking = Some ((e, fds1), w1)"
    unfolding map_channels.simps taking_def [symmetric] by (cases taking) auto
  have w1: "calm w w1" using t by (auto simp: taking_def split: if_splits dest: calm_take_eventfd)
  show ?case
  proof (cases "a_eventfd attr \<and> e < 0")
    case True
    then show ?thesis using Cons.prems w1 t unfolding map_channels.simps taking_def [symmetric] by (simp add: Let_def)
  next
    case False
    then obtain c w2 where c: "mk attr e offset w1 = Some (c, w2)"
      using Cons.prems t unfolding map_channels.simps taking_def [symmetric] by (auto simp: Let_def bind_eq_Some_conv split: if_splits)
    have w2: "calm w w2" by (rule calm_trans [OF w1 assms [OF c]])
    show ?thesis using Cons.prems t c w2 calm_trans [OF w2 Cons.IH] False unfolding map_channels.simps taking_def [symmetric]
      by (cases c) (auto simp: Let_def bind_eq_Some_conv split: if_splits)
  qed
qed simp

lemma calm_all_mapped:
  "map_channels (\<lambda>attr e. ri_consumer_map cls attr e i) cls attrs offset idx fds n w = Some (res, v) \<Longrightarrow> calm w v"
  "map_channels (\<lambda>attr e. ri_producer_map cls attr e i) cls attrs offset idx fds n w = Some (res, v) \<Longrightarrow> calm w v"
  by (rule calm_map_channels, erule calm_consumer_map, assumption) (rule calm_map_channels, erule calm_producer_map, assumption)

lemma calm_all_new:
  "new_channels (\<lambda>attr. ri_consumer_new cls attr i) cls attrs offset w = Some (res, v) \<Longrightarrow> calm w v"
  "new_channels (\<lambda>attr. ri_producer_new cls attr i) cls attrs offset w = Some (res, v) \<Longrightarrow> calm w v"
  by (rule calm_new_channels, erule calm_consumer_new, assumption) (rule calm_new_channels, erule calm_producer_new, assumption)

section \<open>Losing a mapping\<close>

text \<open>\<open>mlock\<close> has failed in one of the calls made between \<open>w\<close> and \<open>v\<close>, in \<open>ri_shm_map\<close>.\<close>

definition lock_failed :: "world \<Rightarrow> world \<Rightarrow> bool" where
  "lock_failed w v \<longleftrightarrow> (\<exists>fd u u'. w_ok u = w_ok w \<and> w_calls w \<le> w_calls u \<and> ri_shm_map fd u = (None, u') \<and>
     w_lost u' \<noteq> w_lost u \<and> w_calls u' \<le> w_calls v)"

text \<open>It is the fourth and last call of \<open>ri_shm_map\<close> that fails, after the mapping has been made.\<close>

lemma shm_map_lost:
  "ri_shm_map fd u = (res, u') \<Longrightarrow> w_lost u' \<noteq> w_lost u \<longleftrightarrow>
    res = None \<and> w_calls u' = w_calls u + 4 \<and> (\<forall>k < 3. w_ok u (w_calls u + k)) \<and> \<not> w_ok u (w_calls u + 3)"
  by (auto simp: ri_shm_map_def ask_def Let_def numeral_3_eq_3 less_Suc_eq split: if_splits bool.splits option.splits kernel_file.splits prod.splits)

definition leaky :: "world \<Rightarrow> world \<Rightarrow> bool" where
  "leaky w v \<longleftrightarrow> w_ok v = w_ok w \<and> w_calls w \<le> w_calls v \<and>
     (w_lost v = w_lost w \<or> w_lost v = Suc (w_lost w) \<and> lock_failed w v)"

lemma calm_leaky: "calm w v \<Longrightarrow> leaky w v"
  by (simp add: calm_def leaky_def)

lemma leaky_after: "calm w u \<Longrightarrow> leaky u v \<Longrightarrow> leaky w v"
  unfolding leaky_def calm_def lock_failed_def by (elim conjE disjE exE) (auto intro: le_trans)

lemma leaky_before: "leaky w u \<Longrightarrow> calm u v \<Longrightarrow> leaky w v"
  unfolding leaky_def calm_def lock_failed_def by (elim conjE disjE exE) (auto intro: le_trans)

lemma leaky_shm_map: "ri_shm_map fd w = (res, v) \<Longrightarrow> leaky w v \<and> (res \<noteq> None \<longrightarrow> calm w v)"
proof -
  assume m: "ri_shm_map fd w = (res, v)"
  have "w_ok v = w_ok w \<and> w_calls w \<le> w_calls v \<and> (w_lost v = w_lost w \<or> res = None \<and> w_lost v = Suc (w_lost w))"
    using m by (auto simp: ri_shm_map_def ask_def Let_def split: if_splits bool.splits option.splits kernel_file.splits prod.splits)
  then show ?thesis using m unfolding leaky_def calm_def lock_failed_def by fastforce
qed

text \<open>An operation with a result \<open>None\<close> when it has failed: only then may it have lost a mapping.\<close>

definition lossy :: "'a option \<Rightarrow> world \<Rightarrow> world \<Rightarrow> bool" where
  "lossy res w v \<longleftrightarrow> (case res of None \<Rightarrow> leaky w v | Some _ \<Rightarrow> calm w v)"

lemma lossy_calm: "calm w v \<Longrightarrow> lossy res w v"
  by (simp add: lossy_def calm_leaky split: option.split)

lemma lossy_leaky: "lossy res w v \<Longrightarrow> leaky w v"
  by (auto simp: lossy_def dest: calm_leaky split: option.splits)

lemma lossy_after: "calm w u \<Longrightarrow> lossy res u v \<Longrightarrow> lossy res w v"
  by (auto simp: lossy_def intro: leaky_after calm_trans split: option.splits)

lemma lossy_before: "lossy res w u \<Longrightarrow> calm u v \<Longrightarrow> lossy res w v"
  by (auto simp: lossy_def intro: leaky_before calm_trans split: option.splits)

lemma lossy_simps [simp]: "lossy None w v = leaky w v" "lossy (Some x) w v = calm w v"
  by (simp_all add: lossy_def)

lemma lossy_shm_map: "ri_shm_map fd w = (res, v) \<Longrightarrow> lossy res w v"
  using leaky_shm_map [of fd w res v] by (auto simp: lossy_def split: option.split)

lemma lossy_shm_new: "shm_new sz w = (res, v) \<Longrightarrow> lossy res w v"
proof -
  assume n: "shm_new sz w = (res, v)"
  obtain fd w1 where c: "ri_shmfd_create sz w = (fd, w1)" by (cases "ri_shmfd_create sz w")
  obtain m w2 where m: "ri_shm_map fd w1 = (m, w2)" by (cases "ri_shm_map fd w1")
  note C = calm_shmfd_create [OF c] and M = lossy_after [OF calm_shmfd_create [OF c] lossy_shm_map [OF m]]
  show ?thesis using n c m C M
    by (cases m) (auto simp: shm_new_def intro: calm_leaky leaky_before split: if_splits)
qed

lemma lossy_build_group: "build_group cls data sz w = Some (res, v) \<Longrightarrow> lossy res w v"
proof -
  assume b: "build_group cls data sz w = Some (res, v)"
  obtain arrays w1 where a: "ri_group_alloc_channels data w = (arrays, w1)" by (cases "ri_group_alloc_channels data w")
  obtain m w2 where m: "shm_new sz w1 = (m, w2)" by (cases "shm_new sz w1")
  note A = calm_alloc_channels [OF a] and M = lossy_after [OF calm_alloc_channels [OF a] lossy_shm_new [OF m]]
  show ?thesis
  proof (cases "arrays = None \<or> m = None")
    case True
    then show ?thesis using b a m A M by (auto simp: build_group_def intro: calm_leaky split: option.splits)
  next
    case False
    then have c: "calm w w2" using M by (auto simp: lossy_def)
    have "calm w2 v" using b a m False
      by (auto simp: calm_def build_group_def bind_eq_Some_conv Let_def split: if_splits option.splits
          dest!: calm_all_new calm_group_delete)
    then show ?thesis by (rule lossy_calm [OF calm_trans [OF c]])
  qed
qed

lemma lossy_from_attr: "ri_group_from_attr cls raw attr w = Some (res, v) \<Longrightarrow> lossy res w v"
proof -
  assume f: "ri_group_from_attr cls raw attr w = Some (res, v)"
  obtain ok w1 where a: "ask w = (ok, w1)" by (cases "ask w")
  obtain al w2 where t: "take_allocs raw w1 = (al, w2)" by (cases "take_allocs raw w1")
  note A = calm_ask [OF a] and T = calm_trans [OF calm_ask [OF a] calm_take_allocs [OF t]]
  have "v = w1 \<or> v = w2 \<or> (\<exists>data sz. build_group cls data sz w2 = Some (res, v))"
    using f a t by (auto simp: ri_group_from_attr_def split: if_splits outcome.splits)
  then show ?thesis using A T by (auto intro: lossy_calm lossy_after lossy_build_group)
qed

lemma lossy_group_map:
  assumes "ri_group_map cls grp fds n w = Some ((grp', ok, fds'), v)"
  shows "lossy (if ok then Some grp' else None) w v"
proof (cases "v = w")
  case False
  then obtain fd rest where f: "fds = fd # rest" using assms by (cases fds) (auto simp: ri_group_map_def split: if_splits)
  obtain m w1 where m: "ri_shm_map fd w = (m, w1)" by (cases "ri_shm_map fd w")
  note M = lossy_shm_map [OF m]
  show ?thesis
  proof (cases m)
    case None
    then show ?thesis using assms f m M False by (auto simp: ri_group_map_def split: if_splits)
  next
    case (Some i)
    have "calm w1 v" using assms f m Some False
      by (auto simp: ri_group_map_def bind_eq_Some_conv Let_def split: if_splits
          dest!: calm_all_mapped intro: calm_trans)
    then show ?thesis using M Some by (auto simp: lossy_def intro: calm_trans calm_leaky)
  qed
qed (simp add: lossy_calm)

lemma lossy_deserialize: "ri_group_deserialize cls raw req sz fds n w = Some ((res, fds'), v) \<Longrightarrow> lossy res w v"
proof -
  assume d: "ri_group_deserialize cls raw req sz fds n w = Some ((res, fds'), v)"
  obtain ok w1 where a: "ask w = (ok, w1)" by (cases "ask w")
  obtain al w2 where t: "take_allocs raw w1 = (al, w2)" by (cases "take_allocs raw w1")
  note A = calm_ask [OF a] and T = calm_trans [OF calm_ask [OF a] calm_take_allocs [OF t]]
  show ?thesis
  proof (cases "calm w v")
    case False
    then obtain data n' where p: "ri_request_parse cls al req sz = Returns data" "n = Some n'" "ok" "\<not> n' < 1"
      using d a t A T by (auto simp: ri_group_deserialize_def split: option.splits if_splits outcome.splits)
    obtain arrays w3 where l: "ri_group_alloc_channels data w2 = (arrays, w3)" by (cases "ri_group_alloc_channels data w2")
    note L = calm_trans [OF T calm_alloc_channels [OF l]]
    then obtain arr where arr: "arrays = Some arr" using d a t p l False by (cases arrays) (auto simp: ri_group_deserialize_def)
    from d a t p l arr obtain grp' ok' fds1 w4 where
      m: "ri_group_map cls \<lparr>gr_data = data, gr_shm = None, gr_consumers = fst arr, gr_producers = snd arr\<rparr> fds n' w3 = Some ((grp', ok', fds1), w4)"
      and k: "(if \<not> ok' then do { w \<leftarrow> ri_group_delete grp' w4; Some ((None, fds1), w) } else Some ((Some grp', fds1), w4)) = Some ((res, fds'), v)"
      by (cases arr) (auto simp: ri_group_deserialize_def bind_eq_Some_conv Let_def)
    note M = lossy_after [OF L lossy_group_map [OF m]]
    show ?thesis using k M by (cases ok') (auto simp: bind_eq_Some_conv intro: leaky_before dest: calm_group_delete)
  qed (rule lossy_calm)
qed

section \<open>Connections\<close>

lemma calm_ask_host: "ask_host h = (ok, h') \<Longrightarrow> calm (h_world h) (h_world h')"
  by (auto simp: ask_host_def Let_def split: prod.splits dest: calm_ask)

lemma calm_close_host [simp]: "calm w (h_world (close_host fd h)) = calm w (h_world h)"
  by (simp add: close_host_def)

lemma calm_close_all: "calm w (h_world (close_all fds h)) = calm w (h_world h)"
  by (induction fds arbitrary: h) simp_all

lemma calm_new_socket: "new_socket h = (fd, h') \<Longrightarrow> calm (h_world h) (h_world h')"
  by (auto simp: new_socket_def Let_def split: prod.splits if_splits dest!: calm_ask_host calm_open intro: calm_trans)

lemma calm_sendmsg: "sendmsg data sz fds h = Some (r, h') \<Longrightarrow> calm (h_world h) (h_world h')"
  by (auto simp: sendmsg_def Let_def split: prod.splits if_splits dest: calm_ask_host)

lemma calm_peek: "peek h = (r, h') \<Longrightarrow> calm (h_world h) (h_world h')"
  by (auto simp: peek_def Let_def split: prod.splits if_splits dest: calm_ask_host)

lemma calm_install: "install ns w = (fds, v) \<Longrightarrow> calm w v"
proof (induction ns arbitrary: w fds)
  case (Cons n ns)
  then show ?case by (auto simp: Let_def calm_def split: prod.splits dest!: Cons.IH)
qed simp

lemma calm_recvmsg: "recvmsg sz n h = (r, h') \<Longrightarrow> calm (h_world h) (h_world h')"
  by (auto simp: recvmsg_def Let_def split: prod.splits if_splits list.splits dest!: calm_ask_host calm_install intro: calm_trans)

lemma calm_uxmsg_new: "ri_uxmsg_new raw sz h = (m, h') \<Longrightarrow> calm (h_world h) (h_world h')"
  by (auto simp: ri_uxmsg_new_def Let_def split: prod.splits if_splits dest!: calm_ask_host intro: calm_trans)

lemma calm_uxmsg_delete: "ri_uxmsg_delete m h = Some h' \<Longrightarrow> calm (h_world h) (h_world h')"
  by (auto simp: ri_uxmsg_delete_def calm_close_all split: if_splits)

lemma calm_uxmsg_receive: "ri_uxmsg_receive raw h = Some (m, h') \<Longrightarrow> calm (h_world h) (h_world h')"
proof -
  assume r: "ri_uxmsg_receive raw h = Some (m, h')"
  obtain n h1 where p: "peek h = (n, h1)" by (cases "peek h")
  obtain x h2 where x: "ri_uxmsg_new raw (word_of_int n) h1 = (x, h2)" by (cases "ri_uxmsg_new raw (word_of_int n) h1")
  note P = calm_peek [OF p] and X = calm_trans [OF calm_peek [OF p] calm_uxmsg_new [OF x]]
  show ?thesis
  proof (cases "n \<le> 0 \<or> x = None")
    case True
    then show ?thesis using r p x P X by (auto simp: ri_uxmsg_receive_def split: if_splits)
  next
    case False
    then obtain tx where tx: "x = Some tx" by blast
    obtain y h3 where y: "recvmsg (um_size tx) (unat SCM_MAX_FD) h2 = (y, h3)" by (cases "recvmsg (um_size tx) (unat SCM_MAX_FD) h2")
    note Y = calm_trans [OF X calm_recvmsg [OF y]]
    show ?thesis using r p x tx y Y False
      by (auto simp: ri_uxmsg_receive_def Let_def split: prod.splits if_splits dest!: calm_uxmsg_delete intro: calm_trans)
  qed
qed

lemma calm_response: "server_send_response res h = Some (r, h') \<Longrightarrow> calm (h_world h) (h_world h')"
  unfolding server_send_response_def ri_uxsocket_send_def by (rule calm_sendmsg)

lemma calm_delete_group: "delete_group grp h = Some h' \<Longrightarrow> calm (h_world h) (h_world h')"
  by (auto simp: delete_group_def dest: calm_group_delete)

lemma lossy_request: "request_to_group cls raw req h = Some ((res, req'), h') \<Longrightarrow> lossy res (h_world h) (h_world h')"
  by (auto simp: request_to_group_def on_world_def bind_eq_Some_conv Let_def split: prod.splits dest: lossy_deserialize)

lemma lossy_socket_accept: "ri_server_socket_accept cls raw f h = Some (res, h') \<Longrightarrow> lossy res (h_world h) (h_world h')"
proof -
  assume a: "ri_server_socket_accept cls raw f h = Some (res, h')"
  then obtain req h1 where r: "ri_uxmsg_receive raw h = Some (req, h1)" by (auto simp: ri_server_socket_accept_def bind_eq_Some_conv)
  note R = calm_uxmsg_receive [OF r]
  show ?thesis
  proof (cases req)
    case None
    then show ?thesis using a r R
      by (auto simp: ri_server_socket_accept_def bind_eq_Some_conv dest!: calm_response intro: calm_leaky calm_trans)
  next
    case (Some m)
    with a r obtain grp m2 h2 where q: "request_to_group cls raw m h1 = Some ((grp, m2), h2)"
      by (auto simp: ri_server_socket_accept_def bind_eq_Some_conv)
    note Q = lossy_after [OF R lossy_request [OF q]]
    show ?thesis
    proof (cases grp)
      case None
      then have "calm (h_world h2) (h_world h')" "res = None" using a r Some q
        by (auto simp: ri_server_socket_accept_def bind_eq_Some_conv dest!: calm_uxmsg_delete calm_response intro: calm_trans)
      then show ?thesis using Q None lossy_before by fastforce
    next
      case (Some g)
      then have "calm (h_world h2) (h_world h')" using a r \<open>req = Some m\<close> q
        by (auto simp: ri_server_socket_accept_def bind_eq_Some_conv split: if_splits
            dest!: calm_uxmsg_delete calm_response calm_delete_group intro: calm_trans)
      then show ?thesis using Q Some by (auto simp: lossy_def intro: calm_trans calm_leaky split: option.split)
    qed
  qed
qed

lemma lossy_accept: "ri_server_accept cls raw server f h = Some (res, h') \<Longrightarrow> lossy res (h_world h) (h_world h')"
proof -
  assume a: "ri_server_accept cls raw server f h = Some (res, h')"
  obtain sk h1 where s: "new_socket h = (sk, h1)" by (cases "new_socket h")
  note S = calm_new_socket [OF s]
  show ?thesis
  proof (cases "sk < 0")
    case True
    then show ?thesis using a s S by (auto simp: ri_server_accept_def intro: calm_leaky)
  next
    case False
    then obtain h2 where h2: "ri_server_socket_accept cls raw f h1 = Some (res, h2)" "h' = close_host sk h2"
      using a s by (auto simp: ri_server_accept_def bind_eq_Some_conv)
    show ?thesis unfolding h2(2) by (rule lossy_before [OF lossy_after [OF S lossy_socket_accept [OF h2(1)]]]) simp
  qed
qed

lemma calm_uxsocket_receive: "ri_uxsocket_receive h = (res, h') \<Longrightarrow> calm (h_world h) (h_world h')"
  by (auto simp: ri_uxsocket_receive_def Let_def split: prod.splits if_splits dest!: calm_peek calm_ask_host calm_recvmsg intro: calm_trans)

lemma calm_exchange: "exchange req h = Some (r, h') \<Longrightarrow> calm (h_world h) (h_world h')"
  by (auto simp: exchange_def ri_uxmsg_send_def bind_eq_Some_conv Let_def split: prod.splits if_splits option.splits
      dest!: calm_sendmsg calm_uxsocket_receive intro: calm_trans)

lemma calm_from_group: "uxmsg_from_group cls raw grp h = Some (m, h') \<Longrightarrow> calm (h_world h) (h_world h')"
  by (auto simp: uxmsg_from_group_def bind_eq_Some_conv Let_def split: outcome.splits prod.splits if_splits option.splits
      dest!: calm_uxmsg_new calm_uxmsg_delete intro: calm_trans)

lemma lossy_socket_connect: "ri_client_socket_connect cls raw attr h = Some (res, h') \<Longrightarrow> lossy res (h_world h) (h_world h')"
proof -
  assume c: "ri_client_socket_connect cls raw attr h = Some (res, h')"
  then obtain grp h1 where f: "on_world (ri_group_from_attr cls raw attr) h = Some (grp, h1)"
    by (auto simp: calm_def ri_client_socket_connect_def bind_eq_Some_conv)
  then have F: "lossy grp (h_world h) (h_world h1)" by (auto simp: on_world_def dest: lossy_from_attr)
  show ?thesis
  proof (cases grp)
    case None
    then show ?thesis using c f F by (auto simp: calm_def ri_client_socket_connect_def)
  next
    case (Some g)
    have "calm (h_world h1) (h_world h')" using c f Some
      by (auto simp: calm_def ri_client_socket_connect_def bind_eq_Some_conv split: option.splits if_splits
          dest!: calm_from_group calm_exchange calm_uxmsg_delete calm_delete_group )
    then show ?thesis using F Some by (auto simp: lossy_def intro: calm_trans calm_leaky split: option.split)
  qed
qed

lemma calm_connect_path: "connect_path path h = (fd, h') \<Longrightarrow> calm (h_world h) (h_world h')"
  by (auto simp: connect_path_def Let_def split: prod.splits if_splits dest!: calm_new_socket calm_ask_host intro: calm_trans)

lemma lossy_connect: "ri_client_connect cls raw path attr h = Some (res, h') \<Longrightarrow> lossy res (h_world h) (h_world h')"
proof -
  assume c: "ri_client_connect cls raw path attr h = Some (res, h')"
  obtain fd h1 where p: "connect_path path h = (fd, h1)" by (cases "connect_path path h")
  note P = calm_connect_path [OF p]
  show ?thesis
  proof (cases "fd < 0")
    case True
    then show ?thesis using c p P by (auto simp: ri_client_connect_def intro: calm_leaky)
  next
    case False
    then obtain h2 where h2: "ri_client_socket_connect cls raw attr h1 = Some (res, h2)" "h' = close_host fd h2"
      using c p by (auto simp: ri_client_connect_def bind_eq_Some_conv)
    show ?thesis unfolding h2(2) by (rule lossy_before [OF lossy_after [OF P lossy_socket_connect [OF h2(1)]]]) simp
  qed
qed

lemma calm_server_new: "ri_server_new path h = (server, h') \<Longrightarrow> calm (h_world h) (h_world h')"
  by (auto simp: calm_def close_host_def close_fd_def ri_server_new_def Let_def split: prod.splits if_splits dest!: calm_ask_host calm_new_socket)

end
