(* ===== verification/Group_Resources.thy ===== *)
theory Group_Resources
  imports Lost_Mappings Ownership
begin

text \<open>
  What a group holds: its memory object, with one reference for itself and one for every channel, its
  channels, and the descriptors of the memory and of the eventfds. \<open>built\<close> describes a world in which a
  group is being made or deleted, relative to the world before; a failed creation, and a creation
  followed by a deletion, leave nothing behind.
\<close>

section \<open>Tables of objects\<close>

text \<open>The objects \<open>S\<close> have been added to a table; they satisfy \<open>Q\<close>.\<close>

definition added :: "('o \<Rightarrow> bool) \<Rightarrow> 'o option list \<Rightarrow> nat set \<Rightarrow> 'o option list \<Rightarrow> bool" where
  "added Q objs S objs' \<longleftrightarrow> finite S \<and> (\<forall>j\<in>S. live objs j = None \<and> (\<exists>x. live objs' j = Some x \<and> Q x)) \<and>
     (\<forall>j. j \<notin> S \<longrightarrow> live objs' j = live objs j)"

text \<open>The descriptors they hold.\<close>

definition fds_in :: "('o \<Rightarrow> int) \<Rightarrow> nat set \<Rightarrow> 'o option list \<Rightarrow> int set" where
  "fds_in ev S objs = {fd. 0 \<le> fd \<and> (\<exists>j\<in>S. \<exists>x. live objs j = Some x \<and> ev x = fd)}"

lemma added_none: "added Q objs {} objs"
  by (simp add: added_def)

lemma added_append:
  assumes "added Q objs S objs'" and "Q x"
  shows "added Q objs (insert (length objs') S) (objs' @ [Some x])" and "length objs' \<notin> S"
    and "fds_in ev (insert (length objs') S) (objs' @ [Some x]) =
      fds_in ev S objs' \<union> (if 0 \<le> ev x then {ev x} else {})"
proof -
  have l: "live objs' (length objs') = None" by (simp add: live_def)
  then show n: "length objs' \<notin> S" using assms(1) by (auto simp: added_def)
  have "live objs (length objs') = None" using assms(1) n l by (auto simp: added_def)
  then show "added Q objs (insert (length objs') S) (objs' @ [Some x])"
    using assms n by (auto simp: added_def live_append)
  have "(\<exists>j\<in>S. \<exists>y. live (objs' @ [Some x]) j = Some y \<and> ev y = fd) \<longleftrightarrow>
      (\<exists>j\<in>S. \<exists>y. live objs' j = Some y \<and> ev y = fd)" for fd
    by (rule bex_cong [OF refl]) (use n in \<open>auto simp: live_append\<close>)
  then show "fds_in ev (insert (length objs') S) (objs' @ [Some x]) =
      fds_in ev S objs' \<union> (if 0 \<le> ev x then {ev x} else {})"
    by (auto simp: fds_in_def live_append bex_simps)
qed

section \<open>A group under construction\<close>

text \<open>\<open>X\<close>: descriptors opened for a channel that does not exist yet.\<close>

definition plain_consumer :: "nat \<Rightarrow> ri_consumer \<Rightarrow> bool" where
  "plain_consumer i x \<longleftrightarrow> cn_shm x = i \<and> cn_owners x = RI_OWNER_GROUP_FLAG"

definition plain_producer :: "nat \<Rightarrow> ri_producer \<Rightarrow> bool" where
  "plain_producer i x \<longleftrightarrow> pr_shm x = i \<and> pr_owners x = RI_OWNER_GROUP_FLAG \<and> pr_cache x = None"

definition group_fds :: "nat \<Rightarrow> nat set \<Rightarrow> nat set \<Rightarrow> int set \<Rightarrow> world \<Rightarrow> int set" where
  "group_fds i P C X w = X \<union> (case live (w_shms w) i of None \<Rightarrow> {} | Some s \<Rightarrow> {s_fd s}) \<union>
     fds_in pr_eventfd P (w_producers w) \<union> fds_in cn_eventfd C (w_consumers w)"

definition built :: "world \<Rightarrow> nat \<Rightarrow> nat set \<Rightarrow> nat set \<Rightarrow> int set \<Rightarrow> world \<Rightarrow> bool" where
  "built w i P C X w' \<longleftrightarrow>
     (\<exists>s. live (w_shms w') i = Some s \<and> s_ref_cnt s = 1 + int (card P + card C)) \<and>
     live (w_shms w) i = None \<and> (\<forall>j. j \<noteq> i \<longrightarrow> live (w_shms w') j = live (w_shms w) j) \<and>
     added (plain_producer i) (w_producers w) P (w_producers w') \<and>
     added (plain_consumer i) (w_consumers w) C (w_consumers w') \<and>
     w_caches w' = w_caches w \<and>
     (\<forall>fd\<in>group_fds i P C X w'. map_of (w_fds w) fd = None) \<and>
     (\<forall>fd. fd \<notin> group_fds i P C X w' \<longrightarrow> map_of (w_fds w') fd = map_of (w_fds w) fd)"

text \<open>Two worlds in which the process has the same descriptors, objects and caches.\<close>

definition same_objects :: "world \<Rightarrow> world \<Rightarrow> bool" where
  "same_objects w w' \<longleftrightarrow> map_of (w_fds w') = map_of (w_fds w) \<and>
     live (w_shms w') = live (w_shms w) \<and> live (w_producers w') = live (w_producers w) \<and>
     live (w_consumers w') = live (w_consumers w) \<and> w_caches w' = w_caches w"

lemma same_objects_refl [simp]: "same_objects w w"
  by (simp add: same_objects_def)

lemma same_objects_trans: "same_objects u v \<Longrightarrow> same_objects v w \<Longrightarrow> same_objects u w"
  by (simp add: same_objects_def)

text \<open>
  All resources are as before: also no mapping has been lost. After a failure everything has been given back, except for the mapping
  that stays when \<open>mlock\<close> failed in \<open>ri_shm_map\<close>.
\<close>

definition same_resources :: "world \<Rightarrow> world \<Rightarrow> bool" where
  "same_resources w w' \<longleftrightarrow> same_objects w w' \<and> w_lost w' = w_lost w"

definition given_back :: "world \<Rightarrow> world \<Rightarrow> bool" where
  "given_back w w' \<longleftrightarrow> same_objects w w' \<and> (w_lost w' = w_lost w \<or> w_lost w' = Suc (w_lost w) \<and> lock_failed w w')"

lemma same_resourcesI: "same_objects w v \<Longrightarrow> calm w v \<Longrightarrow> same_resources w v"
  by (simp add: same_resources_def calm_def)

lemma given_back_leaky: "same_objects w v \<Longrightarrow> leaky w v \<Longrightarrow> given_back w v"
  by (auto simp: given_back_def leaky_def)

lemma given_backI: "same_objects w v \<Longrightarrow> lossy res w v \<Longrightarrow> given_back w v"
  by (rule given_back_leaky [OF _ lossy_leaky])

lemma same_given_back: "same_resources w v \<Longrightarrow> given_back w v"
  by (simp add: given_back_def same_resources_def)

lemma builtD:
  assumes "built w i P C X w'"
  obtains s where "live (w_shms w') i = Some s" and "s_ref_cnt s = 1 + int (card P + card C)"
  using assms by (auto simp: built_def)

text \<open>Only the number of calls has changed, or files.\<close>

lemma built_frame:
  assumes "built w i P C X u" and "w_shms v = w_shms u" and "w_producers v = w_producers u"
    and "w_consumers v = w_consumers u" and "w_caches v = w_caches u" and "w_fds v = w_fds u"
  shows "built w i P C X v"
  using assms by (simp add: built_def group_fds_def)

lemma built_open:
  assumes "built w i P C {} u" and "open_file f u = (fd, v)"
  shows "built w i P C {fd} v" and "0 \<le> fd"
proof -
  have fd: "map_of (w_fds u) fd = None" "0 \<le> fd" using assms(2) fresh_fd_fresh
    by (auto simp: open_file_def Let_def)
  then show "0 \<le> fd" by simp
  have v: "w_shms v = w_shms u" "w_producers v = w_producers u" "w_consumers v = w_consumers u"
    "w_caches v = w_caches u" "map_of (w_fds v) = (map_of (w_fds u))(fd := Some (length (w_files u)))"
    using assms(2) by (auto simp: open_file_def Let_def)
  have G: "group_fds i P C {fd} v = insert fd (group_fds i P C {} u)" using v by (simp add: group_fds_def)
  have same: "fd' \<notin> group_fds i P C {} u \<longrightarrow> map_of (w_fds u) fd' = map_of (w_fds w) fd'"
    and none: "fd' \<in> group_fds i P C {} u \<longrightarrow> map_of (w_fds w) fd' = None" for fd'
    using assms(1) by (simp_all add: built_def)
  have "map_of (w_fds w) fd = None" using same [of fd] none [of fd] fd(1) by fastforce
  then show "built w i P C {fd} v"
    using assms(1) same none unfolding built_def G by (simp add: v)
qed

lemma built_close:
  assumes "built w i P C X u" and "map_of (w_fds w) fd = None"
  shows "built w i P C (X - {fd}) (close_fd fd u)"
proof -
  have v: "w_shms (close_fd fd u) = w_shms u" "w_producers (close_fd fd u) = w_producers u"
    "w_consumers (close_fd fd u) = w_consumers u" "w_caches (close_fd fd u) = w_caches u"
    by (simp_all add: close_fd_def)
  have G: "group_fds i P C (X - {fd}) (close_fd fd u) \<subseteq> group_fds i P C X u"
    "group_fds i P C X u \<subseteq> insert fd (group_fds i P C (X - {fd}) (close_fd fd u))"
    using v by (auto simp: group_fds_def)
  have same: "fd' \<notin> group_fds i P C X u \<longrightarrow> map_of (w_fds u) fd' = map_of (w_fds w) fd'"
    and none: "fd' \<in> group_fds i P C X u \<longrightarrow> map_of (w_fds w) fd' = None" for fd'
    using assms by (simp_all add: built_def)
  have "\<forall>fd'\<in>group_fds i P C (X - {fd}) (close_fd fd u). map_of (w_fds w) fd' = None" using none G(1) by blast
  moreover have "map_of (w_fds (close_fd fd u)) fd' = map_of (w_fds w) fd'"
    if "fd' \<notin> group_fds i P C (X - {fd}) (close_fd fd u)" for fd'
    using that same [of fd'] G(2) assms(2) by (cases "fd' = fd") (auto simp: close_fd_map)
  ultimately show ?thesis using assms(1) unfolding built_def by (simp add: v)
qed

lemma built_pending_free: "built w i P C ({fd} \<union> X) u \<Longrightarrow> map_of (w_fds w) fd = None"
  by (simp add: built_def group_fds_def)

lemma built_fewer: "built w i P C X u \<Longrightarrow> X \<subseteq> Y \<Longrightarrow> \<forall>fd\<in>Y. map_of (w_fds w) fd = None \<Longrightarrow> built w i P C Y u"
  unfolding built_def group_fds_def by blast

lemma built_close_pending:
  assumes "built w i P C ({fd} \<union> X) u"
  shows "built w i P C X (close_fd fd u)"
proof (rule built_fewer [OF built_close [OF assms built_pending_free [OF assms]]])
  show "\<forall>fd\<in>X. map_of (w_fds w) fd = None" using assms by (simp add: built_def group_fds_def)
qed auto

section \<open>Adding a channel\<close>

lemma builtE:
  assumes "built w i P C X u"
  obtains s where "live (w_shms u) i = Some s" and "s_ref_cnt s = 1 + int (card P + card C)"
    and "live (w_shms w) i = None" and "\<And>j. j \<noteq> i \<Longrightarrow> live (w_shms u) j = live (w_shms w) j"
    and "added (plain_producer i) (w_producers w) P (w_producers u)"
    and "added (plain_consumer i) (w_consumers w) C (w_consumers u)"
    and "w_caches u = w_caches w" and "finite P" and "finite C"
    and "\<And>fd. fd \<in> group_fds i P C X u \<Longrightarrow> map_of (w_fds w) fd = None"
    and "\<And>fd. fd \<notin> group_fds i P C X u \<Longrightarrow> map_of (w_fds u) fd = map_of (w_fds w) fd"
proof -
  have "finite P" "finite C" using assms by (simp_all add: built_def added_def)
  then show thesis using assms that unfolding built_def by blast
qed

lemma builtI:
  assumes "live (w_shms u) i = Some s" and "s_ref_cnt s = 1 + int (card P + card C)"
    and "live (w_shms w) i = None" and "\<And>j. j \<noteq> i \<Longrightarrow> live (w_shms u) j = live (w_shms w) j"
    and "added (plain_producer i) (w_producers w) P (w_producers u)"
    and "added (plain_consumer i) (w_consumers w) C (w_consumers u)"
    and "w_caches u = w_caches w"
    and "\<And>fd. fd \<in> group_fds i P C X u \<Longrightarrow> map_of (w_fds w) fd = None"
    and "\<And>fd. fd \<notin> group_fds i P C X u \<Longrightarrow> map_of (w_fds u) fd = map_of (w_fds w) fd"
  shows "built w i P C X u"
  using assms unfolding built_def by blast

lemma built_add_producer:
  assumes b: "built w i P C (Y \<union> X) u" and s: "live (w_shms u) i = Some s" and x: "plain_producer i x"
    and X: "Y = (if 0 \<le> pr_eventfd x then {pr_eventfd x} else {})"
  shows "built w i (insert (length (w_producers u)) P) C X
    (u\<lparr>w_shms := (w_shms u)[i := Some (s\<lparr>s_ref_cnt := s_ref_cnt s + 1\<rparr>)],
       w_producers := w_producers u @ [Some x]\<rparr>)" (is "built w i ?P C X ?v")
  using b
proof (rule builtE)
  fix t assume t: "live (w_shms u) i = Some t" "s_ref_cnt t = 1 + int (card P + card C)"
    and frame: "live (w_shms w) i = None" "\<And>j. j \<noteq> i \<Longrightarrow> live (w_shms u) j = live (w_shms w) j"
    and ap: "added (plain_producer i) (w_producers w) P (w_producers u)"
    and ac: "added (plain_consumer i) (w_consumers w) C (w_consumers u)"
    and ca: "w_caches u = w_caches w" and fin: "finite P"
    and none: "\<And>fd. fd \<in> group_fds i P C (Y \<union> X) u \<Longrightarrow> map_of (w_fds w) fd = None"
    and same: "\<And>fd. fd \<notin> group_fds i P C (Y \<union> X) u \<Longrightarrow> map_of (w_fds u) fd = map_of (w_fds w) fd"
  note A = added_append [OF ap x]
  have i: "i < length (w_shms u)" using live_Some_length [OF s] .
  have G: "group_fds i ?P C X ?v = group_fds i P C (Y \<union> X) u"
    using A(3) [of pr_eventfd] s i X by (auto simp: group_fds_def live_update)
  show ?thesis
  proof (rule builtI)
    show "live (w_shms ?v) i = Some (s\<lparr>s_ref_cnt := s_ref_cnt s + 1\<rparr>)" using i by (simp add: live_update)
    show "s_ref_cnt (s\<lparr>s_ref_cnt := s_ref_cnt s + 1\<rparr>) = 1 + int (card ?P + card C)"
      using t s A(2) fin by simp
  qed (use frame A(1) ac ca none same in \<open>simp_all add: G live_update\<close>)
qed

lemma built_add_consumer:
  assumes b: "built w i P C (Y \<union> X) u" and s: "live (w_shms u) i = Some s" and x: "plain_consumer i x"
    and X: "Y = (if 0 \<le> cn_eventfd x then {cn_eventfd x} else {})"
  shows "built w i P (insert (length (w_consumers u)) C) X
    (u\<lparr>w_shms := (w_shms u)[i := Some (s\<lparr>s_ref_cnt := s_ref_cnt s + 1\<rparr>)],
       w_consumers := w_consumers u @ [Some x]\<rparr>)" (is "built w i P ?C X ?v")
  using b
proof (rule builtE)
  fix t assume t: "live (w_shms u) i = Some t" "s_ref_cnt t = 1 + int (card P + card C)"
    and frame: "live (w_shms w) i = None" "\<And>j. j \<noteq> i \<Longrightarrow> live (w_shms u) j = live (w_shms w) j"
    and ap: "added (plain_producer i) (w_producers w) P (w_producers u)"
    and ac: "added (plain_consumer i) (w_consumers w) C (w_consumers u)"
    and ca: "w_caches u = w_caches w" and fin: "finite C"
    and none: "\<And>fd. fd \<in> group_fds i P C (Y \<union> X) u \<Longrightarrow> map_of (w_fds w) fd = None"
    and same: "\<And>fd. fd \<notin> group_fds i P C (Y \<union> X) u \<Longrightarrow> map_of (w_fds u) fd = map_of (w_fds w) fd"
  note A = added_append [OF ac x]
  have i: "i < length (w_shms u)" using live_Some_length [OF s] .
  have G: "group_fds i P ?C X ?v = group_fds i P C (Y \<union> X) u"
    using A(3) [of cn_eventfd] s i X by (auto simp: group_fds_def live_update)
  show ?thesis
  proof (rule builtI)
    show "live (w_shms ?v) i = Some (s\<lparr>s_ref_cnt := s_ref_cnt s + 1\<rparr>)" using i by (simp add: live_update)
    show "s_ref_cnt (s\<lparr>s_ref_cnt := s_ref_cnt s + 1\<rparr>) = 1 + int (card P + card ?C)"
      using t s A(2) fin by simp
  qed (use frame A(1) ap ca none same in \<open>simp_all add: G live_update\<close>)
qed

section \<open>Making a channel\<close>

lemma on_words_frame: "on_words i off n f w = Some (r, w') \<Longrightarrow> \<exists>fs. w' = w\<lparr>w_files := fs\<rparr>"
proof -
  assume r: "on_words i off n f w = Some (r, w')"
  then obtain s where s: "live (w_shms w) i = Some s" by (auto simp: on_words_def bind_eq_Some_conv)
  show ?thesis
  proof (cases "w_files w ! s_file s")
    case (Memfd sz words bytes)
    then show ?thesis using r s by (auto simp: on_words_def bind_eq_Some_conv split: if_splits)
  qed (use r s in \<open>simp_all add: on_words_def\<close>)
qed

lemma run_on_frame: "run_on i off n p w = Some (r, w') \<Longrightarrow> \<exists>fs. w' = w\<lparr>w_files := fs\<rparr>"
proof -
  assume r: "run_on i off n p w = Some (r, w')"
  show ?thesis
  proof (cases "\<exists>x. p = Ret x")
    case True
    then have "w' = w\<lparr>w_files := w_files w\<rparr>" using r by (auto simp: run_on_def)
    then show ?thesis by blast
  next
    case False
    then have "on_words i off n (run p) w = Some (r, w')" using r by (cases p) (simp_all add: run_on_def)
    then show ?thesis by (rule on_words_frame)
  qed
qed

lemma built_ask: "built w i P C X u \<Longrightarrow> ask u = (ok, v) \<Longrightarrow> built w i P C X v"
  by (erule built_frame) (auto simp: ask_def)

lemma built_files: "built w i P C X u \<Longrightarrow> built w i P C X (u\<lparr>w_files := fs\<rparr>)"
  by (erule built_frame) simp_all

lemma built_eventfd:
  assumes "built w i P C {} u" and "create_eventfd attr u = (res, v)"
  shows "case res of None \<Rightarrow> built w i P C {} v
    | Some fd \<Rightarrow> built w i P C (if a_eventfd attr then {fd} else {}) v \<and> (a_eventfd attr \<longrightarrow> 0 \<le> fd) \<and>
        (\<not> a_eventfd attr \<longrightarrow> fd = -1)"
proof (cases "a_eventfd attr")
  case False
  then show ?thesis using assms by (auto simp: create_eventfd_def)
next
  case True
  obtain ok u1 where a: "ask u = (ok, u1)" by (cases "ask u")
  note b = built_ask [OF assms(1) a]
  show ?thesis
  proof (cases ok)
    case False
    then show ?thesis using assms(2) True a b
      by (auto simp: create_eventfd_def ri_eventfd_create_def neg_errno_def)
  next
    case ok: True
    obtain fd u2 where o: "open_file (Eventfd 0 True) u1 = (fd, u2)" by (cases "open_file (Eventfd 0 True) u1")
    show ?thesis using assms(2) True a ok o built_open [OF b o]
      by (auto simp: create_eventfd_def ri_eventfd_create_def)
  qed
qed

text \<open>The descriptors pending for a channel with the attributes \<open>attr\<close>.\<close>

abbreviation pending :: "ri_channel_attr \<Rightarrow> int \<Rightarrow> int set" where
  "pending attr fd \<equiv> (if a_eventfd attr then {fd} else {})"

lemma built_producer_map:
  assumes b: "built w i P C (pending attr fd \<union> X) u" and fd: "a_eventfd attr \<longrightarrow> 0 \<le> fd"
    and m: "ri_producer_map cls attr fd i off u = Some (res, v)"
  shows "case res of None \<Rightarrow> built w i P C (pending attr fd \<union> X) v
    | Some p \<Rightarrow> p \<notin> P \<and> built w i (insert p P) C X v"
proof -
  obtain ok1 u1 where a1: "ask u = (ok1, u1)" by (cases "ask u")
  obtain ok2 u2 where a2: "ask u1 = (ok2, u2)" by (cases "ask u1")
  note b1 = built_ask [OF b a1] and b2 = built_ask [OF built_ask [OF b a1] a2]
  show ?thesis
  proof (cases ok1)
    case False
    then show ?thesis using m a1 b1 by (auto simp: ri_producer_map_def)
  next
    case True
    from m a1 a2 True obtain shm queue u3 where
      s: "live (w_shms u2) i = Some shm" and
      q: "run_on i off (ri_channel_queue_len attr) (ri_producer_queue_new cls ok2 zeros (ri_shm_ptr shm off) attr) u2 =
        Some (queue, u3)" and
      k: "(case queue of None \<Rightarrow> Some (None, u3) | Some queue \<Rightarrow> do {
         w \<leftarrow> ri_shm_ref i u3;
         let producer = \<lparr>pr_owners = RI_OWNER_GROUP_FLAG, pr_queue = queue, pr_shm = i,
           pr_shm_offset = off, pr_eventfd = (if a_eventfd attr then fd else -1), pr_cache = None\<rparr>;
         Some (Some (length (w_producers w)), w\<lparr>w_producers := w_producers w @ [Some producer]\<rparr>) }) = Some (res, v)"
      by (auto simp: ri_producer_map_def bind_eq_Some_conv)
    obtain fs where u3: "u3 = u2\<lparr>w_files := fs\<rparr>" using run_on_frame [OF q] by blast
    have b3: "built w i P C (pending attr fd \<union> X) u3" unfolding u3 by (rule built_files [OF b2])
    have s3: "live (w_shms u3) i = Some shm" using s u3 by simp
    show ?thesis
    proof (cases queue)
      case None
      then show ?thesis using k b3 by auto
    next
      case (Some queue')
      let ?x = "\<lparr>pr_owners = RI_OWNER_GROUP_FLAG, pr_queue = queue', pr_shm = i,
        pr_shm_offset = off, pr_eventfd = (if a_eventfd attr then fd else -1), pr_cache = None\<rparr>"
      have "built w i (insert (length (w_producers u3)) P) C X
         (u3\<lparr>w_shms := (w_shms u3)[i := Some (shm\<lparr>s_ref_cnt := s_ref_cnt shm + 1\<rparr>)],
             w_producers := w_producers u3 @ [Some ?x]\<rparr>)"
        by (rule built_add_producer [OF b3 s3]) (use fd in \<open>simp_all add: plain_producer_def\<close>)
      moreover have "length (w_producers u3) \<notin> P"
        using b3 by (auto simp: built_def added_def live_def)
      ultimately show ?thesis using k Some s3 by (auto simp: ri_shm_ref_def Let_def)
    qed
  qed
qed

lemma built_consumer_map:
  assumes b: "built w i P C (pending attr fd \<union> X) u" and fd: "a_eventfd attr \<longrightarrow> 0 \<le> fd"
    and m: "ri_consumer_map cls attr fd i off u = Some (res, v)"
  shows "case res of None \<Rightarrow> built w i P C (pending attr fd \<union> X) v
    | Some c \<Rightarrow> c \<notin> C \<and> built w i P (insert c C) X v"
proof -
  obtain ok1 u1 where a1: "ask u = (ok1, u1)" by (cases "ask u")
  obtain ok2 u2 where a2: "ask u1 = (ok2, u2)" by (cases "ask u1")
  note b1 = built_ask [OF b a1] and b2 = built_ask [OF built_ask [OF b a1] a2]
  show ?thesis
  proof (cases ok1)
    case False
    then show ?thesis using m a1 b1 by (auto simp: ri_consumer_map_def)
  next
    case True
    from m a1 a2 True obtain shm where
      s: "live (w_shms u2) i = Some shm" and
      k: "(case ri_consumer_queue_new cls ok2 (ri_shm_ptr shm off) attr of None \<Rightarrow> Some (None, u2) | Some queue \<Rightarrow> do {
         w \<leftarrow> ri_shm_ref i u2;
         let consumer = \<lparr>cn_owners = RI_OWNER_GROUP_FLAG, cn_queue = queue, cn_shm = i,
           cn_shm_offset = off, cn_eventfd = (if a_eventfd attr then fd else -1)\<rparr>;
         Some (Some (length (w_consumers w)), w\<lparr>w_consumers := w_consumers w @ [Some consumer]\<rparr>) }) = Some (res, v)"
      by (auto simp: ri_consumer_map_def bind_eq_Some_conv)
    show ?thesis
    proof (cases "ri_consumer_queue_new cls ok2 (ri_shm_ptr shm off) attr")
      case None
      then show ?thesis using k b2 by auto
    next
      case (Some queue')
      let ?x = "\<lparr>cn_owners = RI_OWNER_GROUP_FLAG, cn_queue = queue', cn_shm = i,
        cn_shm_offset = off, cn_eventfd = (if a_eventfd attr then fd else -1)\<rparr>"
      have "built w i P (insert (length (w_consumers u2)) C) X
         (u2\<lparr>w_shms := (w_shms u2)[i := Some (shm\<lparr>s_ref_cnt := s_ref_cnt shm + 1\<rparr>)],
             w_consumers := w_consumers u2 @ [Some ?x]\<rparr>)"
        by (rule built_add_consumer [OF b2 s]) (use fd in \<open>simp_all add: plain_consumer_def\<close>)
      moreover have "length (w_consumers u2) \<notin> C"
        using b2 by (auto simp: built_def added_def live_def)
      ultimately show ?thesis using k Some s by (auto simp: ri_shm_ref_def Let_def)
    qed
  qed
qed

end
