(* ===== verification/Channel_Side.thy ===== *)
theory Channel_Side
  imports Group_Resources
begin

text \<open>
  Channels that have been handed out: a user may keep a channel when the group is deleted, and the memory lives as long as
  one of them does. The locale \<open>channel_side\<close> is the contract of the table of consumers, and of that of producers, towards the
  rest of the process; what an acquisition, a release and the release by the group do to what the process holds is proved once in it.
\<close>

section \<open>What a process holds\<close>

text \<open>Descriptors \<open>F\<close> have been opened since \<open>w\<close>.\<close>

definition opened :: "world \<Rightarrow> int set \<Rightarrow> world \<Rightarrow> bool" where
  "opened w F u \<longleftrightarrow> (\<forall>fd\<in>F. map_of (w_fds w) fd = None) \<and> (\<forall>fd. fd \<notin> F \<longrightarrow> map_of (w_fds u) fd = map_of (w_fds w) fd)"

text \<open>The memory object \<open>i\<close> with \<open>n\<close> references; without any it is gone.\<close>

definition referred :: "world \<Rightarrow> nat \<Rightarrow> nat \<Rightarrow> world \<Rightarrow> bool" where
  "referred w i n u \<longleftrightarrow> live (w_shms w) i = None \<and> (\<forall>j. j \<noteq> i \<longrightarrow> live (w_shms u) j = live (w_shms w) j) \<and>
     (if n = 0 then live (w_shms u) i = None else \<exists>s. live (w_shms u) i = Some s \<and> s_ref_cnt s = int n)"

definition mem_fd :: "nat \<Rightarrow> world \<Rightarrow> int set" where
  "mem_fd i u = (case live (w_shms u) i of None \<Rightarrow> {} | Some s \<Rightarrow> {s_fd s})"

definition kept :: "world \<Rightarrow> nat \<Rightarrow> nat \<Rightarrow> int set \<Rightarrow> world \<Rightarrow> bool" where
  "kept w i n F u \<longleftrightarrow> referred w i n u \<and> opened w (F \<union> mem_fd i u) u"

text \<open>The channels of a table: who owns them, user and group.\<close>

type_synonym shares = "nat \<Rightarrow> (bool \<times> bool) option"

definition shared_out :: "('o \<Rightarrow> bool) \<Rightarrow> ('o \<Rightarrow> u32) \<Rightarrow> 'o option list \<Rightarrow> shares \<Rightarrow> 'o option list \<Rightarrow> bool" where
  "shared_out Q owners objs M objs' \<longleftrightarrow> finite (dom M) \<and>
     (\<forall>c u g. M c = Some (u, g) \<longrightarrow> (u \<or> g) \<and> live objs c = None \<and>
        (\<exists>x. live objs' c = Some x \<and> Q x \<and> owners x = owners_word u g)) \<and>
     (\<forall>c. M c = None \<longrightarrow> live objs' c = live objs c)"

lemma shared_outD: "shared_out Q owners objs M objs' \<Longrightarrow> M c = Some (u, g) \<Longrightarrow>
    (u \<or> g) \<and> live objs c = None \<and> (\<exists>x. live objs' c = Some x \<and> Q x \<and> owners x = owners_word u g)"
  by (simp add: shared_out_def)

lemma shared_out_upd:
  assumes "shared_out Q owners objs M t" and "M c = Some (a, b)" and "\<And>d. d \<noteq> c \<Longrightarrow> live t' d = live t d"
    and "live t' c = Some x" and "Q x" and "owners x = owners_word a' b'" and "a' \<or> b'"
  shows "shared_out Q owners objs (M(c \<mapsto> (a', b'))) t'"
  unfolding shared_out_def
proof (intro conjI allI impI)
  show "finite (dom (M(c \<mapsto> (a', b'))))" using assms(1) by (simp add: shared_out_def)
next
  fix d u g assume "(M(c \<mapsto> (a', b'))) d = Some (u, g)"
  then show "u \<or> g" and "live objs d = None" and "\<exists>x. live t' d = Some x \<and> Q x \<and> owners x = owners_word u g"
    using shared_outD [OF assms(1,2)] shared_outD [OF assms(1), of d u g] assms(3-7) by (auto split: if_splits)
next
  fix d assume "(M(c \<mapsto> (a', b'))) d = None"
  then show "live t' d = live objs d" using assms(1,3) by (auto simp: shared_out_def split: if_splits)
qed

lemma shared_out_del:
  assumes "shared_out Q owners objs M t" and "M c = Some (a, b)" and "\<And>d. d \<noteq> c \<Longrightarrow> live t' d = live t d" and "live t' c = None"
  shows "shared_out Q owners objs (M(c := None)) t'"
  unfolding shared_out_def
proof (intro conjI allI impI)
  show "finite (dom (M(c := None)))" using assms(1) by (simp add: shared_out_def)
next
  fix d u g assume "(M(c := None)) d = Some (u, g)"
  then show "u \<or> g" and "live objs d = None" and "\<exists>x. live t' d = Some x \<and> Q x \<and> owners x = owners_word u g"
    using shared_outD [OF assms(1), of d u g] assms(3) by (auto split: if_splits)
next
  fix d assume "(M(c := None)) d = None"
  then show "live t' d = live objs d" using assms(1,3,4) shared_outD [OF assms(1,2)] by (auto simp: shared_out_def split: if_splits)
qed

lemma openedI: "opened w F u \<Longrightarrow> F' \<subseteq> F \<Longrightarrow> F \<subseteq> F' \<union> E \<Longrightarrow> \<forall>fd\<in>E. map_of (w_fds v) fd = None \<Longrightarrow>
    \<forall>fd\<in>E. map_of (w_fds w) fd = None \<Longrightarrow> \<forall>fd. fd \<notin> E \<longrightarrow> map_of (w_fds v) fd = map_of (w_fds u) fd \<Longrightarrow> opened w F' v"
  unfolding opened_def by (metis Un_iff in_mono)

lemma kept_close:
  assumes "kept w i n F u" and "F' \<subseteq> F" and "F \<subseteq> insert e F'" and "e \<in> F"
  shows "kept w i n F' (close_fd e u)"
proof -
  have m: "mem_fd i (close_fd e u) = mem_fd i u" "referred w i n (close_fd e u) = referred w i n u"
    by (simp_all add: mem_fd_def referred_def close_fd_def)
  have "opened w (F' \<union> mem_fd i u) (close_fd e u)"
    by (rule openedI [of w "F \<union> mem_fd i u" u _ "{e}"]) (use assms in \<open>auto simp: kept_def opened_def close_fd_map\<close>)
  then show ?thesis using assms(1) by (simp add: kept_def m)
qed

lemma kept_cong: "w_shms v = w_shms u \<Longrightarrow> w_fds v = w_fds u \<Longrightarrow> kept w i n F v = kept w i n F u"
  by (simp add: kept_def referred_def opened_def mem_fd_def)

lemma kept_unref:
  assumes "kept w i (Suc n) F u"
  shows "\<exists>v. ri_shm_unref i u = Some v \<and> kept w i n F v \<and> w_producers v = w_producers u \<and> w_consumers v = w_consumers u \<and>
    w_caches v = w_caches u"
proof -
  obtain s where s: "live (w_shms u) i = Some s" "s_ref_cnt s = int (Suc n)"
    using assms by (auto simp: kept_def referred_def)
  note i = live_Some_length [OF s(1)]
  show ?thesis
  proof (cases n)
    case 0
    let ?v = "shm_delete i s u"
    let ?v = "shm_delete i (s\<lparr>s_ref_cnt := 0\<rparr>) u"
    have v: "ri_shm_unref i u = Some ?v" using s 0 by (simp add: ri_shm_unref_def)
    have l: "live (w_shms ?v) i = None" "mem_fd i ?v = {}" using i by (simp_all add: shm_delete_def close_fd_def live_update mem_fd_def)
    have "opened w (F \<union> {s_fd s}) u" using assms s by (simp add: kept_def mem_fd_def)
    then have "opened w F ?v" by (auto simp: opened_def shm_delete_def close_fd_map)
    moreover have "referred w i 0 ?v" using assms l(1) by (simp add: kept_def referred_def) (simp add: shm_delete_def close_fd_def live_update)
    ultimately have "kept w i n F ?v" using 0 by (simp add: kept_def l(2))
    then show ?thesis using v by (simp add: shm_delete_def close_fd_def)
  next
    case (Suc m)
    let ?v = "u\<lparr>w_shms := (w_shms u)[i := Some (s\<lparr>s_ref_cnt := int n\<rparr>)]\<rparr>"
    have v: "ri_shm_unref i u = Some ?v" using s Suc by (simp add: ri_shm_unref_def)
    have "mem_fd i ?v = mem_fd i u" using i s by (simp add: mem_fd_def live_update)
    then have "kept w i n F ?v" using assms s i Suc by (simp add: kept_def referred_def opened_def live_update)
    then show ?thesis using v by simp
  qed
qed

text \<open>The users own \<open>U\<close>, the group \<open>S\<close>.\<close>

definition shares_of :: "nat set \<Rightarrow> nat set \<Rightarrow> shares" where
  "shares_of U S c = (if c \<in> U \<union> S then Some (c \<in> U, c \<in> S) else None)"

lemma dom_shares_of [simp]: "dom (shares_of U S) = U \<union> S"
  by (auto simp: shares_of_def split: if_splits)

lemma shares_of_user: "c \<in> U \<Longrightarrow> shares_of U S c = Some (True, c \<in> S)"
  and shares_of_group: "c \<in> S \<Longrightarrow> shares_of U S c = Some (c \<in> U, True)"
  by (simp_all add: shares_of_def)

lemma shares_taken: "(shares_of U S)(c \<mapsto> (True, c \<in> S)) = shares_of (insert c U) S"
  by (auto simp: shares_of_def fun_eq_iff)

lemma shares_given: "(if c \<in> S then (shares_of U S)(c \<mapsto> (False, True)) else (shares_of U S)(c := None)) = shares_of (U - {c}) S"
  by (auto simp: shares_of_def fun_eq_iff)

lemma shares_left: "(if c \<in> U then (shares_of U S)(c \<mapsto> (True, False)) else (shares_of U S)(c := None)) = shares_of U (S - {c})"
  by (auto simp: shares_of_def fun_eq_iff)

section \<open>The contract of a table of channels\<close>

text \<open>
  \<open>put\<close> replaces the table of the process, \<open>others\<close> is the other one. The three operations are given by their effect: the
  first two are atomic updates of the owners, and whoever finds that the other owner is gone deletes the channel.
\<close>

locale channel_side =
  fixes objs :: "world \<Rightarrow> 'o option list" and put :: "'o option list \<Rightarrow> world \<Rightarrow> world" and others :: "world \<Rightarrow> 'p option list"
    and event :: "'o \<Rightarrow> int" and owners :: "'o \<Rightarrow> u32" and mem :: "'o \<Rightarrow> nat" and plain :: "'o \<Rightarrow> bool" and set_owners :: "u32 \<Rightarrow> 'o \<Rightarrow> 'o"
    and acquire :: "nat \<Rightarrow> world \<Rightarrow> (int \<times> world) option"
    and release :: "nat \<Rightarrow> world \<Rightarrow> world option" and group_release :: "nat \<Rightarrow> world \<Rightarrow> world option"
    and delete :: "nat \<Rightarrow> 'o \<Rightarrow> world \<Rightarrow> world option"
  assumes put: "objs (put t w) = t" "w_shms (put t w) = w_shms w" "w_fds (put t w) = w_fds w" "others (put t w) = others w"
      "w_caches (put t w) = w_caches w"
    and frames: "objs (close_fd fd w) = objs w" "others (close_fd fd w) = others w"
    and unref_frames: "ri_shm_unref i w = Some w' \<Longrightarrow> objs w' = objs w \<and> others w' = others w"
    and owners_set: "owners (set_owners f x) = f" "mem (set_owners f x) = mem x" "plain (set_owners f x) = plain x" "event (set_owners f x) = event x"
    and acquire: "live (objs w) c = Some x \<Longrightarrow> acquire c w =
      Some (if flagged (owners x) RI_OWNER_USER_FLAG then -1 else 0, put ((objs w)[c := Some (set_owners (owners x OR RI_OWNER_USER_FLAG) x)]) w)"
    and release: "live (objs w) c = Some x \<Longrightarrow> release c w =
      (let w = put ((objs w)[c := Some (set_owners (owners x AND RI_OWNER_GROUP_FLAG) x)]) w in
       if \<not> flagged (owners x) RI_OWNER_GROUP_FLAG then delete c x w else Some w)"
    and group_release: "live (objs w) c = Some x \<Longrightarrow> group_release c w =
      (let w = put ((objs w)[c := Some (set_owners (owners x AND RI_OWNER_USER_FLAG) x)]) w in
       if \<not> flagged (owners x) RI_OWNER_USER_FLAG then delete c x w else Some w)"
    and delete: "delete c x w = do {
      w \<leftarrow> ri_shm_unref (mem x) w;
      let w = (if event x \<ge> 0 then close_fd (event x) w else w);
      Some (put ((objs w)[c := None]) w) }"
begin

text \<open>The table \<open>t\<close> of \<open>w\<close> with the channels \<open>M\<close> added, \<open>n\<close> references to the memory and \<open>F\<close> descriptors beside theirs.\<close>

definition uses :: "nat \<Rightarrow> 'o \<Rightarrow> bool" where
  "uses i x \<longleftrightarrow> mem x = i \<and> plain x"

definition side_held :: "world \<Rightarrow> nat \<Rightarrow> shares \<Rightarrow> nat \<Rightarrow> int set \<Rightarrow> world \<Rightarrow> bool" where
  "side_held w i M n F u \<longleftrightarrow> kept w i (n + card (dom M)) (F \<union> fds_in event (dom M) (objs u)) u \<and>
     shared_out (uses i) owners (objs w) M (objs u)"

lemma kept_put: "kept w i n F (put t u) = kept w i n F u"
  by (rule kept_cong) (simp_all add: put)

lemma fds_in_same:
  assumes "\<And>c. c \<in> S \<Longrightarrow> map_option event (live t' c) = map_option event (live t c)"
  shows "fds_in event S t' = fds_in event S t"
proof -
  have "(\<exists>x. live t' c = Some x \<and> event x = fd) \<longleftrightarrow> (\<exists>x. live t c = Some x \<and> event x = fd)" if "c \<in> S" for c fd
    using assms [OF that] by (cases "live t' c"; cases "live t c") auto
  then show ?thesis by (auto simp: fds_in_def)
qed

text \<open>A change of owners that leaves one.\<close>

lemma reowned:
  assumes h: "side_held w i M n F u" and x: "live (objs u) c = Some x" and c: "M c = Some (a, b)" and o: "f = owners_word a' b'" "a' \<or> b'"
  shows "side_held w i (M(c \<mapsto> (a', b'))) n F (put ((objs u)[c := Some (set_owners f x)]) u)"
proof -
  let ?v = "put ((objs u)[c := Some (set_owners f x)]) u"
  have l: "live (objs ?v) d = (if d = c then Some (set_owners f x) else live (objs u) d)" for d
    using live_Some_length [OF x] by (simp add: put live_update)
  have d: "dom (M(c \<mapsto> (a', b'))) = dom M" using c by auto
  have "fds_in event (dom M) (objs ?v) = fds_in event (dom M) (objs u)" by (rule fds_in_same) (simp add: l x owners_set)
  moreover have "shared_out (uses i) owners (objs w) (M(c \<mapsto> (a', b'))) (objs ?v)"
  proof (rule shared_out_upd [where M = M and c = c and a = a and b = b and t = "objs u"])
    show so: "shared_out (uses i) owners (objs w) M (objs u)" using h by (simp add: side_held_def)
    show "live (objs ?v) c = Some (set_owners f x)" by (simp add: l)
    show "live (objs ?v) d = live (objs u) d" if "d \<noteq> c" for d using that by (simp add: l)
    show "uses i (set_owners f x)" using shared_outD [OF so c] x by (simp add: uses_def owners_set)
  qed (use o c in \<open>simp_all add: owners_set\<close>)
  ultimately show ?thesis using h unfolding side_held_def d by (simp add: kept_put put)
qed

text \<open>The deletion of a channel.\<close>

lemma deleted:
  assumes h: "side_held w i M n F u" and x: "live (objs u) c = Some x" and c: "M c = Some (a, b)"
  shows "\<exists>v. delete c x (put ((objs u)[c := Some y]) u) = Some v \<and> side_held w i (M(c := None)) n F v \<and> others v = others u \<and>
    w_caches v = w_caches u"
proof -
  let ?u = "put ((objs u)[c := Some y]) u" and ?F = "F \<union> fds_in event (dom M) (objs u)" and ?M = "M(c := None)"
  have so: "shared_out (uses i) owners (objs w) M (objs u)" using h by (simp add: side_held_def)
  have m: "mem x = i" using shared_outD [OF so c] x by (auto simp: uses_def)
  have fin: "finite (dom M)" using so by (simp add: shared_out_def)
  have card: "n + card (dom M) = Suc (n + card (dom ?M))" using card_Suc_Diff1 [OF fin, of c] c by (simp add: domI)
  have k: "kept w i (Suc (n + card (dom ?M))) ?F ?u" using h by (simp add: side_held_def card kept_put)
  obtain v where v: "ri_shm_unref i ?u = Some v" "kept w i (n + card (dom ?M)) ?F v" "objs v = objs ?u" "others v = others ?u" "w_caches v = w_caches u"
    using kept_unref [OF k] unref_frames by (auto simp: put)
  let ?v = "if event x \<ge> 0 then close_fd (event x) v else v" and ?t = "(objs u)[c := None]"
  have l: "live ?t d = (if d = c then None else live (objs u) d)" for d using live_Some_length [OF x] by (simp add: live_update)
  have d: "delete c x ?u = Some (put ?t ?v)" using v by (simp add: delete m Let_def frames put)
  have sub: "fds_in event (dom ?M) ?t \<subseteq> fds_in event (dom M) (objs u)"
    "fds_in event (dom M) (objs u) \<subseteq> insert (event x) (fds_in event (dom ?M) ?t)"
    by (auto simp: fds_in_def l x)
  have "kept w i (n + card (dom ?M)) (F \<union> fds_in event (dom ?M) ?t) ?v"
  proof (cases "event x \<ge> 0")
    case True
    then have "event x \<in> fds_in event (dom M) (objs u)" using c x by (auto simp: fds_in_def)
    then show ?thesis using True kept_close [OF v(2), of "F \<union> fds_in event (dom ?M) ?t" "event x"] sub by auto
  next
    case False
    then have "event x \<notin> fds_in event (dom M) (objs u)" by (simp add: fds_in_def)
    then have "fds_in event (dom ?M) ?t = fds_in event (dom M) (objs u)" using sub by auto
    then show ?thesis using False v(2) by simp
  qed
  moreover have "shared_out (uses i) owners (objs w) ?M ?t" by (rule shared_out_del [where c = c and a = a and b = b and t = "objs u"]) (use h c l in \<open>auto simp: side_held_def\<close>)
  ultimately have "side_held w i ?M n F (put ?t ?v)" by (simp add: side_held_def kept_put put)
  moreover have "others (put ?t ?v) = others u" using v(4) by (simp add: put frames)
  moreover have "w_caches (put ?t ?v) = w_caches u" using v(5) by (simp add: put) (simp add: close_fd_def)
  ultimately show ?thesis using d by blast
qed

lemma side_object:
  assumes "side_held w i M n F u" and "M c = Some (a, b)"
  obtains x where "live (objs u) c = Some x" and "owners x = owners_word a b" and "a \<or> b"
  using assms shared_outD [of "uses i" owners "objs w" M "objs u" c a b] that by (auto simp: side_held_def)

lemma side_acquire:
  assumes h: "side_held w i M n F u" and c: "M c = Some (a, b)"
  shows "\<exists>v. acquire c u = Some (if a then -1 else 0, v) \<and> side_held w i (M(c \<mapsto> (True, b))) n F v \<and> others v = others u \<and>
    w_caches v = w_caches u"
proof (rule side_object [OF h c])
  fix x assume x: "live (objs u) c = Some x" "owners x = owners_word a b"
  show ?thesis using reowned [OF h x(1) c, of "owners_word True b" True b] by (simp add: acquire [OF x(1)] x(2) owners_word_flags put)
qed

lemma side_release:
  assumes h: "side_held w i M n F u" and c: "M c = Some (True, b)"
  shows "\<exists>v. release c u = Some v \<and> side_held w i (if b then M(c \<mapsto> (False, True)) else M(c := None)) n F v \<and> others v = others u \<and>
    w_caches v = w_caches u"
proof (rule side_object [OF h c])
  fix x assume x: "live (objs u) c = Some x" "owners x = owners_word True b"
  show ?thesis
    using reowned [OF h x(1) c, of "owners_word False True" False True] deleted [OF h x(1) c]
    by (cases b) (simp_all add: release [OF x(1)] x(2) owners_word_flags put)
qed

lemma side_group_release:
  assumes h: "side_held w i M n F u" and c: "M c = Some (a, True)"
  shows "\<exists>v. group_release c u = Some v \<and> side_held w i (if a then M(c \<mapsto> (True, False)) else M(c := None)) n F v \<and> others v = others u \<and>
    w_caches v = w_caches u"
proof (rule side_object [OF h c])
  fix x assume x: "live (objs u) c = Some x" "owners x = owners_word a True"
  show ?thesis
    using reowned [OF h x(1) c, of "owners_word True False" True False] deleted [OF h x(1) c]
    by (cases a) (simp_all add: group_release [OF x(1)] x(2) owners_word_flags put)
qed

text \<open>The same on owners as sets.\<close>

lemma shares_acquire:
  assumes "side_held w i (shares_of U S) n F u" and "c \<in> S"
  shows "\<exists>v. acquire c u = Some (if c \<in> U then -1 else 0, v) \<and> side_held w i (shares_of (insert c U) S) n F v \<and>
    others v = others u \<and> w_caches v = w_caches u"
  using side_acquire [OF assms(1) shares_of_group [OF assms(2)]] shares_taken [of U S c] assms(2) by simp

lemma shares_release:
  assumes "side_held w i (shares_of U S) n F u" and "c \<in> U"
  shows "\<exists>v. release c u = Some v \<and> side_held w i (shares_of (U - {c}) S) n F v \<and> others v = others u \<and> w_caches v = w_caches u"
  using side_release [OF assms(1) shares_of_user [OF assms(2)]] by (simp only: shares_given)

lemma shares_group_release:
  assumes "side_held w i (shares_of U S) n F u" and "c \<in> S"
  shows "\<exists>v. group_release c u = Some v \<and> side_held w i (shares_of U (S - {c})) n F v \<and> others v = others u \<and>
    w_caches v = w_caches u"
  using side_group_release [OF assms(1) shares_of_group [OF assms(2)]] by (simp only: shares_left)

end

interpretation consumer_side: channel_side w_consumers "\<lambda>t. w_consumers_update (\<lambda>_. t)" w_producers cn_eventfd cn_owners cn_shm "\<lambda>_. True"
  "\<lambda>f. cn_owners_update (\<lambda>_. f)" ri_consumer_acquire ri_consumer_release ri_group_release_consumer ri_consumer_delete
  by unfold_locales (auto simp: close_fd_def ri_shm_unref_def shm_delete_def ri_consumer_acquire_def ri_consumer_release_def
      ri_group_release_consumer_def consumer_owners_def ri_consumer_delete_def Let_def split: if_splits)

interpretation producer_side: channel_side w_producers "\<lambda>t. w_producers_update (\<lambda>_. t)" w_consumers pr_eventfd pr_owners pr_shm
  "\<lambda>x. pr_cache x = None"
  "\<lambda>f. pr_owners_update (\<lambda>_. f)" ri_producer_acquire ri_producer_release ri_group_release_producer ri_producer_delete
  by unfold_locales (auto simp: close_fd_def ri_shm_unref_def shm_delete_def ri_producer_acquire_def ri_producer_release_def
      ri_group_release_producer_def producer_owners_def ri_producer_delete_def Let_def split: if_splits)

end
