(* ===== verification/Group_Handles.thy ===== *)
theory Group_Handles
  imports Channel_Side
begin

text \<open>
  A group and its users: the process holds the channels that the group or a user owns, one reference to the memory for each
  and one for the group. Acquiring, releasing and deleting the group keep this, so what is left in the end is nothing.
\<close>

section \<open>What group and users hold\<close>

text \<open>The group holds \<open>k\<close> references of its own; \<open>X\<close> are descriptors that belong to no channel.\<close>

definition held :: "world \<Rightarrow> nat \<Rightarrow> nat \<Rightarrow> nat set \<Rightarrow> nat set \<Rightarrow> nat set \<Rightarrow> nat set \<Rightarrow> int set \<Rightarrow> world \<Rightarrow> bool" where
  "held w i k PU PS CU CS X u \<longleftrightarrow>
     kept w i (k + card (PU \<union> PS) + card (CU \<union> CS))
       (X \<union> fds_in pr_eventfd (PU \<union> PS) (w_producers u) \<union> fds_in cn_eventfd (CU \<union> CS) (w_consumers u)) u \<and>
     shared_out (producer_side.uses i) pr_owners (w_producers w) (shares_of PU PS) (w_producers u) \<and>
     shared_out (consumer_side.uses i) cn_owners (w_consumers w) (shares_of CU CS) (w_consumers u) \<and> w_caches u = w_caches w"

lemma held_consumers: "held w i k PU PS CU CS X u \<longleftrightarrow>
    consumer_side.side_held w i (shares_of CU CS) (k + card (PU \<union> PS)) (X \<union> fds_in pr_eventfd (PU \<union> PS) (w_producers u)) u \<and>
    shared_out (producer_side.uses i) pr_owners (w_producers w) (shares_of PU PS) (w_producers u) \<and> w_caches u = w_caches w"
  by (auto simp: held_def consumer_side.side_held_def)

lemma held_producers: "held w i k PU PS CU CS X u \<longleftrightarrow>
    producer_side.side_held w i (shares_of PU PS) (k + card (CU \<union> CS)) (X \<union> fds_in cn_eventfd (CU \<union> CS) (w_consumers u)) u \<and>
    shared_out (consumer_side.uses i) cn_owners (w_consumers w) (shares_of CU CS) (w_consumers u) \<and> w_caches u = w_caches w"
  by (auto simp: held_def producer_side.side_held_def Un_ac add_ac)

lemma held_consumer:
  assumes "held w i k PU PS CU CS X u"
    and "consumer_side.side_held w i (shares_of CU CS) (k + card (PU \<union> PS)) (X \<union> fds_in pr_eventfd (PU \<union> PS) (w_producers u)) u \<Longrightarrow>
      \<exists>v. f u = Some (g v) \<and>
        consumer_side.side_held w i (shares_of CU' CS') (k + card (PU \<union> PS)) (X \<union> fds_in pr_eventfd (PU \<union> PS) (w_producers u)) v \<and>
        w_producers v = w_producers u \<and> w_caches v = w_caches u"
  shows "\<exists>v. f u = Some (g v) \<and> held w i k PU PS CU' CS' X v"
proof -
  obtain v where v: "f u = Some (g v)" "w_producers v = w_producers u" "w_caches v = w_caches u"
    "consumer_side.side_held w i (shares_of CU' CS') (k + card (PU \<union> PS)) (X \<union> fds_in pr_eventfd (PU \<union> PS) (w_producers u)) v"
    using assms unfolding held_consumers by blast
  then show ?thesis using assms(1) unfolding held_consumers by (intro exI [of _ v]) simp
qed

lemma held_producer:
  assumes "held w i k PU PS CU CS X u"
    and "producer_side.side_held w i (shares_of PU PS) (k + card (CU \<union> CS)) (X \<union> fds_in cn_eventfd (CU \<union> CS) (w_consumers u)) u \<Longrightarrow>
      \<exists>v. f u = Some (g v) \<and>
        producer_side.side_held w i (shares_of PU' PS') (k + card (CU \<union> CS)) (X \<union> fds_in cn_eventfd (CU \<union> CS) (w_consumers u)) v \<and>
        w_consumers v = w_consumers u \<and> w_caches v = w_caches u"
  shows "\<exists>v. f u = Some (g v) \<and> held w i k PU' PS' CU CS X v"
proof -
  obtain v where v: "f u = Some (g v)" "w_consumers v = w_consumers u" "w_caches v = w_caches u"
    "producer_side.side_held w i (shares_of PU' PS') (k + card (CU \<union> CS)) (X \<union> fds_in cn_eventfd (CU \<union> CS) (w_consumers u)) v"
    using assms unfolding held_producers by blast
  then show ?thesis using assms(1) unfolding held_producers by (intro exI [of _ v]) simp
qed

lemma held_consumer_acquire: "held w i k PU PS CU CS X u \<Longrightarrow> c \<in> CS \<Longrightarrow>
    \<exists>v. ri_consumer_acquire c u = Some (if c \<in> CU then -1 else 0, v) \<and> held w i k PU PS (insert c CU) CS X v"
  by (erule held_consumer) (rule consumer_side.shares_acquire)

lemma held_producer_acquire: "held w i k PU PS CU CS X u \<Longrightarrow> p \<in> PS \<Longrightarrow>
    \<exists>v. ri_producer_acquire p u = Some (if p \<in> PU then -1 else 0, v) \<and> held w i k (insert p PU) PS CU CS X v"
  by (erule held_producer) (rule producer_side.shares_acquire)

lemma held_consumer_release: "held w i k PU PS CU CS X u \<Longrightarrow> c \<in> CU \<Longrightarrow>
    \<exists>v. ri_consumer_release c u = Some v \<and> held w i k PU PS (CU - {c}) CS X v"
  by (erule held_consumer [where g = "\<lambda>v. v"]) (rule consumer_side.shares_release)

lemma held_producer_release: "held w i k PU PS CU CS X u \<Longrightarrow> p \<in> PU \<Longrightarrow>
    \<exists>v. ri_producer_release p u = Some v \<and> held w i k (PU - {p}) PS CU CS X v"
  by (erule held_producer [where g = "\<lambda>v. v"]) (rule producer_side.shares_release)

lemma held_group_release_consumer: "held w i k PU PS CU CS X u \<Longrightarrow> c \<in> CS \<Longrightarrow>
    \<exists>v. ri_group_release_consumer c u = Some v \<and> held w i k PU PS CU (CS - {c}) X v"
  by (erule held_consumer [where g = "\<lambda>v. v"]) (rule consumer_side.shares_group_release)

lemma held_group_release_producer: "held w i k PU PS CU CS X u \<Longrightarrow> p \<in> PS \<Longrightarrow>
    \<exists>v. ri_group_release_producer p u = Some v \<and> held w i k PU (PS - {p}) CU CS X v"
  by (erule held_producer [where g = "\<lambda>v. v"]) (rule producer_side.shares_group_release)

lemma held_unref: "held w i (Suc k) PU PS CU CS X u \<Longrightarrow> \<exists>v. ri_shm_unref i u = Some v \<and> held w i k PU PS CU CS X v"
  unfolding held_def by (auto dest!: kept_unref)

text \<open>A new group is held by itself alone.\<close>

lemma added_shared:
  assumes "added P objs S objs'" and "\<And>x. P x \<Longrightarrow> Q x \<and> owners x = RI_OWNER_GROUP_FLAG"
  shows "shared_out Q owners objs (shares_of {} S) objs'"
  using assms by (fastforce simp: added_def shared_out_def shares_of_def owners_word_def split: if_splits)

lemma built_held_by_group:
  assumes "built w i P C X u"
  shows "held w i 1 {} P {} C X u"
  using assms
  by (auto simp: built_def held_def kept_def referred_def opened_def mem_fd_def group_fds_def plain_producer_def plain_consumer_def
      consumer_side.uses_def producer_side.uses_def       Un_ac intro!: added_shared)

text \<open>Everything is as before but for the descriptors \<open>X\<close>, which were not open then.\<close>

definition same_but :: "int set \<Rightarrow> world \<Rightarrow> world \<Rightarrow> bool" where
  "same_but X w w' \<longleftrightarrow> (\<forall>fd. fd \<in> X \<longrightarrow> map_of (w_fds w) fd = None) \<and>
     (\<forall>fd. fd \<notin> X \<longrightarrow> map_of (w_fds w') fd = map_of (w_fds w) fd) \<and>
     live (w_shms w') = live (w_shms w) \<and> live (w_producers w') = live (w_producers w) \<and>
     live (w_consumers w') = live (w_consumers w) \<and> w_caches w' = w_caches w"

lemma same_but_none: "same_but {} w w' = same_objects w w'"
  by (auto simp: same_but_def same_objects_def)

text \<open>Without references and owners nothing is left.\<close>

lemma shared_nothing: "shared_out Q owners objs (shares_of {} {}) objs' \<Longrightarrow> live objs' = live objs"
  by (simp add: shared_out_def shares_of_def fun_eq_iff)

lemma held_nothing: "held w i 0 {} {} {} {} X u \<Longrightarrow> same_but X w u"
  by (auto simp: held_def same_but_def kept_def referred_def opened_def mem_fd_def fds_in_def dest!: shared_nothing)
    (metis ext)

section \<open>Deleting the group\<close>

text \<open>\<open>B S u\<close> as for the creation of the channels.\<close>

lemma release_all_held:
  assumes step: "\<And>S u c. B S u \<Longrightarrow> c \<in> S \<Longrightarrow> \<exists>v. grel c u = Some v \<and> B (S - {c}) v"
    and "B S u" and "distinct cs" and "set cs \<subseteq> S"
  shows "\<exists>v. release_all grel (map Some cs @ replicate k None) u = Some v \<and> B (S - set cs) v"
  using assms(2-4)
proof (induction cs arbitrary: S u)
  case Nil
  have "release_all grel (replicate k None) u = Some u" by (induction k) simp_all
  then show ?case using Nil by simp
next
  case (Cons c cs)
  obtain v where v: "grel c u = Some v" "B (S - {c}) v"
    using step [OF Cons.prems(1), of c] Cons.prems(3) by auto
  have "set cs \<subseteq> S - {c}" "distinct cs" using Cons.prems(2,3) by auto
  from Cons.IH [OF v(2) this(2,1)] obtain v' where
    "release_all grel (map Some cs @ replicate k None) v = Some v'" "B (S - {c} - set cs) v'" by blast
  moreover have "S - {c} - set cs = S - set (c # cs)" by auto
  ultimately show ?case using v(1) by simp
qed

text \<open>The arrays of a group whose channels are \<open>ps\<close> and \<open>cs\<close>, with null pointers behind them.\<close>

definition array_holds :: "nat option list option \<Rightarrow> u32 \<Rightarrow> nat list \<Rightarrow> bool" where
  "array_holds arr n cs \<longleftrightarrow> length cs \<le> unat n \<and>
     arr = (if n = 0 then None else Some (map Some cs @ replicate (unat n - length cs) None))"

lemma release_array_holds:
  assumes "array_holds arr n cs"
  shows "release_array grel arr n w = release_all grel (map Some cs @ replicate (unat n - length cs) None) w"
  using assms by (auto simp: array_holds_def release_array_def)

lemma filled_holds:
  assumes "array_holds arr n []" and "length cs \<le> unat n"
  shows "array_holds (filled arr cs) n cs"
  using assms by (auto simp: array_holds_def filled_def)

lemma held_delete:
  assumes h: "held w i 1 PU (set ps) CU (set cs) X u" and d: "distinct ps" "distinct cs" and i: "gr_shm grp = Some i"
    and arr: "array_holds (gr_producers grp) (gd_n_producers (gr_data grp)) ps"
      "array_holds (gr_consumers grp) (gd_n_consumers (gr_data grp)) cs"
  shows "\<exists>v. ri_group_delete grp u = Some v \<and> held w i 0 PU {} CU {} X v"
proof -
  obtain u1 where u1: "release_array ri_group_release_consumer (gr_consumers grp) (gd_n_consumers (gr_data grp)) u = Some u1"
    "held w i 1 PU (set ps) CU {} X u1"
    using release_all_held [where B = "\<lambda>S. held w i 1 PU (set ps) CU S X", OF held_group_release_consumer h d(2) order_refl]
      release_array_holds [OF arr(2)] by fastforce
  obtain u2 where u2: "release_array ri_group_release_producer (gr_producers grp) (gd_n_producers (gr_data grp)) u1 = Some u2"
    "held w i 1 PU {} CU {} X u2"
    using release_all_held [where B = "\<lambda>S. held w i 1 PU S CU {} X", OF held_group_release_producer u1(2) d(1) order_refl]
      release_array_holds [OF arr(1)] by fastforce
  show ?thesis using u1(1) u2(1) held_unref [of w i 0 PU "{}" CU "{}" X u2] u2(2) i by (simp add: ri_group_delete_def)
qed

lemma delete_built:
  assumes "built w i (set ps) (set cs) X u" and "distinct ps" "distinct cs" and "gr_shm grp = Some i"
    and "array_holds (gr_producers grp) (gd_n_producers (gr_data grp)) ps"
      "array_holds (gr_consumers grp) (gd_n_consumers (gr_data grp)) cs"
  shows "\<exists>v. ri_group_delete grp u = Some v \<and> same_but X w v"
  using held_delete [OF built_held_by_group [OF assms(1)] assms(2-6)] held_nothing by blast

text \<open>A group of the process \<open>w\<close> with all its channels; no mapping has been lost.\<close>

definition whole_group :: "world \<Rightarrow> nat \<Rightarrow> nat list \<Rightarrow> nat list \<Rightarrow> ri_group \<Rightarrow> world \<Rightarrow> bool" where
  "whole_group w i ps cs grp u \<longleftrightarrow> built w i (set ps) (set cs) {} u \<and> distinct ps \<and> distinct cs \<and> gr_shm grp = Some i \<and>
     array_holds (gr_producers grp) (gd_n_producers (gr_data grp)) ps \<and> length ps = unat (gd_n_producers (gr_data grp)) \<and>
     array_holds (gr_consumers grp) (gd_n_consumers (gr_data grp)) cs \<and> length cs = unat (gd_n_consumers (gr_data grp)) \<and> calm w u"

lemma array_whole: "array_holds arr n cs \<Longrightarrow> length cs = unat n \<Longrightarrow> array_of arr n = Some (map Some cs)"
  by (cases "n = 0") (auto simp: array_holds_def array_of_def)

lemma delete_whole: "whole_group w i ps cs grp u \<Longrightarrow> \<exists>v. ri_group_delete grp u = Some v \<and> same_resources w v"
  unfolding whole_group_def using delete_built [of w i ps cs "{}" u grp]
  by (auto simp: same_but_none intro!: same_resourcesI dest: calm_group_delete intro: calm_trans)

end
