(* ===== verification/Group_Life.thy ===== *)
theory Group_Life
  imports Group_Handles
begin

text \<open>
  The life of a group: every way \<open>ri_group_from_attr\<close> can fail, and the deletion of a group, give back what was
  taken, on the invariant \<open>built\<close> of theory \<open>Group_Resources\<close>.
\<close>

section \<open>One channel\<close>

lemma pending_closed:
  assumes "built w i P C (pending attr fd) u" and "a_eventfd attr \<longrightarrow> 0 \<le> fd" and "\<not> a_eventfd attr \<longrightarrow> fd = -1"
  shows "built w i P C {} (if fd \<ge> 0 then close_fd fd u else u)"
  using assms built_close_pending [of w i P C fd "{}" u] by (cases "a_eventfd attr") simp_all

lemma built_words: "built w i P C X u \<Longrightarrow> on_words j off n f u = Some (r, v) \<Longrightarrow> built w i P C X v"
  by (drule on_words_frame) (auto intro: built_files)

lemma built_producer_new:
  assumes b: "built w i P C {} u" and m: "ri_producer_new cls attr i off u = Some (res, v)"
  shows "case res of None \<Rightarrow> built w i P C {} v | Some p \<Rightarrow> p \<notin> P \<and> built w i (insert p P) C {} v"
proof (cases "create_eventfd attr u")
  case (Pair e u1)
  note E = built_eventfd [OF b Pair]
  show ?thesis
  proof (cases e)
    case None
    then show ?thesis using m E Pair by (auto simp: ri_producer_new_def)
  next
    case (Some fd)
    then have E: "built w i P C (pending attr fd) u1" "a_eventfd attr \<longrightarrow> 0 \<le> fd" "\<not> a_eventfd attr \<longrightarrow> fd = -1"
      using E by simp_all
    from m Pair Some obtain p u2 where p: "ri_producer_map cls attr fd i off u1 = Some (p, u2)"
      by (auto simp: ri_producer_new_def bind_eq_Some_conv)
    note M = built_producer_map [where X = "{}", simplified, OF E(1,2) p]
    show ?thesis
    proof (cases p)
      case None
      then have "res = None" "v = (if fd \<ge> 0 then close_fd fd u2 else u2)"
        using m Pair Some p by (simp_all add: ri_producer_new_def)
      then show ?thesis using pending_closed [OF _ E(2,3)] M None by simp
    next
      case p': (Some q)
      then obtain r where "on_words i off (ri_channel_queue_len attr) (\<lambda>sh. Some (ri_producer_queue_init_shm sh, ())) u2 = Some (r, v)"
        "res = Some q"
        using m Pair Some p by (auto simp: ri_producer_new_def bind_eq_Some_conv)
      then show ?thesis using M p' built_words by fastforce
    qed
  qed
qed

lemma built_consumer_new:
  assumes b: "built w i P C {} u" and m: "ri_consumer_new cls attr i off u = Some (res, v)"
  shows "case res of None \<Rightarrow> built w i P C {} v | Some c \<Rightarrow> c \<notin> C \<and> built w i P (insert c C) {} v"
proof (cases "create_eventfd attr u")
  case (Pair e u1)
  note E = built_eventfd [OF b Pair]
  show ?thesis
  proof (cases e)
    case None
    then show ?thesis using m E Pair by (auto simp: ri_consumer_new_def)
  next
    case (Some fd)
    then have E: "built w i P C (pending attr fd) u1" "a_eventfd attr \<longrightarrow> 0 \<le> fd" "\<not> a_eventfd attr \<longrightarrow> fd = -1"
      using E by simp_all
    from m Pair Some obtain c u2 where c: "ri_consumer_map cls attr fd i off u1 = Some (c, u2)"
      by (auto simp: ri_consumer_new_def bind_eq_Some_conv)
    note M = built_consumer_map [where X = "{}", simplified, OF E(1,2) c]
    show ?thesis
    proof (cases c)
      case None
      then have "res = None" "v = (if fd \<ge> 0 then close_fd fd u2 else u2)"
        using m Pair Some c by (simp_all add: ri_consumer_new_def)
      then show ?thesis using pending_closed [OF _ E(2,3)] M None by simp
    next
      case c': (Some q)
      then obtain r where "on_words i off (ri_channel_queue_len attr) (\<lambda>sh. Some (ri_consumer_queue_init_shm sh, ())) u2 = Some (r, v)"
        "res = Some q"
        using m Pair Some c by (auto simp: ri_consumer_new_def bind_eq_Some_conv)
      then show ?thesis using M c' built_words by fastforce
    qed
  qed
qed

section \<open>The channels of a table\<close>

text \<open>\<open>B S u\<close>: the world \<open>u\<close> holds the objects \<open>S\<close> beside what was there before.\<close>

lemma new_channels_held:
  assumes step: "\<And>S attr off u res v. B S u \<Longrightarrow> mk attr off u = Some (res, v) \<Longrightarrow>
      (case res of None \<Rightarrow> B S v | Some c \<Rightarrow> c \<notin> S \<and> B (insert c S) v)"
    and "B S u" and "new_channels mk cls attrs off u = Some ((cs, ok, off'), v)"
  shows "B (S \<union> set cs) v \<and> distinct cs \<and> S \<inter> set cs = {} \<and> length cs \<le> length attrs \<and>
    (ok \<longrightarrow> length cs = length attrs)"
  using assms(2,3)
proof (induction attrs arbitrary: S off u cs)
  case Nil
  then show ?case by simp
next
  case (Cons attr attrs)
  from Cons.prems(2) obtain res u1 where m: "mk attr off u = Some (res, u1)" by (auto simp: bind_eq_Some_conv)
  note st = step [OF Cons.prems(1) m]
  show ?case
  proof (cases res)
    case None
    then show ?thesis using Cons.prems(2) m st by simp
  next
    case (Some c)
    then obtain cs' where r: "new_channels mk cls attrs (off + ri_channel_shm_size cls attr) u1 = Some ((cs', ok, off'), v)"
      "cs = c # cs'" using Cons.prems(2) m by (auto simp: bind_eq_Some_conv)
    have "c \<notin> S" "B (insert c S) u1" using st Some by simp_all
    from Cons.IH [OF this(2) r(1)] show ?thesis using r(2) \<open>c \<notin> S\<close> by auto
  qed
qed

section \<open>The memory object\<close>

lemma same_fds: "w_shms v = w_shms w \<Longrightarrow> w_producers v = w_producers w \<Longrightarrow> w_consumers v = w_consumers w \<Longrightarrow>
    w_caches v = w_caches w \<Longrightarrow> map_of (w_fds v) = map_of (w_fds w) \<Longrightarrow> same_objects w v"
  by (simp add: same_objects_def)

lemma ask_frame: "ask w = (ok, v) \<Longrightarrow> v = w\<lparr>w_calls := Suc (w_calls w)\<rparr>"
  by (simp add: ask_def)

lemma shm_init_frame: "shm_init fd sz sealing w = (r, v) \<Longrightarrow> \<exists>n fs. v = w\<lparr>w_calls := n, w_files := fs\<rparr>"
proof -
  assume r: "shm_init fd sz sealing w = (r, v)"
  have "\<exists>n fs. x = w\<lparr>w_calls := n, w_files := fs\<rparr>"
    if "w_fds x = w_fds w" "w_ok x = w_ok w" "w_errno x = w_errno w" "w_addr x = w_addr w" "w_shms x = w_shms w"
      "w_producers x = w_producers w" "w_consumers x = w_consumers w" "w_caches x = w_caches w" "w_lost x = w_lost w" for x
    by (rule exI [of _ "w_calls x"], rule exI [of _ "w_files x"]) (use that in simp)
  then show ?thesis using r
    by (auto simp: shm_init_def ask_def Let_def split: if_splits option.splits kernel_file.splits)
qed

lemma shm_map_frame:
  assumes "ri_shm_map fd w = (res, v)"
  shows "w_fds v = w_fds w \<and> w_producers v = w_producers w \<and> w_consumers v = w_consumers w \<and> w_caches v = w_caches w \<and>
    (case res of None \<Rightarrow> w_shms v = w_shms w
     | Some i \<Rightarrow> i = length (w_shms w) \<and> (\<exists>s. w_shms v = w_shms w @ [Some s] \<and> s_ref_cnt s = 1 \<and> s_fd s = fd))"
  using assms
  by (auto simp: ri_shm_map_def ask_def Let_def split: if_splits option.splits kernel_file.splits bool.splits)

lemma shm_new_built:
  assumes "shm_new sz w = (res, v)"
  shows "case res of None \<Rightarrow> same_objects w v | Some i \<Rightarrow> built w i {} {} {} v"
proof -
  obtain ok w1 where a: "ask w = (ok, w1)" by (cases "ask w")
  note f1 = ask_frame [OF a]
  show ?thesis
  proof (cases ok)
    case False
    then have "res = None" "v = w1" using assms a
      by (auto simp: shm_new_def ri_shmfd_create_def neg_errno_def)
    then show ?thesis using f1 by (simp add: same_fds)
  next
    case True
    obtain fd w2 where o: "open_file (Memfd 0 zeros zeros) w1 = (fd, w2)" by (cases "open_file (Memfd 0 zeros zeros) w1")
    obtain r w3 where i: "shm_init fd sz True w2 = (r, w3)" by (cases "shm_init fd sz True w2")
    obtain n fs where f3: "w3 = w2\<lparr>w_calls := n, w_files := fs\<rparr>" using shm_init_frame [OF i] by blast
    have fd: "0 \<le> fd" "map_of (w_fds w) fd = None" and f2: "w_fds w2 = (fd, length (w_files w1)) # w_fds w" "w_shms w2 = w_shms w"
      "w_producers w2 = w_producers w" "w_consumers w2 = w_consumers w" "w_caches w2 = w_caches w"
      using o f1 fresh_fd_fresh by (auto simp: open_file_def Let_def)
    show ?thesis
    proof (cases "r < 0")
      case True
      then have "res = None" "v = close_fd fd w3" using assms a o i \<open>ok\<close>
        by (auto simp: shm_new_def ri_shmfd_create_def)
      then show ?thesis using f3 f2 fd(2)
        by (auto intro!: same_fds simp: close_fd_map) (simp_all add: close_fd_def)
    next
      case False
      then have c: "ri_shmfd_create sz w = (fd, w3)" using a o i \<open>ok\<close> by (simp add: ri_shmfd_create_def)
      obtain m w4 where m: "ri_shm_map fd w3 = (m, w4)" by (cases "ri_shm_map fd w3")
      note f4 = shm_map_frame [OF m]
      show ?thesis
      proof (cases m)
        case None
        then have "res = None" "v = close_fd fd w4" using assms c m fd(1) by (auto simp: shm_new_def)
        then show ?thesis using f4 f3 f2 fd(2) None
          by (auto intro!: same_fds simp: close_fd_map) (simp_all add: close_fd_def)
      next
        case (Some j)
        then have v: "res = Some j" "v = w4" using assms c m fd(1) by (auto simp: shm_new_def)
        obtain s where s: "w_shms w4 = w_shms w @ [Some s]" "s_ref_cnt s = 1" "s_fd s = fd" and j: "j = length (w_shms w)"
          using f4 f3 f2 Some by auto
        have G: "group_fds j {} {} {} w4 = {fd}" by (simp add: group_fds_def s j live_append fds_in_def)
        have "built w j {} {} {} w4"
        proof (rule builtI)
          show "live (w_shms w4) j = Some s" by (simp add: s j live_append)
          show "live (w_shms w) j = None" by (simp add: j live_def)
          show "map_of (w_fds w) fd' = None" if "fd' \<in> group_fds j {} {} {} w4" for fd'
            using that fd(2) unfolding G by simp
          show "map_of (w_fds w4) fd' = map_of (w_fds w) fd'" if "fd' \<notin> group_fds j {} {} {} w4" for fd'
            using that f4 f3 f2 unfolding G by simp
        qed (use f4 f3 f2 s j in \<open>simp_all add: live_append added_none\<close>)
        then show ?thesis using v by simp
      qed
    qed
  qed
qed

section \<open>Creation\<close>

lemma alloc_channels_frame:
  assumes "ri_group_alloc_channels data w = (res, v)"
  shows "same_objects w v \<and> (case res of None \<Rightarrow> True | Some (consumers, producers) \<Rightarrow>
    array_holds consumers (gd_n_consumers data) [] \<and> array_holds producers (gd_n_producers data) [])"
  using assms
  by (auto simp: ri_group_alloc_channels_def ask_def Let_def array_holds_def same_objects_def word_gt_0
      split: if_splits)

lemma table_attrs_length: "table_attrs data t n = Some as \<Longrightarrow> length as = unat n"
  by (auto simp: table_attrs_def split: option.splits if_splits)

lemma built_from: "same_objects w u \<Longrightarrow> built u i P C X v \<Longrightarrow> built w i P C X v"
  by (simp add: built_def same_objects_def added_def)

text \<open>What a creation leaves: nothing, or a group whose channels and memory are all there is.\<close>

lemma build_group_built:
  assumes "build_group cls data sz w = Some (res, w')"
  shows "case res of None \<Rightarrow> same_objects w w'
    | Some grp \<Rightarrow> (\<exists>i ps cs. whole_group w i ps cs grp w')"
proof -
  obtain arrays u1 where a: "ri_group_alloc_channels data w = (arrays, u1)" by (cases "ri_group_alloc_channels data w")
  note A = alloc_channels_frame [OF a]
  show ?thesis
  proof (cases arrays)
    case None
    then show ?thesis using assms a A by (auto simp: build_group_def)
  next
    case (Some arrays')
    then obtain consumers producers where arr: "arrays = Some (consumers, producers)" by (cases arrays') simp
    obtain m u2 where m: "shm_new sz u1 = (m, u2)" by (cases "shm_new sz u1")
    note M = shm_new_built [OF m]
    show ?thesis
    proof (cases m)
      case None
      then show ?thesis using assms a arr m A M same_objects_trans by (auto simp: build_group_def)
    next
      case (Some i)
      have b2: "built w i {} {} {} u2" using built_from [of w u1 i "{}" "{}" "{}" u2] M A Some arr by simp
      from assms a arr m Some obtain pattrs ps ok off u3 where
        pa: "table_attrs data (gd_producers data) (gd_n_producers data) = Some pattrs" and
        np: "new_channels (\<lambda>attr. ri_producer_new cls attr i) cls pattrs 0 u2 = Some ((ps, ok, off), u3)"
        by (auto simp: build_group_def bind_eq_Some_conv)
      have P: "built w i (set ps) {} {} u3" "distinct ps" "length ps \<le> unat (gd_n_producers data)"
        "ok \<Longrightarrow> length ps = unat (gd_n_producers data)"
        using new_channels_held [where B = "\<lambda>S. built w i S {} {}", OF built_producer_new b2 np]
          table_attrs_length [OF pa] by simp_all
      let ?grp = "\<lparr>gr_data = data, gr_shm = Some i, gr_consumers = consumers, gr_producers = filled producers ps\<rparr>"
      have hp: "array_holds (filled producers ps) (gd_n_producers data) ps" and hc: "array_holds consumers (gd_n_consumers data) []"
        using A arr P(3) by (simp_all add: filled_holds)
      show ?thesis
      proof (cases ok)
        case False
        have "ri_group_delete ?grp u3 \<bind> (\<lambda>w. Some (None, w)) = Some (res, w')"
          using assms a arr m Some pa np False by (simp add: build_group_def Let_def)
        then have "res = None" "ri_group_delete ?grp u3 = Some w'" by (auto simp: bind_eq_Some_conv)
        moreover have "\<exists>v. ri_group_delete ?grp u3 = Some v \<and> same_objects w v"
          unfolding same_but_none [symmetric] by (rule delete_built [of w i ps "[]"]) (use P hp hc in simp_all)
        ultimately show ?thesis by simp
      next
        case True
        from assms a arr m Some pa np True obtain cattrs cs ok' off' u4 where
          ca: "table_attrs data (gd_consumers data) (gd_n_consumers data) = Some cattrs" and
          nc: "new_channels (\<lambda>attr. ri_consumer_new cls attr i) cls cattrs off u3 = Some ((cs, ok', off'), u4)"
          by (auto simp: build_group_def bind_eq_Some_conv)
        have C: "built w i (set ps) (set cs) {} u4" "distinct cs" "length cs \<le> unat (gd_n_consumers data)"
          "ok' \<Longrightarrow> length cs = unat (gd_n_consumers data)"
          using new_channels_held [where B = "\<lambda>S. built w i (set ps) S {}", OF built_consumer_new P(1) nc]
            table_attrs_length [OF ca] by simp_all
        let ?grp' = "\<lparr>gr_data = data, gr_shm = Some i, gr_consumers = filled consumers cs, gr_producers = filled producers ps\<rparr>"
        have hc': "array_holds (filled consumers cs) (gd_n_consumers data) cs" using filled_holds [OF hc C(3)] .
        have del: "\<exists>v. ri_group_delete ?grp' u4 = Some v \<and> same_objects w v"
          unfolding same_but_none [symmetric] by (rule delete_built [OF C(1) P(2) C(2)]) (use hp hc' in simp_all)
        show ?thesis
        proof (cases ok')
          case False
          have "ri_group_delete ?grp' u4 \<bind> (\<lambda>w. Some (None, w)) = Some (res, w')"
            using assms a arr m Some pa np \<open>ok\<close> ca nc False by (simp add: build_group_def Let_def)
          then show ?thesis using del by (auto simp: bind_eq_Some_conv)
        next
          case True
          then have "res = Some ?grp'" "w' = u4"
            using assms a arr m Some pa np \<open>ok\<close> ca nc by (simp_all add: build_group_def Let_def)
          moreover have "calm w w'" using lossy_build_group [OF assms] calculation(1) by simp
          ultimately have "whole_group w i ps cs ?grp' w'" using C P \<open>ok\<close> True hp hc' by (simp add: whole_group_def)
          with \<open>res = Some ?grp'\<close> show ?thesis by auto
        qed
      qed
    qed
  qed
qed

lemma take_allocs_frame: "take_allocs raw w = (al, v) \<Longrightarrow> v = w\<lparr>w_calls := w_calls w + 3\<rparr> \<and>
    al = \<lparr>al_consumers = w_ok w (w_calls w), al_producers = w_ok w (w_calls w + 1), al_infos = w_ok w (w_calls w + 2),
      al_raw = raw\<rparr>"
  by (auto simp: take_allocs_def ask_def)

lemma from_attr_built:
  assumes "ri_group_from_attr cls raw attr w = Some (res, w')"
  shows "(res = None \<and> same_objects w w') \<or>
    (\<exists>data sz u. same_objects w u \<and> build_group cls data sz u = Some (res, w'))"
proof -
  obtain ok u1 where a: "ask w = (ok, u1)" by (cases "ask w")
  obtain al u2 where t: "take_allocs raw u1 = (al, u2)" by (cases "take_allocs raw u1")
  have u: "same_objects w u1" "same_objects w u2"
    using ask_frame [OF a] take_allocs_frame [OF t] by (simp_all add: same_objects_def)
  show ?thesis
  proof (cases ok)
    case False
    then show ?thesis using assms a u by (simp add: ri_group_from_attr_def)
  next
    case True
    then show ?thesis using assms a t u
      by (cases "ri_group_data_from_attr al attr"; cases "ri_calc_shm_size cls (g_consumers attr) (g_producers attr)")
        (auto simp: ri_group_from_attr_def split: if_splits)
  qed
qed

lemma creation_failed:
  assumes "ri_group_from_attr cls raw attr w = Some (None, w')"
  shows "same_objects w w'"
  using from_attr_built [OF assms]
proof (elim disjE exE conjE)
  fix data sz u assume u: "same_objects w u" "build_group cls data sz u = Some (None, w')"
  from build_group_built [OF u(2)] show ?thesis using same_objects_trans [OF u(1)] by simp
qed

text \<open>The group can be deleted as long as what the process holds has not changed.\<close>

lemma created_calm: "ri_group_from_attr cls raw attr w = Some (Some grp, w') \<Longrightarrow> calm w w'"
  by (drule lossy_from_attr) simp

lemma whole_from: "same_objects w u \<Longrightarrow> calm w v \<Longrightarrow> whole_group u i ps cs grp v \<Longrightarrow> whole_group w i ps cs grp v"
  unfolding whole_group_def using built_from by blast

lemma whole_frame: "whole_group w i ps cs grp u \<Longrightarrow> w_shms v = w_shms u \<Longrightarrow> w_producers v = w_producers u \<Longrightarrow>
    w_consumers v = w_consumers u \<Longrightarrow> w_caches v = w_caches u \<Longrightarrow> w_fds v = w_fds u \<Longrightarrow> calm u v \<Longrightarrow> whole_group w i ps cs grp v"
  unfolding whole_group_def using built_frame calm_trans by blast

lemma creation_whole:
  assumes "ri_group_from_attr cls raw attr w = Some (Some grp, w')"
  obtains i ps cs where "whole_group w i ps cs grp w'"
  using from_attr_built [OF assms]
proof (elim disjE exE conjE)
  fix data sz u assume u: "same_objects w u" "build_group cls data sz u = Some (Some grp, w')"
  from build_group_built [OF u(2)] obtain i ps cs where "whole_group u i ps cs grp w'" by auto
  from that [OF whole_from [OF u(1) created_calm [OF assms] this]] show ?thesis .
qed simp

lemma creation_undone:
  assumes "ri_group_from_attr cls raw attr w = Some (Some grp, w')"
    and "w_shms u = w_shms w'" and "w_producers u = w_producers w'" and "w_consumers u = w_consumers w'"
    and "w_caches u = w_caches w'" and "w_fds u = w_fds w'" and "calm w' u"
  shows "\<exists>v. ri_group_delete grp u = Some v \<and> same_resources w v"
  by (rule creation_whole [OF assms(1)]) (blast intro: delete_whole whole_frame [OF _ assms(2-7)])

section \<open>Properties\<close>

text \<open>
  C14. A failed \<open>ri_group_from_attr\<close> leaves nothing behind, whichever of its allocations, system calls or channels failed:
  every descriptor it opened is closed, every object it made is freed, and what the process held before is
  untouched. The one exception is the mapping of the new memory, which stays when it was \<open>mlock\<close> that failed
  (\<open>given_back\<close>; \<open>failed_lock_leaves_mapping\<close> runs that case). The failure of the allocation of C37 is not among these: there
  the creation has no result, but is undefined.
\<close>

theorem failed_creation_keeps_nothing:
  assumes "ri_group_from_attr cls raw attr w = Some (None, w')"
  shows "given_back w w'"
  by (rule given_backI [OF creation_failed [OF assms] lossy_from_attr [OF assms]])

text \<open>A group with an eventfd, and an environment whose call number \<open>k\<close> fails.\<close>

definition event_group :: ri_group_attr where
  "event_group = \<lparr>g_consumers = Some [attr_fd, channel_attr_zero], g_producers = Some [attr_fd, channel_attr_zero],
     g_info = info_zero\<rparr>"

definition failing_at :: "nat \<Rightarrow> world" where
  "failing_at k = empty_world\<lparr>w_ok := (\<lambda>c. c \<noteq> k), w_files := [Other_File ''pipe''], w_fds := [(0, 0)]\<rparr>"

lemma creation_fails:
  "case ri_group_from_attr 64 zeros event_group (failing_at 17) of Some (None, _) \<Rightarrow> True | _ \<Rightarrow> False"
  by code_simp

theorem failed_creation_keeps_nothing_witness:
  "\<exists>w'. ri_group_from_attr 64 zeros event_group (failing_at 17) = Some (None, w') \<and> map_of (w_fds w') = [0 \<mapsto> 0] \<and>
     live (w_producers w') 0 = None"
proof -
  obtain w' where w': "ri_group_from_attr 64 zeros event_group (failing_at 17) = Some (None, w')"
    using creation_fails by (auto split: option.splits prod.splits)
  from failed_creation_keeps_nothing [OF w'] have "map_of (w_fds w') = [0 \<mapsto> 0]" "live (w_producers w') 0 = None"
    by (simp_all add: given_back_def same_objects_def failing_at_def empty_world_def live_def)
  with w' show ?thesis by blast
qed

text \<open>
  Deleting the group \<open>ri_group_from_attr\<close> returned, before any channel is acquired, is defined and gives back
  everything: the reference counter of the memory reaches zero exactly when the group lets go of it.
\<close>

theorem created_group_deleted:
  assumes "ri_group_from_attr cls raw attr w = Some (Some grp, w')"
  shows "\<exists>v. ri_group_delete grp w' = Some v \<and> same_resources w v"
  by (rule creation_undone [OF assms refl refl refl refl refl calm_refl])

lemma creation_succeeds:
  "case ri_group_from_attr 64 zeros event_group (failing_at 100) of Some (Some _, w) \<Rightarrow> length (w_fds w) = 4 | _ \<Rightarrow> False"
  by code_simp

theorem created_group_deleted_witness:
  "\<exists>grp w' v. ri_group_from_attr 64 zeros event_group (failing_at 100) = Some (Some grp, w') \<and> length (w_fds w') = 4 \<and>
     ri_group_delete grp w' = Some v \<and> map_of (w_fds v) = [0 \<mapsto> 0]"
proof -
  obtain grp w' where w': "ri_group_from_attr 64 zeros event_group (failing_at 100) = Some (Some grp, w')"
    "length (w_fds w') = 4"
    using creation_succeeds by (auto split: option.splits prod.splits)
  from created_group_deleted [OF w'(1)] obtain v where "ri_group_delete grp w' = Some v"
    "map_of (w_fds v) = [0 \<mapsto> 0]"
    by (auto simp: same_resources_def same_objects_def failing_at_def empty_world_def)
  with w' show ?thesis by blast
qed



text \<open>
  When the memory cannot be locked, the creation fails and closes its descriptor, but the mapping made just before stays:
  nothing refers to it any more.
\<close>

theorem failed_lock_leaves_mapping:
  "case ri_group_from_attr 64 zeros event_group (failing_at 12) of
     Some (None, w) \<Rightarrow> w_lost w = 1 \<and> w_fds w = [(0, 0)] \<and> w_shms w = []
   | _ \<Rightarrow> False"
  by code_simp

end
