(* ===== verification/Group_Layout.thy ===== *)
theory Group_Layout
  imports Group_Life Request_Roundtrip
begin

text \<open>
  Where the channels of a group lie: one behind the other from the start of the memory, in the order of the tables, each with a
  queue of its attributes' length and size and with the eventfd they ask for. \<open>ri_group_from_attr\<close> and \<open>ri_group_deserialize\<close> are
  followed step by step; \<open>keeps\<close> says that what has been placed stays.
\<close>

section \<open>What later steps keep\<close>

definition keeps :: "world \<Rightarrow> world \<Rightarrow> bool" where
  "keeps w v \<longleftrightarrow> (\<forall>j x. live (w_producers w) j = Some x \<longrightarrow> live (w_producers v) j = Some x) \<and>
     (\<forall>j x. live (w_consumers w) j = Some x \<longrightarrow> live (w_consumers v) j = Some x) \<and>
     (\<forall>j s. live (w_shms w) j = Some s \<longrightarrow> (\<exists>cnt. live (w_shms v) j = Some (s\<lparr>s_ref_cnt := cnt\<rparr>))) \<and>
     map_of (w_fds w) \<subseteq>\<^sub>m map_of (w_fds v)"

lemma keeps_refl: "keeps w w"
proof -
  have "\<exists>cnt. Some s = Some (s\<lparr>s_ref_cnt := cnt\<rparr>)" for s :: ri_shm by (rule exI [of _ "s_ref_cnt s"]) simp
  then show ?thesis unfolding keeps_def by simp
qed

lemma keeps_trans: "keeps u v \<Longrightarrow> keeps v w \<Longrightarrow> keeps u w"
  unfolding keeps_def by (fastforce intro: map_le_trans)

lemma keeps_same: "w_producers v = w_producers w \<Longrightarrow> w_consumers v = w_consumers w \<Longrightarrow> w_shms v = w_shms w \<Longrightarrow>
    w_fds v = w_fds w \<Longrightarrow> keeps w v"
  using keeps_refl [of w] by (simp add: keeps_def)

lemma keeps_open: "open_file f w = (fd, v) \<Longrightarrow> keeps w v"
  using keeps_refl [of w] fresh_fd_fresh(2) [of "w_fds w"]
  by (auto simp: open_file_def keeps_def Let_def map_le_def)

lemma live_appendI: "live xs j = Some x \<Longrightarrow> live (xs @ ys) j = Some x"
  by (auto simp: live_def nth_append split: if_splits)

text \<open>A reference and a new object.\<close>

lemma keeps_add:
  assumes "live (w_shms w) i = Some s"
  shows "keeps w (w\<lparr>w_shms := (w_shms w)[i := Some (s\<lparr>s_ref_cnt := cnt\<rparr>)], w_producers := w_producers w @ ps,
    w_consumers := w_consumers w @ cs\<rparr>)"
  using assms live_Some_length [OF assms] keeps_refl [of w]
  by (auto simp: keeps_def live_update intro: live_appendI)

section \<open>Placing one channel\<close>

text \<open>The memory object \<open>i\<close>, mapped at \<open>base\<close>, of file \<open>n\<close>.\<close>

definition memory_at :: "world \<Rightarrow> nat \<Rightarrow> u64 \<Rightarrow> nat \<Rightarrow> bool" where
  "memory_at w i base n \<longleftrightarrow> (\<exists>s. live (w_shms w) i = Some s \<and> s_mem s = base \<and> s_file s = n \<and>
     map_of (w_fds w) (s_fd s) = Some n)"

definition eventfd_ok :: "world \<Rightarrow> ri_channel_attr \<Rightarrow> int \<Rightarrow> bool" where
  "eventfd_ok w attr fd \<longleftrightarrow> (if a_eventfd attr then 0 \<le> fd \<and> map_of (w_fds w) fd \<noteq> None else fd = -1)"

definition producer_at :: "u64 \<Rightarrow> nat \<Rightarrow> u64 \<Rightarrow> world \<Rightarrow> ri_channel_attr \<Rightarrow> u64 \<Rightarrow> int \<Rightarrow> nat \<Rightarrow> bool" where
  "producer_at cls i base w attr off fd p \<longleftrightarrow> (\<exists>x. live (w_producers w) p = Some x \<and> pr_shm x = i \<and> pr_shm_offset x = off \<and>
     p_queue (pr_queue x) = ri_queue_init cls attr (mem_offset base off) \<and> pr_eventfd x = fd) \<and> eventfd_ok w attr fd"

definition consumer_at :: "u64 \<Rightarrow> nat \<Rightarrow> u64 \<Rightarrow> world \<Rightarrow> ri_channel_attr \<Rightarrow> u64 \<Rightarrow> int \<Rightarrow> nat \<Rightarrow> bool" where
  "consumer_at cls i base w attr off fd c \<longleftrightarrow> (\<exists>x. live (w_consumers w) c = Some x \<and> cn_shm x = i \<and> cn_shm_offset x = off \<and>
     c_queue (cn_queue x) = ri_queue_init cls attr (mem_offset base off) \<and> cn_eventfd x = fd) \<and> eventfd_ok w attr fd"

lemma fds_kept: "keeps w v \<Longrightarrow> map_of (w_fds w) fd = Some n \<Longrightarrow> map_of (w_fds v) fd = Some n"
  unfolding keeps_def map_le_def by (metis domI)

lemma memory_kept: "keeps w v \<Longrightarrow> memory_at w i base n \<Longrightarrow> memory_at v i base n"
proof -
  assume k: "keeps w v" and "memory_at w i base n"
  then obtain s where s: "live (w_shms w) i = Some s" "s_mem s = base" "s_file s = n" "map_of (w_fds w) (s_fd s) = Some n"
    unfolding memory_at_def by blast
  then obtain cnt where "live (w_shms v) i = Some (s\<lparr>s_ref_cnt := cnt\<rparr>)" using k unfolding keeps_def by blast
  then show ?thesis unfolding memory_at_def using s fds_kept [OF k s(4)] by simp
qed

lemma eventfd_kept: "keeps w v \<Longrightarrow> eventfd_ok w attr fd \<Longrightarrow> eventfd_ok v attr fd"
  using fds_kept [of w v fd] by (auto simp: eventfd_ok_def)

lemma producer_kept:
  "keeps w v \<Longrightarrow> producer_at cls i base w attr off fd p \<Longrightarrow> producer_at cls i base v attr off fd p"
  using eventfd_kept [of w v attr fd] unfolding producer_at_def keeps_def by blast

lemma consumer_kept:
  "keeps w v \<Longrightarrow> consumer_at cls i base w attr off fd c \<Longrightarrow> consumer_at cls i base v attr off fd c"
  using eventfd_kept [of w v attr fd] unfolding consumer_at_def keeps_def by blast

lemma on_words_ran: "on_words i off n f w = Some (r, v) \<Longrightarrow> \<exists>sh sh'. f sh = Some (sh', r)"
proof -
  assume r: "on_words i off n f w = Some (r, v)"
  then obtain s where s: "live (w_shms w) i = Some s" by (auto simp: on_words_def bind_eq_Some_conv)
  show ?thesis
  proof (cases "w_files w ! s_file s")
    case (Memfd sz words bytes)
    then show ?thesis using r s by (auto simp: on_words_def bind_eq_Some_conv split: if_splits)
  qed (use r s in \<open>simp_all add: on_words_def\<close>)
qed

text \<open>The queue of a new producer, whatever its chain.\<close>

lemma chain_store_queue:
  assumes "run (chain_store P idx val k) sh = Some res"
  shows "\<exists>P' sh'. p_queue P' = p_queue P \<and> run (k P') sh' = Some res"
proof -
  have l: "unat idx < length (p_chain P)" using assms by (rule contrapos_pp) (simp add: chain_store_def)
  let ?P = "P\<lparr>p_chain := (p_chain P)[unat idx := val]\<rparr>"
  from assms l obtain sh' where "run (k ?P) sh' = Some res"
    by (auto simp: chain_store_def Let_def split: option.splits)
  then show ?thesis by (intro exI [of _ ?P] exI [of _ sh']) simp
qed

lemma init_chain_queue: "run (init_chain is P k) sh = Some res \<Longrightarrow>
    \<exists>P' sh'. p_queue P' = p_queue P \<and> run (k P') sh' = Some res"
proof (induction "is" arbitrary: P sh)
  case (Cons i "is")
  then have "run (chain_store P (of_nat i) (of_nat i + 1) (\<lambda>producer. init_chain is producer k)) sh = Some res" by simp
  from chain_store_queue [OF this] obtain P' sh' where P': "p_queue P' = p_queue P" "run (init_chain is P' k) sh' = Some res"
    by blast
  from Cons.IH [OF P'(2)] P'(1) show ?case by simp
qed auto

lemma run_on_ran: "run_on i off n p w = Some (r, v) \<Longrightarrow> \<exists>sh sh'. run p sh = Some (sh', r)"
proof -
  assume r: "run_on i off n p w = Some (r, v)"
  show ?thesis
  proof (cases "\<exists>x. p = Ret x")
    case True
    then show ?thesis using r by (auto simp: run_on_def)
  next
    case False
    then have "on_words i off n (run p) w = Some (r, v)" using r by (cases p) (simp_all add: run_on_def)
    then show ?thesis by (rule on_words_ran)
  qed
qed

lemma new_producer_queue:
  assumes "run_on i off n (ri_producer_queue_new cls ok raw ptr attr) w = Some (Some q, v)"
  shows "\<exists>addr. ptr = Some addr \<and> p_queue q = ri_queue_init cls attr addr"
proof -
  obtain sh sh' where r: "run (ri_producer_queue_new cls ok raw ptr attr) sh = Some (sh', Some q)"
    using run_on_ran [OF assms] by blast
  have a: "ok" using r by (rule contrapos_pp) (simp add: ri_producer_queue_new_def)
  obtain addr where addr: "ptr = Some addr"
  proof (cases ptr)
    case None
    then show thesis using r a by (simp add: ri_producer_queue_new_def)
  qed (rule that)
  let ?P = "\<lparr>p_queue = ri_queue_init cls attr addr, p_head = RI_INDEX_INVALID, p_current = 0,
    p_overrun = RI_INDEX_INVALID, p_chain = map raw [0..<unat (ri_channel_queue_len attr)]\<rparr>"
  have "run (init_chain [0..<unat (ri_channel_queue_len attr - 1)] ?P
      (\<lambda>producer. chain_store producer (ri_channel_queue_len attr - 1) 0 (\<lambda>producer. Ret (Some producer)))) sh = Some (sh', Some q)"
    using r a addr by (simp add: ri_producer_queue_new_def Let_def)
  from init_chain_queue [OF this] obtain P' sh2 where P': "p_queue P' = p_queue ?P"
    "run (chain_store P' (ri_channel_queue_len attr - 1) 0 (\<lambda>producer. Ret (Some producer))) sh2 = Some (sh', Some q)"
    by blast
  from chain_store_queue [OF P'(2)] P'(1) addr show ?thesis by auto
qed

lemma keeps_words: "on_words i off n f w = Some (r, v) \<Longrightarrow> keeps w v"
  by (drule on_words_frame) (auto intro: keeps_same)

lemma keeps_ask: "ask w = (ok, v) \<Longrightarrow> keeps w v"
  by (drule ask_frame) (simp add: keeps_same)

lemma keeps_run: "run_on i off n f w = Some (r, v) \<Longrightarrow> keeps w v"
  by (drule run_on_frame) (auto intro: keeps_same)

lemma create_eventfd_keeps:
  assumes "create_eventfd attr w = (Some fd, v)"
  shows "keeps w v \<and> (if a_eventfd attr then 0 \<le> fd \<and> map_of (w_fds v) fd \<noteq> None else fd = -1)"
proof (cases "a_eventfd attr")
  case False
  then show ?thesis using assms by (auto simp: create_eventfd_def keeps_refl)
next
  case True
  obtain ok w1 where a: "ask w = (ok, w1)" by (cases "ask w")
  show ?thesis
  proof (cases ok)
    case False
    then show ?thesis using assms True a by (simp add: create_eventfd_def ri_eventfd_create_def neg_errno_def)
  next
    case ok: True
    obtain fd' w2 where o: "open_file (Eventfd 0 True) w1 = (fd', w2)" by (cases "open_file (Eventfd 0 True) w1")
    have "0 \<le> fd'" "map_of (w_fds w2) fd' \<noteq> None" using o fresh_fd_fresh(1) by (auto simp: open_file_def Let_def)
    then show ?thesis using assms True a ok o keeps_trans [OF keeps_ask [OF a] keeps_open [OF o]]
      by (simp add: create_eventfd_def ri_eventfd_create_def)
  qed
qed

lemma producer_map_at:
  assumes m: "ri_producer_map cls attr fd i off w = Some (Some p, v)" and mem: "memory_at w i base n"
    and fd: "a_eventfd attr \<longrightarrow> 0 \<le> fd \<and> map_of (w_fds w) fd \<noteq> None"
  shows "keeps w v \<and> producer_at cls i base v attr off (if a_eventfd attr then fd else -1) p"
proof -
  obtain ok1 u1 where a1: "ask w = (ok1, u1)" by (cases "ask w")
  obtain ok2 u2 where a2: "ask u1 = (ok2, u2)" by (cases "ask u1")
  have k2: "keeps w u2" using keeps_ask [OF a1] keeps_ask [OF a2] keeps_trans by blast
  from m a1 a2 obtain shm queue u3 where "ok1" and
    s: "live (w_shms u2) i = Some shm" and
    q: "run_on i off (ri_channel_queue_len attr) (ri_producer_queue_new cls ok2 zeros (ri_shm_ptr shm off) attr) u2 =
      Some (Some queue, u3)" and
    k: "(do {
       w \<leftarrow> ri_shm_ref i u3;
       let producer = \<lparr>pr_owners = RI_OWNER_GROUP_FLAG, pr_queue = queue, pr_shm = i,
         pr_shm_offset = off, pr_eventfd = (if a_eventfd attr then fd else -1), pr_cache = None\<rparr>;
       Some (Some (length (w_producers w)), w\<lparr>w_producers := w_producers w @ [Some producer]\<rparr>) }) = Some (Some p, v)"
    by (auto simp: ri_producer_map_def bind_eq_Some_conv split: if_splits option.splits)
  obtain fs where u3: "u3 = u2\<lparr>w_files := fs\<rparr>" using run_on_frame [OF q] by blast
  have s3: "live (w_shms u3) i = Some shm" using s u3 by simp
  let ?x = "\<lparr>pr_owners = RI_OWNER_GROUP_FLAG, pr_queue = queue, pr_shm = i,
    pr_shm_offset = off, pr_eventfd = (if a_eventfd attr then fd else -1), pr_cache = None\<rparr>"
  let ?v = "u3\<lparr>w_shms := (w_shms u3)[i := Some (shm\<lparr>s_ref_cnt := s_ref_cnt shm + 1\<rparr>)], w_producers := w_producers u3 @ [Some ?x]\<rparr>"
  have v: "v = ?v" "p = length (w_producers u3)" using k s3 by (auto simp: ri_shm_ref_def Let_def)
  have kv: "keeps u3 ?v" using keeps_add [OF s3, where cnt = "s_ref_cnt shm + 1" and ps = "[Some ?x]" and cs = "[]"] by simp
  have kw: "keeps w ?v" using k2 keeps_run [OF q] kv keeps_trans by blast
  have "memory_at u2 i base n" using memory_kept [OF k2 mem] .
  then have b: "s_mem shm = base" using s by (simp add: memory_at_def)
  have "p_queue queue = ri_queue_init cls attr (mem_offset base off)"
    using new_producer_queue [OF q] b by (auto simp: ri_shm_ptr_def split: if_splits)
  moreover have "eventfd_ok w attr (if a_eventfd attr then fd else -1)" using fd by (simp add: eventfd_ok_def)
  from eventfd_kept [OF kw this] have "eventfd_ok ?v attr (pr_eventfd ?x)" by simp
  ultimately have "producer_at cls i base ?v attr off (if a_eventfd attr then fd else -1) p" unfolding producer_at_def v(2) by (simp add: live_append)
  then show ?thesis using kw v by simp
qed

lemma consumer_map_at:
  assumes m: "ri_consumer_map cls attr fd i off w = Some (Some c, v)" and mem: "memory_at w i base n"
    and fd: "a_eventfd attr \<longrightarrow> 0 \<le> fd \<and> map_of (w_fds w) fd \<noteq> None"
  shows "keeps w v \<and> consumer_at cls i base v attr off (if a_eventfd attr then fd else -1) c"
proof -
  obtain ok1 u1 where a1: "ask w = (ok1, u1)" by (cases "ask w")
  obtain ok2 u2 where a2: "ask u1 = (ok2, u2)" by (cases "ask u1")
  have k2: "keeps w u2" using keeps_ask [OF a1] keeps_ask [OF a2] keeps_trans by blast
  from m a1 a2 obtain shm queue where "ok1" and
    s: "live (w_shms u2) i = Some shm" and
    q: "ri_consumer_queue_new cls ok2 (ri_shm_ptr shm off) attr = Some queue" and
    k: "(do {
       w \<leftarrow> ri_shm_ref i u2;
       let consumer = \<lparr>cn_owners = RI_OWNER_GROUP_FLAG, cn_queue = queue, cn_shm = i,
         cn_shm_offset = off, cn_eventfd = (if a_eventfd attr then fd else -1)\<rparr>;
       Some (Some (length (w_consumers w)), w\<lparr>w_consumers := w_consumers w @ [Some consumer]\<rparr>) }) = Some (Some c, v)"
    by (auto simp: ri_consumer_map_def bind_eq_Some_conv split: if_splits option.splits)
  let ?x = "\<lparr>cn_owners = RI_OWNER_GROUP_FLAG, cn_queue = queue, cn_shm = i,
    cn_shm_offset = off, cn_eventfd = (if a_eventfd attr then fd else -1)\<rparr>"
  let ?v = "u2\<lparr>w_shms := (w_shms u2)[i := Some (shm\<lparr>s_ref_cnt := s_ref_cnt shm + 1\<rparr>)], w_consumers := w_consumers u2 @ [Some ?x]\<rparr>"
  have v: "v = ?v" "c = length (w_consumers u2)" using k s by (auto simp: ri_shm_ref_def Let_def)
  have kv: "keeps u2 ?v" using keeps_add [OF s, where cnt = "s_ref_cnt shm + 1" and ps = "[]" and cs = "[Some ?x]"] by simp
  have kw: "keeps w ?v" using k2 kv keeps_trans by blast
  have "memory_at u2 i base n" using memory_kept [OF k2 mem] .
  then have b: "s_mem shm = base" using s by (simp add: memory_at_def)
  have "c_queue queue = ri_queue_init cls attr (mem_offset base off)"
    using q b by (auto simp: ri_consumer_queue_new_def ri_shm_ptr_def split: if_splits option.splits)
  moreover have "eventfd_ok w attr (if a_eventfd attr then fd else -1)" using fd by (simp add: eventfd_ok_def)
  from eventfd_kept [OF kw this] have "eventfd_ok ?v attr (cn_eventfd ?x)" by simp
  ultimately have "consumer_at cls i base ?v attr off (if a_eventfd attr then fd else -1) c" unfolding consumer_at_def v(2) by (simp add: live_append)
  then show ?thesis using kw v by simp
qed


lemma producer_new_at:
  assumes m: "ri_producer_new cls attr i off w = Some (Some p, v)" and mem: "memory_at w i base n"
  shows "\<exists>fd. keeps w v \<and> producer_at cls i base v attr off fd p"
proof -
  from m obtain fd u1 u2 r where e: "create_eventfd attr w = (Some fd, u1)" and
    p: "ri_producer_map cls attr fd i off u1 = Some (Some p, u2)" and
    i: "on_words i off (ri_channel_queue_len attr) (\<lambda>sh. Some (ri_producer_queue_init_shm sh, ())) u2 = Some (r, v)"
    by (auto simp: ri_producer_new_def bind_eq_Some_conv split: prod.splits option.splits)
  note E = create_eventfd_keeps [OF e]
  have "keeps u1 u2 \<and> producer_at cls i base u2 attr off (if a_eventfd attr then fd else -1) p"
    by (rule producer_map_at [OF p]) (use E memory_kept [OF _ mem] in auto)
  then show ?thesis using E keeps_words [OF i] keeps_trans producer_kept by blast
qed

lemma consumer_new_at:
  assumes m: "ri_consumer_new cls attr i off w = Some (Some c, v)" and mem: "memory_at w i base n"
  shows "\<exists>fd. keeps w v \<and> consumer_at cls i base v attr off fd c"
proof -
  from m obtain fd u1 u2 r where e: "create_eventfd attr w = (Some fd, u1)" and
    p: "ri_consumer_map cls attr fd i off u1 = Some (Some c, u2)" and
    i: "on_words i off (ri_channel_queue_len attr) (\<lambda>sh. Some (ri_consumer_queue_init_shm sh, ())) u2 = Some (r, v)"
    by (auto simp: ri_consumer_new_def bind_eq_Some_conv split: prod.splits option.splits)
  note E = create_eventfd_keeps [OF e]
  have "keeps u1 u2 \<and> consumer_at cls i base u2 attr off (if a_eventfd attr then fd else -1) c"
    by (rule consumer_map_at [OF p]) (use E memory_kept [OF _ mem] in auto)
  then show ?thesis using E keeps_words [OF i] keeps_trans consumer_kept by blast
qed

section \<open>A table of channels\<close>

text \<open>\<open>at attr off fd c\<close>: channel \<open>c\<close> lies at \<open>off\<close> and has the eventfd \<open>fd\<close>.\<close>

fun placed :: "(ri_channel_attr \<Rightarrow> u64 \<Rightarrow> int \<Rightarrow> nat \<Rightarrow> bool) \<Rightarrow> u64 \<Rightarrow> ri_channel_attr list \<Rightarrow> u64 \<Rightarrow> int list \<Rightarrow> nat list \<Rightarrow> bool" where
  "placed at cls (attr # attrs) off (fd # fds) (c # cs) \<longleftrightarrow>
     at attr off fd c \<and> placed at cls attrs (off + ri_channel_shm_size cls attr) fds cs"
| "placed at cls [] off [] [] \<longleftrightarrow> True"
| "placed at cls _ off _ _ \<longleftrightarrow> False"

lemma placed_mono:
  assumes "\<And>attr off fd c. at attr off fd c \<Longrightarrow> at' attr off fd c"
  shows "placed at cls attrs off fds cs \<Longrightarrow> placed at' cls attrs off fds cs"
proof (induction attrs arbitrary: off fds cs)
  case Nil
  then show ?case by (cases fds; cases cs) simp_all
next
  case (Cons attr attrs)
  then show ?case using assms by (cases fds; cases cs) simp_all
qed

lemma placed_length: "placed at cls attrs off fds cs \<Longrightarrow> length fds = length attrs \<and> length cs = length attrs"
  by (induction at cls attrs off fds cs rule: placed.induct) auto

text \<open>The \<open>k\<close>-th channel lies behind those before it.\<close>

lemma placed_nth:
  "placed at cls attrs off fds cs \<Longrightarrow> k < length attrs \<Longrightarrow> at (attrs ! k) (off + shm_sizes cls (take k attrs)) (fds ! k) (cs ! k)"
proof (induction at cls attrs off fds cs arbitrary: k rule: placed.induct)
  case (1 at cls attr attrs off fd fds c cs)
  then show ?case by (cases k) (simp_all add: shm_sizes_def add.assoc)
qed auto

lemma new_channels_placed:
  assumes step: "\<And>attr off w c v. \<lbrakk>mk attr off w = Some (Some c, v); memory_at w i base n\<rbrakk> \<Longrightarrow>
      \<exists>fd. keeps w v \<and> at v attr off fd c"
    and kept: "\<And>w v attr off fd c. \<lbrakk>keeps w v; at w attr off fd c\<rbrakk> \<Longrightarrow> at v attr off fd c"
    and "new_channels mk cls attrs off w = Some ((cs, True, off'), v)" and "memory_at w i base n"
  shows "\<exists>fds. keeps w v \<and> placed (at v) cls attrs off fds cs \<and> off' = off + shm_sizes cls attrs"
  using assms(3,4)
proof (induction attrs arbitrary: off w cs)
  case Nil
  then show ?case by (auto intro!: exI [of _ "[]"] simp: keeps_refl shm_sizes_def)
next
  case (Cons attr attrs)
  from Cons.prems(1) obtain c u cs' where m: "mk attr off w = Some (Some c, u)" "cs = c # cs'"
    "new_channels mk cls attrs (off + ri_channel_shm_size cls attr) u = Some ((cs', True, off'), v)"
    by (auto simp: bind_eq_Some_conv split: option.splits)
  from step [OF m(1) Cons.prems(2)] obtain fd where s: "keeps w u" "at u attr off fd c" by blast
  from Cons.IH [OF m(3) memory_kept [OF s(1) Cons.prems(2)]] obtain fds where
    r: "keeps u v" "placed (at v) cls attrs (off + ri_channel_shm_size cls attr) fds cs'"
      "off' = off + ri_channel_shm_size cls attr + shm_sizes cls attrs" by blast
  have "placed (at v) cls (attr # attrs) off (fd # fds) cs" using r kept [OF r(1) s(2)] m(2) by simp
  moreover have "off' = off + shm_sizes cls (attr # attrs)" using r(3) by (simp add: shm_sizes_def)
  ultimately show ?case using keeps_trans [OF s(1) r(1)] by blast
qed


section \<open>A table that is mapped\<close>

text \<open>The eventfds handed out in order to the channels that ask for one.\<close>

fun assign :: "ri_channel_attr list \<Rightarrow> int list \<Rightarrow> int list" where
  "assign [] fds = []"
| "assign (attr # attrs) fds = (if a_eventfd attr then hd fds # assign attrs (tl fds) else -1 # assign attrs fds)"

definition n_events :: "ri_channel_attr list \<Rightarrow> nat" where
  "n_events attrs = length (filter a_eventfd attrs)"

lemma set_nonblocking_keeps: "ri_set_nonblocking fd w = (r, v) \<Longrightarrow> keeps w v"
  by (auto simp: ri_set_nonblocking_def ask_def Let_def intro!: keeps_same split: if_splits option.splits kernel_file.splits)

lemma take_eventfd_taken:
  assumes "take_eventfd idx fds n w = Some ((fd, fds'), v)" and "0 \<le> fd"
  shows "idx < length fds \<and> idx < unat n \<and> fd = fds ! idx \<and> fds' = fds[idx := -1] \<and> keeps w v"
  using assms by (auto simp: take_eventfd_def Let_def split: if_splits prod.splits dest: set_nonblocking_keeps)

lemma map_channels_placed:
  assumes step: "\<And>attr fd off w c v. \<lbrakk>mk attr fd off w = Some (Some c, v); memory_at w i base n;
      a_eventfd attr \<longrightarrow> 0 \<le> fd \<and> map_of (w_fds w) fd \<noteq> None\<rbrakk> \<Longrightarrow>
      keeps w v \<and> at v attr off (if a_eventfd attr then fd else -1) c"
    and kept: "\<And>w v attr off fd c. \<lbrakk>keeps w v; at w attr off fd c\<rbrakk> \<Longrightarrow> at v attr off fd c"
    and "map_channels mk cls attrs off idx fds n_fds w = Some ((cs, True, off', idx', fds'), v)" and "memory_at w i base n"
    and "\<forall>fd\<in>set (drop idx (take (unat n_fds) fds)). map_of (w_fds w) fd \<noteq> None" and "idx \<le> length fds"
  shows "keeps w v \<and> placed (at v) cls attrs off (assign attrs (drop idx fds)) cs \<and> off' = off + shm_sizes cls attrs \<and>
    idx' = idx + n_events attrs \<and> drop idx' fds' = drop idx' fds \<and> idx' \<le> length fds \<and> length fds' = length fds \<and>
    take idx' fds' = take idx fds @ replicate (n_events attrs) (-1)"
  using assms(3-)
proof (induction attrs arbitrary: off idx fds w cs)
  case Nil
  then show ?case by (simp add: keeps_refl shm_sizes_def n_events_def)
next
  case (Cons attr attrs)
  let ?idx = "if a_eventfd attr then Suc idx else idx"
  from Cons.prems(1) obtain fd fds1 u where t:
    "(if a_eventfd attr then take_eventfd idx fds n_fds w else Some ((-1, fds), w)) = Some ((fd, fds1), u)" and
    rest: "(if a_eventfd attr \<and> fd < 0 then Some (([], False, off, ?idx, fds1), u) else do {
       (res, w) \<leftarrow> mk attr fd off u;
       (case res of
          None \<Rightarrow> Some (([], False, off, ?idx, fds1), if fd \<ge> 0 then close_fd fd w else w)
        | Some c \<Rightarrow> do {
            ((cs, ok, rest), w) \<leftarrow> map_channels mk cls attrs (off + ri_channel_shm_size cls attr) ?idx fds1 n_fds w;
            Some ((c # cs, ok, rest), w)
          })
     }) = Some ((cs, True, off', idx', fds'), v)"
    by (auto simp: bind_eq_Some_conv Let_def)
  have fd: "\<not> (a_eventfd attr \<and> fd < 0)" using rest by auto
  have T: "keeps w u" "a_eventfd attr \<longrightarrow> idx < length fds \<and> idx < unat n_fds \<and> fd = fds ! idx" "drop ?idx fds1 = drop ?idx fds"
    "length fds1 = length fds" "take ?idx fds1 = take idx fds @ replicate (n_events [attr]) (-1)" "?idx \<le> length fds"
    using t fd Cons.prems(4) take_eventfd_taken [of idx fds n_fds w fd fds1 u] by (auto simp: keeps_refl n_events_def take_Suc_conv_app_nth split: if_splits)
  have op: "map_of (w_fds u) x \<noteq> None" if "x \<in> set (drop idx (take (unat n_fds) fds))" for x
    using Cons.prems(3) that T(1) by (fastforce simp: keeps_def map_le_def dom_def)
  from rest fd obtain c u2 cs' where m: "mk attr fd off u = Some (Some c, u2)" "cs = c # cs'"
    "map_channels mk cls attrs (off + ri_channel_shm_size cls attr) ?idx fds1 n_fds u2 = Some ((cs', True, off', idx', fds'), v)"
    by (auto simp: bind_eq_Some_conv split: option.splits if_splits)
  have "a_eventfd attr \<longrightarrow> fds ! idx \<in> set (drop idx (take (unat n_fds) fds))"
    using T(2) by (auto simp: in_set_conv_nth intro!: exI [of _ 0])
  then have "a_eventfd attr \<longrightarrow> 0 \<le> fd \<and> map_of (w_fds u) fd \<noteq> None" using fd T(2) op by auto
  from step [OF m(1) memory_kept [OF T(1) Cons.prems(2)] this] have
    s: "keeps u u2" "at u2 attr off (if a_eventfd attr then fd else -1) c" by auto
  have "\<forall>x\<in>set (drop ?idx (take (unat n_fds) fds1)). map_of (w_fds u2) x \<noteq> None"
  proof
    fix x assume "x \<in> set (drop ?idx (take (unat n_fds) fds1))"
    then have "x \<in> set (drop ?idx (take (unat n_fds) fds))" unfolding drop_take T(3) .
    then have "x \<in> set (drop idx (take (unat n_fds) fds))"
      using set_drop_subset_set_drop [of idx "Suc idx" "take (unat n_fds) fds"] by (auto split: if_splits)
    then show "map_of (w_fds u2) x \<noteq> None" using op s(1) by (fastforce simp: keeps_def map_le_def dom_def)
  qed
  moreover have "?idx \<le> length fds1" using T(4,6) by simp
  ultimately have
    r: "keeps u2 v" "placed (at v) cls attrs (off + ri_channel_shm_size cls attr) (assign attrs (drop ?idx fds)) cs'"
      "off' = off + ri_channel_shm_size cls attr + shm_sizes cls attrs" "idx' = ?idx + n_events attrs"
      "drop idx' fds' = drop idx' fds1" "idx' \<le> length fds" "length fds' = length fds"
      "take idx' fds' = take ?idx fds1 @ replicate (n_events attrs) (-1)"
    using Cons.IH [OF m(3) memory_kept [OF keeps_trans [OF T(1) s(1)] Cons.prems(2)]] unfolding T(3,4) by auto
  have "assign (attr # attrs) (drop idx fds) = (if a_eventfd attr then fd else -1) # assign attrs (drop ?idx fds)"
    using T(2) by (auto simp: Cons_nth_drop_Suc [symmetric])
  then have "placed (at v) cls (attr # attrs) off (assign (attr # attrs) (drop idx fds)) cs"
    using r(2) kept [OF r(1) s(2)] m(2) by simp
  moreover have "off' = off + shm_sizes cls (attr # attrs)" "idx' = idx + n_events (attr # attrs)"
    using r(3,4) by (simp_all add: shm_sizes_def n_events_def)
  moreover have "drop idx' fds1 = drop idx' fds"
  proof -
    have "drop idx' xs = drop (n_events attrs) (drop ?idx xs)" for xs :: "int list" using r(4) by (simp add: add.commute)
    then show ?thesis using T(3) by metis
  qed
  moreover have "take idx' fds' = take idx fds @ replicate (n_events (attr # attrs)) (-1)"
    unfolding r(8) T(5) by (simp add: n_events_def)
  ultimately show ?case using r(5-7) keeps_trans [OF keeps_trans [OF T(1) s(1)] r(1)] by simp
qed


section \<open>A whole group\<close>

text \<open>The tables of the group's own data, as the loops read them.\<close>

definition own_producers :: "ri_group_data \<Rightarrow> ri_channel_attr list option" where
  "own_producers data = table_attrs data (gd_producers data) (gd_n_producers data)"

definition own_consumers :: "ri_group_data \<Rightarrow> ri_channel_attr list option" where
  "own_consumers data = table_attrs data (gd_consumers data) (gd_n_consumers data)"

text \<open>
  The group \<open>grp\<close> of a process in world \<open>w\<close>: its memory object maps file \<open>n\<close>, its producers have the eventfds \<open>pfds\<close> and lie from
  \<open>poff\<close> on, its consumers have \<open>cfds\<close> and lie from \<open>coff\<close> on.
\<close>

definition laid_out :: "u64 \<Rightarrow> world \<Rightarrow> ri_group \<Rightarrow> nat \<Rightarrow> u64 \<Rightarrow> int list \<Rightarrow> nat list \<Rightarrow> u64 \<Rightarrow> int list \<Rightarrow> nat list \<Rightarrow> bool" where
  "laid_out cls w grp n poff pfds ps coff cfds cs \<longleftrightarrow> (\<exists>i base pattrs cattrs.
     gr_shm grp = Some i \<and> memory_at w i base n \<and>
     array_holds (gr_producers grp) (gd_n_producers (gr_data grp)) ps \<and>
     array_holds (gr_consumers grp) (gd_n_consumers (gr_data grp)) cs \<and>
     own_producers (gr_data grp) = Some pattrs \<and> own_consumers (gr_data grp) = Some cattrs \<and>
     placed (producer_at cls i base w) cls pattrs poff pfds ps \<and>
     placed (consumer_at cls i base w) cls cattrs coff cfds cs)"

lemma shm_map_memory:
  assumes "ri_shm_map fd w = (Some i, v)"
  shows "keeps w v \<and> (\<exists>base n. memory_at v i base n \<and> map_of (w_fds w) fd = Some n)"
proof -
  note F = shm_map_frame [OF assms]
  then obtain s where s: "i = length (w_shms w)" "w_shms v = w_shms w @ [Some s]" by auto
  have k: "keeps w v" unfolding keeps_def
  proof (intro conjI allI impI)
    fix j t assume t: "live (w_shms w) j = Some t"
    show "\<exists>cnt. live (w_shms v) j = Some (t\<lparr>s_ref_cnt := cnt\<rparr>)"
      using live_appendI [OF t, of "[Some s]"] s(2) by (intro exI [of _ "s_ref_cnt t"]) simp
  qed (use F in auto)
  have "map_of (w_fds w) fd = Some (s_file s)"
    using assms s by (auto simp: ri_shm_map_def ask_def Let_def file_of_def split: if_splits option.splits kernel_file.splits bool.splits)
  moreover from this have "memory_at v i (s_mem s) (s_file s)" using s F by (auto simp: memory_at_def live_append)
  ultimately show ?thesis using k by blast
qed

lemma shm_new_memory:
  assumes "shm_new sz w = (Some i, v)"
  shows "\<exists>base n. memory_at v i base n"
proof -
  obtain fd u where "ri_shm_map fd u = (Some i, v)"
    using assms by (auto simp: shm_new_def Let_def split: prod.splits if_splits option.splits)
  then show ?thesis using shm_map_memory by blast
qed

text \<open>What a client gets: producers first, consumers behind them.\<close>

lemma build_group_laid_out:
  assumes "build_group cls data sz w = Some (Some grp, v)"
  shows "\<exists>n pattrs pfds ps cfds cs. own_producers data = Some pattrs \<and> gr_data grp = data \<and>
    laid_out cls v grp n 0 pfds ps (shm_sizes cls pattrs) cfds cs"
proof -
  from assms obtain consumers producers u1 i u2 pattrs ps off u3 cattrs cs off' where
    a: "ri_group_alloc_channels data w = (Some (consumers, producers), u1)" and
    m: "shm_new sz u1 = (Some i, u2)" and
    pa: "table_attrs data (gd_producers data) (gd_n_producers data) = Some pattrs" and
    np: "new_channels (\<lambda>attr. ri_producer_new cls attr i) cls pattrs 0 u2 = Some ((ps, True, off), u3)" and
    ca: "table_attrs data (gd_consumers data) (gd_n_consumers data) = Some cattrs" and
    nc: "new_channels (\<lambda>attr. ri_consumer_new cls attr i) cls cattrs off u3 = Some ((cs, True, off'), v)" and
    g: "grp = \<lparr>gr_data = data, gr_shm = Some i, gr_consumers = filled consumers cs, gr_producers = filled producers ps\<rparr>"
    by (auto simp: build_group_def bind_eq_Some_conv Let_def split: prod.splits option.splits if_splits)
  obtain base n where mem: "memory_at u2 i base n" using shm_new_memory [OF m] by blast
  have "\<exists>fds. keeps u2 u3 \<and> placed (producer_at cls i base u3) cls pattrs 0 fds ps \<and> off = 0 + shm_sizes cls pattrs"
    by (rule new_channels_placed [OF _ _ np mem]) (erule (1) producer_new_at producer_kept)+
  then obtain pfds where P: "keeps u2 u3" "placed (producer_at cls i base u3) cls pattrs 0 pfds ps" "off = shm_sizes cls pattrs"
    by auto
  have "\<exists>fds. keeps u3 v \<and> placed (consumer_at cls i base v) cls cattrs off fds cs \<and> off' = off + shm_sizes cls cattrs"
    by (rule new_channels_placed [OF _ _ nc memory_kept [OF P(1) mem]]) (erule (1) consumer_new_at consumer_kept)+
  then obtain cfds where C: "keeps u3 v" "placed (consumer_at cls i base v) cls cattrs off cfds cs" by blast
  have "placed (producer_at cls i base v) cls pattrs 0 pfds ps"
    by (rule placed_mono [OF producer_kept [OF C(1)] P(2)])
  moreover have "memory_at v i base n" using memory_kept [OF keeps_trans [OF P(1) C(1)] mem] .
  moreover have "array_holds (filled producers ps) (gd_n_producers data) ps" "array_holds (filled consumers cs) (gd_n_consumers data) cs"
    using alloc_channels_frame [OF a] placed_length [OF P(2)] placed_length [OF C(2)] table_attrs_length [OF pa]
      table_attrs_length [OF ca] by (simp_all add: filled_holds)
  ultimately have l: "laid_out cls v grp n 0 pfds ps (shm_sizes cls pattrs) cfds cs"
    unfolding laid_out_def own_producers_def own_consumers_def using g pa ca C(2) P(3) by auto
  have "own_producers data = Some pattrs" "gr_data grp = data" using pa g by (simp_all add: own_producers_def)
  then show ?thesis using l by blast
qed

text \<open>What a server gets: consumers first, producers behind them, with the descriptors in the order received.\<close>

lemma group_map_laid_out:
  assumes m: "ri_group_map cls grp0 fds n_fds w = Some ((grp, True, fds'), v)"
    and open_fds: "\<forall>fd\<in>set (take (unat n_fds) fds). map_of (w_fds w) fd \<noteq> None"
    and arr: "array_holds (gr_consumers grp0) (gd_n_consumers (gr_data grp0)) []"
      "array_holds (gr_producers grp0) (gd_n_producers (gr_data grp0)) []"
  shows "\<exists>n cattrs ps cs. own_consumers (gr_data grp) = Some cattrs \<and> gr_data grp = gr_data grp0 \<and>
    map_of (w_fds w) (hd fds) = Some n \<and> fds \<noteq> [] \<and> keeps w v \<and>
    laid_out cls v grp n (shm_sizes cls cattrs)
      (assign (the (own_producers (gr_data grp))) (drop (Suc (n_events cattrs)) fds)) ps
      0 (assign cattrs (tl fds)) cs \<and>
    (\<forall>k\<le>Suc (n_events cattrs + n_events (the (own_producers (gr_data grp)))). take k fds' = replicate k (-1))"
proof -
  let ?data = "gr_data grp0"
  from m obtain fd0 frest where f: "fds = fd0 # frest" by (auto simp: ri_group_map_def split: if_splits list.splits)
  from m f obtain i u1 cattrs cs off idx fds1 u2 pattrs ps off' idx' where
    sm: "ri_shm_map fd0 w = (Some i, u1)" and
    ca: "table_attrs ?data (gd_consumers ?data) (gd_n_consumers ?data) = Some cattrs" and
    mc: "map_channels (\<lambda>attr eventfd. ri_consumer_map cls attr eventfd i) cls cattrs 0 1 (fds[0 := -1]) n_fds u1 =
      Some ((cs, True, off, idx, fds1), u2)" and
    pa: "table_attrs ?data (gd_producers ?data) (gd_n_producers ?data) = Some pattrs" and
    mp: "map_channels (\<lambda>attr eventfd. ri_producer_map cls attr eventfd i) cls pattrs off idx fds1 n_fds u2 =
      Some ((ps, True, off', idx', fds'), v)" and
    g: "grp = grp0\<lparr>gr_shm := Some i, gr_consumers := filled (gr_consumers grp0) cs, gr_producers := filled (gr_producers grp0) ps\<rparr>"
    by (auto simp: ri_group_map_def bind_eq_Some_conv Let_def split: if_splits prod.splits option.splits)
  obtain base n where S: "keeps w u1" "memory_at u1 i base n" "map_of (w_fds w) fd0 = Some n"
    using shm_map_memory [OF sm] by blast
  have op: "map_of (w_fds u) x \<noteq> None" if "keeps w u" "x \<in> set (take (unat n_fds) fds)" for u x
    using open_fds that by (fastforce simp: keeps_def map_le_def dom_def)
  have tail: "x \<in> set (take (unat n_fds - 1) frest) \<Longrightarrow> x \<in> set (take (unat n_fds) fds)" for x
    using f by (cases "unat n_fds") simp_all
  have op1: "\<forall>x\<in>set (drop 1 (take (unat n_fds) (fds[0 := -1]))). map_of (w_fds u1) x \<noteq> None"
    unfolding drop_take using op [OF S(1)] tail f by simp
  have l1: "1 \<le> length (fds[0 := -1])" using f by simp
  have C: "keeps u1 u2 \<and> placed (consumer_at cls i base u2) cls cattrs 0 (assign cattrs (drop 1 (fds[0 := -1]))) cs \<and>
      off = 0 + shm_sizes cls cattrs \<and> idx = 1 + n_events cattrs \<and> drop idx fds1 = drop idx (fds[0 := -1]) \<and>
      idx \<le> length (fds[0 := -1]) \<and> length fds1 = length (fds[0 := -1]) \<and>
      take idx fds1 = take 1 (fds[0 := -1]) @ replicate (n_events cattrs) (-1)"
    by (rule map_channels_placed [OF _ _ mc S(2) op1 l1]) (erule (2) consumer_map_at, erule (1) consumer_kept)
  have ix: "idx = Suc (n_events cattrs)" using C by simp
  have fx: "drop idx fds1 = drop idx (-1 # frest)" using C [THEN conjunct2, THEN conjunct2, THEN conjunct2, THEN conjunct2] f by simp
  have d1: "drop idx fds1 = drop (n_events cattrs) frest" using fx unfolding ix by simp
  have "drop idx (take (unat n_fds) fds1) = drop (n_events cattrs) (take (unat n_fds - 1) frest)"
    unfolding drop_take d1 by (simp add: ix drop_take)
  then have op2: "\<forall>x\<in>set (drop idx (take (unat n_fds) fds1)). map_of (w_fds u2) x \<noteq> None"
    using op [OF keeps_trans [OF S(1) C [THEN conjunct1]]] tail by (auto dest: in_set_dropD)
  have l2: "idx \<le> length fds1" using C by simp
  have P: "keeps u2 v \<and> placed (producer_at cls i base v) cls pattrs off (assign pattrs (drop idx fds1)) ps \<and>
      off' = off + shm_sizes cls pattrs \<and> idx' = idx + n_events pattrs \<and> drop idx' fds' = drop idx' fds1 \<and>
      idx' \<le> length fds1 \<and> length fds' = length fds1 \<and> take idx' fds' = take idx fds1 @ replicate (n_events pattrs) (-1)"
    by (rule map_channels_placed [OF _ _ mp memory_kept [OF C [THEN conjunct1] S(2)] op2 l2])
      (erule (2) producer_map_at, erule (1) producer_kept)
  have kv: "keeps u2 v" using P by blast
  have "placed (consumer_at cls i base v) cls cattrs 0 (assign cattrs frest) cs"
    by (rule placed_mono [OF consumer_kept [OF kv]]) (use C f in auto)
  moreover have "placed (producer_at cls i base v) cls pattrs (shm_sizes cls cattrs) (assign pattrs (drop (n_events cattrs) frest)) ps"
    using P C d1 by simp
  moreover have "memory_at v i base n" using memory_kept [OF keeps_trans [OF C [THEN conjunct1] kv] S(2)] .
  moreover have "array_holds (filled (gr_consumers grp0) cs) (gd_n_consumers ?data) cs"
      "array_holds (filled (gr_producers grp0) ps) (gd_n_producers ?data) ps"
    using arr placed_length C P table_attrs_length [OF pa] table_attrs_length [OF ca]
    by (metis filled_holds order_refl)+
  moreover have "keeps w v" using keeps_trans [OF S(1) keeps_trans [OF C [THEN conjunct1] kv]] .
  moreover have "take k fds' = replicate k (-1)" if "k \<le> Suc (n_events cattrs + n_events pattrs)" for k
  proof -
    let ?n = "Suc (n_events cattrs + n_events pattrs)"
    have i': "idx' = ?n" using P ix by simp
    have "take idx' fds' = take idx fds1 @ replicate (n_events pattrs) (-1)" using P by blast
    moreover have "take idx fds1 = take 1 (fds[0 := -1]) @ replicate (n_events cattrs) (-1)" using C by blast
    ultimately have n: "take ?n fds' = replicate ?n (-1)"
      using f unfolding i' by (simp add: replicate_add)
    have "take k fds' = take k (take ?n fds')" using that by (simp only: take_take min_absorb1)
    also have "\<dots> = replicate k (-1)" unfolding n take_replicate using that by (simp only: min_absorb1)
    finally show ?thesis .
  qed
  ultimately show ?thesis
    using S(3) ca pa f g by (auto simp: laid_out_def own_producers_def own_consumers_def)
qed

end
