(* ===== verification/Exchange.thy ===== *)
theory Exchange
  imports Group_Layout Connect
begin

text \<open>
  The two sides of a connection, step by step: which message \<open>ri_client_socket_connect\<close> sends and which group it
  keeps, and which group \<open>ri_server_socket_accept\<close> makes of such a message.
\<close>

section \<open>Tables with the same content\<close>

lemma table_attrs_content:
  assumes "map channel_content (table_of (map_option (map (attr_of (gd_mem_infos data))) t)) = L"
    and "unat n = length L"
  shows "\<exists>as. table_attrs data t n = Some as \<and> map channel_content as = L"
proof (cases t)
  case None
  then have "L = []" using assms(1) by (simp add: table_of_def)
  then show ?thesis using assms(2) None by (simp add: table_attrs_def unat_eq_zero)
next
  case (Some ds)
  let ?as = "map (attr_of (gd_mem_infos data)) ds"
  have c: "map channel_content (channels_of ?as) = L" using assms(1) Some by (simp add: table_of_def)
  then have n: "unat n = length (channels_of ?as)" using assms(2) by auto
  have p: "channels_of ?as = take (length (channels_of ?as)) ?as"
    unfolding channels_of_def by (rule takeWhile_eq_take)
  moreover have "length (channels_of ?as) \<le> length ds"
    using length_takeWhile_le [of _ ?as] by (simp add: channels_of_def)
  ultimately have l: "unat n \<le> length ds" "take (unat n) ?as = channels_of ?as" using n by simp_all
  then have "table_attrs data t n = Some (channels_of ?as)" using Some by (simp add: table_attrs_def take_map)
  then show ?thesis using c by blast
qed

text \<open>What the placement of channels depends on.\<close>

lemma same_content:
  assumes "channel_content a = channel_content b"
  shows "a_eventfd a = a_eventfd b" and "ri_channel_shm_size cls a = ri_channel_shm_size cls b"
    and "ri_queue_init cls a addr = ri_queue_init cls b addr"
  using assms by (simp_all add: channel_content_def ri_channel_shm_size_def ri_channel_queue_len_def ri_queue_init_def)

lemma same_contents:
  assumes "map channel_content as = map channel_content bs"
  shows "n_events as = n_events bs" and "shm_sizes cls as = shm_sizes cls bs" and "length as = length bs"
    and "assign as fds = assign bs fds"
proof -
  show "length as = length bs" using assms by (rule map_eq_imp_length_eq)
  then have "n_events as = n_events bs \<and> shm_sizes cls as = shm_sizes cls bs \<and> (\<forall>fds. assign as fds = assign bs fds)"
    using assms
  proof (induction as bs rule: list_induct2)
    case (Cons a as b bs)
    then have c: "channel_content a = channel_content b" by simp
    show ?case using Cons same_content(1,2) [OF c] by (simp add: n_events_def shm_sizes_def)
  qed (simp add: n_events_def shm_sizes_def)
  then show "n_events as = n_events bs" "shm_sizes cls as = shm_sizes cls bs" "assign as fds = assign bs fds" by blast+
qed

section \<open>Handing out the eventfds\<close>

lemma assign_append: "n_events attrs \<le> length fds \<Longrightarrow> assign attrs (fds @ rest) = assign attrs fds"
proof (induction attrs arbitrary: fds)
  case (Cons a attrs)
  show ?case
  proof (cases "a_eventfd a")
    case True
    then obtain x xs where "fds = x # xs" using Cons.prems by (cases fds) (simp_all add: n_events_def)
    then show ?thesis using Cons True by (simp add: n_events_def)
  qed (use Cons in \<open>simp add: n_events_def\<close>)
qed simp

lemma assign_filter:
  assumes "placed at cls attrs off fds cs" and "\<And>attr off fd c. at attr off fd c \<Longrightarrow> eventfd_ok w attr fd"
  shows "fds = assign attrs (filter (\<lambda>fd. 0 \<le> fd) fds) \<and> length (filter (\<lambda>fd. 0 \<le> fd) fds) = n_events attrs \<and>
    (\<forall>fd\<in>set (filter (\<lambda>fd. 0 \<le> fd) fds). map_of (w_fds w) fd \<noteq> None)"
  using assms(1)
proof (induction attrs arbitrary: off fds cs)
  case Nil
  then show ?case by (cases fds; cases cs) (simp_all add: n_events_def)
next
  case (Cons attr attrs)
  then obtain fd fds' c cs' where f: "fds = fd # fds'" "cs = c # cs'" "at attr off fd c"
    "placed at cls attrs (off + ri_channel_shm_size cls attr) fds' cs'" by (cases fds; cases cs) simp_all
  then show ?case using Cons.IH [OF f(4)] assms(2) [OF f(3)] by (auto simp: eventfd_ok_def n_events_def split: if_splits)
qed

text \<open>Two descriptors of two processes for the same file, or none.\<close>

definition same_file :: "world \<Rightarrow> world \<Rightarrow> int \<Rightarrow> int \<Rightarrow> bool" where
  "same_file w v fd fd' \<longleftrightarrow> map_of (w_fds w) fd \<noteq> None \<and> map_of (w_fds w) fd = map_of (w_fds v) fd'"

lemma assign_same:
  assumes "list_all2 R fds fds'" and "n_events attrs \<le> length fds"
  shows "list_all2 (\<lambda>fd fd'. R fd fd' \<or> fd = -1 \<and> fd' = -1) (assign attrs fds) (assign attrs fds')"
  using assms
proof (induction attrs arbitrary: fds fds')
  case (Cons a attrs)
  show ?case
  proof (cases "a_eventfd a")
    case False
    then show ?thesis using Cons by (simp add: n_events_def)
  next
    case True
    then obtain x xs y ys where "fds = x # xs" "fds' = y # ys" "R x y" "list_all2 R xs ys"
      using Cons.prems by (cases fds; cases fds') (simp_all add: n_events_def)
    then show ?thesis using Cons True by (simp add: n_events_def)
  qed
qed simp

section \<open>Collecting the descriptors\<close>

lemma collect_loop_eq:
  assumes "\<forall>c\<in>set cs. ev c = Some (f c)" and "collect_loop ev (map Some cs) n idx fds = Some (r, fds')" and "0 \<le> r"
    and "idx \<le> length fds"
  defines "E \<equiv> filter (\<lambda>fd. 0 \<le> fd) (map f cs)"
  shows "r = int (idx + length E) \<and> idx + length E \<le> length fds \<and> fds' = take idx fds @ E @ drop (idx + length E) fds"
  using assms(1-4) unfolding E_def
proof (induction cs arbitrary: idx fds)
  case (Cons c cs)
  show ?case
  proof (cases "0 \<le> f c")
    case True
    then have l: "idx < length fds" "collect_loop ev (map Some cs) n (Suc idx) (fds[idx := f c]) = Some (r, fds')"
      using Cons.prems by (auto split: if_splits simp: ENOMEM_def)
    have "take (Suc idx) (fds[idx := f c]) = take idx fds @ [f c]" using l(1) by (simp add: take_Suc_conv_app_nth)
    then show ?thesis using Cons.IH [OF _ l(2)] Cons.prems l(1) True by (auto simp: add.commute)
  next
    case False
    then show ?thesis using Cons by simp
  qed
qed simp

section \<open>What is sent\<close>

text \<open>The eventfds of a table, in order.\<close>

abbreviation events :: "int list \<Rightarrow> int list" where
  "events fds \<equiv> filter (\<lambda>fd. 0 \<le> fd) fds"

lemma array_of_full: "array_holds arr n cs \<Longrightarrow> length cs = unat n \<Longrightarrow> array_of arr n = Some (map Some cs)"
  by (auto simp: array_holds_def array_of_def unat_eq_zero)

lemma placed_producers_events:
  "placed (producer_at cls i base w) cls attrs off fds ps \<Longrightarrow>
   (\<forall>p\<in>set ps. map_option ri_producer_eventfd (live (w_producers w) p) = Some (the (map_option ri_producer_eventfd (live (w_producers w) p)))) \<and>
   map (\<lambda>p. the (map_option ri_producer_eventfd (live (w_producers w) p))) ps = fds"
proof (induction attrs arbitrary: off fds ps)
  case Nil
  then show ?case by (cases fds; cases ps) simp_all
next
  case (Cons a attrs)
  then show ?case by (cases fds; cases ps) (auto simp: producer_at_def ri_producer_eventfd_def)
qed

lemma placed_consumers_events:
  "placed (consumer_at cls i base w) cls attrs off fds cs \<Longrightarrow>
   (\<forall>c\<in>set cs. map_option ri_consumer_eventfd (live (w_consumers w) c) = Some (the (map_option ri_consumer_eventfd (live (w_consumers w) c)))) \<and>
   map (\<lambda>c. the (map_option ri_consumer_eventfd (live (w_consumers w) c))) cs = fds"
proof (induction attrs arbitrary: off fds cs)
  case Nil
  then show ?case by (cases fds; cases cs) simp_all
next
  case (Cons a attrs)
  then show ?case by (cases fds; cases cs) (auto simp: consumer_at_def ri_consumer_eventfd_def)
qed

lemma own_length: "own_producers data = Some as \<Longrightarrow> length as = unat (gd_n_producers data)"
    "own_consumers data = Some as \<Longrightarrow> length as = unat (gd_n_consumers data)"
  by (simp_all add: own_producers_def own_consumers_def table_attrs_length)

text \<open>The descriptors of a group: the memory, the eventfds of the producers, those of the consumers.\<close>

lemma collect_fds_eq:
  assumes l: "laid_out cls w grp n poff pfds ps coff cfds cs"
    and c: "collect_fds grp fds m w = Some (r, fds')" and r: "0 \<le> r"
  shows "\<exists>fd rest. map_of (w_fds w) fd = Some n \<and> fds' = fd # events pfds @ events cfds @ rest \<and>
    length fds' = length fds \<and> r = int (Suc (length (events pfds) + length (events cfds)))"
proof -
  from l obtain i base pattrs cattrs where
    shm: "gr_shm grp = Some i" "memory_at w i base n" and
    arr: "array_holds (gr_producers grp) (gd_n_producers (gr_data grp)) ps" "array_holds (gr_consumers grp) (gd_n_consumers (gr_data grp)) cs" and
    own: "own_producers (gr_data grp) = Some pattrs" "own_consumers (gr_data grp) = Some cattrs" and
    P: "placed (producer_at cls i base w) cls pattrs poff pfds ps" and C: "placed (consumer_at cls i base w) cls cattrs coff cfds cs"
    unfolding laid_out_def by blast
  obtain s where s: "live (w_shms w) i = Some s" "map_of (w_fds w) (s_fd s) = Some n" using shm(2) unfolding memory_at_def by blast
  have ps: "array_of (gr_producers grp) (gd_n_producers (gr_data grp)) = Some (map Some ps)"
    by (rule array_of_full [OF arr(1)]) (use placed_length [OF P] own_length(1) [OF own(1)] in simp)
  have cs: "array_of (gr_consumers grp) (gd_n_consumers (gr_data grp)) = Some (map Some cs)"
    by (rule array_of_full [OF arr(2)]) (use placed_length [OF C] own_length(2) [OF own(2)] in simp)
  let ?pe = "\<lambda>p. map_option ri_producer_eventfd (live (w_producers w) p)" and ?ce = "\<lambda>c. map_option ri_consumer_eventfd (live (w_consumers w) c)"
  have "\<not> m < 1" using c r by (auto simp: collect_fds_def EINVAL_def)
  then obtain idx fds1 where ne: "fds \<noteq> []" and 1: "collect_loop ?pe (map Some ps) m 1 (fds[0 := s_fd s]) = Some (idx, fds1)" and
    2: "if idx < 0 then Some (idx, fds1) = Some (r, fds') else collect_loop ?ce (map Some cs) m (nat idx) fds1 = Some (r, fds')"
    using c shm(1) s(1) ps cs by (auto simp: collect_fds_def ri_shm_get_fd_def bind_eq_Some_conv split: if_splits)
  have idx: "0 \<le> idx" using 2 r by (auto split: if_splits)
  let ?F = "fds[0 := s_fd s]"
  have L: "1 \<le> length ?F" using ne by (cases fds) simp_all
  note one = collect_loop_eq [OF placed_producers_events [OF P, THEN conjunct1] 1 idx L, unfolded placed_producers_events [OF P, THEN conjunct2]]
  then have i: "nat idx = 1 + length (events pfds)" "nat idx \<le> length fds1" "take (nat idx) fds1 = take 1 ?F @ events pfds" by auto
  have 2: "collect_loop ?ce (map Some cs) m (nat idx) fds1 = Some (r, fds')" using 2 idx by simp
  note two = collect_loop_eq [OF placed_consumers_events [OF C, THEN conjunct1] 2 r i(2), unfolded placed_consumers_events [OF C, THEN conjunct2]]
  have "take 1 ?F = [s_fd s]" using ne by (cases fds) simp_all
  then have "fds' = s_fd s # events pfds @ events cfds @ drop (nat idx + length (events cfds)) fds1" using two i(3) by simp
  moreover have "r = int (Suc (length (events pfds) + length (events cfds)))" using two i(1) by simp
  moreover have "length fds1 = length fds" using one by auto
  then have "length fds' = length fds" using two by auto
  ultimately show ?thesis using s(2) by blast
qed

section \<open>What is received\<close>

lemma install_frame:
  "install ns w = (fds, v) \<Longrightarrow> list_all2 (\<lambda>fd n. map_of (w_fds v) fd = Some n) fds ns \<and>
    map_of (w_fds w) \<subseteq>\<^sub>m map_of (w_fds v) \<and> v = w\<lparr>w_fds := w_fds v\<rparr>"
proof (induction ns arbitrary: w fds v)
  case (Cons n ns)
  let ?fd = "fresh_fd (w_fds w)"
  obtain fds' where i: "install ns (w\<lparr>w_fds := (?fd, n) # w_fds w\<rparr>) = (fds', v)" "fds = ?fd # fds'"
    using Cons.prems by (auto simp: Let_def split: prod.splits)
  note I = Cons.IH [OF i(1)]
  have "map_of (w_fds v) ?fd = Some n" using I by (auto simp: map_le_def dom_def)
  moreover have "map_of (w_fds w) \<subseteq>\<^sub>m map_of (w_fds v)"
    using I fresh_fd_fresh(2) [of "w_fds w"] by (auto simp: map_le_def dom_def split: if_splits)
  moreover have "v = w\<lparr>w_fds := w_fds v\<rparr>" using I by simp
  ultimately show ?case using I i(2) by simp
qed simp

lemma int_of_size_small: "n < 2 ^ 31 \<Longrightarrow> int_of_size n = int n"
  unfolding int_of_size_def by (rule sint_of_nat_small)

lemma unat_of_small: "n < 2 ^ 31 \<Longrightarrow> unat (word_of_int (int n) :: u64) = n"
  by (simp add: unsigned_of_nat take_bit_nat_eq_self)

lemma sint_of_small: "n < 2 ^ 31 \<Longrightarrow> sint (ucast (word_of_int (int n) :: u64) :: u32) = int n"
  using sint_of_nat_small [of n] by (simp add: unsigned_of_nat take_bit_nat_eq_self)

text \<open>A message that fits is received whole, with a new descriptor for each file.\<close>

lemma receive_eq:
  assumes r: "ri_uxmsg_receive raw h = Some (Some msg, h')" and i: "h_in h = m # rest"
    and data: "length (mg_data m) < 2 ^ 31" and files: "length (mg_files m) \<le> 253"
  shows "um_data msg = mg_data m \<and> um_size msg = of_nat (length (mg_data m)) \<and> um_dir msg = RI_UXMSG_RX \<and>
    unat (um_n_fds msg) = length (mg_files m) \<and> length (mg_files m) \<le> length (um_fds msg) \<and>
    list_all2 (\<lambda>fd n. map_of (w_fds (h_world h')) fd = Some n) (take (length (mg_files m)) (um_fds msg)) (mg_files m) \<and>
    w_ok (h_world h') = w_ok (h_world h)"
proof -
  let ?n = "length (mg_data m)"
  have ask: "ask_host h = (ok, h') \<Longrightarrow> h' = h\<lparr>h_world := (h_world h)\<lparr>w_calls := Suc (w_calls (h_world h))\<rparr>\<rparr>" for ok h h'
    by (auto simp: ask_host_def ask_def Let_def)
  obtain ok1 h1 where a1: "ask_host h = (ok1, h1)" by (cases "ask_host h")
  obtain ok2 h2 where a2: "ask_host h1 = (ok2, h2)" by (cases "ask_host h1")
  obtain ok3 h3 where a3: "ask_host h2 = (ok3, h3)" by (cases "ask_host h2")
  obtain ok4 h4 where a4: "ask_host h3 = (ok4, h4)" by (cases "ask_host h3")
  have h: "h_in h1 = m # rest" "h_in h4 = m # rest" "w_ok (h_world h4) = w_ok (h_world h)"
    using i ask [OF a1] ask [OF a2] ask [OF a3] ask [OF a4] by simp_all
  have p: "peek h = (if ok1 then int_of_size ?n else -1, h1)" using a1 h by (simp add: peek_def Let_def)
  have ok1: "ok1" "0 < int_of_size ?n" using r p by (auto simp: ri_uxmsg_receive_def Let_def split: if_splits)
  then have p: "peek h = (int ?n, h1)" "?n \<noteq> 0" using p int_of_size_small [OF data] by simp_all
  have new: "ok2 \<and> ok3" "ri_uxmsg_new raw (word_of_int (int ?n)) h1 = (Some \<lparr>um_dir = RI_UXMSG_TX,
      um_data = map raw [0..<?n], um_size = word_of_int (int ?n), um_n_fds = 0, um_fds = replicate (unat SCM_MAX_FD) 0\<rparr>, h3)"
    using r p a2 a3 unat_of_small [OF data]
    by (auto simp: ri_uxmsg_receive_def ri_uxmsg_new_def Let_def split: if_splits)
  obtain fds v where ins: "install (mg_files m) (h_world h4) = (fds, v)" by (cases "install (mg_files m) (h_world h4)")
  note I = install_frame [OF ins]
  have len: "length fds = length (mg_files m)" using I by (auto dest: list_all2_lengthD)
  have scm: "unat SCM_MAX_FD = 253" by (simp add: SCM_MAX_FD_def)
  have rec: "recvmsg (word_of_int (int ?n)) 253 h3 = (if ok4
      then ((int ?n, mg_data m, fds), h4\<lparr>h_world := v, h_in := rest\<rparr>) else ((-1, [], []), h4))"
    using a4 h(2) ins files int_of_size_small [OF data] unat_of_small [OF data] by (simp add: recvmsg_def Let_def)
  have ok4
  proof (rule ccontr)
    assume "\<not> ok4"
    then show False using r p new rec scm sint_of_small [OF data]
      by (simp add: ri_uxmsg_receive_def Let_def map_option_case split: option.splits)
  qed
  then have "msg = \<lparr>um_dir = RI_UXMSG_RX, um_data = mg_data m, um_size = word_of_int (int ?n), um_n_fds = of_nat (length fds),
      um_fds = fds @ replicate (253 - length fds) 0\<rparr>" "h' = h4\<lparr>h_world := v, h_in := rest\<rparr>"
    using r p new rec scm sint_of_small [OF data] by (simp_all add: ri_uxmsg_receive_def Let_def)
  moreover have "unat (of_nat (length fds) :: u32) = length fds"
    using len files by (simp add: unsigned_of_nat take_bit_nat_eq_self)
  moreover have "w_ok v = w_ok (h_world h)"
  proof -
    have "w_ok v = w_ok (h_world h4)" using I [THEN conjunct2, THEN conjunct2] by (metis world.select_convs(1) world.update_convs(6) world.surjective)
    then show ?thesis using h(3) by simp
  qed
  ultimately show ?thesis using I len by simp
qed

section \<open>The attributes of the group created\<close>

text \<open>An allocation that is not made does not matter.\<close>

lemma and_then_same:
  assumes "and_then m f = Returns y" and "\<And>x. m = Returns x \<Longrightarrow> m' = Returns x"
    and "\<And>x. f x = Returns y \<Longrightarrow> f' x = Returns y"
  shows "and_then m' f' = Returns y"
  using assms by (cases m) simp_all

lemma and_then_same_pair:
  assumes "and_then m (\<lambda>(a, b). f a b) = Returns y" and "\<And>a b. f a b = Returns y \<Longrightarrow> f' a b = Returns y"
  shows "and_then m (\<lambda>(a, b). f' a b) = Returns y"
  using assms by (cases m) auto

definition full_allocs :: "allocs \<Rightarrow> allocs" where
  "full_allocs al = al\<lparr>al_consumers := True, al_producers := True, al_infos := True\<rparr>"

lemma full_allocs_simps [simp]: "al_consumers (full_allocs al)" "al_producers (full_allocs al)" "al_infos (full_allocs al)"
    "al_raw (full_allocs al) = al_raw al"
  by (simp_all add: full_allocs_def)

lemma data_new_full: "ri_group_data_new al nc np = Returns data \<Longrightarrow> ri_group_data_new (full_allocs al) nc np = Returns data"
  by (auto simp: ri_group_data_new_def Let_def split: if_splits)

lemma copy_full:
  "ri_group_data_from_attr al attr = Returns data \<Longrightarrow> ri_group_data_from_attr (full_allocs al) attr = Returns data"
  unfolding ri_group_data_from_attr_def
  apply (erule and_then_same, assumption)+
  apply (erule and_then_same, erule data_new_full)
  apply (erule and_then_same, assumption)
  apply (simp split: if_splits)
  done

lemma parse_full:
  "ri_request_parse cls al req sz = Returns data \<Longrightarrow> ri_request_parse cls (full_allocs al) req sz = Returns data"
  unfolding ri_request_parse_def Let_def
  apply (erule and_then_same, assumption)
  subgoal for res
    apply (cases res)
     apply simp
    subgoal for rb
      apply (cases rb, cases "ri_request_header_validate cls (header_of (snd rb)) < 0")
       apply (simp only: option.case prod.case snd_conv if_True outcome.distinct)
      apply (simp only: option.case prod.case snd_conv if_False)
      apply (erule and_then_same_pair)+
      apply (erule and_then_same, erule data_new_full)
      apply (erule and_then_same_pair)+
      apply (erule and_then_same, assumption)
      apply (simp split: if_splits)
      done
    done
  done

lemma concat_infos: "infos_bytes as = concat (map (\<lambda>c. snd (snd (snd c))) (map channel_content as))"
  by (simp add: infos_bytes_def channel_content_def o_def)

lemma portable_content:
  assumes "portable g" and "wf_group_attr g'" and c: "group_content g' = group_content g"
  shows "portable g'"
proof -
  have t: "map channel_content (table_of (g_consumers g')) = map channel_content (table_of (g_consumers g))"
    "map channel_content (table_of (g_producers g')) = map channel_content (table_of (g_producers g))"
    "info_bytes (g_info g') = info_bytes (g_info g)" using c by (simp_all add: group_content_def)
  have "request_len g' = request_len g"
    unfolding request_len_def table_bytes_def concat_infos t map_eq_imp_length_eq [OF t(1)] map_eq_imp_length_eq [OF t(2)] ..
  moreover have "unat (a_msg_size a) < 2 ^ 32" if "a \<in> set (table_of (g_consumers g') @ table_of (g_producers g'))" for a
  proof -
    let ?T = "table_of (g_consumers g) @ table_of (g_producers g)" and ?T' = "table_of (g_consumers g') @ table_of (g_producers g')"
    have "map channel_content ?T' = map channel_content ?T" using t by simp
    from arg_cong [OF this, of set] have "channel_content ` set ?T' = channel_content ` set ?T" by (simp only: set_map)
    with that have "channel_content a \<in> channel_content ` set ?T" by (metis imageI)
    then obtain b where b: "channel_content a = channel_content b" "b \<in> set ?T" by (rule imageE)
    then have "a_msg_size a = a_msg_size b" by (simp add: channel_content_def)
    moreover have "\<forall>a\<in>set ?T. unat (a_msg_size a) < 2 ^ 32" using assms(1) unfolding portable_def by (elim conjE)
    ultimately show ?thesis using b(2) by simp
  qed
  ultimately show ?thesis using assms(1,2) by (simp add: portable_def)
qed

text \<open>The attributes of the channels of a group, when the counters say how many there are.\<close>

lemma own_tables:
  assumes c: "group_content (ri_group_data_attr data) = (i, map channel_content ct, map channel_content pt)"
    and n: "gd_n_consumers data = of_nat (length ct)" "gd_n_producers data = of_nat (length pt)"
    and l: "length ct < 2 ^ 31" "length pt < 2 ^ 31"
  shows "\<exists>pattrs cattrs. own_producers data = Some pattrs \<and> map channel_content pattrs = map channel_content pt \<and>
    own_consumers data = Some cattrs \<and> map channel_content cattrs = map channel_content ct"
proof -
  have u: "unat (of_nat k :: u32) = k" if "k < 2 ^ 31" for k
    using that by (simp add: unsigned_of_nat take_bit_nat_eq_self)
  have "\<exists>pattrs. table_attrs data (gd_producers data) (gd_n_producers data) = Some pattrs \<and> map channel_content pattrs = map channel_content pt"
    by (rule table_attrs_content) (use c n u [OF l(2)] in \<open>simp_all add: group_content_def ri_group_data_attr_def\<close>)
  moreover have "\<exists>cattrs. table_attrs data (gd_consumers data) (gd_n_consumers data) = Some cattrs \<and> map channel_content cattrs = map channel_content ct"
    by (rule table_attrs_content) (use c n u [OF l(1)] in \<open>simp_all add: group_content_def ri_group_data_attr_def\<close>)
  ultimately show ?thesis unfolding own_producers_def own_consumers_def by blast
qed

lemma table_short: "wf_group_attr g \<Longrightarrow> length (table_of (g_consumers g)) < 2 ^ 31 \<and> length (table_of (g_producers g)) < 2 ^ 31"
  by (auto simp: wf_group_attr_def wf_table_def table_of_def split: option.splits)

lemma created_attributes:
  assumes c: "ri_group_from_attr cls raw g w = Some (Some grp, v)"
    and g: "wf_group_attr g" "gapless (all_infos g)" "small_infos (all_infos g)"
  shows "group_content (ri_group_get_attr grp) = group_content g \<and> wf_group_attr (ri_group_get_attr grp) \<and>
    gd_n_consumers (gr_data grp) = of_nat (length (table_of (g_consumers g))) \<and>
    gd_n_producers (gr_data grp) = of_nat (length (table_of (g_producers g))) \<and>
    (\<exists>n pattrs pfds ps cfds cs. own_producers (gr_data grp) = Some pattrs \<and>
      laid_out cls v grp n 0 pfds ps (shm_sizes cls pattrs) cfds cs)"
proof -
  obtain ok u1 where a: "ask w = (ok, u1)" by (cases "ask w")
  obtain al u2 where t: "take_allocs raw u1 = (al, u2)" by (cases "take_allocs raw u1")
  have ok: ok
  proof (rule ccontr)
    assume "\<not> ok"
    then show False using c a by (simp add: ri_group_from_attr_def)
  qed
  from c a t ok obtain data sz where d: "ri_group_data_from_attr al g = Returns data" and
    b: "build_group cls data sz u2 = Some (Some grp, v)"
    by (cases "ri_group_data_from_attr al g"; cases "ri_calc_shm_size cls (g_consumers g) (g_producers g)")
      (simp_all add: ri_group_from_attr_def split: if_splits)
  from build_group_laid_out [OF b] have gd: "gr_data grp = data" by blast
  have l: "\<exists>n pattrs pfds ps cfds cs. own_producers (gr_data grp) = Some pattrs \<and>
      laid_out cls v grp n 0 pfds ps (shm_sizes cls pattrs) cfds cs" unfolding gd using build_group_laid_out [OF b] by blast
  from group_copy_ok [OF g, of "full_allocs al"] copy_full [OF d]
  have "group_content (ri_group_data_attr data) = group_content g \<and> wf_group_attr (ri_group_data_attr data) \<and>
    gd_n_consumers data = of_nat (length (table_of (g_consumers g))) \<and>
    gd_n_producers data = of_nat (length (table_of (g_producers g)))" by simp
  then show ?thesis using l gd by (simp only: ri_group_get_attr_def)
qed

section \<open>The client\<close>

lemma laid_out_kept:
  assumes "keeps w v" and "laid_out cls w grp n poff pfds ps coff cfds cs"
  shows "laid_out cls v grp n poff pfds ps coff cfds cs"
proof -
  from assms(2) obtain i base pattrs cattrs where l: "gr_shm grp = Some i" "memory_at w i base n"
    "array_holds (gr_producers grp) (gd_n_producers (gr_data grp)) ps" "array_holds (gr_consumers grp) (gd_n_consumers (gr_data grp)) cs"
    "own_producers (gr_data grp) = Some pattrs" "own_consumers (gr_data grp) = Some cattrs"
    "placed (producer_at cls i base w) cls pattrs poff pfds ps" "placed (consumer_at cls i base w) cls cattrs coff cfds cs"
    unfolding laid_out_def by blast
  have k: "memory_at v i base n" "placed (producer_at cls i base v) cls pattrs poff pfds ps"
    "placed (consumer_at cls i base v) cls cattrs coff cfds cs"
    using memory_kept [OF assms(1) l(2)] placed_mono [OF _ l(7), of "producer_at cls i base v"]
      placed_mono [OF _ l(8), of "consumer_at cls i base v"] producer_kept [OF assms(1)] consumer_kept [OF assms(1)] by blast+
  show ?thesis unfolding laid_out_def using k l(1,3-6) by blast
qed

lemma ask_host_keeps: "ask_host h = (ok, h') \<Longrightarrow>
    keeps (h_world h) (h_world h') \<and> h_sent h' = h_sent h \<and> w_fds (h_world h') = w_fds (h_world h)"
  by (auto simp: ask_host_def ask_def Let_def intro!: keeps_same)

text \<open>A message is sent; nothing else changes.\<close>

lemma sendmsg_eq:
  assumes "sendmsg data sz fds h = Some (r, h')" and "0 \<le> r"
  shows "keeps (h_world h) (h_world h') \<and> w_fds (h_world h') = w_fds (h_world h) \<and> length fds \<le> 253 \<and>
    h_sent h' = h_sent h @ [\<lparr>mg_data = take (unat sz) data, mg_files = map (\<lambda>fd. the (map_of (w_fds (h_world h)) fd)) fds\<rparr>]"
proof -
  obtain ok h1 where a: "ask_host h = (ok, h1)" by (cases "ask_host h")
  have w: "w_fds (h_world h1) = w_fds (h_world h)" "keeps (h_world h) (h_world h1)" "h_sent h1 = h_sent h"
    using a ask_host_keeps [OF a] by (auto simp: ask_host_def ask_def Let_def)
  have "unat sz \<le> length data" using assms(1) by (rule contrapos_pp) (simp add: sendmsg_def)
  moreover have "\<not> (\<not> ok \<or> None \<in> set (map (map_of (w_fds (h_world h1))) fds) \<or> length fds > unat SCM_MAX_FD)"
  proof
    assume "\<not> ok \<or> None \<in> set (map (map_of (w_fds (h_world h1))) fds) \<or> length fds > unat SCM_MAX_FD"
    then have "r = -1" using assms(1) a calculation by (simp add: sendmsg_def Let_def)
    then show False using assms(2) by simp
  qed
  ultimately have "h' = h1\<lparr>h_sent := h_sent h1 @ [\<lparr>mg_data = take (unat sz) data,
      mg_files = map the (map (map_of (w_fds (h_world h1))) fds)\<rparr>]\<rparr>" "length fds \<le> 253"
    using assms(1) a by (simp_all add: sendmsg_def Let_def SCM_MAX_FD_def)
  then show ?thesis using w by (simp add: o_def)
qed

lemma receive_keeps: "ri_uxsocket_receive h = (res, h') \<Longrightarrow> keeps (h_world h) (h_world h') \<and> h_sent h' = h_sent h"
proof -
  assume r: "ri_uxsocket_receive h = (res, h')"
  have p: "keeps (h_world h) (h_world h1) \<and> h_sent h1 = h_sent h" if "peek h = (n, h1)" for n h h1
    using that ask_host_keeps [of h] by (auto simp: peek_def Let_def split: prod.splits if_splits)
  have m: "keeps (h_world h) (h_world h1) \<and> h_sent h1 = h_sent h" if "recvmsg sz 0 h = (x, h1)" for sz h x h1
    using that ask_host_keeps [of h] by (auto simp: recvmsg_def Let_def split: prod.splits if_splits list.splits)
  obtain n h1 where h1: "peek h = (n, h1)" by (cases "peek h")
  obtain ok h2 where h2: "ask_host h1 = (ok, h2)" by (cases "ask_host h1")
  obtain x h3 where h3: "recvmsg (word_of_int n) 0 h2 = (x, h3)" by (cases "recvmsg (word_of_int n) 0 h2")
  have "h' = h1 \<or> h' = h2 \<or> h' = h3" using r h1 h2 h3
    by (cases x) (auto simp: ri_uxsocket_receive_def Let_def split: if_splits)
  then show ?thesis using p [OF h1] ask_host_keeps [OF h2] m [OF h3] keeps_trans by metis
qed

lemma exchange_eq:
  assumes "exchange req h = Some (r, h')" and "0 \<le> r" and "unat (um_n_fds req) \<le> length (um_fds req)"
  shows "keeps (h_world h) (h_world h') \<and> length (take (unat (um_n_fds req)) (um_fds req)) \<le> 253 \<and>
    h_sent h' = h_sent h @ [\<lparr>mg_data = take (unat (um_size req)) (um_data req),
      mg_files = map (\<lambda>fd. the (map_of (w_fds (h_world h)) fd)) (take (unat (um_n_fds req)) (um_fds req))\<rparr>]"
proof -
  from assms(1) obtain r1 h1 where s: "ri_uxmsg_send req h = Some (r1, h1)" by (auto simp: exchange_def bind_eq_Some_conv)
  have r1: "0 \<le> r1" using assms(1,2) s by (auto simp: exchange_def split: if_splits)
  obtain res h2 where rec: "ri_uxsocket_receive h1 = (res, h2)" by (cases "ri_uxsocket_receive h1")
  have "h' = h2" using assms(1) s r1 rec by (auto simp: exchange_def split: option.splits if_splits)
  moreover have "sendmsg (um_data req) (um_size req) (take (unat (um_n_fds req)) (um_fds req)) h = Some (r1, h1)"
    using s assms(3) by (simp add: ri_uxmsg_send_def)
  note sendmsg_eq [OF this r1]
  ultimately show ?thesis using receive_keeps [OF rec] keeps_trans by auto
qed

text \<open>The message made from a group.\<close>

lemma uxmsg_from_group_eq:
  assumes u: "uxmsg_from_group cls raw grp h = Some (Some req, h')"
    and l: "laid_out cls (h_world h) grp n poff pfds ps coff cfds cs" and g: "portable (ri_group_get_attr grp)"
  shows "keeps (h_world h) (h_world h') \<and> h_sent h' = h_sent h \<and> um_dir req = RI_UXMSG_TX \<and>
    unat (um_n_fds req) \<le> length (um_fds req) \<and>
    take (unat (um_size req)) (um_data req) = encode cls (ri_group_get_attr grp) \<and>
    (\<exists>fd. map_of (w_fds (h_world h)) fd = Some n \<and>
      take (unat (um_n_fds req)) (um_fds req) = fd # events pfds @ events cfds)"
proof -
  let ?G = "ri_group_get_attr grp"
  have attr: "ri_group_data_attr (gr_data grp) = ?G" by (simp add: ri_group_get_attr_def)
  obtain sz where sz: "ri_group_serialize_size grp = Returns sz" "unat sz = request_len ?G"
    using calc_size_eq [OF g] by (auto simp: ri_group_serialize_size_def attr)
  then have szw: "sz = of_nat (request_len ?G)" by (simp flip: sz(2))
  obtain m h1 where new: "ri_uxmsg_new raw sz h = (m, h1)" by (cases "ri_uxmsg_new raw sz h")
  have "m \<noteq> None" using u sz(1) new by (cases m) (simp_all add: uxmsg_from_group_def)
  then have m: "m = Some \<lparr>um_dir = RI_UXMSG_TX, um_data = map raw [0..<unat sz], um_size = sz, um_n_fds = 0,
      um_fds = replicate (unat SCM_MAX_FD) 0\<rparr>" and k: "keeps (h_world h) (h_world h1) \<and> h_sent h1 = h_sent h \<and> w_fds (h_world h1) = w_fds (h_world h)"
  proof -
    obtain ok1 g1 where a1: "ask_host h = (ok1, g1)" by (cases "ask_host h")
    obtain ok2 g2 where a2: "ask_host g1 = (ok2, g2)" by (cases "ask_host g1")
    have "ok1 \<and> ok2 \<and> h1 = g2 \<and> m = Some \<lparr>um_dir = RI_UXMSG_TX, um_data = map raw [0..<unat sz], um_size = sz, um_n_fds = 0,
      um_fds = replicate (unat SCM_MAX_FD) 0\<rparr>"
      using new a1 a2 \<open>m \<noteq> None\<close> by (auto simp: ri_uxmsg_new_def Let_def split: if_splits)
    then show "m = Some \<lparr>um_dir = RI_UXMSG_TX, um_data = map raw [0..<unat sz], um_size = sz, um_n_fds = 0,
      um_fds = replicate (unat SCM_MAX_FD) 0\<rparr>"
      "keeps (h_world h) (h_world h1) \<and> h_sent h1 = h_sent h \<and> w_fds (h_world h1) = w_fds (h_world h)"
      using ask_host_keeps [OF a1] ask_host_keeps [OF a2] keeps_trans by auto
  qed
  let ?data = "map raw [0..<unat sz]" and ?fds = "replicate (unat SCM_MAX_FD) (0 :: int)"
  let ?m = "\<lparr>um_dir = RI_UXMSG_TX, um_data = ?data, um_size = sz, um_n_fds = 0, um_fds = ?fds\<rparr>"
  have scm: "unat SCM_MAX_FD = 253" "\<not> SCM_MAX_FD < 1" by (simp_all add: SCM_MAX_FD_def)
  obtain r where w: "ri_request_write cls ?G ?data sz = Returns (encode cls ?G, r)" "0 \<le> r"
    using request_write_eq [of ?G ?data cls] g sz(2) unfolding szw by (auto simp: portable_def)
  let ?k = "\<lambda>(r, data, fds, n_fds). let req = ?m\<lparr>um_data := data, um_fds := fds\<rparr> in
      if r < 0 then map_option (\<lambda>h. (None, h)) (ri_uxmsg_delete req h1)
      else let (req, r) = ri_uxmsg_set_num_fds req (case n_fds of None \<Rightarrow> 0 | Some n \<Rightarrow> n) in
        if r < 0 then map_option (\<lambda>h. (None, h)) (ri_uxmsg_delete req h1)
        else Some (Some req, h1)"
  have "ri_group_serialize cls grp ?data sz ?fds (Some SCM_MAX_FD) (h_world h1) \<bind> ?k = Some (Some req, h')"
    using u by (simp add: uxmsg_from_group_def sz(1) new m ri_uxmsg_data_def ri_uxmsg_fds_def)
  then obtain x where "ri_group_serialize cls grp ?data sz ?fds (Some SCM_MAX_FD) (h_world h1) = Some x" "?k x = Some (Some req, h')"
    unfolding bind_eq_Some_conv by blast
  then obtain r2 data2 fds2 n2 where
    ser: "ri_group_serialize cls grp ?data sz ?fds (Some SCM_MAX_FD) (h_world h1) = Some (r2, data2, fds2, n2)" and
    res: "?k (r2, data2, fds2, n2) = Some (Some req, h')" by (cases x) blast
  have r2: "\<not> r2 < 0" using res by (rule contrapos_pn) (simp add: map_option_case split: option.split)
  have "(do {
      (cnt, fds) \<leftarrow> collect_fds grp ?fds SCM_MAX_FD (h_world h1);
      if cnt < 0 then Some (cnt, encode cls ?G, fds, Some SCM_MAX_FD) else Some (r, encode cls ?G, fds, Some (word_of_int cnt))
    }) = Some (r2, data2, fds2, n2)"
    using ser w scm by (simp add: ri_group_serialize_def attr)
  then obtain cnt where c: "collect_fds grp ?fds SCM_MAX_FD (h_world h1) = Some (cnt, fds2)" "0 \<le> cnt"
    "data2 = encode cls ?G" "n2 = Some (word_of_int cnt)"
    using r2 by (auto simp: bind_eq_Some_conv split: if_splits)
  have l1: "laid_out cls (h_world h1) grp n poff pfds ps coff cfds cs" using laid_out_kept k l by blast
  obtain fd rest where f: "map_of (w_fds (h_world h1)) fd = Some n" "fds2 = fd # events pfds @ events cfds @ rest"
    "cnt = int (Suc (length (events pfds) + length (events cfds)))" "length fds2 = length ?fds"
    using collect_fds_eq [OF l1 c(1,2)] by blast
  have len: "length fds2 = 253" using f(4) scm by simp
  have cnt: "unat (word_of_int cnt :: u32) = nat cnt"
    using len f(2,3) by (simp add: unsigned_of_nat take_bit_nat_eq_self flip: of_nat_Suc of_nat_add)
  have "\<not> (word_of_int cnt :: u32) < 1"
    unfolding word_less_nat_alt cnt using f(3) by simp
  then have "req = ?m\<lparr>um_data := data2, um_fds := fds2, um_n_fds := word_of_int cnt\<rparr>" "h' = h1"
    using res r2 by (simp_all add: c(4) ri_uxmsg_set_num_fds_def)
  moreover have "length (encode cls ?G) = unat sz" by (simp add: length_encode sz(2))
  moreover have "map_of (w_fds (h_world h)) fd = Some n" using f(1) k by simp
  moreover have "take (nat cnt) fds2 = fd # events pfds @ events cfds"
  proof -
    have n: "nat cnt = length (fd # events pfds @ events cfds)" using f(3) by simp
    have f2: "fds2 = (fd # events pfds @ events cfds) @ rest" using f(2) by simp
    have take: "take (length xs) (xs @ ys) = xs" for xs ys :: "int list" by simp
    show ?thesis unfolding n f2 by (rule take)
  qed
  moreover have "nat cnt \<le> length fds2" using f(2,3) by simp
  ultimately show ?thesis using k c(3) cnt by auto
qed

text \<open>
  The group a client gets, and the one message it sends: its file numbers are that of the memory, those of the eventfds of
  the producers, those of the consumers.
\<close>

definition file_numbers :: "world \<Rightarrow> int list \<Rightarrow> nat list" where
  "file_numbers w fds = map (\<lambda>fd. the (map_of (w_fds w) fd)) fds"

lemma client_connected:
  assumes c: "ri_client_socket_connect cls raw g h = Some (Some grp, h')" and g: "portable (ri_group_get_attr grp)"
  shows "\<exists>n pattrs pfds ps cfds cs. own_producers (gr_data grp) = Some pattrs \<and>
    laid_out cls (h_world h') grp n 0 pfds ps (shm_sizes cls pattrs) cfds cs \<and>
    h_sent h' = h_sent h @ [\<lparr>mg_data = encode cls (ri_group_get_attr grp),
      mg_files = n # file_numbers (h_world h') (events pfds @ events cfds)\<rparr>] \<and>
    length (events pfds @ events cfds) < 253"
proof -
  from c obtain grp' h1 where on: "on_world (ri_group_from_attr cls raw g) h = Some (Some grp', h1)" and
    k: "(do {
          (req, h) \<leftarrow> uxmsg_from_group cls raw grp' h1;
          (case req of
             None \<Rightarrow> do { h \<leftarrow> delete_group grp' h; Some (None, h) }
           | Some req \<Rightarrow> do {
               (r, h) \<leftarrow> exchange req h;
               h \<leftarrow> ri_uxmsg_delete req h;
               if r < 0 then do { h \<leftarrow> delete_group grp' h; Some (None, h) } else Some (Some grp', h)
             })
        }) = Some (Some grp, h')"
    by (auto simp: ri_client_socket_connect_def bind_eq_Some_conv split: option.splits)
  from k obtain req h2 r h3 where u: "uxmsg_from_group cls raw grp' h1 = Some (Some req, h2)" and
    e: "exchange req h2 = Some (r, h3)" "0 \<le> r" and d: "ri_uxmsg_delete req h3 = Some h'" and grp: "grp' = grp"
    by (auto simp: bind_eq_Some_conv split: option.splits if_splits)
  from on obtain w1 where w1: "ri_group_from_attr cls raw g (h_world h) = Some (Some grp, w1)" "h1 = h\<lparr>h_world := w1\<rparr>"
    using grp by (auto simp: on_world_def)
  from from_attr_built [OF w1(1)] obtain data sz v where "build_group cls data sz v = Some (Some grp, w1)" by auto
  from build_group_laid_out [OF this] obtain n pattrs pfds ps cfds cs where
    own: "own_producers (gr_data grp) = Some pattrs" and
    l: "laid_out cls (h_world h1) grp n 0 pfds ps (shm_sizes cls pattrs) cfds cs" using w1(2) by auto
  note U = uxmsg_from_group_eq [OF u [unfolded grp] l g]
  then obtain fd where fd: "map_of (w_fds (h_world h1)) fd = Some n"
    "take (unat (um_n_fds req)) (um_fds req) = fd # events pfds @ events cfds" by blast
  note X = exchange_eq [OF e U [THEN conjunct2, THEN conjunct2, THEN conjunct2, THEN conjunct1]]
  have h': "h' = h3" using d U by (simp add: ri_uxmsg_delete_def)
  have k12: "keeps (h_world h1) (h_world h2)" and k23: "keeps (h_world h2) (h_world h')" using U X h' by auto
  have l': "laid_out cls (h_world h') grp n 0 pfds ps (shm_sizes cls pattrs) cfds cs"
    by (rule laid_out_kept [OF keeps_trans [OF k12 k23] l])
  have open_in: "map_of (w_fds (h_world h1)) x \<noteq> None" if "x \<in> set (events pfds @ events cfds)" for x
  proof -
    from l obtain i base pattrs cattrs where "placed (producer_at cls i base (h_world h1)) cls pattrs 0 pfds ps"
      "placed (consumer_at cls i base (h_world h1)) cls cattrs (shm_sizes cls pattrs) cfds cs"
      using own unfolding laid_out_def by auto
    then show ?thesis
      using that assign_filter [of "producer_at cls i base (h_world h1)" cls pattrs 0 pfds ps "h_world h1"]
        assign_filter [of "consumer_at cls i base (h_world h1)" cls cattrs "shm_sizes cls pattrs" cfds cs "h_world h1"]
      by (auto simp: producer_at_def consumer_at_def)
  qed
  have same: "the (map_of (w_fds (h_world h2)) x) = the (map_of (w_fds (h_world h')) x)"
    if "map_of (w_fds (h_world h1)) x \<noteq> None" for x
  proof -
    from that obtain m where "map_of (w_fds (h_world h1)) x = Some m" by auto
    then show ?thesis using fds_kept [OF k12] fds_kept [OF keeps_trans [OF k12 k23]] by fastforce
  qed
  have "map (\<lambda>x. the (map_of (w_fds (h_world h2)) x)) (fd # events pfds @ events cfds) =
      n # file_numbers (h_world h') (events pfds @ events cfds)"
    using fds_kept [OF k12 fd(1)] same open_in by (simp add: file_numbers_def)
  moreover have "h_sent h1 = h_sent h" using w1(2) by simp
  ultimately have "h_sent h' = h_sent h @ [\<lparr>mg_data = encode cls (ri_group_get_attr grp),
      mg_files = n # file_numbers (h_world h') (events pfds @ events cfds)\<rparr>]"
    using U X fd(2) h' by simp
  moreover have "length (events pfds @ events cfds) < 253" using X fd(2) by simp
  ultimately show ?thesis using own l' by blast
qed

lemma client_ends:
  assumes c: "ri_client_socket_connect cls raw g h = Some (Some grp, h')"
    and g: "portable g" "gapless (all_infos g)" "small_infos (all_infos g)"
  shows "\<exists>n pattrs pfds ps cattrs cfds cs. own_producers (gr_data grp) = Some pattrs \<and> own_consumers (gr_data grp) = Some cattrs \<and>
    map channel_content pattrs = map channel_content (table_of (g_producers (ri_group_get_attr grp))) \<and>
    map channel_content cattrs = map channel_content (table_of (g_consumers (ri_group_get_attr grp))) \<and>
    portable (ri_group_get_attr grp) \<and> group_content (ri_group_get_attr grp) = group_content g \<and>
    laid_out cls (h_world h') grp n 0 pfds ps (shm_sizes cls pattrs) cfds cs \<and>
    h_sent h' = h_sent h @ [\<lparr>mg_data = encode cls (ri_group_get_attr grp),
      mg_files = n # file_numbers (h_world h') (events pfds @ events cfds)\<rparr>] \<and>
    length (events pfds @ events cfds) < 253"
proof -
  from c obtain w1 where "ri_group_from_attr cls raw g (h_world h) = Some (Some grp, w1)"
    by (auto simp: ri_client_socket_connect_def on_world_def bind_eq_Some_conv split: option.splits if_splits)
  note a = created_attributes [OF this _ g(2,3)]
  have wf: "wf_group_attr g" using g(1) by (simp add: portable_def)
  have A: "group_content (ri_group_get_attr grp) = group_content g" "wf_group_attr (ri_group_get_attr grp)"
    "gd_n_consumers (gr_data grp) = of_nat (length (table_of (g_consumers g)))"
    "gd_n_producers (gr_data grp) = of_nat (length (table_of (g_producers g)))" using a [OF wf] by blast+
  have p: "portable (ri_group_get_attr grp)" by (rule portable_content [OF g(1) A(2,1)])
  have t: "map channel_content (table_of (g_consumers (ri_group_get_attr grp))) = map channel_content (table_of (g_consumers g))"
    "map channel_content (table_of (g_producers (ri_group_get_attr grp))) = map channel_content (table_of (g_producers g))"
    using A(1) by (simp_all add: group_content_def)
  have "\<exists>pattrs cattrs. own_producers (gr_data grp) = Some pattrs \<and> map channel_content pattrs = map channel_content (table_of (g_producers g)) \<and>
      own_consumers (gr_data grp) = Some cattrs \<and> map channel_content cattrs = map channel_content (table_of (g_consumers g))"
    by (rule own_tables [OF _ A(3,4)]) (use A(1,2) table_short [OF wf] in \<open>simp_all add: ri_group_get_attr_def group_content_def\<close>)
  then obtain pattrs cattrs where o: "own_producers (gr_data grp) = Some pattrs" "own_consumers (gr_data grp) = Some cattrs"
    "map channel_content pattrs = map channel_content (table_of (g_producers g))"
    "map channel_content cattrs = map channel_content (table_of (g_consumers g))" by blast
  from client_connected [OF c p] o(1) obtain n pfds ps cfds cs where
    "laid_out cls (h_world h') grp n 0 pfds ps (shm_sizes cls pattrs) cfds cs"
    "h_sent h' = h_sent h @ [\<lparr>mg_data = encode cls (ri_group_get_attr grp),
      mg_files = n # file_numbers (h_world h') (events pfds @ events cfds)\<rparr>]"
    "length (events pfds @ events cfds) < 253" by auto
  then show ?thesis using o p A(1) t by metis
qed

section \<open>The server\<close>

lemma close_all_taken: "\<forall>fd\<in>set fds. \<not> 0 < fd \<Longrightarrow> close_all fds h = h"
  by (induction fds) simp_all

lemma response_keeps: "server_send_response r h = Some (res, h') \<Longrightarrow> keeps (h_world h) (h_world h')"
  by (auto simp: server_send_response_def ri_uxsocket_send_def sendmsg_def Let_def split: prod.splits if_splits dest!: ask_host_keeps)

lemma deserialize_maps:
  assumes d: "ri_group_deserialize cls raw data sz fds (Some n_fds) w = Some ((Some grp, fds'), v)"
    and data: "data = encode cls G" "sz = of_nat (request_len G)" and G: "portable G" "unat cls < 2 ^ 16"
  shows "\<exists>grp0 u. ri_group_map cls grp0 fds n_fds u = Some ((grp, True, fds'), v) \<and> w_fds u = w_fds w \<and>
    array_holds (gr_consumers grp0) (gd_n_consumers (gr_data grp0)) [] \<and>
    array_holds (gr_producers grp0) (gd_n_producers (gr_data grp0)) [] \<and>
    group_content (ri_group_get_attr grp0) = (info_bytes (g_info G),
      map channel_content (table_of (g_producers G)), map channel_content (table_of (g_consumers G))) \<and>
    (\<exists>pattrs cattrs. own_producers (gr_data grp0) = Some pattrs \<and>
      map channel_content pattrs = map channel_content (table_of (g_consumers G)) \<and>
      own_consumers (gr_data grp0) = Some cattrs \<and>
      map channel_content cattrs = map channel_content (table_of (g_producers G)))"
proof -
  obtain ok u1 where a: "ask w = (ok, u1)" by (cases "ask w")
  obtain al u2 where t: "take_allocs raw u1 = (al, u2)" by (cases "take_allocs raw u1")
  have n: "\<not> n_fds < 1" using d by (rule contrapos_pn) (simp add: ri_group_deserialize_def)
  have ok: ok
  proof (rule ccontr)
    assume "\<not> ok"
    then show False using d n a by (simp add: ri_group_deserialize_def)
  qed
  obtain dat where p: "ri_request_parse cls al data sz = Returns dat"
    using d n a t ok by (cases "ri_request_parse cls al data sz") (simp_all add: ri_group_deserialize_def split: if_splits)
  obtain res u3 where al: "ri_group_alloc_channels dat u2 = (res, u3)" by (cases "ri_group_alloc_channels dat u2")
  have "res \<noteq> None"
  proof
    assume "res = None"
    then show False using d n a t ok p al by (simp add: ri_group_deserialize_def)
  qed
  then obtain consumers producers where r: "res = Some (consumers, producers)" by auto
  note F = alloc_channels_frame [OF al]
  let ?grp = "\<lparr>gr_data = dat, gr_shm = None, gr_consumers = consumers, gr_producers = producers\<rparr>"
  have m: "ri_group_map cls ?grp fds n_fds u3 = Some ((grp, True, fds'), v)"
    using d n a t ok p al r by (auto simp: ri_group_deserialize_def bind_eq_Some_conv split: if_splits)
  have wfds: "w_fds u3 = w_fds w"
    using ask_frame [OF a] take_allocs_frame [OF t] al
    by (auto simp: ri_group_alloc_channels_def ask_def Let_def split: if_splits)
  have P: "group_content (ri_group_data_attr dat) = (info_bytes (g_info G),
      map channel_content (table_of (g_producers G)), map channel_content (table_of (g_consumers G)))"
    "gd_n_consumers dat = of_nat (length (table_of (g_producers G)))" "gd_n_producers dat = of_nat (length (table_of (g_consumers G)))"
    using parse_encoded [OF G, of "full_allocs al"] parse_full [OF p] data by auto
  have wf: "wf_group_attr G" using G by (simp add: portable_def)
  have "\<exists>pattrs cattrs. own_producers dat = Some pattrs \<and> map channel_content pattrs = map channel_content (table_of (g_consumers G)) \<and>
      own_consumers dat = Some cattrs \<and> map channel_content cattrs = map channel_content (table_of (g_producers G))"
    by (rule own_tables [OF P(1-3)]) (use table_short [OF wf] in simp_all)
  then show ?thesis using m wfds F r P(1) by (intro exI [of _ ?grp] exI [of _ u3]) (simp add: ri_group_get_attr_def)
qed

lemma server_ends:
  assumes s: "ri_server_socket_accept cls raw filter_fn h = Some (Some grp, h')"
    and i: "h_in h = m # rest" and m: "mg_data m = encode cls G" and G: "portable G" "unat cls < 2 ^ 16"
    and files: "mg_files m = n # ns" "length ns < 253"
    and ns: "length ns = n_events (table_of (g_producers G)) + n_events (table_of (g_consumers G))"
  shows "group_content (ri_group_get_attr grp) = (info_bytes (g_info G),
      map channel_content (table_of (g_producers G)), map channel_content (table_of (g_consumers G))) \<and>
    (\<exists>pattrs cattrs fds ps cs. own_producers (gr_data grp) = Some pattrs \<and> own_consumers (gr_data grp) = Some cattrs \<and>
    map channel_content pattrs = map channel_content (table_of (g_consumers G)) \<and>
    map channel_content cattrs = map channel_content (table_of (g_producers G)) \<and>
    list_all2 (\<lambda>fd k. map_of (w_fds (h_world h')) fd = Some k) fds ns \<and>
    laid_out cls (h_world h') grp n (shm_sizes cls cattrs) (assign pattrs (drop (n_events cattrs) fds)) ps 0 (assign cattrs fds) cs)"
proof -
  from s obtain msg h1 req h2 x h3 where rec: "ri_uxmsg_receive raw h = Some (Some msg, h1)" and
    conv: "request_to_group cls raw msg h1 = Some ((Some grp, req), h2)" and
    resp: "server_send_response 0 h2 = Some (x, h3)" and del: "ri_uxmsg_delete req h3 = Some h'"
    by (auto simp: ri_server_socket_accept_def bind_eq_Some_conv split: option.split_asm if_split_asm)
  have lm: "length (mg_data m) = request_len G" "request_len G < 2 ^ 31"
    using m G by (simp_all add: length_encode portable_def)
  have R: "um_data msg = mg_data m" "um_size msg = of_nat (length (mg_data m))" "um_dir msg = RI_UXMSG_RX"
    "unat (um_n_fds msg) = Suc (length ns)" "Suc (length ns) \<le> length (um_fds msg)"
    "list_all2 (\<lambda>fd n. map_of (w_fds (h_world h1)) fd = Some n) (take (Suc (length ns)) (um_fds msg)) (n # ns)"
    using receive_eq [OF rec i] lm files by simp_all
  obtain fds' w2 where des: "ri_group_deserialize cls raw (um_data msg) (um_size msg) (um_fds msg) (Some (um_n_fds msg)) (h_world h1) =
      Some ((Some grp, fds'), w2)" and h2: "h2 = h1\<lparr>h_world := w2\<rparr>" "req = msg\<lparr>um_fds := fds'\<rparr>"
    using conv R(3) by (auto simp: request_to_group_def ri_uxmsg_data_def ri_uxmsg_fds_def on_world_def bind_eq_Some_conv)
  from deserialize_maps [OF des _ _ G] R(1,2) m lm obtain grp0 u pattrs cattrs where
    map: "ri_group_map cls grp0 (um_fds msg) (um_n_fds msg) u = Some ((grp, True, fds'), w2)" and wu: "w_fds u = w_fds (h_world h1)" and
    arr: "array_holds (gr_consumers grp0) (gd_n_consumers (gr_data grp0)) []" "array_holds (gr_producers grp0) (gd_n_producers (gr_data grp0)) []" and
    own: "own_producers (gr_data grp0) = Some pattrs" "map channel_content pattrs = map channel_content (table_of (g_consumers G))"
      "own_consumers (gr_data grp0) = Some cattrs" "map channel_content cattrs = map channel_content (table_of (g_producers G))" and
    content: "group_content (ri_group_get_attr grp0) = (info_bytes (g_info G),
      map channel_content (table_of (g_producers G)), map channel_content (table_of (g_consumers G)))"
    by auto
  obtain fd0 frest where f: "um_fds msg = fd0 # frest" using R(5) by (cases "um_fds msg") simp_all
  let ?fds = "take (length ns) frest"
  have r0: "map_of (w_fds u) fd0 = Some n" "list_all2 (\<lambda>fd n. map_of (w_fds u) fd = Some n) ?fds ns"
    using R(6) f wu by simp_all
  have open_fds: "\<forall>fd\<in>set (take (unat (um_n_fds msg)) (um_fds msg)). map_of (w_fds u) fd \<noteq> None"
    using R(6) unfolding R(4) wu by (auto simp: list_all2_conv_all_nth in_set_conv_nth)
  from group_map_laid_out [OF map open_fds arr] obtain n' cattrs' ps cs where M: "own_consumers (gr_data grp) = Some cattrs'"
    "gr_data grp = gr_data grp0" "map_of (w_fds u) (hd (um_fds msg)) = Some n'" "keeps u w2" and
    l: "laid_out cls w2 grp n' (shm_sizes cls cattrs') (assign (the (own_producers (gr_data grp))) (drop (Suc (n_events cattrs')) (um_fds msg))) ps
      0 (assign cattrs' (tl (um_fds msg))) cs" and
    taken: "\<forall>k\<le>Suc (n_events cattrs' + n_events (the (own_producers (gr_data grp)))). take k fds' = replicate k (-1)"
    by blast
  have eq: "n' = n" "cattrs' = cattrs" "the (own_producers (gr_data grp)) = pattrs" using M(1-3) own f r0(1) by simp_all
  have E: "n_events cattrs + n_events pattrs = length ns"
    using ns same_contents(1) [OF own(2)] same_contents(1) [OF own(4)] by simp
  have fr: "frest = ?fds @ drop (length ns) frest" "length ?fds = length ns" using R(5) f by simp_all
  have c: "assign cattrs frest = assign cattrs ?fds"
    using assign_append [of cattrs ?fds "drop (length ns) frest"] E fr by simp
  have "drop (n_events cattrs) frest = drop (n_events cattrs) ?fds @ drop (length ns) frest"
    using E fr by (metis drop_append diff_is_0_eq drop0 le_add1)
  then have p: "assign pattrs (drop (n_events cattrs) frest) = assign pattrs (drop (n_events cattrs) ?fds)"
    using assign_append [of pattrs "drop (n_events cattrs) ?fds" "drop (length ns) frest"] E fr(2) by simp
  have "take (Suc (length ns)) fds' = replicate (Suc (length ns)) (-1)" using taken unfolding eq E by simp
  then have "h' = h3" using del h2(2) R(3,4) close_all_taken [of "replicate (Suc (length ns)) (-1)" h3]
    by (simp add: ri_uxmsg_delete_def split: if_splits)
  then have k: "keeps w2 (h_world h')" using response_keeps [OF resp] h2(1) by simp
  have "laid_out cls w2 grp n (shm_sizes cls cattrs) (assign pattrs (drop (n_events cattrs) ?fds)) ps 0 (assign cattrs ?fds) cs"
    using l unfolding eq f by (simp add: c p)
  note l' = laid_out_kept [OF k this]
  have "list_all2 (\<lambda>fd k. map_of (w_fds (h_world h')) fd = Some k) ?fds ns"
    using r0(2) by (rule list_all2_mono) (rule fds_kept [OF keeps_trans [OF M(4) k]])
  moreover have "ri_group_get_attr grp = ri_group_get_attr grp0" by (simp add: ri_group_get_attr_def M(2))
  ultimately show ?thesis using own M(1,2) eq l' content by metis
qed

end
