(* ===== verification/Handshake.thy ===== *)
theory Handshake
  imports Exchange
begin

text \<open>
  Client and server together: what \<open>ri_client_socket_connect\<close> sends is what \<open>ri_server_socket_accept\<close> reads, and the two
  processes end up with the two ends of the same channels.
\<close>

section \<open>Two ends of one channel\<close>

text \<open>A queue as seen from the start of the memory.\<close>

definition relative :: "u64 \<Rightarrow> ri_queue \<Rightarrow> ri_queue" where
  "relative base queue = queue\<lparr>q_msgs := q_msgs queue - base, q_tail := q_tail queue - base,
     q_head := q_head queue - base, q_chain := q_chain queue - base\<rparr>"

definition same_event :: "world \<Rightarrow> world \<Rightarrow> int \<Rightarrow> int \<Rightarrow> bool" where
  "same_event w v fd fd' \<longleftrightarrow> same_file w v fd fd' \<or> fd = -1 \<and> fd' = -1"

text \<open>
  Producer \<open>p\<close> of one process and consumer \<open>c\<close> of another: the same queue at the same place of the same memory file,
  and the same eventfd or none.
\<close>

definition one_channel :: "world \<Rightarrow> nat \<Rightarrow> world \<Rightarrow> nat \<Rightarrow> bool" where
  "one_channel w p v c \<longleftrightarrow>
     (case (live (w_producers w) p, live (w_consumers v) c) of
        (Some x, Some y) \<Rightarrow>
          (case (live (w_shms w) (pr_shm x), live (w_shms v) (cn_shm y)) of
             (Some s, Some t) \<Rightarrow> s_file s = s_file t \<and>
               relative (s_mem s) (p_queue (pr_queue x)) = relative (s_mem t) (c_queue (cn_queue y))
           | _ \<Rightarrow> False) \<and>
          pr_shm_offset x = cn_shm_offset y \<and> same_event w v (pr_eventfd x) (cn_eventfd y)
      | _ \<Rightarrow> False)"

lemma relative_init: "relative base (ri_queue_init cls attr (mem_offset base off)) = relative 0 (ri_queue_init cls attr off)"
  by (simp add: relative_def ri_queue_init_def mem_offset_def index_addr_def)

lemma one_channel_placed:
  assumes "producer_at cls i base w a off fd p" and "consumer_at cls j base' v b off fd' c"
    and "channel_content a = channel_content b" and "same_event w v fd fd'"
    and "memory_at w i base n" and "memory_at v j base' n"
  shows "one_channel w p v c"
  using assms same_content(3) [OF assms(3)]
  by (auto simp: producer_at_def consumer_at_def memory_at_def one_channel_def relative_init)

lemma channels_meet:
  assumes "memory_at w i base n" and "memory_at v j base' n"
    and "placed (producer_at cls i base w) cls as off fds ps" and "placed (consumer_at cls j base' v) cls bs off fds' cs"
    and "map channel_content as = map channel_content bs" and "list_all2 (same_event w v) fds fds'"
  shows "list_all2 (\<lambda>p c. one_channel w p v c) ps cs"
  using map_eq_imp_length_eq [OF assms(5)] assms(3-)
proof (induction as bs arbitrary: off fds ps fds' cs rule: list_induct2)
  case Nil
  then show ?case by (cases fds; cases ps; cases fds'; cases cs) simp_all
next
  case (Cons a as b bs)
  from Cons.prems obtain fd fds1 p ps1 fd' fds1' c cs1 where l: "fds = fd # fds1" "ps = p # ps1" "fds' = fd' # fds1'" "cs = c # cs1"
    by (cases fds; cases ps; cases fds'; cases cs) simp_all
  have cc: "channel_content a = channel_content b" using Cons.prems(3) by simp
  have "one_channel w p v c"
    by (rule one_channel_placed [OF _ _ cc _ assms(1,2)]) (use Cons.prems l in auto)
  moreover have "list_all2 (\<lambda>p c. one_channel w p v c) ps1 cs1"
    by (rule Cons.IH) (use Cons.prems l same_content(2) [OF cc] in auto)
  ultimately show ?case by (simp add: l)
qed

text \<open>The ends of a group, in the order of its tables.\<close>

definition producers_of :: "ri_group \<Rightarrow> nat option list option" where
  "producers_of grp = array_of (gr_producers grp) (gd_n_producers (gr_data grp))"

definition consumers_of :: "ri_group \<Rightarrow> nat option list option" where
  "consumers_of grp = array_of (gr_consumers grp) (gd_n_consumers (gr_data grp))"

lemma laid_out_arrays:
  assumes "laid_out cls w grp n poff pfds ps coff cfds cs"
  shows "producers_of grp = Some (map Some ps)" and "consumers_of grp = Some (map Some cs)"
proof -
  from assms obtain i base pattrs cattrs where l: "array_holds (gr_producers grp) (gd_n_producers (gr_data grp)) ps"
    "array_holds (gr_consumers grp) (gd_n_consumers (gr_data grp)) cs"
    "own_producers (gr_data grp) = Some pattrs" "own_consumers (gr_data grp) = Some cattrs"
    "placed (producer_at cls i base w) cls pattrs poff pfds ps" "placed (consumer_at cls i base w) cls cattrs coff cfds cs"
    unfolding laid_out_def by blast
  show "producers_of grp = Some (map Some ps)" unfolding producers_of_def
    by (rule array_of_full [OF l(1)]) (use placed_length [OF l(5)] own_length(1) [OF l(3)] in simp)
  show "consumers_of grp = Some (map Some cs)" unfolding consumers_of_def
    by (rule array_of_full [OF l(2)]) (use placed_length [OF l(6)] own_length(2) [OF l(4)] in simp)
qed

lemma laid_outE:
  assumes "laid_out cls w grp n poff pfds ps coff cfds cs" and "own_producers (gr_data grp) = Some pattrs"
    and "own_consumers (gr_data grp) = Some cattrs"
  obtains i base where "memory_at w i base n" and "placed (producer_at cls i base w) cls pattrs poff pfds ps"
    and "placed (consumer_at cls i base w) cls cattrs coff cfds cs"
  using assms unfolding laid_out_def by auto

lemma received_files:
  assumes "list_all2 (\<lambda>fd k. map_of (w_fds v) fd = Some k) fds' (file_numbers w fds)"
    and "\<forall>fd\<in>set fds. map_of (w_fds w) fd \<noteq> None"
  shows "list_all2 (same_file w v) fds fds'"
  using assms by (auto simp: list_all2_conv_all_nth file_numbers_def same_file_def)

lemma same_event_sym: "same_event w v fd fd' \<Longrightarrow> same_event v w fd' fd"
  unfolding same_event_def same_file_def by metis

lemma meet_all:
  assumes c: "laid_out cls w grp n 0 pfds ps (shm_sizes cls pattrs) cfds cs"
      "own_producers (gr_data grp) = Some pattrs" "own_consumers (gr_data grp) = Some cattrs"
    and s: "laid_out cls v grp' n (shm_sizes cls cattrs') (assign pattrs' (drop (n_events cattrs') fds)) ps' 0 (assign cattrs' fds) cs'"
      "own_producers (gr_data grp') = Some pattrs'" "own_consumers (gr_data grp') = Some cattrs'"
    and same: "map channel_content pattrs = map channel_content cattrs'" "map channel_content cattrs = map channel_content pattrs'"
    and fds: "list_all2 (\<lambda>fd k. map_of (w_fds v) fd = Some k) fds (file_numbers w (events pfds @ events cfds))"
  shows "list_all2 (\<lambda>p c. one_channel w p v c) ps cs' \<and> list_all2 (\<lambda>p c. one_channel v p w c) ps' cs"
proof -
  obtain i base where C: "memory_at w i base n" "placed (producer_at cls i base w) cls pattrs 0 pfds ps"
    "placed (consumer_at cls i base w) cls cattrs (shm_sizes cls pattrs) cfds cs" by (rule laid_outE [OF c])
  obtain j base' where S: "memory_at v j base' n"
    "placed (producer_at cls j base' v) cls pattrs' (shm_sizes cls cattrs') (assign pattrs' (drop (n_events cattrs') fds)) ps'"
    "placed (consumer_at cls j base' v) cls cattrs' 0 (assign cattrs' fds) cs'" by (rule laid_outE [OF s])
  have P: "pfds = assign pattrs (events pfds) \<and> length (events pfds) = n_events pattrs \<and>
      (\<forall>fd\<in>set (events pfds). map_of (w_fds w) fd \<noteq> None)"
    by (rule assign_filter [OF C(2)]) (simp add: producer_at_def)
  have Q: "cfds = assign cattrs (events cfds) \<and> length (events cfds) = n_events cattrs \<and>
      (\<forall>fd\<in>set (events cfds). map_of (w_fds w) fd \<noteq> None)"
    by (rule assign_filter [OF C(3)]) (simp add: consumer_at_def)
  have "\<forall>fd\<in>set (events pfds @ events cfds). map_of (w_fds w) fd \<noteq> None" using P Q by auto
  from received_files [OF fds this] obtain A B where AB: "fds = A @ B" "list_all2 (same_file w v) (events pfds) A"
    "list_all2 (same_file w v) (events cfds) B" by (auto simp: list_all2_append1)
  have n: "n_events cattrs' = length A" using same_contents(1) [OF same(1)] P AB(2) by (auto dest: list_all2_lengthD)
  have a: "assign cattrs' fds = assign pattrs A" "assign pattrs' (drop (n_events cattrs') fds) = assign cattrs B"
    using assign_append [of cattrs' A B] same_contents(4) [OF same(1)] same_contents(4) [OF same(2)] n AB(1) by simp_all
  have 1: "list_all2 (same_event w v) pfds (assign cattrs' fds)"
    using assign_same [OF AB(2), of pattrs] P a(1) by (simp add: same_event_def [abs_def])
  have 2: "list_all2 (same_event w v) cfds (assign pattrs' (drop (n_events cattrs') fds))"
    using assign_same [OF AB(3), of cattrs] Q a(2) by (simp add: same_event_def [abs_def])
  then have 2: "list_all2 (same_event v w) (assign pattrs' (drop (n_events cattrs') fds)) cfds"
    by (auto simp: list_all2_conv_all_nth intro: same_event_sym)
  have "list_all2 (\<lambda>p c. one_channel w p v c) ps cs'"
    by (rule channels_meet [OF C(1) S(1) C(2) S(3) same(1) 1])
  moreover have "list_all2 (\<lambda>p c. one_channel v p w c) ps' cs"
    by (rule channels_meet [OF S(1) C(1) S(2) _ same(2) [symmetric] 2]) (use C(3) same_contents(2) [OF same(1)] in simp)
  ultimately show ?thesis by blast
qed

text \<open>
  C9. When a client has connected and the server has accepted the message it sent, the two processes hold the two ends of the
  same channels: the server's consumers are, in order, at the other end of the client's producers and the client's
  consumers at the other end of the server's producers, in the same memory file, at the same place, with the same layout and
  the same eventfds; and the server sees the attributes the client asked for, with the roles exchanged.
\<close>

theorem handshake_agrees:
  assumes "portable g" and "gapless (all_infos g)" and "small_infos (all_infos g)" and "unat cls < 2 ^ 16"
    and "ri_client_socket_connect cls raw g h = Some (Some grp, h')"
    and "h_in k = last (h_sent h') # rest"
    and "ri_server_socket_accept cls raw' filter_fn k = Some (Some grp', k')"
  shows "\<exists>ps cs ps' cs'. producers_of grp = Some (map Some ps) \<and> consumers_of grp = Some (map Some cs) \<and>
      producers_of grp' = Some (map Some ps') \<and> consumers_of grp' = Some (map Some cs') \<and>
      list_all2 (\<lambda>p c. one_channel (h_world h') p (h_world k') c) ps cs' \<and>
      list_all2 (\<lambda>p c. one_channel (h_world k') p (h_world h') c) ps' cs \<and>
      (case group_content g of (info, consumers, producers) \<Rightarrow>
        group_content (ri_group_get_attr grp') = (info, producers, consumers))"
proof -
  from client_ends [OF assms(5,1-3)] obtain n pattrs pfds ps cattrs cfds cs where
    C: "own_producers (gr_data grp) = Some pattrs" "own_consumers (gr_data grp) = Some cattrs"
      "map channel_content pattrs = map channel_content (table_of (g_producers (ri_group_get_attr grp)))"
      "map channel_content cattrs = map channel_content (table_of (g_consumers (ri_group_get_attr grp)))" and
    G: "portable (ri_group_get_attr grp)" "group_content (ri_group_get_attr grp) = group_content g" and
    l: "laid_out cls (h_world h') grp n 0 pfds ps (shm_sizes cls pattrs) cfds cs" and
    sent: "h_sent h' = h_sent h @ [\<lparr>mg_data = encode cls (ri_group_get_attr grp),
      mg_files = n # file_numbers (h_world h') (events pfds @ events cfds)\<rparr>]" and
    few: "length (events pfds @ events cfds) < 253" by metis
  let ?m = "\<lparr>mg_data = encode cls (ri_group_get_attr grp), mg_files = n # file_numbers (h_world h') (events pfds @ events cfds)\<rparr>"
  have i: "h_in k = ?m # rest" using assms(6) sent by simp
  obtain i base where "placed (producer_at cls i base (h_world h')) cls pattrs 0 pfds ps"
    "placed (consumer_at cls i base (h_world h')) cls cattrs (shm_sizes cls pattrs) cfds cs" by (rule laid_outE [OF l C(1,2)])
  then have "length (events pfds) = n_events pattrs \<and> length (events cfds) = n_events cattrs"
    using assign_filter [of "producer_at cls i base (h_world h')" cls pattrs 0 pfds ps "h_world h'"]
      assign_filter [of "consumer_at cls i base (h_world h')" cls cattrs "shm_sizes cls pattrs" cfds cs "h_world h'"]
    by (simp add: producer_at_def consumer_at_def)
  then have ns: "length (file_numbers (h_world h') (events pfds @ events cfds)) =
      n_events (table_of (g_producers (ri_group_get_attr grp))) + n_events (table_of (g_consumers (ri_group_get_attr grp)))"
    using same_contents(1) [OF C(3)] same_contents(1) [OF C(4)] by (simp add: file_numbers_def)
  have few: "length (file_numbers (h_world h') (events pfds @ events cfds)) < 253" using few by (simp add: file_numbers_def)
  have "mg_data ?m = encode cls (ri_group_get_attr grp)" "mg_files ?m = n # file_numbers (h_world h') (events pfds @ events cfds)"
    by simp_all
  from server_ends [OF assms(7) i this(1) G(1) assms(4) this(2) few ns] obtain pattrs' cattrs' fds ps' cs' where
    content: "group_content (ri_group_get_attr grp') = (info_bytes (g_info (ri_group_get_attr grp)),
      map channel_content (table_of (g_producers (ri_group_get_attr grp))), map channel_content (table_of (g_consumers (ri_group_get_attr grp))))" and
    S: "own_producers (gr_data grp') = Some pattrs'" "own_consumers (gr_data grp') = Some cattrs'"
      "map channel_content pattrs' = map channel_content (table_of (g_consumers (ri_group_get_attr grp)))"
      "map channel_content cattrs' = map channel_content (table_of (g_producers (ri_group_get_attr grp)))"
      "list_all2 (\<lambda>fd k. map_of (w_fds (h_world k')) fd = Some k) fds (file_numbers (h_world h') (events pfds @ events cfds))" and
    l': "laid_out cls (h_world k') grp' n (shm_sizes cls cattrs') (assign pattrs' (drop (n_events cattrs') fds)) ps' 0 (assign cattrs' fds) cs'"
    by metis
  have same: "map channel_content pattrs = map channel_content cattrs'" "map channel_content cattrs = map channel_content pattrs'"
    using C(3,4) S(3,4) by simp_all
  note meet_all [OF l C(1,2) l' S(1,2) same S(5)]
  moreover note laid_out_arrays [OF l] laid_out_arrays [OF l']
  moreover have "case group_content g of (info, consumers, producers) \<Rightarrow>
        group_content (ri_group_get_attr grp') = (info, producers, consumers)"
    unfolding G(2) [symmetric] content by (simp add: group_content_def)
  ultimately show ?thesis
    by (intro exI [of _ ps] exI [of _ cs] exI [of _ ps'] exI [of _ cs'] conjI; simp)
qed

text \<open>One producer with an eventfd and one consumer without; the response is the one the server sends.\<close>

definition two_channels :: ri_group_attr where
  "two_channels = \<lparr>g_consumers = Some [\<lparr>a_msg_size = 8, a_add_msgs = 1, a_eventfd = False, a_info = info_zero\<rparr>, channel_attr_zero],
     g_producers = Some [\<lparr>a_msg_size = 4, a_add_msgs = 0, a_eventfd = True, a_info = info_zero\<rparr>, channel_attr_zero],
     g_info = info_zero\<rparr>"

definition client_host :: host where
  "client_host = \<lparr>h_world = empty_world, h_in = [\<lparr>mg_data = [0, 0, 0, 0], mg_files = []\<rparr>], h_sent = [], h_paths = []\<rparr>"

text \<open>The server shares the files with the client, and nothing else.\<close>

definition server_host :: "host \<Rightarrow> host" where
  "server_host h = \<lparr>h_world = empty_world\<lparr>w_files := w_files (h_world h)\<rparr>, h_in = [last (h_sent h)], h_sent = [], h_paths = []\<rparr>"

lemma both_connect:
  "case ri_client_socket_connect 64 zeros two_channels client_host of Some (Some grp, h) \<Rightarrow>
     (case ri_server_socket_accept 64 zeros None (server_host h) of Some (Some grp', k) \<Rightarrow>
        producers_of grp = Some [Some 0] \<and> consumers_of grp = Some [Some 0] \<and>
        producers_of grp' = Some [Some 0] \<and> consumers_of grp' = Some [Some 0]
      | _ \<Rightarrow> False)
   | _ \<Rightarrow> False"
  by code_simp

lemma connected_case: "(case x of Some (Some a, b) \<Rightarrow> P a b | _ \<Rightarrow> False) \<longleftrightarrow> (\<exists>a b. x = Some (Some a, b) \<and> P a b)"
  by (auto split: option.splits)

lemma two_channels_ok: "portable two_channels" "gapless (all_infos two_channels)" "small_infos (all_infos two_channels)"
proof -
  note defs = two_channels_def channel_attr_zero_def info_zero_def table_of_def channels_of_def
  show "portable two_channels"
    by (simp add: portable_def defs wf_group_attr_def wf_info_def wf_table_def request_len_def table_bytes_def infos_bytes_def info_bytes_def)
  show "gapless (all_infos two_channels)" by code_simp
  show "small_infos (all_infos two_channels)" by (simp add: small_infos_def all_infos_def defs)
qed

theorem handshake_agrees_witness:
  "\<exists>grp h grp' k. ri_client_socket_connect 64 zeros two_channels client_host = Some (Some grp, h) \<and>
     ri_server_socket_accept 64 zeros None (server_host h) = Some (Some grp', k) \<and>
     one_channel (h_world h) 0 (h_world k) 0 \<and> one_channel (h_world k) 0 (h_world h) 0"
proof -
  obtain grp h grp' k where c: "ri_client_socket_connect 64 zeros two_channels client_host = Some (Some grp, h)" and
    s: "ri_server_socket_accept 64 zeros None (server_host h) = Some (Some grp', k)" and
    e: "producers_of grp = Some [Some 0]" "consumers_of grp = Some [Some 0]" "producers_of grp' = Some [Some 0]" "consumers_of grp' = Some [Some 0]"
    using both_connect unfolding connected_case by blast
  have i: "h_in (server_host h) = last (h_sent h) # []" by (simp add: server_host_def)
  have cls: "unat (64 :: u64) < 2 ^ 16" by simp
  have "one_channel (h_world h) 0 (h_world k) 0 \<and> one_channel (h_world k) 0 (h_world h) 0"
    using handshake_agrees [OF two_channels_ok cls c i s] unfolding e by auto
  then show ?thesis using c s by blast
qed

end
