(* ===== verification/Connect_Properties.thy ===== *)
theory Connect_Properties
  imports Handshake
begin

text \<open>
  Connections that fail, and responses that are not what the server would send: what the client, the server and the file
  system are left with.
\<close>

section \<open>Operations that leave the process as it was\<close>

definition quiet :: "host \<Rightarrow> host \<Rightarrow> bool" where
  "quiet h h' \<longleftrightarrow> (\<exists>n. h_world h' = (h_world h)\<lparr>w_calls := n\<rparr>) \<and> calm (h_world h) (h_world h')"

lemma quiet_trans: "quiet h h1 \<Longrightarrow> quiet h1 h2 \<Longrightarrow> quiet h h2"
  unfolding quiet_def using calm_trans by auto

lemma quiet_refl [simp]: "quiet h h"
  unfolding quiet_def by (intro conjI exI [of _ "w_calls (h_world h)"]) simp_all

lemma quietD: "quiet h h' \<Longrightarrow> w_shms (h_world h') = w_shms (h_world h)" "quiet h h' \<Longrightarrow> w_producers (h_world h') = w_producers (h_world h)"
    "quiet h h' \<Longrightarrow> w_consumers (h_world h') = w_consumers (h_world h)" "quiet h h' \<Longrightarrow> w_caches (h_world h') = w_caches (h_world h)"
    "quiet h h' \<Longrightarrow> w_fds (h_world h') = w_fds (h_world h)" "quiet h h' \<Longrightarrow> calm (h_world h) (h_world h')"
  by (auto simp: quiet_def)

lemma quiet_ask: "ask_host h = (ok, h') \<Longrightarrow> quiet h h'"
  by (auto simp: ask_host_def ask_def Let_def quiet_def calm_def)

lemma quiet_update [simp]: "quiet h (h'\<lparr>h_in := i\<rparr>) = quiet h h'" "quiet h (h'\<lparr>h_sent := s\<rparr>) = quiet h h'"
    "quiet h (h'\<lparr>h_paths := p\<rparr>) = quiet h h'" "quiet (h\<lparr>h_paths := p\<rparr>) h' = quiet h h'"
  by (simp_all add: quiet_def)

lemma quiet_new: "ri_uxmsg_new raw sz h = (m, h') \<Longrightarrow> quiet h h' \<and> (\<forall>msg. m = Some msg \<longrightarrow> um_dir msg = RI_UXMSG_TX)"
  by (auto simp: ri_uxmsg_new_def Let_def split: prod.splits if_splits dest!: quiet_ask intro: quiet_trans)

lemma quiet_sendmsg: "sendmsg data sz fds h = Some (r, h') \<Longrightarrow> quiet h h'"
  by (auto simp: sendmsg_def Let_def split: prod.splits if_splits dest!: quiet_ask)

lemma quiet_peek: "peek h = (r, h') \<Longrightarrow> quiet h h'"
  by (auto simp: peek_def Let_def split: prod.splits if_splits dest!: quiet_ask)

lemma quiet_recvmsg: "recvmsg sz 0 h = (r, h') \<Longrightarrow> quiet h h'"
  by (auto simp: recvmsg_def Let_def quiet_def calm_def ask_host_def ask_def split: prod.splits if_splits list.splits)

lemma quiet_receive: "ri_uxsocket_receive h = (res, h') \<Longrightarrow> quiet h h'"
proof -
  assume r: "ri_uxsocket_receive h = (res, h')"
  obtain n h1 where h1: "peek h = (n, h1)" by (cases "peek h")
  obtain ok h2 where h2: "ask_host h1 = (ok, h2)" by (cases "ask_host h1")
  obtain x h3 where h3: "recvmsg (word_of_int n) 0 h2 = (x, h3)" by (cases "recvmsg (word_of_int n) 0 h2")
  have "h' = h1 \<or> h' = h2 \<or> h' = h3" using r h1 h2 h3
    by (cases x) (auto simp: ri_uxsocket_receive_def Let_def split: if_splits)
  then show ?thesis using quiet_peek [OF h1] quiet_ask [OF h2] quiet_recvmsg [OF h3] quiet_trans by metis
qed

lemma quiet_exchange: "exchange req h = Some (r, h') \<Longrightarrow> quiet h h'"
proof -
  assume e: "exchange req h = Some (r, h')"
  then obtain r1 h1 where s: "ri_uxmsg_send req h = Some (r1, h1)" by (auto simp: exchange_def bind_eq_Some_conv)
  obtain res h2 where rec: "ri_uxsocket_receive h1 = (res, h2)" by (cases "ri_uxsocket_receive h1")
  have "h' = h1 \<or> h' = h2" using e s rec by (auto simp: exchange_def split: option.splits if_splits)
  moreover have "quiet h h1" using s by (auto simp: ri_uxmsg_send_def split: if_splits dest: quiet_sendmsg)
  ultimately show ?thesis using quiet_receive [OF rec] quiet_trans by blast
qed

lemma delete_sent: "um_dir msg = RI_UXMSG_TX \<Longrightarrow> ri_uxmsg_delete msg h = Some h"
  by (simp add: ri_uxmsg_delete_def)

lemma quiet_from_group:
  assumes "uxmsg_from_group cls raw grp h = Some (m, h')"
  shows "quiet h h' \<and> (\<forall>msg. m = Some msg \<longrightarrow> um_dir msg = RI_UXMSG_TX)"
proof -
  obtain sz where sz: "ri_group_serialize_size grp = Returns sz"
    using assms by (cases "ri_group_serialize_size grp") (simp_all add: uxmsg_from_group_def)
  obtain req h1 where n: "ri_uxmsg_new raw sz h = (req, h1)" by (cases "ri_uxmsg_new raw sz h")
  note N = quiet_new [OF n]
  show ?thesis
  proof (cases req)
    case None
    then show ?thesis using assms sz n N by (simp add: uxmsg_from_group_def)
  next
    case (Some msg)
    then have d: "um_dir msg = RI_UXMSG_TX" using N by simp
    have "h' = h1 \<and> (\<forall>msg. m = Some msg \<longrightarrow> um_dir msg = RI_UXMSG_TX)"
      using assms sz n Some d
      by (auto simp: uxmsg_from_group_def bind_eq_Some_conv ri_uxmsg_set_num_fds_def delete_sent Let_def
          split: if_splits prod.splits option.splits)
    then show ?thesis using N by simp
  qed
qed

text \<open>A new socket is one more descriptor.\<close>

lemma new_socket_resources:
  assumes "new_socket h = (fd, h')"
  shows "w_shms (h_world h') = w_shms (h_world h) \<and> w_producers (h_world h') = w_producers (h_world h) \<and>
    w_consumers (h_world h') = w_consumers (h_world h) \<and> w_caches (h_world h') = w_caches (h_world h) \<and>
    (if fd < 0 then w_fds (h_world h') = w_fds (h_world h)
     else map_of (w_fds (h_world h)) fd = None \<and>
       map_of (w_fds (h_world h')) = (map_of (w_fds (h_world h)))(fd \<mapsto> length (w_files (h_world h))))"
  using assms fresh_fd_fresh [of "w_fds (h_world h)"]
  by (auto simp: new_socket_def ask_host_def ask_def open_file_def Let_def split: if_splits)

lemma connect_path_resources:
  assumes "connect_path path h = (fd, h')"
  shows "if fd < 0 then same_objects (h_world h) (h_world h')
    else w_shms (h_world h') = w_shms (h_world h) \<and> w_producers (h_world h') = w_producers (h_world h) \<and>
      w_consumers (h_world h') = w_consumers (h_world h) \<and> w_caches (h_world h') = w_caches (h_world h) \<and>
      map_of (w_fds (h_world h)) fd = None \<and>
      map_of (w_fds (h_world h')) = (map_of (w_fds (h_world h)))(fd \<mapsto> length (w_files (h_world h)))"
proof -
  obtain sk h1 where s: "new_socket h = (sk, h1)" by (cases "new_socket h")
  obtain ok h2 where a: "ask_host h1 = (ok, h2)" by (cases "ask_host h1")
  note S = new_socket_resources [OF s] and Q = quietD [OF quiet_ask [OF a]]
  consider "sk < 0" | "0 \<le> sk" "\<not> ok" | "0 \<le> sk" "ok" by linarith
  then show ?thesis
  proof cases
    case 1
    then show ?thesis using assms s S by (simp add: connect_path_def neg_errno_def same_objects_def)
  next
    case 2
    then show ?thesis using assms s a S Q
      by (auto simp: connect_path_def neg_errno_def same_objects_def close_host_def close_fd_map) (simp_all add: close_fd_def)
  next
    case 3
    then show ?thesis using assms s a S Q by (simp add: connect_path_def)
  qed
qed

lemma failed_exchange:
  assumes "ri_client_socket_connect cls raw attr h = Some (None, h')"
  shows "same_objects (h_world h) (h_world h')"
proof -
  from assms obtain grp h1 where on: "on_world (ri_group_from_attr cls raw attr) h = Some (grp, h1)"
    by (auto simp: ri_client_socket_connect_def bind_eq_Some_conv)
  then obtain w1 where w1: "ri_group_from_attr cls raw attr (h_world h) = Some (grp, w1)" "h1 = h\<lparr>h_world := w1\<rparr>"
    by (auto simp: on_world_def)
  show ?thesis
  proof (cases grp)
    case None
    then have "h1 = h'" using assms on by (simp add: ri_client_socket_connect_def)
    then have "h_world h' = w1" using w1(2) by auto
    then show ?thesis using creation_failed w1(1) None by simp
  next
    case (Some g)
    have undone: "same_objects (h_world h) (h_world h')" if "delete_group g u = Some h'" "quiet h1 u" for u
      using that creation_undone [of cls raw attr "h_world h" g w1 "h_world u"] w1 Some quietD [OF that(2)]
      by (auto simp: delete_group_def same_resources_def)
    from assms on Some obtain req h2 where u: "uxmsg_from_group cls raw g h1 = Some (req, h2)" and
      k: "(case req of
             None \<Rightarrow> do { h \<leftarrow> delete_group g h2; Some (None, h) }
           | Some req \<Rightarrow> do {
               (r, h) \<leftarrow> exchange req h2;
               h \<leftarrow> ri_uxmsg_delete req h;
               if r < 0 then do { h \<leftarrow> delete_group g h; Some (None, h) } else Some (Some g, h)
             }) = Some (None, h')"
      by (auto simp: ri_client_socket_connect_def bind_eq_Some_conv)
    note U = quiet_from_group [OF u]
    show ?thesis
    proof (cases req)
      case None
      then show ?thesis using k U undone by (auto simp: bind_eq_Some_conv)
    next
      case (Some m)
      then obtain r h3 where "exchange m h2 = Some (r, h3)" "delete_group g h3 = Some h'"
        using k U delete_sent by (auto simp: bind_eq_Some_conv split: if_splits)
      then show ?thesis using undone U quiet_exchange quiet_trans by blast
    qed
  qed
qed

lemma connect_failed:
  assumes "ri_client_connect cls raw path attr h = Some (None, h')"
  shows "same_objects (h_world h) (h_world h')"
proof -
  obtain fd h1 where p: "connect_path path h = (fd, h1)" by (cases "connect_path path h")
  note P = connect_path_resources [OF p]
  show ?thesis
  proof (cases "fd < 0")
    case True
    then show ?thesis using assms p P by (simp add: ri_client_connect_def)
  next
    case False
    then obtain h2 where c: "ri_client_socket_connect cls raw attr h1 = Some (None, h2)" "h' = close_host fd h2"
      using assms p by (auto simp: ri_client_connect_def bind_eq_Some_conv)
    have s: "same_objects (h_world h1) (h_world h2)" by (rule failed_exchange [OF c(1)])
    have "map_of (w_fds (h_world h1)) = (map_of (w_fds (h_world h)))(fd \<mapsto> length (w_files (h_world h)))"
      "map_of (w_fds (h_world h)) fd = None" using P False by auto
    then show ?thesis using s P False c(2)
      by (auto simp: same_objects_def close_host_def close_fd_map) (simp_all add: close_fd_def)
  qed
qed

section \<open>Properties\<close>

text \<open>
  C10. A client that does not get a group (no memory, no socket, no server, no descriptor, a message that cannot be sent, a
  server that refuses or closes) is left with what it had before: the socket is closed and the group deleted. The one exception is
  the mapping that stays when the new memory could not be locked (\<open>mlock\<close> in \<open>ri_shm_map\<close>).
\<close>

theorem failed_connect_keeps_nothing:
  assumes "ri_client_connect cls raw path attr h = Some (None, h')"
  shows "given_back (h_world h) (h_world h')"
  by (rule given_backI [OF connect_failed [OF assms] lossy_connect [OF assms]])

text \<open>The server answers -1.\<close>

definition refused_host :: host where
  "refused_host = client_host\<lparr>h_in := [\<lparr>mg_data = [255, 255, 255, 255], mg_files = []\<rparr>]\<rparr>"

lemma connection_refused:
  "case ri_client_connect 64 zeros ''/tmp/s'' two_channels refused_host of Some (None, h) \<Rightarrow> length (h_sent h) = 1 | _ \<Rightarrow> False"
  by code_simp

theorem failed_connect_keeps_nothing_witness:
  "\<exists>h. ri_client_connect 64 zeros ''/tmp/s'' two_channels refused_host = Some (None, h) \<and> length (h_sent h) = 1 \<and>
     map_of (w_fds (h_world h)) = Map.empty"
proof -
  obtain h where h: "ri_client_connect 64 zeros ''/tmp/s'' two_channels refused_host = Some (None, h)" "length (h_sent h) = 1"
    using connection_refused by (auto split: option.splits prod.splits)
  from failed_connect_keeps_nothing [OF h(1)] have "map_of (w_fds (h_world h)) = Map.empty"
    by (simp add: given_back_def same_objects_def refused_host_def client_host_def empty_world_def)
  with h show ?thesis by blast
qed

text \<open>
  A response that is not four bytes long is taken for success: the client gets its group although the server has
  accepted nothing.
\<close>

theorem short_response_accepted:
  "case ri_client_connect 64 zeros ''/tmp/s'' two_channels (client_host\<lparr>h_in := [\<lparr>mg_data = [255], mg_files = []\<rparr>]\<rparr>) of
     Some (Some grp, h) \<Rightarrow> h_in h = []
   | _ \<Rightarrow> False"
  by code_simp

text \<open>
  A message that is not a request is refused, but when its first descriptor becomes number 0 in the server, it is not
  closed.
\<close>

theorem descriptor_zero_kept:
  "case ri_server_socket_accept 64 zeros None
       \<lparr>h_world = empty_world\<lparr>w_files := [Other_File ''pipe'', Other_File ''pipe'']\<rparr>,
        h_in = [\<lparr>mg_data = [1, 2, 3], mg_files = [0, 1]\<rparr>], h_sent = [], h_paths = []\<rparr> of
     Some (None, h) \<Rightarrow> w_fds (h_world h) = [(0, 0)] \<and> map mg_data (h_sent h) = [[255, 255, 255, 255]]
   | _ \<Rightarrow> False"
  by code_simp

text \<open>A new server holds its socket and its path.\<close>

lemma server_new_resources:
  assumes "ri_server_new path h = (server, h1)"
  shows "w_shms (h_world h1) = w_shms (h_world h) \<and> w_producers (h_world h1) = w_producers (h_world h) \<and>
    w_consumers (h_world h1) = w_consumers (h_world h) \<and> w_caches (h_world h1) = w_caches (h_world h) \<and>
    (case server of
       None \<Rightarrow> map_of (w_fds (h_world h1)) = map_of (w_fds (h_world h))
     | Some s \<Rightarrow> map_of (w_fds (h_world h)) (sv_sockfd s) = None \<and>
         (\<exists>n. map_of (w_fds (h_world h1)) = (map_of (w_fds (h_world h)))(sv_sockfd s \<mapsto> n)) \<and>
         sv_path s \<notin> set (h_paths h) \<and> h_paths h1 = sv_path s # h_paths h)"
proof -
  obtain ok h2 where a: "ask_host h = (ok, h2)" by (cases "ask_host h")
  obtain fd h3 where s: "new_socket h2 = (fd, h3)" by (cases "new_socket h2")
  obtain ok4 h4 where b: "ask_host h3 = (ok4, h4)" by (cases "ask_host h3")
  obtain ok5 h5 where l: "ask_host (h4\<lparr>h_paths := sun_path path # h_paths h4\<rparr>) = (ok5, h5)"
    by (cases "ask_host (h4\<lparr>h_paths := sun_path path # h_paths h4\<rparr>)")
  have q: "quiet h h2" "quiet h3 h4" "quiet h3 h5" using quiet_ask [OF a] quiet_ask [OF b] quiet_ask [OF l] by (auto intro: quiet_trans)
  have paths: "h_paths h4 = h_paths h" "h_paths h5 = sun_path path # h_paths h4"
    using a s b l by (auto simp: ask_host_def new_socket_def Let_def split: prod.splits if_splits)
  note S = new_socket_resources [OF s] and Q = quietD [OF q(1)] quietD [OF q(2)] quietD [OF q(3)]
  show ?thesis using assms a s b l S Q paths
    by (auto simp: ri_server_new_def Let_def close_host_def close_fd_map split: if_splits) (simp_all add: close_fd_def)
qed

text \<open>
  Deleting a server gives back what \<open>ri_server_new\<close> took: its socket is closed and its socket file gone.
\<close>

theorem server_new_delete:
  assumes "ri_server_new path h = (Some server, h1)"
  shows "h_paths (ri_server_delete server h1) = h_paths h \<and>
    same_resources (h_world h) (h_world (ri_server_delete server h1))"
  using server_new_resources [OF assms] calm_server_new [OF assms]
  by (auto simp: ri_server_delete_def Let_def close_host_def same_resources_def same_objects_def close_fd_map calm_def) (simp_all add: close_fd_def)

theorem server_new_delete_witness:
  "\<exists>server h. ri_server_new ''/tmp/s'' client_host = (Some server, h) \<and> h_paths h = [''/tmp/s''] \<and>
     h_paths (ri_server_delete server h) = []"
proof -
  have "case ri_server_new ''/tmp/s'' client_host of (Some server, h) \<Rightarrow> h_paths h = [''/tmp/s''] | _ \<Rightarrow> False" by code_simp
  then obtain server h where h: "ri_server_new ''/tmp/s'' client_host = (Some server, h)" "h_paths h = [''/tmp/s'']"
    by (auto split: option.splits prod.splits)
  from server_new_delete [OF h(1)] have "h_paths (ri_server_delete server h) = []" by (simp add: client_host_def)
  with h show ?thesis by blast
qed

text \<open>
  When \<open>listen\<close> fails, the socket file that \<open>bind\<close> has made stays, and no later \<open>ri_server_new\<close> for the
  path succeeds.
\<close>

theorem failed_listen_blocks_path:
  assumes "w_ok (h_world h) (w_calls (h_world h))" and "w_ok (h_world h) (w_calls (h_world h) + 1)"
    and "w_ok (h_world h) (w_calls (h_world h) + 2)" and "\<not> w_ok (h_world h) (w_calls (h_world h) + 3)"
    and "sun_path path \<notin> set (h_paths h)"
  shows "\<exists>h'. ri_server_new path h = (None, h') \<and> h_paths h' = sun_path path # h_paths h \<and>
    (\<forall>h''. h_paths h'' = h_paths h' \<longrightarrow> fst (ri_server_new path h'') = None)"
proof -
  have paths: "h_paths g' = h_paths g" if "ask_host g = (ok, g')" for ok g g'
    using that by (auto simp: ask_host_def Let_def split: prod.splits)
  have spaths: "h_paths g' = h_paths g" if "new_socket g = (fd, g')" for fd g g'
    using that paths by (auto simp: new_socket_def Let_def split: prod.splits if_splits)
  have blocked: "fst (ri_server_new path g) = None" if "sun_path path \<in> set (h_paths g)" for g
  proof -
    obtain ok g1 where 1: "ask_host g = (ok, g1)" by (cases "ask_host g")
    obtain fd g2 where 2: "new_socket g1 = (fd, g2)" by (cases "new_socket g1")
    obtain ok3 g3 where 3: "ask_host g2 = (ok3, g3)" by (cases "ask_host g2")
    have "sun_path path \<in> set (h_paths g3)" using that paths [OF 1] spaths [OF 2] paths [OF 3] by simp
    then show ?thesis by (simp add: ri_server_new_def 1 2 3)
  qed
  have "\<exists>h'. ri_server_new path h = (None, h') \<and> h_paths h' = sun_path path # h_paths h"
    using assms fresh_fd_fresh(1) [of "w_fds (h_world h)"]
    by (simp add: ri_server_new_def new_socket_def ask_host_def ask_def open_file_def close_host_def Let_def numeral_3_eq_3)
  then show ?thesis using blocked by (metis list.set_intros(1))
qed

theorem failed_listen_blocks_path_witness:
  "\<exists>h'. ri_server_new ''/tmp/s'' \<lparr>h_world = failing_at 3, h_in = [], h_sent = [], h_paths = []\<rparr> = (None, h') \<and>
     h_paths h' = [''/tmp/s'']"
proof -
  let ?h = "\<lparr>h_world = failing_at 3, h_in = [], h_sent = [], h_paths = []\<rparr>"
  have "sun_path ''/tmp/s'' = ''/tmp/s''" by (simp add: sun_path_def)
  then show ?thesis
    using failed_listen_blocks_path [of ?h "''/tmp/s''"] by (auto simp: failing_at_def empty_world_def)
qed

end
