(* ===== verification/Accept_Properties.thy ===== *)
theory Accept_Properties
  imports Connect_Properties
begin

text \<open>
  What a server is left with: the descriptors of a message belong to the message until the group takes them, and whatever is not
  taken is closed with the message, except descriptor 0.
\<close>

section \<open>The descriptors of a message\<close>

text \<open>Those among the first \<open>n\<close> that have not been taken.\<close>

definition open_in :: "nat \<Rightarrow> int list \<Rightarrow> int set" where
  "open_in n fds = {fd \<in> set (take n fds). 0 \<le> fd}"

lemma open_in_take: "k < n \<Longrightarrow> k < length fds \<Longrightarrow> 0 \<le> fds ! k \<Longrightarrow> {fds ! k} \<union> open_in n (fds[k := -1]) = open_in n fds"
proof -
  assume k: "k < n" "k < length fds" "0 \<le> fds ! k"
  have t: "take n (fds[k := -1]) = (take n fds)[k := -1]" by (rule take_update_swap)
  have "take n fds ! k = fds ! k" "k < length (take n fds)" using k by simp_all
  then have "set (take n fds) = insert (fds ! k) (set (take n fds) - {fds ! k})" using nth_mem [of k "take n fds"] by auto
  show ?thesis
  proof
    show "{fds ! k} \<union> open_in n (fds[k := -1]) \<subseteq> open_in n fds"
      using k nth_mem [of k "take n fds"] set_update_subset_insert [of "take n fds" k "-1"] unfolding open_in_def t by auto
    show "open_in n fds \<subseteq> {fds ! k} \<union> open_in n (fds[k := -1])"
    proof
      fix fd assume "fd \<in> open_in n fds"
      then obtain j where j: "j < length (take n fds)" "take n fds ! j = fd" "0 \<le> fd" by (auto simp: open_in_def in_set_conv_nth)
      show "fd \<in> {fds ! k} \<union> open_in n (fds[k := -1])"
      proof (cases "j = k")
        case False
        then have "(take n fds)[k := -1] ! j = fd" "j < length ((take n fds)[k := -1])" using j by simp_all
        then show ?thesis using j(3) nth_mem unfolding open_in_def t by fastforce
      qed (use j in simp)
    qed
  qed
qed

lemma install_new:
  "install ns w = (fds, v) \<Longrightarrow> (\<forall>fd\<in>set fds. 0 \<le> fd \<and> map_of (w_fds w) fd = None) \<and>
    (\<forall>fd. fd \<notin> set fds \<longrightarrow> map_of (w_fds v) fd = map_of (w_fds w) fd) \<and> length fds = length ns \<and> v = w\<lparr>w_fds := w_fds v\<rparr>"
proof (induction ns arbitrary: w fds v)
  case (Cons n ns)
  let ?fd = "fresh_fd (w_fds w)"
  obtain fds' where i: "install ns (w\<lparr>w_fds := (?fd, n) # w_fds w\<rparr>) = (fds', v)" "fds = ?fd # fds'"
    using Cons.prems by (auto simp: Let_def split: prod.splits)
  note I = Cons.IH [OF i(1)]
  have "map_of (w_fds w) fd = None" if "fd \<in> set fds'" for fd using I that by (auto split: if_splits)
  moreover have "v = w\<lparr>w_fds := w_fds v\<rparr>" using I by simp
  ultimately show ?case using I i(2) fresh_fd_fresh [of "w_fds w"] by auto
qed simp

lemma same_but_quiet: "same_but X w (h_world h) \<Longrightarrow> quiet h h' \<Longrightarrow> same_but X w (h_world h')"
  by (simp add: same_but_def quietD)

lemma same_but_close:
  "same_but X w u \<Longrightarrow> map_of (w_fds w) fd = None \<Longrightarrow> same_but (X - {fd}) w (close_fd fd u)"
  by (auto simp: same_but_def close_fd_map) (simp_all add: close_fd_def)

lemma close_all_held:
  assumes step: "\<And>X u fd. B X u \<Longrightarrow> map_of (w_fds w) fd = None \<Longrightarrow> B (X - {fd}) (close_fd fd u)"
    and "B X (h_world h)" and "\<forall>fd\<in>set fds. 0 < fd \<longrightarrow> map_of (w_fds w) fd = None"
  shows "B (X - {fd \<in> set fds. 0 < fd}) (h_world (close_all fds h))"
  using assms(2,3)
proof (induction fds arbitrary: X h)
  case (Cons fd fds)
  show ?case
  proof (cases "0 < fd")
    case True
    then have "B (X - {fd}) (h_world (close_host fd h))" using Cons.prems step by (simp add: close_host_def)
    from Cons.IH [OF this] have "B (X - {fd} - {fd \<in> set fds. 0 < fd}) (h_world (close_all fds (close_host fd h)))"
      using Cons.prems(2) by simp
    moreover have "X - {fd} - {fd \<in> set fds. 0 < fd} = X - {fd' \<in> set (fd # fds). 0 < fd'}" using True by auto
    ultimately show ?thesis using True by simp
  next
    case False
    then have "{fd' \<in> set (fd # fds). 0 < fd'} = {fd \<in> set fds. 0 < fd}" by auto
    then show ?thesis using Cons False by simp
  qed
qed simp

text \<open>A message that was received: its descriptors are new.\<close>

definition fresh_msg :: "world \<Rightarrow> ri_uxmsg \<Rightarrow> bool" where
  "fresh_msg w msg \<longleftrightarrow> um_dir msg = RI_UXMSG_RX \<and> unat (um_n_fds msg) \<le> length (um_fds msg) \<and>
     (\<forall>fd\<in>set (take (unat (um_n_fds msg)) (um_fds msg)). 0 \<le> fd \<longrightarrow> map_of (w_fds w) fd = None)"

text \<open>Deleting it closes them, except descriptor 0; in a process in which that is open, none is left.\<close>

lemma delete_received:
  assumes step: "\<And>X u fd. B X u \<Longrightarrow> map_of (w_fds w) fd = None \<Longrightarrow> B (X - {fd}) (close_fd fd u)"
    and b: "B (open_in (unat (um_n_fds msg)) (um_fds msg)) (h_world h)" and r: "fresh_msg w msg"
    and z: "map_of (w_fds w) 0 \<noteq> None"
  shows "\<exists>h'. ri_uxmsg_delete msg h = Some h' \<and> B {} (h_world h')"
proof -
  let ?fds = "take (unat (um_n_fds msg)) (um_fds msg)"
  have e: "open_in (unat (um_n_fds msg)) (um_fds msg) - {fd \<in> set ?fds. 0 < fd} = {}"
    using r z by (auto simp: open_in_def fresh_msg_def le_less)
  have "B (open_in (unat (um_n_fds msg)) (um_fds msg) - {fd \<in> set ?fds. 0 < fd}) (h_world (close_all ?fds h))"
    by (rule close_all_held [where B = B and w = w, OF step b]) (use r in \<open>auto simp: fresh_msg_def\<close>)
  then have "B {} (h_world (close_all ?fds h))" unfolding e .
  then show ?thesis using r by (simp add: ri_uxmsg_delete_def fresh_msg_def)
qed

section \<open>Mapping the channels\<close>

lemma set_nonblocking_frame: "ri_set_nonblocking fd w = (r, v) \<Longrightarrow> \<exists>n fs. v = w\<lparr>w_calls := n, w_files := fs\<rparr>"
proof -
  assume r: "ri_set_nonblocking fd w = (r, v)"
  have "v = w\<lparr>w_calls := w_calls v, w_files := w_files v\<rparr>"
    using r by (auto simp: ri_set_nonblocking_def ask_def Let_def split: if_splits option.splits kernel_file.splits)
  then show ?thesis by blast
qed

lemma take_eventfd_held:
  assumes frame: "\<And>u n fs. B u \<Longrightarrow> B (u\<lparr>w_calls := n, w_files := fs\<rparr>)"
    and "B u" and "take_eventfd idx fds n u = Some ((e, fds'), v)"
  shows "B v \<and> (if e < 0 then fds' = fds else {e} \<union> open_in (unat n) fds' = open_in (unat n) fds)"
proof -
  consider "v = u" "e < 0" "fds' = fds" | r where "ri_set_nonblocking (fds ! idx) u = (r, v)" "e < 0" "fds' = fds"
    | r where "ri_set_nonblocking (fds ! idx) u = (r, v)" "0 \<le> e" "e = fds ! idx" "idx < unat n" "idx < length fds" "fds' = fds[idx := -1]"
    using assms(3) by (fastforce simp: take_eventfd_def Let_def split: if_splits prod.splits)
  then show ?thesis
  proof cases
    case 1
    then show ?thesis using assms(2) by simp
  next
    case 2
    then show ?thesis using assms(2) frame set_nonblocking_frame by fastforce
  next
    case 3
    then show ?thesis using assms(2) frame set_nonblocking_frame open_in_take [of idx "unat n" fds] by fastforce
  qed
qed

text \<open>\<open>B S X u\<close>: the world \<open>u\<close> holds the objects \<open>S\<close> and the descriptors \<open>X\<close> beside what was there before.\<close>

lemma map_channels_held:
  assumes step: "\<And>S X attr e off u res v. B S (pending attr e \<union> X) u \<Longrightarrow> a_eventfd attr \<longrightarrow> 0 \<le> e \<Longrightarrow> mk attr e off u = Some (res, v) \<Longrightarrow>
      (case res of None \<Rightarrow> B S (pending attr e \<union> X) v | Some c \<Rightarrow> c \<notin> S \<and> B (insert c S) X v)"
    and close: "\<And>S X e u. B S ({e} \<union> X) u \<Longrightarrow> B S X (close_fd e u)"
    and frame: "\<And>S X u n fs. B S X u \<Longrightarrow> B S X (u\<lparr>w_calls := n, w_files := fs\<rparr>)"
    and "B S (open_in (unat n) fds) u" and "map_channels mk cls attrs off idx fds n u = Some ((cs, ok, off', idx', fds'), v)"
  shows "B (S \<union> set cs) (open_in (unat n) fds') v \<and> distinct cs \<and> S \<inter> set cs = {} \<and> length cs \<le> length attrs \<and>
    (ok \<longrightarrow> length cs = length attrs)"
  using assms(4,5)
proof (induction attrs arbitrary: S off idx fds u cs)
  case Nil
  then show ?case by simp
next
  case (Cons attr attrs)
  define taking where "taking = (if a_eventfd attr then take_eventfd idx fds n u else Some ((-1, fds), u))"
  define idx1 where "idx1 = (if a_eventfd attr then Suc idx else idx)"
  from Cons.prems(2) obtain e fds1 u1 where t: "taking = Some ((e, fds1), u1)" and
    k: "(if a_eventfd attr \<and> e < 0 then Some (([], False, off, idx1, fds1), u1) else do {
       (res, w) \<leftarrow> mk attr e off u1;
       (case res of
          None \<Rightarrow> Some (([], False, off, idx1, fds1), if e \<ge> 0 then close_fd e w else w)
        | Some c \<Rightarrow> do {
            ((cs, ok, rest), w) \<leftarrow> map_channels mk cls attrs (off + ri_channel_shm_size cls attr) idx1 fds1 n w;
            Some ((c # cs, ok, rest), w)
          })
     }) = Some ((cs, ok, off', idx', fds'), v)"
    unfolding map_channels.simps Let_def taking_def [symmetric] idx1_def [symmetric]
    by (cases taking) (auto split: prod.splits)
  have T: "(if a_eventfd attr \<and> e < 0 then B S (open_in (unat n) fds1) u1 else B S (pending attr e \<union> open_in (unat n) fds1) u1) \<and>
      (\<not> a_eventfd attr \<longrightarrow> e = -1)"
    using t take_eventfd_held [where B = "B S (open_in (unat n) fds)", OF frame Cons.prems(1), of idx fds n e fds1 u1] Cons.prems(1)
    by (cases "e < 0") (auto simp: taking_def split: if_splits)
  show ?case
  proof (cases "a_eventfd attr \<and> e < 0")
    case True
    then show ?thesis using k T by auto
  next
    case False
    then obtain res u2 where m: "mk attr e off u1 = Some (res, u2)" using k by (auto simp: bind_eq_Some_conv)
    have b: "B S (pending attr e \<union> open_in (unat n) fds1) u1" "a_eventfd attr \<longrightarrow> 0 \<le> e" using T False by auto
    note st = step [OF b m]
    show ?thesis
    proof (cases res)
      case None
      then have "cs = []" "\<not> ok" "fds' = fds1" "v = (if e \<ge> 0 then close_fd e u2 else u2)" using k m False by (auto split: if_splits)
      then show ?thesis using st None T False close [of S e "open_in (unat n) fds1" u2] by (cases "a_eventfd attr") simp_all
    next
      case (Some c)
      then obtain cs' where r: "map_channels mk cls attrs (off + ri_channel_shm_size cls attr) idx1 fds1 n u2 = Some ((cs', ok, off', idx', fds'), v)"
        "cs = c # cs'" using k m False by (auto simp: bind_eq_Some_conv split: if_splits)
      have "c \<notin> S" "B (insert c S) (open_in (unat n) fds1) u2" using st Some by simp_all
      from Cons.IH [OF this(2) r(1)] show ?thesis using r(2) \<open>c \<notin> S\<close> by auto
    qed
  qed
qed

section \<open>The group of a request\<close>

text \<open>A group that is being made from a message: nothing yet, or memory and channels.\<close>

definition mapped :: "world \<Rightarrow> int set \<Rightarrow> ri_group \<Rightarrow> world \<Rightarrow> bool" where
  "mapped w X grp u \<longleftrightarrow> (\<exists>i ps cs. built w i (set ps) (set cs) X u \<and> distinct ps \<and> distinct cs \<and> gr_shm grp = Some i \<and>
     array_holds (gr_producers grp) (gd_n_producers (gr_data grp)) ps \<and> array_holds (gr_consumers grp) (gd_n_consumers (gr_data grp)) cs)"

definition unmapped :: "world \<Rightarrow> int set \<Rightarrow> ri_group \<Rightarrow> world \<Rightarrow> bool" where
  "unmapped w X grp u \<longleftrightarrow> same_but X w u \<and> gr_shm grp = None \<and>
     array_holds (gr_producers grp) (gd_n_producers (gr_data grp)) [] \<and> array_holds (gr_consumers grp) (gd_n_consumers (gr_data grp)) []"

lemma release_nothing: "release_all grel (replicate k None) u = Some u"
  by (induction k) simp_all

lemma delete_mapped: "mapped w X grp u \<Longrightarrow> \<exists>v. ri_group_delete grp u = Some v \<and> same_but X w v"
  unfolding mapped_def by (blast intro: delete_built)

lemma delete_unmapped: "unmapped w X grp u \<Longrightarrow> ri_group_delete grp u = Some u"
  using release_array_holds [of "gr_producers grp" _ "[]"] release_array_holds [of "gr_consumers grp" _ "[]"]
  by (simp add: unmapped_def ri_group_delete_def release_nothing)

lemma same_but_ask: "same_but X w u \<Longrightarrow> ask u = (ok, v) \<Longrightarrow> same_but X w v"
  by (auto simp: ask_def same_but_def)

lemma built_held: "built w i P C X u \<Longrightarrow> built w i P C X (u\<lparr>w_calls := n, w_files := fs\<rparr>)"
  by (erule built_frame) simp_all

lemma consumers_mapped:
  assumes b: "built w i P {} (open_in (unat n) fds) u"
    and m: "map_channels (\<lambda>attr eventfd. ri_consumer_map cls attr eventfd i) cls attrs off idx fds n u = Some ((cs, ok, off', idx', fds'), v)"
  shows "built w i P (set cs) (open_in (unat n) fds') v \<and> distinct cs \<and> length cs \<le> length attrs"
proof -
  have "built w i P ({} \<union> set cs) (open_in (unat n) fds') v \<and> distinct cs \<and> {} \<inter> set cs = {} \<and> length cs \<le> length attrs \<and> (ok \<longrightarrow> length cs = length attrs)"
    by (rule map_channels_held [where B = "\<lambda>S. built w i P S", OF _ _ _ _ m])
      (erule (2) built_consumer_map, erule built_close_pending, erule built_held, rule b)
  then show ?thesis by simp
qed

lemma producers_mapped:
  assumes b: "built w i {} C (open_in (unat n) fds) u"
    and m: "map_channels (\<lambda>attr eventfd. ri_producer_map cls attr eventfd i) cls attrs off idx fds n u = Some ((cs, ok, off', idx', fds'), v)"
  shows "built w i (set cs) C (open_in (unat n) fds') v \<and> distinct cs \<and> length cs \<le> length attrs"
proof -
  have "built w i ({} \<union> set cs) C (open_in (unat n) fds') v \<and> distinct cs \<and> {} \<inter> set cs = {} \<and> length cs \<le> length attrs \<and> (ok \<longrightarrow> length cs = length attrs)"
    by (rule map_channels_held [where B = "\<lambda>S. built w i S C", OF _ _ _ _ m])
      (erule (2) built_producer_map, erule built_close_pending, erule built_held, rule b)
  then show ?thesis by simp
qed

lemma shm_map_held:
  assumes "same_but X w u" and "ri_shm_map fd u = (res, v)" and "{fd} \<union> Y = X"
  shows "case res of None \<Rightarrow> same_but X w v | Some i \<Rightarrow> built w i {} {} Y v"
proof -
  note M = shm_map_frame [OF assms(2)] and S = assms(1) [unfolded same_but_def]
  show ?thesis
  proof (cases res)
    case None
    then show ?thesis using M S by (simp add: same_but_def)
  next
    case (Some i)
    then obtain s where s: "i = length (w_shms u)" "w_shms v = w_shms u @ [Some s]" "s_ref_cnt s = 1" "s_fd s = fd" using M by auto
    have G: "group_fds i {} {} Y v = X" using assms(3) s by (auto simp: group_fds_def fds_in_def live_append)
    have n: "live (w_shms w) i = None" using S s(1) by (metis (no_types) live_def less_irrefl)
    have "built w i {} {} Y v"
    proof (rule builtI)
      show "live (w_shms v) i = Some s" by (simp add: s live_append)
      show "j \<noteq> i \<Longrightarrow> live (w_shms v) j = live (w_shms w) j" for j using S s by (simp add: live_append)
      show "added (plain_producer i) (w_producers w) {} (w_producers v)" using S M by (simp add: added_def)
      show "added (plain_consumer i) (w_consumers w) {} (w_consumers v)" using S M by (simp add: added_def)
    qed (use S M s n in \<open>simp_all add: G [unfolded s(1)]\<close>)
    then show ?thesis using Some by simp
  qed
qed

lemma group_map_held:
  assumes m: "ri_group_map cls grp fds n u = Some ((grp', ok, fds'), v)" and u: "unmapped w (open_in (unat n) fds) grp u"
    and fd: "\<forall>fd\<in>set (take (unat n) fds). 0 \<le> fd"
  shows "gr_data grp' = gr_data grp \<and> (mapped w (open_in (unat n) fds') grp' v \<or> \<not> ok \<and> unmapped w (open_in (unat n) fds') grp' v)"
proof -
  have n: "n < 1 \<or> 0 < unat n" by (cases "n = 0") (simp_all add: unat_gt_0)
  show ?thesis
  proof (cases "n < 1 \<or> ri_memfd_verify (hd fds) u < 0")
    case True
    then have "grp' = grp" "\<not> ok" "fds' = fds" "v = u" using m by (auto simp: ri_group_map_def split: list.splits if_splits)
    then show ?thesis using u by simp
  next
    case False
    then obtain f rest where f: "fds = f # rest" using m by (cases fds) (auto simp: ri_group_map_def)
    have "0 < unat n" "0 \<le> f" using False n fd f by (auto simp: take_Cons')
    then have o: "{f} \<union> open_in (unat n) (fds[0 := -1]) = open_in (unat n) fds" using open_in_take [of 0 "unat n" fds] f by simp
    obtain res u1 where s: "ri_shm_map f u = (res, u1)" by (cases "ri_shm_map f u")
    have S: "case res of None \<Rightarrow> same_but (open_in (unat n) fds) w u1 | Some i \<Rightarrow> built w i {} {} (open_in (unat n) (fds[0 := -1])) u1"
      using shm_map_held [OF _ s o] u by (simp add: unmapped_def)
    show ?thesis
    proof (cases res)
      case None
      then have "grp' = grp" "\<not> ok" "fds' = fds" "v = u1" using m f False s by (auto simp: ri_group_map_def)
      then show ?thesis using u S None by (simp add: unmapped_def)
    next
      case (Some i)
      let ?data = "gr_data grp"
      from m f False s Some obtain cattrs cs ok1 off idx fds1 u2 where
        ca: "table_attrs ?data (gd_consumers ?data) (gd_n_consumers ?data) = Some cattrs" and
        mc: "map_channels (\<lambda>attr eventfd. ri_consumer_map cls attr eventfd i) cls cattrs 0 1 (fds[0 := -1]) n u1 = Some ((cs, ok1, off, idx, fds1), u2)"
        and k: "(if \<not> ok1 then Some ((grp\<lparr>gr_shm := Some i, gr_consumers := filled (gr_consumers grp) cs\<rparr>, False, fds1), u2) else do {
           pattrs \<leftarrow> table_attrs ?data (gd_producers ?data) (gd_n_producers ?data);
           ((ps, ok, shm_offset, idx, fds), w) \<leftarrow> map_channels (\<lambda>attr eventfd. ri_producer_map cls attr eventfd i) cls pattrs off idx fds1 n u2;
           Some ((grp\<lparr>gr_shm := Some i, gr_consumers := filled (gr_consumers grp) cs,
             gr_producers := filled (gr_producers (grp\<lparr>gr_shm := Some i, gr_consumers := filled (gr_consumers grp) cs\<rparr>)) ps\<rparr>, ok, fds), w)
         }) = Some ((grp', ok, fds'), v)"
        by (auto simp: ri_group_map_def bind_eq_Some_conv Let_def)
      have C: "built w i {} (set cs) (open_in (unat n) fds1) u2" "distinct cs" "length cs \<le> unat (gd_n_consumers ?data)"
        using consumers_mapped [OF _ mc] S Some table_attrs_length [OF ca] by simp_all
      have hc: "array_holds (filled (gr_consumers grp) cs) (gd_n_consumers ?data) cs" and hp: "array_holds (gr_producers grp) (gd_n_producers ?data) []"
        using u C(3) by (simp_all add: unmapped_def filled_holds)
      show ?thesis
      proof (cases ok1)
        case False
        then have "grp' = grp\<lparr>gr_shm := Some i, gr_consumers := filled (gr_consumers grp) cs\<rparr>" "fds' = fds1" "v = u2" using k by auto
        then show ?thesis using C(1,2) hc hp unfolding mapped_def
          by (intro conjI disjI1 exI [of _ i] exI [of _ "[]"] exI [of _ cs]) simp_all
      next
        case True
        from k True obtain pattrs ps ok2 off2 idx2 where
          pa: "table_attrs ?data (gd_producers ?data) (gd_n_producers ?data) = Some pattrs" and
          mp: "map_channels (\<lambda>attr eventfd. ri_producer_map cls attr eventfd i) cls pattrs off idx fds1 n u2 = Some ((ps, ok2, off2, idx2, fds'), v)"
          and g: "grp' = grp\<lparr>gr_shm := Some i, gr_consumers := filled (gr_consumers grp) cs, gr_producers := filled (gr_producers grp) ps\<rparr>"
          by (auto simp: bind_eq_Some_conv)
        have P: "built w i (set ps) (set cs) (open_in (unat n) fds') v" "distinct ps" "length ps \<le> unat (gd_n_producers ?data)"
          using producers_mapped [OF C(1) mp] table_attrs_length [OF pa] by simp_all
        show ?thesis using P C(2) hc filled_holds [OF hp P(3)] unfolding mapped_def g
          by (intro conjI disjI1 exI [of _ i] exI [of _ ps] exI [of _ cs]) simp_all
      qed
    qed
  qed
qed

lemma deserialize_held:
  assumes d: "ri_group_deserialize cls raw req sz fds (Some n) u = Some ((res, fds'), v)" and u: "same_but (open_in (unat n) fds) w u"
    and fd: "\<forall>fd\<in>set (take (unat n) fds). 0 \<le> fd"
  shows "case res of None \<Rightarrow> same_but (open_in (unat n) fds') w v | Some grp \<Rightarrow> mapped w (open_in (unat n) fds') grp v"
proof -
  obtain ok u1 where a: "ask u = (ok, u1)" by (cases "ask u")
  obtain al u2 where t: "take_allocs raw u1 = (al, u2)" by (cases "take_allocs raw u1")
  have S: "same_but (open_in (unat n) fds) w u1" "same_but (open_in (unat n) fds) w u2"
    using u ask_frame [OF a] take_allocs_frame [OF t] by (simp_all add: same_but_def)
  show ?thesis
  proof (cases "n < 1 \<or> \<not> ok")
    case True
    then show ?thesis using d a u S(1) by (cases "n = 0") (auto simp: ri_group_deserialize_def Let_def)
  next
    case False
    show ?thesis
    proof (cases "ri_request_parse cls al req sz")
      case (Returns data)
      obtain arrays u3 where al: "ri_group_alloc_channels data u2 = (arrays, u3)" by (cases "ri_group_alloc_channels data u2")
      note A = alloc_channels_frame [OF al]
      have S3: "same_but (open_in (unat n) fds) w u3" using S(2) A by (simp add: same_but_def same_objects_def)
      show ?thesis
      proof (cases arrays)
        case None
        then show ?thesis using d a t Returns al S3 False by (auto simp: ri_group_deserialize_def Let_def)
      next
        case (Some arrays')
        then obtain consumers producers where arr: "arrays = Some (consumers, producers)" by (cases arrays') simp
        let ?grp = "\<lparr>gr_data = data, gr_shm = None, gr_consumers = consumers, gr_producers = producers\<rparr>"
        from d a t Returns al arr False obtain grp' ok' fds1 u4 where
          m: "ri_group_map cls ?grp fds n u3 = Some ((grp', ok', fds1), u4)" and
          k: "(if \<not> ok' then do { w \<leftarrow> ri_group_delete grp' u4; Some ((None, fds1), w) } else Some ((Some grp', fds1), u4)) = Some ((res, fds'), v)"
          by (auto simp: ri_group_deserialize_def Let_def bind_eq_Some_conv)
        have M: "mapped w (open_in (unat n) fds1) grp' u4 \<or> \<not> ok' \<and> unmapped w (open_in (unat n) fds1) grp' u4"
          using group_map_held [OF m _ fd, of w] unmapped_def [of w "open_in (unat n) fds" ?grp u3] S3 A arr by simp
        show ?thesis
        proof (cases ok')
          case True
          then show ?thesis using k M by auto
        next
          case False
          then obtain w' where "ri_group_delete grp' u4 = Some w'" "res = None" "fds' = fds1" "v = w'" using k by (auto simp: bind_eq_Some_conv)
          then show ?thesis using M delete_mapped delete_unmapped by (fastforce simp: unmapped_def)
        qed
      qed
    qed (use d a t S(2) False in \<open>auto simp: ri_group_deserialize_def Let_def split: if_splits\<close>)
  qed
qed

lemma take_eventfd_length: "take_eventfd idx fds n u = Some ((e, fds'), v) \<Longrightarrow> length fds' = length fds"
  by (auto simp: take_eventfd_def Let_def split: if_splits prod.splits)

lemma map_channels_length: "map_channels mk cls attrs off idx fds n u = Some ((cs, ok, off', idx', fds'), v) \<Longrightarrow> length fds' = length fds"
proof (induction attrs arbitrary: off idx fds u cs)
  case (Cons attr attrs)
  then show ?case
    by (auto simp: bind_eq_Some_conv Let_def split: if_splits prod.splits option.splits dest!: take_eventfd_length Cons.IH)
qed simp

lemma group_map_length: "ri_group_map cls grp fds n u = Some ((grp', ok, fds'), v) \<Longrightarrow> length fds' = length fds"
  by (auto simp: ri_group_map_def bind_eq_Some_conv Let_def split: list.splits if_splits prod.splits option.splits dest!: map_channels_length)

lemma deserialize_length: "ri_group_deserialize cls raw req sz fds n u = Some ((res, fds'), v) \<Longrightarrow> length fds' = length fds"
  by (auto simp: ri_group_deserialize_def bind_eq_Some_conv Let_def split: option.splits if_splits prod.splits outcome.splits dest!: group_map_length)

section \<open>Receiving and answering\<close>

text \<open>The bytes announced are those received, unless the second call fails.\<close>

lemma announced_size:
  assumes "r = int_of_size (length data)" and "0 < r"
  shows "int_of_size (length (take (unat (word_of_int r :: u64)) data)) = r" and "sint (ucast (word_of_int r :: u64) :: u32) = r"
proof -
  let ?w = "of_nat (length data) :: u32"
  have r: "r = sint ?w" using assms(1) by (simp add: int_of_size_def)
  have b: "r < 2 ^ 31" using sint_lt [of ?w] r by simp
  have "?w = of_int r" unfolding r by simp
  also have "of_int r = (of_nat (nat r) :: u32)" using assms(2) by simp
  finally have w: "?w = of_nat (nat r)" .
  have "unat ?w = nat r" unfolding w by (subst unat_of_nat) (use b in simp)
  then have n: "nat r \<le> length data" using take_bit_nat_less_eq_self [of 32 "length data"] by (simp add: unsigned_of_nat)
  have v: "unat (word_of_int r :: u64) = nat r" using unat_of_small [of "nat r"] assms(2) b by simp
  show "int_of_size (length (take (unat (word_of_int r :: u64)) data)) = r"
    using n v int_of_size_small [of "nat r"] assms(2) b by simp
  show "sint (ucast (word_of_int r :: u64) :: u32) = r" using sint_of_small [of "nat r"] assms(2) b by simp
qed

lemma receive_held:
  assumes "ri_uxmsg_receive raw h = Some (res, h')"
  shows "case res of None \<Rightarrow> same_but {} (h_world h) (h_world h')
    | Some msg \<Rightarrow> fresh_msg (h_world h) msg \<and> (\<forall>fd\<in>set (take (unat (um_n_fds msg)) (um_fds msg)). 0 \<le> fd) \<and>
        same_but (open_in (unat (um_n_fds msg)) (um_fds msg)) (h_world h) (h_world h')"
proof -
  have q: "quiet h g \<Longrightarrow> same_but {} (h_world h) (h_world g)" for g using same_but_quiet [of "{}" "h_world h" h g] by (simp add: same_but_none)
  obtain r h1 where p: "peek h = (r, h1)" by (cases "peek h")
  note P = quiet_peek [OF p]
  show ?thesis
  proof (cases "r \<le> 0")
    case True
    then show ?thesis using assms p q [OF P] by (simp add: ri_uxmsg_receive_def)
  next
    case pos: False
    then obtain msg rest where i: "h_in h1 = msg # rest" "r = int_of_size (length (mg_data msg))"
      using p by (auto simp: peek_def ask_host_def Let_def split: if_splits list.splits prod.splits)
    obtain m h2 where n: "ri_uxmsg_new raw (word_of_int r) h1 = (m, h2)" by (cases "ri_uxmsg_new raw (word_of_int r) h1")
    note N = quiet_trans [OF P quiet_new [OF n, THEN conjunct1]]
    show ?thesis
    proof (cases m)
      case None
      then show ?thesis using assms p pos n q [OF N] by (simp add: ri_uxmsg_receive_def)
    next
      case (Some tx)
      have tx: "um_size tx = word_of_int r" "um_n_fds tx = 0" "um_fds tx = replicate (unat SCM_MAX_FD) 0" "h_in h2 = msg # rest"
        using n Some i by (auto simp: ri_uxmsg_new_def ask_host_def Let_def split: if_splits prod.splits)
      obtain ok h3 where a: "ask_host h2 = (ok, h3)" by (cases "ask_host h2")
      note A = quiet_trans [OF N quiet_ask [OF a]]
      have h3: "h_in h3 = msg # rest" using a tx(4) by (auto simp: ask_host_def Let_def split: prod.splits)
      show ?thesis
      proof (cases ok)
        case False
        have "r \<noteq> -1" using pos by simp
        then have "res = None" "h' = h3" using assms p pos n Some a False announced_size(2) [OF i(2)] tx
          by (auto simp: ri_uxmsg_receive_def recvmsg_def ri_uxmsg_delete_def)
        then show ?thesis using q [OF A] by simp
      next
        case True
        obtain fds v where ins: "install (take (unat SCM_MAX_FD) (mg_files msg)) (h_world h3) = (fds, v)"
          by (cases "install (take (unat SCM_MAX_FD) (mg_files msg)) (h_world h3)")
        note I = install_new [OF ins]
        have len: "length fds \<le> unat SCM_MAX_FD" "unat (of_nat (length fds) :: u32) = length fds"
          using I by (simp_all add: SCM_MAX_FD_def unsigned_of_nat take_bit_nat_eq_self)
        let ?rx = "tx\<lparr>um_dir := RI_UXMSG_RX, um_data := take (unat (word_of_int r :: u64)) (mg_data msg) @
          drop (length (take (unat (word_of_int r :: u64)) (mg_data msg))) (um_data tx),
          um_fds := fds @ drop (length fds) (um_fds tx), um_n_fds := of_nat (length fds)\<rparr>"
        have e: "res = Some ?rx" "h' = h3\<lparr>h_world := v, h_in := rest\<rparr>"
          using assms p pos n Some a True h3 ins announced_size [OF i(2)] tx
          by (auto simp: ri_uxmsg_receive_def recvmsg_def Let_def)
        have o: "open_in (length fds) (fds @ x) = set fds" for x using I by (auto simp: open_in_def)
        obtain F where v: "v = h_world h3\<lparr>w_fds := F\<rparr>" using I by blast
        have fds: "\<forall>fd\<in>set fds. 0 \<le> fd \<and> map_of (w_fds (h_world h)) fd = None"
          "\<forall>fd. fd \<notin> set fds \<longrightarrow> map_of F fd = map_of (w_fds (h_world h)) fd"
          using I quietD(5) [OF A] unfolding v by simp_all
        then have "same_but (set fds) (h_world h) v" using quietD [OF A] by (simp add: same_but_def v)
        moreover have n: "unat (um_n_fds ?rx) = length fds" "um_fds ?rx = fds @ drop (length fds) (um_fds tx)" using len(2) by simp_all
        ultimately show ?thesis using fds(1) unfolding e option.case n o by (simp add: fresh_msg_def len(2))
      qed
    qed
  qed
qed

lemma request_held:
  assumes d: "request_to_group cls raw msg h = Some ((res, msg'), h')" and r: "fresh_msg w msg"
    and b: "same_but (open_in (unat (um_n_fds msg)) (um_fds msg)) w (h_world h)"
    and fd: "\<forall>fd\<in>set (take (unat (um_n_fds msg)) (um_fds msg)). 0 \<le> fd"
  shows "fresh_msg w msg' \<and> (case res of None \<Rightarrow> same_but (open_in (unat (um_n_fds msg')) (um_fds msg')) w (h_world h')
    | Some grp \<Rightarrow> mapped w (open_in (unat (um_n_fds msg')) (um_fds msg')) grp (h_world h'))"
proof -
  have "um_dir msg = RI_UXMSG_RX" using r by (simp add: fresh_msg_def)
  then obtain fds v where f: "ri_group_deserialize cls raw (um_data msg) (um_size msg) (um_fds msg) (Some (um_n_fds msg)) (h_world h) = Some ((res, fds), v)"
    and e: "msg' = msg\<lparr>um_fds := fds\<rparr>" "h' = h\<lparr>h_world := v\<rparr>"
    using d by (auto simp: request_to_group_def ri_uxmsg_data_def ri_uxmsg_fds_def on_world_def bind_eq_Some_conv)
  note D = deserialize_held [OF f b fd] and L = deserialize_length [OF f]
  have "\<forall>fd\<in>open_in (unat (um_n_fds msg)) fds. map_of (w_fds w) fd = None"
    using D by (auto simp: same_but_def mapped_def built_def group_fds_def split: option.splits)
  then show ?thesis using D L r unfolding e by (cases res) (auto simp: fresh_msg_def open_in_def)
qed

lemma quiet_response: "server_send_response res h = Some (r, h') \<Longrightarrow> quiet h h'"
  unfolding server_send_response_def ri_uxsocket_send_def by (rule quiet_sendmsg)

lemma mapped_quiet: "mapped w X grp (h_world h) \<Longrightarrow> quiet h h' \<Longrightarrow> mapped w X grp (h_world h')"
  unfolding mapped_def by (meson built_frame quietD)

lemma mapped_close: "mapped w X grp u \<Longrightarrow> map_of (w_fds w) fd = None \<Longrightarrow> mapped w (X - {fd}) grp (close_fd fd u)"
  unfolding mapped_def by (meson built_close)

text \<open>What a process in which descriptor 0 is open has after the request: a group, or what it had before.\<close>

lemma socket_accept_held:
  assumes a: "ri_server_socket_accept cls raw f h = Some (res, h')" and z: "map_of (w_fds (h_world h)) 0 \<noteq> None"
  shows "case res of None \<Rightarrow> same_objects (h_world h) (h_world h') | Some grp \<Rightarrow> mapped (h_world h) {} grp (h_world h')"
proof -
  let ?w = "h_world h"
  from a obtain req h1 where r: "ri_uxmsg_receive raw h = Some (req, h1)" by (auto simp: ri_server_socket_accept_def bind_eq_Some_conv)
  note R = receive_held [OF r]
  show ?thesis
  proof (cases req)
    case None
    then obtain x where "server_send_response (-1) h1 = Some (x, h')" "res = None"
      using a r by (auto simp: ri_server_socket_accept_def bind_eq_Some_conv)
    then show ?thesis using R None same_but_quiet [OF _ quiet_response] by (auto simp: same_but_none [symmetric])
  next
    case (Some msg)
    with a r obtain grp msg2 h2 where q: "request_to_group cls raw msg h1 = Some ((grp, msg2), h2)"
      by (auto simp: ri_server_socket_accept_def bind_eq_Some_conv)
    have Q: "fresh_msg ?w msg2 \<and> (case grp of None \<Rightarrow> same_but (open_in (unat (um_n_fds msg2)) (um_fds msg2)) ?w (h_world h2)
        | Some grp \<Rightarrow> mapped ?w (open_in (unat (um_n_fds msg2)) (um_fds msg2)) grp (h_world h2))"
      using request_held [OF q] R Some by simp
    have gone: "same_objects ?w (h_world g')"
      if "same_but (open_in (unat (um_n_fds msg2)) (um_fds msg2)) ?w (h_world g)" "ri_uxmsg_delete msg2 g = Some g1"
        "server_send_response (-1) g1 = Some (x, g')" for g g1 x g'
      using delete_received [where B = "\<lambda>X. same_but X ?w", OF same_but_close that(1) _ z] Q that(2)
        same_but_quiet [OF _ quiet_response [OF that(3)]] by (auto simp: same_but_none [symmetric])
    show ?thesis
    proof (cases grp)
      case None
      then obtain g1 x where "ri_uxmsg_delete msg2 h2 = Some g1" "server_send_response (-1) g1 = Some (x, h')" "res = None"
        using a r Some q by (auto simp: ri_server_socket_accept_def bind_eq_Some_conv)
      then show ?thesis using gone Q None by auto
    next
      case grp: (Some g)
      obtain accepted where f: "filter_accepts f g = Some accepted"
        using a r Some q grp by (auto simp: ri_server_socket_accept_def bind_eq_Some_conv)
      show ?thesis
      proof (cases accepted)
        case True
        then obtain x h3 where s: "server_send_response 0 h2 = Some (x, h3)" "ri_uxmsg_delete msg2 h3 = Some h'" "res = Some g"
          using a r Some q grp f by (auto simp: ri_server_socket_accept_def bind_eq_Some_conv)
        have "mapped ?w (open_in (unat (um_n_fds msg2)) (um_fds msg2)) g (h_world h3)"
          using mapped_quiet [OF _ quiet_response [OF s(1)]] Q grp by simp
        from delete_received [where B = "\<lambda>X. mapped ?w X g", OF mapped_close this _ z] show ?thesis using Q s(2,3) by auto
      next
        case False
        then obtain h3 g1 x where s: "delete_group g h2 = Some h3" "ri_uxmsg_delete msg2 h3 = Some g1"
          "server_send_response (-1) g1 = Some (x, h')" "res = None"
          using a r Some q grp f by (auto simp: ri_server_socket_accept_def bind_eq_Some_conv)
        have "same_but (open_in (unat (um_n_fds msg2)) (um_fds msg2)) ?w (h_world h3)"
          using delete_mapped [of ?w _ g "h_world h2"] Q grp s(1) by (auto simp: delete_group_def)
        then show ?thesis using gone s by auto
      qed
    qed
  qed
qed

text \<open>A descriptor that was opened before the group can be closed under it.\<close>

lemma built_without:
  assumes b: "built w0 i P C {} u" and o: "map_of (w_fds w0) = (map_of (w_fds w))(sk \<mapsto> n)" "map_of (w_fds w) sk = None"
    and same: "w_shms w0 = w_shms w" "w_producers w0 = w_producers w" "w_consumers w0 = w_consumers w" "w_caches w0 = w_caches w"
  shows "built w i P C {} (close_fd sk u)"
proof -
  have v: "w_shms (close_fd sk u) = w_shms u" "w_producers (close_fd sk u) = w_producers u"
    "w_consumers (close_fd sk u) = w_consumers u" "w_caches (close_fd sk u) = w_caches u"
    by (simp_all add: close_fd_def)
  have G: "group_fds i P C {} (close_fd sk u) = group_fds i P C {} u" using v by (simp add: group_fds_def)
  have "map_of (w_fds w) fd = None" if "fd \<in> group_fds i P C {} u" for fd
    using b that o by (auto simp: built_def split: if_splits)
  moreover have "map_of (w_fds (close_fd sk u)) fd = map_of (w_fds w) fd" if "fd \<notin> group_fds i P C {} u" for fd
    using b that o by (simp add: built_def close_fd_map)
  ultimately show ?thesis using b unfolding built_def G by (simp add: v same)
qed

lemma accept_failed:
  assumes "ri_server_accept cls raw server f h = Some (None, h')" and "map_of (w_fds (h_world h)) 0 \<noteq> None"
  shows "same_objects (h_world h) (h_world h')"
proof -
  obtain sk h1 where s: "new_socket h = (sk, h1)" by (cases "new_socket h")
  note S = new_socket_resources [OF s]
  show ?thesis
  proof (cases "sk < 0")
    case True
    then show ?thesis using assms(1) s S by (simp add: ri_server_accept_def same_objects_def)
  next
    case False
    then obtain h2 where a: "ri_server_socket_accept cls raw f h1 = Some (None, h2)" "h' = close_host sk h2"
      using assms(1) s by (auto simp: ri_server_accept_def bind_eq_Some_conv)
    have "map_of (w_fds (h_world h1)) 0 \<noteq> None" using S False assms(2) by simp
    from socket_accept_held [OF a(1) this] show ?thesis using S False a(2)
      by (auto simp: same_objects_def close_host_def close_fd_map) (simp_all add: close_fd_def)
  qed
qed

section \<open>Properties\<close>

text \<open>
  C11. A server that accepts no group from a connection (nothing arrives, the message is malformed, a descriptor is missing or of the
  wrong kind, a channel cannot be made, the filter refuses) is left with what it had before: the socket and every
  descriptor of the message are closed, and what was made of the group is deleted. Descriptor 0 must be open before; when it is not,
  it may be kept (\<open>descriptor_zero_kept\<close>). The one exception is the mapping that stays when the received memory could not be
  locked (\<open>mlock\<close> in \<open>ri_shm_map\<close>).
\<close>

theorem failed_accept_keeps_nothing:
  assumes "ri_server_accept cls raw server f h = Some (None, h')" and "map_of (w_fds (h_world h)) 0 \<noteq> None"
  shows "given_back (h_world h) (h_world h')"
  by (rule given_backI [OF accept_failed [OF assms] lossy_accept [OF assms(1)]])

text \<open>Two pipes arrive with three bytes that are no request.\<close>

definition stray_host :: host where
  "stray_host = \<lparr>h_world = empty_world\<lparr>w_files := [Other_File ''tty'', Other_File ''pipe''], w_fds := [(0, 0)]\<rparr>,
     h_in = [\<lparr>mg_data = [1, 2, 3], mg_files = [1, 1]\<rparr>], h_sent = [], h_paths = []\<rparr>"

lemma stray_refused: "case ri_server_accept 64 zeros \<lparr>sv_sockfd = 0, sv_path = []\<rparr> None stray_host of
     Some (None, h) \<Rightarrow> map mg_data (h_sent h) = [[255, 255, 255, 255]] \<and> h_in h = [] | _ \<Rightarrow> False"
  by code_simp

theorem failed_accept_keeps_nothing_witness:
  "\<exists>h. ri_server_accept 64 zeros \<lparr>sv_sockfd = 0, sv_path = []\<rparr> None stray_host = Some (None, h) \<and> h_in h = [] \<and>
     map_of (w_fds (h_world h)) = [0 \<mapsto> 0]"
proof -
  obtain h where h: "ri_server_accept 64 zeros \<lparr>sv_sockfd = 0, sv_path = []\<rparr> None stray_host = Some (None, h)" "h_in h = []"
    using stray_refused by (auto split: option.splits)
  from failed_accept_keeps_nothing [OF h(1)] have "map_of (w_fds (h_world h)) = [0 \<mapsto> 0]"
    by (simp add: given_back_def same_objects_def stray_host_def empty_world_def)
  with h show ?thesis by blast
qed

text \<open>An accepted group comes from the request, and the filter has accepted it.\<close>

lemma accepted_request:
  assumes "ri_server_socket_accept cls raw f h = Some (Some grp, h')"
  shows "filter_accepts f grp = Some True \<and> (\<exists>m h1 req h2. request_to_group cls raw m h1 = Some ((Some grp, req), h2))"
proof -
  from assms obtain req h1 where r: "ri_uxmsg_receive raw h = Some (req, h1)" by (auto simp: ri_server_socket_accept_def bind_eq_Some_conv)
  note a = assms [unfolded ri_server_socket_accept_def r, simplified]
  show ?thesis
  proof (cases req)
    case (Some m)
    with a obtain res req2 h2 where q: "request_to_group cls raw m h1 = Some ((res, req2), h2)"
      by (cases "request_to_group cls raw m h1") auto
    have "res = Some grp \<and> filter_accepts f grp = Some True" using a Some q
      by (cases res) (auto simp: bind_eq_Some_conv split: if_split_asm)
    then show ?thesis using q by blast
  qed (use a in \<open>auto simp: bind_eq_Some_conv\<close>)
qed

lemma accepted_mapped:
  assumes "ri_server_accept cls raw server f h = Some (Some grp, h1)" and "map_of (w_fds (h_world h)) 0 \<noteq> None"
  shows "mapped (h_world h) {} grp (h_world h1)"
proof -
  obtain sk g where s: "new_socket h = (sk, g)" by (cases "new_socket h")
  note S = new_socket_resources [OF s]
  obtain g1 where a: "ri_server_socket_accept cls raw f g = Some (Some grp, g1)" "h1 = close_host sk g1" and sk: "\<not> sk < 0"
    using assms(1) s by (auto simp: ri_server_accept_def bind_eq_Some_conv split: if_splits)
  have z: "map_of (w_fds (h_world g)) 0 \<noteq> None" using S sk assms(2) by simp
  have "mapped (h_world h) {} grp (close_fd sk (h_world g1))"
    using socket_accept_held [OF a(1) z] built_without [of "h_world g" _ _ _ "h_world g1" "h_world h" sk] S sk
    unfolding mapped_def by fastforce
  then show ?thesis by (simp add: a(2) close_host_def)
qed

lemma accepted_calm: "ri_server_accept cls raw server f h = Some (Some grp, h1) \<Longrightarrow> calm (h_world h) (h_world h1)"
  by (drule lossy_accept) simp

text \<open>
  Deleting the group that \<open>ri_server_accept\<close> returned, before any of its channels is acquired, is defined and gives back
  everything that came with it; descriptor 0 must have been open before.
\<close>

theorem accepted_group_deleted:
  assumes "ri_server_accept cls raw server f h = Some (Some grp, h1)" and "map_of (w_fds (h_world h)) 0 \<noteq> None"
  shows "\<exists>h2. delete_group grp h1 = Some h2 \<and> same_resources (h_world h) (h_world h2)"
proof -
  obtain v where v: "ri_group_delete grp (h_world h1) = Some v" "same_objects (h_world h) v"
    using delete_mapped [OF accepted_mapped [OF assms]] by (auto simp: same_but_none)
  then show ?thesis using same_resourcesI [OF v(2) calm_trans [OF accepted_calm [OF assms(1)] calm_group_delete [OF v(1)]]]
    by (simp add: delete_group_def)
qed

text \<open>The server of \<open>server_host\<close> with a terminal.\<close>

definition terminal_host :: "host \<Rightarrow> host" where
  "terminal_host h = \<lparr>h_world = empty_world\<lparr>w_files := w_files (h_world h) @ [Other_File ''tty''], w_fds := [(0, length (w_files (h_world h)))]\<rparr>,
     h_in = [last (h_sent h)], h_sent = [], h_paths = []\<rparr>"

lemma accepted_with_terminal:
  "case ri_client_socket_connect 64 zeros two_channels client_host of Some (Some grp, h) \<Rightarrow>
     (case ri_server_accept 64 zeros \<lparr>sv_sockfd = 0, sv_path = []\<rparr> None (terminal_host h) of Some (Some grp', k) \<Rightarrow>
        length (w_fds (h_world k)) = 3
      | _ \<Rightarrow> False)
   | _ \<Rightarrow> False"
  by code_simp

theorem accepted_group_deleted_witness:
  "\<exists>h grp k k'. ri_server_accept 64 zeros \<lparr>sv_sockfd = 0, sv_path = []\<rparr> None (terminal_host h) = Some (Some grp, k) \<and>
     length (w_fds (h_world k)) = 3 \<and> delete_group grp k = Some k' \<and> dom (map_of (w_fds (h_world k'))) = {0}"
proof -
  obtain h grp k where a: "ri_server_accept 64 zeros \<lparr>sv_sockfd = 0, sv_path = []\<rparr> None (terminal_host h) = Some (Some grp, k)"
    "length (w_fds (h_world k)) = 3"
    using accepted_with_terminal unfolding connected_case by blast
  from accepted_group_deleted [OF a(1)] obtain k' where "delete_group grp k = Some k'" "dom (map_of (w_fds (h_world k'))) = {0}"
    by (auto simp: same_resources_def same_objects_def terminal_host_def empty_world_def)
  with a show ?thesis by blast
qed

end
