(* ===== verification/Group_Users.thy ===== *)
theory Group_Users
  imports Accept_Properties
begin

text \<open>
  A group and its users over a whole life: channels are acquired, used and released in any order, the group is deleted while
  some are still in use, eventfds are taken over and closed. Nothing is freed too early and nothing is left in the end.
\<close>

section \<open>What the users do\<close>

text \<open>
  \<open>handled grp w g P C E u\<close>: from \<open>w\<close> on, with the group \<open>grp\<close>, the calls made have led to \<open>u\<close>; \<open>g\<close>: the group has not
  been deleted; the users have the producers \<open>P\<close>, the consumers \<open>C\<close> and the descriptors \<open>E\<close>. The last two rules are the peer, which
  may write anything into the files, and a call of the process that has nothing to do with the group.
\<close>

inductive handled :: "ri_group \<Rightarrow> world \<Rightarrow> bool \<Rightarrow> nat set \<Rightarrow> nat set \<Rightarrow> int set \<Rightarrow> world \<Rightarrow> bool" for grp w where
  created: "handled grp w True {} {} {} w"
| consumer_acquired: "handled grp w True P C E u \<Longrightarrow> ri_group_acquire_consumer grp index u = Some (res, v) \<Longrightarrow>
    handled grp w True P (C \<union> set_option res) E v"
| producer_acquired: "handled grp w True P C E u \<Longrightarrow> ri_group_acquire_producer grp index u = Some (res, v) \<Longrightarrow>
    handled grp w True (P \<union> set_option res) C E v"
| popped: "handled grp w g P C E u \<Longrightarrow> c \<in> C \<Longrightarrow> ri_consumer_pop c u = Some (r, v) \<Longrightarrow> handled grp w g P C E v"
| flushed: "handled grp w g P C E u \<Longrightarrow> c \<in> C \<Longrightarrow> ri_consumer_flush c u = Some (r, v) \<Longrightarrow> handled grp w g P C E v"
| force_pushed: "handled grp w g P C E u \<Longrightarrow> p \<in> P \<Longrightarrow> ri_producer_force_push p u = Some (fr, v) \<Longrightarrow> handled grp w g P C E v"
| tried_push: "handled grp w g P C E u \<Longrightarrow> p \<in> P \<Longrightarrow> ri_producer_try_push p u = Some (tr, v) \<Longrightarrow> handled grp w g P C E v"
| consumer_eventfd_taken: "handled grp w g P C E u \<Longrightarrow> c \<in> C \<Longrightarrow> ri_consumer_take_eventfd c u = Some (fd, v) \<Longrightarrow>
    handled grp w g P C (E \<union> {fd} \<inter> {0..}) v"
| producer_eventfd_taken: "handled grp w g P C E u \<Longrightarrow> p \<in> P \<Longrightarrow> ri_producer_take_eventfd p u = Some (fd, v) \<Longrightarrow>
    handled grp w g P C (E \<union> {fd} \<inter> {0..}) v"
| closed: "handled grp w g P C E u \<Longrightarrow> fd \<in> E \<Longrightarrow> handled grp w g P C (E - {fd}) (close_fd fd u)"
| consumer_released: "handled grp w g P C E u \<Longrightarrow> c \<in> C \<Longrightarrow> ri_consumer_release c u = Some v \<Longrightarrow> handled grp w g P (C - {c}) E v"
| producer_released: "handled grp w g P C E u \<Longrightarrow> p \<in> P \<Longrightarrow> ri_producer_release p u = Some v \<Longrightarrow> handled grp w g (P - {p}) C E v"
| group_deleted: "handled grp w True P C E u \<Longrightarrow> ri_group_delete grp u = Some v \<Longrightarrow> handled grp w False P C E v"
| peer_wrote: "handled grp w g P C E u \<Longrightarrow> handled grp w g P C E (u\<lparr>w_files := fs\<rparr>)"
| called: "handled grp w g P C E u \<Longrightarrow> ask u = (ok, v) \<Longrightarrow> handled grp w g P C E v"

section \<open>Using a channel\<close>

text \<open>The channels and what they hold are the same.\<close>

definition consumer_handle :: "ri_consumer \<Rightarrow> nat \<times> int \<times> u32" where
  "consumer_handle x = (cn_shm x, cn_eventfd x, cn_owners x)"

definition producer_handle :: "ri_producer \<Rightarrow> nat \<times> int \<times> u32 \<times> nat option" where
  "producer_handle x = (pr_shm x, pr_eventfd x, pr_owners x, pr_cache x)"

definition same_handles :: "nat set \<Rightarrow> nat set \<Rightarrow> world \<Rightarrow> world \<Rightarrow> bool" where
  "same_handles P C u v \<longleftrightarrow> calm u v \<and> w_fds v = w_fds u \<and> w_shms v = w_shms u \<and> w_caches v = w_caches u \<and>
     (\<forall>j. map_option consumer_handle (live (w_consumers v) j) = map_option consumer_handle (live (w_consumers u) j)) \<and>
     (\<forall>j. j \<notin> C \<longrightarrow> live (w_consumers v) j = live (w_consumers u) j) \<and>
     (\<forall>j. map_option producer_handle (live (w_producers v) j) = map_option producer_handle (live (w_producers u) j)) \<and>
     (\<forall>j. j \<notin> P \<longrightarrow> live (w_producers v) j = live (w_producers u) j)"

lemma same_handles_refl: "same_handles P C u u"
  by (simp add: same_handles_def)

lemma same_handles_trans: "same_handles P C u v \<Longrightarrow> same_handles P C v x \<Longrightarrow> same_handles P C u x"
  unfolding same_handles_def using calm_trans by auto

lemma same_handles_mono: "same_handles P C u v \<Longrightarrow> P \<subseteq> P' \<Longrightarrow> C \<subseteq> C' \<Longrightarrow> same_handles P' C' u v"
  unfolding same_handles_def by blast

lemma same_handles_files: "same_handles P C u (u\<lparr>w_files := fs\<rparr>)"
  by (simp add: same_handles_def)

lemma same_handles_called: "ask u = (ok, v) \<Longrightarrow> same_handles P C u v"
  by (auto simp: ask_def same_handles_def calm_def)

text \<open>A step that only changes files.\<close>

definition files_only :: "world \<Rightarrow> world \<Rightarrow> bool" where
  "files_only u v \<longleftrightarrow> (\<exists>fs. v = u\<lparr>w_files := fs\<rparr>)"

lemma files_only_refl [simp]: "files_only u u"
  unfolding files_only_def by (rule exI [of _ "w_files u"]) simp

lemma files_only_update [simp]: "files_only u (u\<lparr>w_files := fs\<rparr>)"
  unfolding files_only_def by blast

lemma files_only_handles: "files_only u v \<Longrightarrow> same_handles P C u v"
  and files_only_objects: "files_only u v \<Longrightarrow> w_consumers v = w_consumers u" "files_only u v \<Longrightarrow> w_producers v = w_producers u"
  by (auto simp: files_only_def same_handles_files)

lemma eventfd_read_files: "eventfd_read fd u = Some (r, v) \<Longrightarrow> files_only u v"
  by (auto simp: eventfd_read_def split: option.splits kernel_file.splits if_splits)

lemma eventfd_write_files: "eventfd_write fd u = Some v \<Longrightarrow> files_only u v"
  by (auto simp: eventfd_write_def split: option.splits kernel_file.splits if_splits)

lemma consumer_queue_op_handles:
  assumes "consumer_queue_op i x f u = Some (r, v)" and "live (w_consumers u) i = Some x"
  shows "same_handles {} {i} u v"
  using assms live_Some_length [OF assms(2)]
  by (auto simp: consumer_queue_op_def bind_eq_Some_conv same_handles_def consumer_handle_def live_update dest!: on_words_frame)

lemma producer_queue_op_handles:
  assumes "producer_queue_op i x f u = Some (r, v)" and "live (w_producers u) i = Some x"
  shows "same_handles {i} {} u v"
  using assms live_Some_length [OF assms(2)]
  by (auto simp: producer_queue_op_def bind_eq_Some_conv same_handles_def producer_handle_def live_update dest!: on_words_frame)

lemma pop_handles:
  assumes "ri_consumer_pop i u = Some (r, v)"
  shows "same_handles {} {i} u v"
proof -
  from assms obtain x r1 u1 where x: "live (w_consumers u) i = Some x" and
    e: "(if cn_eventfd x \<ge> 0 then eventfd_read (cn_eventfd x) u else Some (0, u)) = Some (r1, u1)" and
    k: "(if cn_eventfd x \<ge> 0 \<and> r1 < 0 then
       Some (if ri_consumer_queue_msg (cn_queue x) \<noteq> None then RI_POP_RESULT_NO_UPDATE else RI_POP_RESULT_NO_MSG, u1)
     else consumer_queue_op i x (run (ri_consumer_queue_pop (cn_queue x))) u1) = Some (r, v)"
    by (auto simp: ri_consumer_pop_def bind_eq_Some_conv)
  have f: "files_only u u1" using e by (auto split: if_splits dest: eventfd_read_files)
  have "same_handles {} {i} u1 v"
    using k consumer_queue_op_handles [where u = u1] x files_only_objects [OF f] by (auto simp: same_handles_refl split: if_splits)
  then show ?thesis by (rule same_handles_trans [OF files_only_handles [OF f]])
qed

lemma pop_all_handles:
  assumes "pop_all i u = Some (r, v)"
  shows "same_handles {} {i} u v"
proof -
  have "same_handles {} {i} u (snd (r, v))"
  proof (rule pop_all.raw_induct [where P = "\<lambda>i u y. same_handles {} {i} u (snd y)", OF _ assms])
    fix rec i u and y :: "ri_pop_result \<times> world"
    assume IH: "\<And>i u y. rec i u = Some y \<Longrightarrow> same_handles {} {i} u (snd y)"
      and b: "ri_consumer_pop i u \<bind> (\<lambda>(r, w). if r = RI_POP_RESULT_SUCCESS then rec i w else Some (r, w)) = Some y"
    then obtain r1 u1 where p: "ri_consumer_pop i u = Some (r1, u1)"
      and k: "(if r1 = RI_POP_RESULT_SUCCESS then rec i u1 else Some (r1, u1)) = Some y" by (auto simp: bind_eq_Some_conv)
    have "same_handles {} {i} u1 (snd y)" using k IH [of i u1 y] by (auto simp: same_handles_refl split: if_splits)
    then show "same_handles {} {i} u (snd y)" by (rule same_handles_trans [OF pop_handles [OF p]])
  qed
  then show ?thesis by simp
qed

lemma flush_handles: "ri_consumer_flush i u = Some (r, v) \<Longrightarrow> same_handles {} {i} u v"
  by (auto simp: ri_consumer_flush_def bind_eq_Some_conv split: if_splits intro: pop_all_handles consumer_queue_op_handles)

lemma store_msg_files:
  assumes "store_msg x msg src u = Some v"
  shows "files_only u v"
proof -
  from assms obtain addr s where "msg = Some addr" "live (w_shms u) (pr_shm x) = Some s" by (auto simp: store_msg_def bind_eq_Some_conv)
  then show ?thesis using assms by (cases "w_files u ! s_file s") (auto simp: store_msg_def Let_def split: if_splits)
qed

lemma cache_write_files: "producer_cache_write x c u = Some v \<Longrightarrow> files_only u v"
  by (auto simp: producer_cache_write_def bind_eq_Some_conv Let_def split: if_splits dest: store_msg_files)

lemma run_on_files: "run_on i off n p u = Some (r, v) \<Longrightarrow> files_only u v"
  by (drule run_on_frame) (simp add: files_only_def)

lemma force_push_handles:
  assumes "ri_producer_force_push i u = Some (r, v)"
  shows "same_handles {i} {} u v"
proof -
  from assms obtain x u1 u2 where x: "live (w_producers u) i = Some x" and
    c: "(case pr_cache x of Some c \<Rightarrow> producer_cache_write x c u | None \<Rightarrow> Some u) = Some u1" and
    q: "producer_queue_op i x (run (ri_producer_queue_force_push (pr_queue x))) u1 = Some (r, u2)" and
    e: "(if pr_eventfd x \<ge> 0 \<and> r = RI_FORCE_PUSH_RESULT_SUCCESS then eventfd_write (pr_eventfd x) u2 else Some u2) = Some v"
    by (auto simp: ri_producer_force_push_def bind_eq_Some_conv)
  have f: "files_only u u1" using c by (auto split: option.splits dest: cache_write_files)
  have x1: "live (w_producers u1) i = Some x" using x files_only_objects [OF f] by simp
  have "files_only u2 v" using e by (auto split: if_splits dest: eventfd_write_files)
  from same_handles_trans [OF files_only_handles [OF f] same_handles_trans [OF producer_queue_op_handles [OF q x1] files_only_handles [OF this]]]
  show ?thesis .
qed

lemma try_push_handles:
  assumes "ri_producer_try_push i u = Some (r, v)"
  shows "same_handles {i} {} u v"
proof -
  from assms obtain x full u0 where x: "live (w_producers u) i = Some x" and
    f: "(case pr_cache x of Some c \<Rightarrow> run_on (pr_shm x) (pr_shm_offset x) (q_n_msgs (p_queue (pr_queue x))) (ri_producer_queue_full (pr_queue x)) u
       | None \<Rightarrow> Some (False, u)) = Some (full, u0)" and
    k: "(if full then Some (RI_TRY_PUSH_RESULT_FAIL, u0) else do {
       w \<leftarrow> (case pr_cache x of Some c \<Rightarrow> producer_cache_write x c u0 | None \<Rightarrow> Some u0);
       (r, w) \<leftarrow> producer_queue_op i x (run (ri_producer_queue_try_push (pr_queue x))) w;
       w \<leftarrow> (if pr_eventfd x \<ge> 0 \<and> r = RI_TRY_PUSH_RESULT_SUCCESS then eventfd_write (pr_eventfd x) w else Some w);
       Some (r, w) }) = Some (r, v)"
    by (auto simp: ri_producer_try_push_def bind_eq_Some_conv)
  have f0: "files_only u u0" using f by (auto split: option.splits dest: run_on_files)
  show ?thesis
  proof (cases full)
    case True
    then show ?thesis using k files_only_handles [OF f0] by simp
  next
    case False
    then obtain u1 u2 where c: "(case pr_cache x of Some c \<Rightarrow> producer_cache_write x c u0 | None \<Rightarrow> Some u0) = Some u1" and
      q: "producer_queue_op i x (run (ri_producer_queue_try_push (pr_queue x))) u1 = Some (r, u2)" and
      e: "(if pr_eventfd x \<ge> 0 \<and> r = RI_TRY_PUSH_RESULT_SUCCESS then eventfd_write (pr_eventfd x) u2 else Some u2) = Some v"
      using k by (auto simp: bind_eq_Some_conv)
    have f1: "files_only u0 u1" using c by (auto split: option.splits dest: cache_write_files)
    have x1: "live (w_producers u1) i = Some x" using x files_only_objects [OF f0] files_only_objects [OF f1] by simp
    have "files_only u2 v" using e by (auto split: if_splits dest: eventfd_write_files)
    from same_handles_trans [OF producer_queue_op_handles [OF q x1] files_only_handles [OF this]] show ?thesis
      using files_only_handles [OF f0] files_only_handles [OF f1] by (blast intro: same_handles_trans)
  qed
qed

section \<open>What is held\<close>

lemma handles_owners:
  assumes "\<forall>j. map_option h (live t' j) = map_option h (live t j)" and "\<And>x y. h x = h y \<Longrightarrow> Q x = Q y \<and> event x = event y \<and> owners x = owners y"
    and "\<forall>j. j \<notin> U \<longrightarrow> live t' j = live t j" and "U \<subseteq> dom M"
  shows "fds_in event S t' = fds_in event S t" and "shared_out Q owners objs M t \<Longrightarrow> shared_out Q owners objs M t'"
proof -
  have e: "(\<exists>x. live t' j = Some x \<and> R (Q x) (event x) (owners x)) \<longleftrightarrow> (\<exists>x. live t j = Some x \<and> R (Q x) (event x) (owners x))" for j R
    using assms(1) [rule_format, of j] by (cases "live t j"; cases "live t' j") (auto dest!: assms(2))
  show "fds_in event S t' = fds_in event S t" using e [of _ "\<lambda>m ev ow. ev = _"] by (simp add: fds_in_def)
  have "M c = None \<Longrightarrow> live t' c = live t c" for c using assms(3,4) by (cases "c \<in> U") auto
  then show "shared_out Q owners objs M t \<Longrightarrow> shared_out Q owners objs M t'"
    using e [of _ "\<lambda>m ev ow. m \<and> ow = owners_word _ _"] unfolding shared_out_def by simp
qed

lemma held_used:
  assumes "held w i k P PS C CS X u" and "same_handles P C u v"
  shows "held w i k P PS C CS X v"
proof -
  have e: "w_fds v = w_fds u" "w_shms v = w_shms u" "w_caches v = w_caches u" using assms(2) by (simp_all add: same_handles_def)
  have hc: "consumer_handle x = consumer_handle y \<Longrightarrow> consumer_side.uses i x = consumer_side.uses i y \<and> cn_eventfd x = cn_eventfd y \<and>
      cn_owners x = cn_owners y" for x y by (simp add: consumer_handle_def consumer_side.uses_def)
  have hp: "producer_handle x = producer_handle y \<Longrightarrow> producer_side.uses i x = producer_side.uses i y \<and> pr_eventfd x = pr_eventfd y \<and>
      pr_owners x = pr_owners y" for x y by (simp add: producer_handle_def producer_side.uses_def)
  note C = handles_owners [where h = consumer_handle and t' = "w_consumers v" and t = "w_consumers u" and U = C, OF _ hc]
    and P = handles_owners [where h = producer_handle and t' = "w_producers v" and t = "w_producers u" and U = P, OF _ hp]
  have F: "fds_in cn_eventfd S (w_consumers v) = fds_in cn_eventfd S (w_consumers u)"
    "fds_in pr_eventfd S (w_producers v) = fds_in pr_eventfd S (w_producers u)" for S
    using C(1) [where M = "shares_of C {}"] P(1) [where M = "shares_of P {}"] assms(2) by (simp_all add: same_handles_def)
  show ?thesis using assms C(2) P(2) unfolding held_def F by (simp add: same_handles_def kept_cong [OF e(2,1)])
qed

text \<open>An eventfd that is taken over belongs to no channel any more.\<close>

lemma fds_in_taken:
  assumes "live t c = Some x" and "c \<in> S" and "ev y = -1"
  shows "fds_in ev S t = fds_in ev S (t[c := Some y]) \<union> {ev x} \<inter> {0..}"
proof -
  have l: "live (t[c := Some y]) d = (if d = c then Some y else live t d)" for d using live_Some_length [OF assms(1)] by (simp add: live_update)
  have "fd \<in> fds_in ev S t \<longleftrightarrow> fd \<in> fds_in ev S (t[c := Some y]) \<union> {ev x} \<inter> {0..}" for fd
  proof (cases "fd < 0 \<or> fd = ev x")
    case False
    then have "(\<exists>z. live t d = Some z \<and> ev z = fd) \<longleftrightarrow> (\<exists>z. live (t[c := Some y]) d = Some z \<and> ev z = fd)" for d
      using assms(1,3) by (auto simp: l)
    then show ?thesis using False by (simp add: fds_in_def)
  qed (use assms in \<open>auto simp: fds_in_def\<close>)
  then show ?thesis by blast
qed

lemma shared_out_same_owners:
  assumes "shared_out Q owners objs M t" and "live t c = Some x" and "M c = Some (a, b)" and "Q y = Q x" and "owners y = owners x"
  shows "shared_out Q owners objs M (t[c := Some y])"
proof -
  have l: "live (t[c := Some y]) d = (if d = c then Some y else live t d)" for d using live_Some_length [OF assms(2)] by (simp add: live_update)
  have "M(c \<mapsto> (a, b)) = M" using assms(3) by auto
  then show ?thesis
    using shared_out_upd [OF assms(1), of c a b "t[c := Some y]" y a b] shared_outD [OF assms(1), of c a b] assms l
    by simp
qed

lemma held_consumer_eventfd:
  assumes h: "held w i k P PS C CS X u" and t: "ri_consumer_take_eventfd c u = Some (fd, v)" and c: "c \<in> C"
  shows "held w i k P PS C CS (X \<union> {fd} \<inter> {0..}) v"
proof -
  obtain x where x: "live (w_consumers u) c = Some x" "fd = cn_eventfd x"
    "v = u\<lparr>w_consumers := (w_consumers u)[c := Some (x\<lparr>cn_eventfd := -1\<rparr>)]\<rparr>"
    using t by (auto simp: ri_consumer_take_eventfd_def bind_eq_Some_conv)
  have F: "X \<union> {fd} \<inter> {0..} \<union> fds_in pr_eventfd (P \<union> PS) (w_producers v) \<union> fds_in cn_eventfd (C \<union> CS) (w_consumers v) =
      X \<union> fds_in pr_eventfd (P \<union> PS) (w_producers u) \<union> fds_in cn_eventfd (C \<union> CS) (w_consumers u)"
    using fds_in_taken [OF x(1), of "C \<union> CS" cn_eventfd "x\<lparr>cn_eventfd := -1\<rparr>"] c x(2,3) by auto
  have "shared_out (consumer_side.uses i) cn_owners (w_consumers w) (shares_of C CS) (w_consumers v)"
    using shared_out_same_owners [where M = "shares_of C CS", OF _ x(1) shares_of_user [OF c]] h x(3) by (simp add: held_def consumer_side.uses_def)
  moreover have "kept w i n F v = kept w i n F u" for n F by (rule kept_cong) (simp_all add: x(3))
  moreover have "w_producers v = w_producers u" "w_caches v = w_caches u" by (simp_all add: x(3))
  ultimately show ?thesis using h unfolding held_def F by simp
qed

lemma held_producer_eventfd:
  assumes h: "held w i k P PS C CS X u" and t: "ri_producer_take_eventfd p u = Some (fd, v)" and p: "p \<in> P"
  shows "held w i k P PS C CS (X \<union> {fd} \<inter> {0..}) v"
proof -
  obtain x where x: "live (w_producers u) p = Some x" "fd = pr_eventfd x"
    "v = u\<lparr>w_producers := (w_producers u)[p := Some (x\<lparr>pr_eventfd := -1\<rparr>)]\<rparr>"
    using t by (auto simp: ri_producer_take_eventfd_def bind_eq_Some_conv)
  have F: "X \<union> {fd} \<inter> {0..} \<union> fds_in pr_eventfd (P \<union> PS) (w_producers v) \<union> fds_in cn_eventfd (C \<union> CS) (w_consumers v) =
      X \<union> fds_in pr_eventfd (P \<union> PS) (w_producers u) \<union> fds_in cn_eventfd (C \<union> CS) (w_consumers u)"
    using fds_in_taken [OF x(1), of "P \<union> PS" pr_eventfd "x\<lparr>pr_eventfd := -1\<rparr>"] p x(2,3) by auto
  have "shared_out (producer_side.uses i) pr_owners (w_producers w) (shares_of P PS) (w_producers v)"
    using shared_out_same_owners [where M = "shares_of P PS", OF _ x(1) shares_of_user [OF p]] h x(3) by (simp add: held_def producer_side.uses_def)
  moreover have "kept w i n F v = kept w i n F u" for n F by (rule kept_cong) (simp_all add: x(3))
  moreover have "w_consumers v = w_consumers u" "w_caches v = w_caches u" by (simp_all add: x(3))
  ultimately show ?thesis using h unfolding held_def F by simp
qed

lemma held_close:
  assumes "held w i k P PS C CS X u" and "fd \<in> X"
  shows "held w i k P PS C CS (X - {fd}) (close_fd fd u)"
proof -
  have "w_consumers (close_fd fd u) = w_consumers u" "w_producers (close_fd fd u) = w_producers u" "w_caches (close_fd fd u) = w_caches u"
    by (simp_all add: close_fd_def)
  then show ?thesis using assms unfolding held_def by (auto intro!: kept_close)
qed

section \<open>The whole life\<close>

text \<open>What the life of a group keeps.\<close>

definition life_inv :: "world \<Rightarrow> nat \<Rightarrow> nat list \<Rightarrow> nat list \<Rightarrow> bool \<Rightarrow> nat set \<Rightarrow> nat set \<Rightarrow> int set \<Rightarrow> world \<Rightarrow> bool" where
  "life_inv w i ps cs g P C E u \<longleftrightarrow> P \<subseteq> set ps \<and> C \<subseteq> set cs \<and>
     held w i (of_bool g) P (if g then set ps else {}) C (if g then set cs else {}) E u"

lemma life_consumer_acquire:
  assumes g: "whole_group w i ps cs grp u0" and l: "life_inv w i ps cs True P C E u"
  shows "\<exists>res v. ri_group_acquire_consumer grp index u = Some (res, v) \<and> life_inv w i ps cs True P (C \<union> set_option res) E v \<and>
    set_option res \<inter> C = {}"
proof (cases "index < gd_n_consumers (gr_data grp)")
  case False
  then show ?thesis using l by (simp add: ri_group_acquire_consumer_def not_less)
next
  case True
  then have n: "unat index < length cs" using g by (simp add: whole_group_def word_less_nat_alt)
  obtain v where v: "ri_consumer_acquire (cs ! unat index) u = Some (if cs ! unat index \<in> C then -1 else 0, v)"
    "held w i 1 P (set ps) (insert (cs ! unat index) C) (set cs) E v"
    using held_consumer_acquire [of w i 1 P "set ps" C "set cs" E u "cs ! unat index"] l n by (auto simp: life_inv_def)
  show ?thesis using v l n True g
    by (auto simp: ri_group_acquire_consumer_def life_inv_def whole_group_def array_whole insert_absorb not_le)
qed

lemma life_producer_acquire:
  assumes g: "whole_group w i ps cs grp u0" and l: "life_inv w i ps cs True P C E u"
  shows "\<exists>res v. ri_group_acquire_producer grp index u = Some (res, v) \<and> life_inv w i ps cs True (P \<union> set_option res) C E v \<and>
    set_option res \<inter> P = {}"
proof (cases "index < gd_n_producers (gr_data grp)")
  case False
  then show ?thesis using l by (simp add: ri_group_acquire_producer_def not_less)
next
  case True
  then have n: "unat index < length ps" using g by (simp add: whole_group_def word_less_nat_alt)
  obtain v where v: "ri_producer_acquire (ps ! unat index) u = Some (if ps ! unat index \<in> P then -1 else 0, v)"
    "held w i 1 (insert (ps ! unat index) P) (set ps) C (set cs) E v"
    using held_producer_acquire [of w i 1 P "set ps" C "set cs" E u "ps ! unat index"] l n by (auto simp: life_inv_def)
  show ?thesis using v l n True g
    by (auto simp: ri_group_acquire_producer_def life_inv_def whole_group_def array_whole insert_absorb not_le)
qed

lemma life_consumer_release: "life_inv w i ps cs g P C E u \<Longrightarrow> c \<in> C \<Longrightarrow>
    \<exists>v. ri_consumer_release c u = Some v \<and> life_inv w i ps cs g P (C - {c}) E v"
  unfolding life_inv_def
  using held_consumer_release [of w i "of_bool g" P "if g then set ps else {}" C "if g then set cs else {}" E u c] by blast

lemma life_producer_release: "life_inv w i ps cs g P C E u \<Longrightarrow> p \<in> P \<Longrightarrow>
    \<exists>v. ri_producer_release p u = Some v \<and> life_inv w i ps cs g (P - {p}) C E v"
  unfolding life_inv_def
  using held_producer_release [of w i "of_bool g" P "if g then set ps else {}" C "if g then set cs else {}" E u p] by blast

lemma life_delete: "whole_group w i ps cs grp u0 \<Longrightarrow> life_inv w i ps cs True P C E u \<Longrightarrow>
    \<exists>v. ri_group_delete grp u = Some v \<and> life_inv w i ps cs False P C E v"
  using held_delete [of w i P ps C cs E u grp] by (auto simp: life_inv_def whole_group_def)

lemma life_used: "life_inv w i ps cs g P C E u \<Longrightarrow> same_handles P C u v \<Longrightarrow> life_inv w i ps cs g P C E v"
  unfolding life_inv_def using held_used by blast

lemma same_result: "\<exists>v. f = Some v \<and> Q v \<Longrightarrow> f = Some x \<Longrightarrow> Q x"
  by auto

lemma handled_held:
  assumes g: "whole_group w i ps cs grp w'" and h: "handled grp w' a P C E u"
  shows "life_inv w i ps cs a P C E u"
  using h
proof induction
  case created
  then show ?case using g built_held_by_group by (auto simp: life_inv_def whole_group_def)
next
  case (consumer_acquired P C E u index res v)
  then show ?case using life_consumer_acquire [OF g consumer_acquired.IH, of index] by auto
next
  case (producer_acquired P C E u index res v)
  then show ?case using life_producer_acquire [OF g producer_acquired.IH, of index] by auto
next
  case (consumer_released a P C E u c v)
  then show ?case using life_consumer_release by fastforce
next
  case (producer_released a P C E u p v)
  then show ?case using life_producer_release by fastforce
next
  case (group_deleted P C E u v)
  then show ?case using life_delete [OF g group_deleted.IH] by auto
next
  case (closed a P C E u fd)
  then show ?case by (auto simp: life_inv_def held_close)
next
  case (consumer_eventfd_taken a P C E u c fd v)
  then show ?case unfolding life_inv_def using held_consumer_eventfd by blast
next
  case (producer_eventfd_taken a P C E u p fd v)
  then show ?case unfolding life_inv_def using held_producer_eventfd by blast
qed (blast intro: life_used same_handles_files same_handles_called same_handles_mono dest: pop_handles flush_handles force_push_handles try_push_handles)+

text \<open>
  The calls that acquire and release channels, take eventfds over and delete the group are defined, no channel is given to a user
  while another has it, and the memory object of what they use is still there. Whether a pop, a push or a flush is defined also depends
  on the content of the files, which the peer can change; they are steps of \<open>handled\<close> when they are.
\<close>

definition calls_defined :: "ri_group \<Rightarrow> bool \<Rightarrow> nat set \<Rightarrow> nat set \<Rightarrow> world \<Rightarrow> bool" where
  "calls_defined grp g P C u \<longleftrightarrow>
     (g \<longrightarrow> ri_group_delete grp u \<noteq> None \<and>
       (\<forall>index. \<exists>res v. ri_group_acquire_consumer grp index u = Some (res, v) \<and> set_option res \<inter> C = {}) \<and>
       (\<forall>index. \<exists>res v. ri_group_acquire_producer grp index u = Some (res, v) \<and> set_option res \<inter> P = {})) \<and>
     (\<forall>c\<in>C. ri_consumer_release c u \<noteq> None \<and> ri_consumer_take_eventfd c u \<noteq> None \<and>
       (\<exists>x. live (w_consumers u) c = Some x \<and> live (w_shms u) (cn_shm x) \<noteq> None)) \<and>
     (\<forall>p\<in>P. ri_producer_release p u \<noteq> None \<and> ri_producer_take_eventfd p u \<noteq> None \<and>
       (\<exists>x. live (w_producers u) p = Some x \<and> live (w_shms u) (pr_shm x) \<noteq> None))"

lemma held_memory:
  assumes "held w i k P PS C CS X u" and "P \<noteq> {} \<or> C \<noteq> {}"
  shows "live (w_shms u) i \<noteq> None"
proof -
  have "finite (dom (shares_of P PS))" "finite (dom (shares_of C CS))" using assms(1) unfolding held_def shared_out_def by blast+
  then have "0 < card (P \<union> PS) + card (C \<union> CS)" using assms(2) by (auto simp: card_gt_0_iff)
  then show ?thesis using assms(1) by (auto simp: held_def kept_def referred_def)
qed

lemma life_defined:
  assumes g: "whole_group w i ps cs grp u0" and l: "life_inv w i ps cs a P C E u"
  shows "calls_defined grp a P C u"
proof -
  have h: "held w i (of_bool a) P (if a then set ps else {}) C (if a then set cs else {}) E u" using l by (simp add: life_inv_def)
  have m: "live (w_shms u) i \<noteq> None" if "P \<noteq> {} \<or> C \<noteq> {}" using held_memory [OF h that] .
  have hc: "\<exists>x. live (w_consumers u) c = Some x \<and> live (w_shms u) (cn_shm x) \<noteq> None" if "c \<in> C" for c
    using h shared_outD [of "consumer_side.uses i" cn_owners _ "shares_of C (if a then set cs else {})" "w_consumers u" c]
      shares_of_user [OF that] m that unfolding held_def consumer_side.uses_def by blast
  have hp: "\<exists>x. live (w_producers u) p = Some x \<and> live (w_shms u) (pr_shm x) \<noteq> None" if "p \<in> P" for p
    using h shared_outD [of "producer_side.uses i" pr_owners _ "shares_of P (if a then set ps else {})" "w_producers u" p]
      shares_of_user [OF that] m that unfolding held_def producer_side.uses_def by blast
  have d: "ri_group_delete grp u \<noteq> None" if a using life_delete [OF g, of P C E u] l that by auto
  have ac: "\<exists>res v. ri_group_acquire_consumer grp index u = Some (res, v) \<and> set_option res \<inter> C = {}" if a for index
    using life_consumer_acquire [OF g, of P C E u index] l that by auto
  have ap: "\<exists>res v. ri_group_acquire_producer grp index u = Some (res, v) \<and> set_option res \<inter> P = {}" if a for index
    using life_producer_acquire [OF g, of P C E u index] l that by auto
  have rc: "ri_consumer_release c u \<noteq> None" if "c \<in> C" for c using life_consumer_release [OF l that] by auto
  have rp: "ri_producer_release p u \<noteq> None" if "p \<in> P" for p using life_producer_release [OF l that] by auto
  have tc: "ri_consumer_take_eventfd c u \<noteq> None" if "c \<in> C" for c using hc [OF that] by (auto simp: ri_consumer_take_eventfd_def)
  have tp: "ri_producer_take_eventfd p u \<noteq> None" if "p \<in> P" for p using hp [OF that] by (auto simp: ri_producer_take_eventfd_def)
  show ?thesis unfolding calls_defined_def by (intro conjI impI ballI allI d ac ap rc tc hc rp tp hp)
qed

text \<open>The producers of the users have no cache, since none of the calls enables it.\<close>

lemma handled_uncached:
  assumes "whole_group w i ps cs grp w'" and "handled grp w' a P C E u" and "p \<in> P"
  shows "\<exists>x. live (w_producers u) p = Some x \<and> pr_cache x = None"
proof -
  have "held w i (of_bool a) P (if a then set ps else {}) C (if a then set cs else {}) E u"
    using handled_held [OF assms(1,2)] by (simp add: life_inv_def)
  then show ?thesis
    using shared_outD [of "producer_side.uses i" pr_owners _ "shares_of P (if a then set ps else {})" "w_producers u" p]
      shares_of_user [OF assms(3)] unfolding held_def producer_side.uses_def by blast
qed

lemma handled_files: "handled grp w g P C E u \<Longrightarrow> files_only u v \<Longrightarrow> handled grp w g P C E v"
  unfolding files_only_def using peer_wrote by blast

lemma life_over: "life_inv w i ps cs False {} {} {} u \<Longrightarrow> same_objects w u"
  by (simp add: life_inv_def held_nothing [of w i "{}", unfolded same_but_none])

lemma taken_calm: "ri_consumer_take_eventfd c u = Some (fd, v) \<Longrightarrow> calm u v" "ri_producer_take_eventfd p u = Some (fd, v) \<Longrightarrow> calm u v"
  by (auto simp: ri_consumer_take_eventfd_def ri_producer_take_eventfd_def bind_eq_Some_conv)

lemma acquired_calm: "ri_group_acquire_consumer grp index u = Some (res, v) \<Longrightarrow> calm u v"
    "ri_group_acquire_producer grp index u = Some (res, v) \<Longrightarrow> calm u v"
  by (auto simp: ri_group_acquire_consumer_def ri_group_acquire_producer_def bind_eq_Some_conv split: if_splits option.splits dest: calm_acquire)

lemma handled_calm: "handled grp w' g P C E u \<Longrightarrow> calm w' u"
proof (induction rule: handled.induct)
qed (auto simp: same_handles_def intro: calm_trans
    dest!: pop_handles flush_handles force_push_handles try_push_handles taken_calm acquired_calm calm_release calm_group_delete calm_ask)

lemma handled_group:
  assumes "whole_group w i ps cs grp w'" and "handled grp w' g P C E u"
  shows "calls_defined grp g P C u \<and> (\<not> g \<and> P = {} \<and> C = {} \<and> E = {} \<longrightarrow> same_resources w u)"
proof -
  have "calm w u" using assms(1) handled_calm [OF assms(2)] unfolding whole_group_def by (blast intro: calm_trans)
  then show ?thesis using handled_held [OF assms] life_defined [OF assms(1)] life_over same_resourcesI
    by (cases "\<not> g \<and> P = {} \<and> C = {} \<and> E = {}") auto
qed

section \<open>A group that was accepted has all its channels\<close>

definition complete :: "ri_group \<Rightarrow> bool" where
  "complete grp \<longleftrightarrow> (\<forall>arr. gr_consumers grp = Some arr \<or> gr_producers grp = Some arr \<longrightarrow> None \<notin> set arr)"

lemma array_complete: "array_holds arr n cs \<Longrightarrow> (\<And>a. arr = Some a \<Longrightarrow> None \<notin> set a) \<Longrightarrow> array_of arr n = Some (map Some cs) \<and> length cs = unat n"
  by (cases "n = 0") (auto simp: array_holds_def array_of_def)

lemma whole_mapped: "mapped w {} grp u \<Longrightarrow> calm w u \<Longrightarrow> complete grp \<Longrightarrow> \<exists>i ps cs. whole_group w i ps cs grp u"
  unfolding mapped_def whole_group_def complete_def using array_complete by blast

lemma map_channels_all: "map_channels mk cls attrs off idx fds n u = Some ((cs, True, rest), v) \<Longrightarrow> length cs = length attrs"
proof (induction attrs arbitrary: off idx fds u cs)
  case (Cons attr attrs)
  then show ?case by (fastforce simp: bind_eq_Some_conv Let_def split: if_splits prod.splits option.splits)
qed simp

lemma filled_complete: "array_holds arr n [] \<Longrightarrow> length cs = unat n \<Longrightarrow> filled arr cs = Some a \<Longrightarrow> None \<notin> set a"
  by (auto simp: array_holds_def filled_def split: if_splits)

lemma group_map_complete:
  assumes "ri_group_map cls grp fds n u = Some ((grp', True, fds'), v)"
    and "array_holds (gr_producers grp) (gd_n_producers (gr_data grp)) []" and "array_holds (gr_consumers grp) (gd_n_consumers (gr_data grp)) []"
  shows "complete grp'"
  using assms
  by (auto simp: ri_group_map_def bind_eq_Some_conv Let_def complete_def split: list.splits if_splits prod.splits option.splits
      dest!: map_channels_all table_attrs_length) (blast dest: filled_complete)+

lemma deserialize_complete:
  assumes "ri_group_deserialize cls raw req sz fds n u = Some ((Some grp, fds'), v)"
  shows "complete grp"
  using assms
  by (auto simp: ri_group_deserialize_def bind_eq_Some_conv Let_def split: option.splits if_splits prod.splits outcome.splits
      dest!: alloc_channels_frame group_map_complete)

lemma request_complete: "request_to_group cls raw req h = Some ((Some grp, req'), h') \<Longrightarrow> complete grp"
  by (auto simp: request_to_group_def on_world_def bind_eq_Some_conv Let_def split: prod.splits dest: deserialize_complete)

lemma socket_accept_complete: "ri_server_socket_accept cls raw f h = Some (Some grp, h') \<Longrightarrow> complete grp"
  using accepted_request request_complete by blast

lemma accept_complete: "ri_server_accept cls raw server f h = Some (Some grp, h') \<Longrightarrow> complete grp"
  by (auto simp: ri_server_accept_def bind_eq_Some_conv split: if_splits prod.splits dest: socket_accept_complete)

section \<open>Properties\<close>

text \<open>
  C15. However the channels of a group made by \<open>ri_group_from_attr\<close> are acquired, used and released, and whenever the group is
  deleted: acquiring a channel, releasing it, taking its eventfd over and deleting the group are defined in every state reached, no channel
  is handed out twice, the memory of a channel in use is mapped, and when everything has been released all resources, the mappings
  included, are as before the creation.
\<close>

theorem created_group_life:
  assumes "ri_group_from_attr cls raw attr w = Some (Some grp, w')" and "handled grp w' g P C E u"
  shows "calls_defined grp g P C u \<and> (\<not> g \<and> P = {} \<and> C = {} \<and> E = {} \<longrightarrow> same_resources w u)"
  by (rule creation_whole [OF assms(1)]) (rule handled_group [OF _ assms(2)])

text \<open>Acquire a consumer, delete the group, release the consumer.\<close>

definition short_life :: "ri_group \<Rightarrow> world \<Rightarrow> (nat \<times> world \<times> world) option" where
  "short_life grp w = do {
     (c, w) \<leftarrow> ri_group_acquire_consumer grp 0 w;
     c \<leftarrow> c;
     v \<leftarrow> ri_group_delete grp w;
     u \<leftarrow> ri_consumer_release c v;
     Some (c, v, u)
   }"

lemma short_life_handled:
  assumes "short_life grp w = Some (c, v, u)"
  shows "handled grp w False {} {c} {} v" and "handled grp w False {} {} {} u"
proof -
  from assms obtain w1 where a: "ri_group_acquire_consumer grp 0 w = Some (Some c, w1)" "ri_group_delete grp w1 = Some v"
    "ri_consumer_release c v = Some u" by (auto simp: short_life_def bind_eq_Some_conv)
  show 1: "handled grp w False {} {c} {} v" using group_deleted [OF consumer_acquired [OF created a(1)] a(2)] by simp
  show "handled grp w False {} {} {} u" using consumer_released [OF 1 _ a(3)] by simp
qed

lemma created_life:
  "case ri_group_from_attr 64 zeros event_group (failing_at 100) of
     Some (Some grp, w) \<Rightarrow> (case short_life grp w of Some (c, v, u) \<Rightarrow> length (w_fds w) = 4 \<and> length (w_fds v) = 3 | None \<Rightarrow> False)
   | _ \<Rightarrow> False"
  by code_simp

theorem created_group_life_witness:
  "\<exists>grp w c v u. ri_group_from_attr 64 zeros event_group (failing_at 100) = Some (Some grp, w) \<and> short_life grp w = Some (c, v, u) \<and>
     (\<exists>x. live (w_consumers v) c = Some x \<and> live (w_shms v) (cn_shm x) \<noteq> None) \<and> map_of (w_fds u) = [0 \<mapsto> 0]"
proof -
  obtain grp w c v u where g: "ri_group_from_attr 64 zeros event_group (failing_at 100) = Some (Some grp, w)"
    and l: "short_life grp w = Some (c, v, u)"
    using created_life by (auto split: option.splits)
  have "\<exists>x. live (w_consumers v) c = Some x \<and> live (w_shms v) (cn_shm x) \<noteq> None"
    using created_group_life [OF g short_life_handled(1) [OF l]] unfolding calls_defined_def by blast
  moreover have "map_of (w_fds u) = [0 \<mapsto> 0]"
    using created_group_life [OF g short_life_handled(2) [OF l]] by (simp add: same_resources_def same_objects_def failing_at_def empty_world_def)
  ultimately show ?thesis using g l by blast
qed

text \<open>
  C12. The same for a group that \<open>ri_server_accept\<close> returned, relative to the process before the connection was accepted;
  descriptor 0 must have been open then.
\<close>

theorem accepted_group_life:
  assumes "ri_server_accept cls raw server f h = Some (Some grp, h1)" and "map_of (w_fds (h_world h)) 0 \<noteq> None"
    and "handled grp (h_world h1) g P C E u"
  shows "calls_defined grp g P C u \<and> (\<not> g \<and> P = {} \<and> C = {} \<and> E = {} \<longrightarrow> same_resources (h_world h) u)"
  using whole_mapped [OF accepted_mapped [OF assms(1,2)] accepted_calm [OF assms(1)] accept_complete [OF assms(1)]]
  by (elim exE) (rule handled_group [OF _ assms(3)])

lemma accepted_life:
  "case ri_client_socket_connect 64 zeros two_channels client_host of Some (Some grp, h) \<Rightarrow>
     (case ri_server_accept 64 zeros \<lparr>sv_sockfd = 0, sv_path = []\<rparr> None (terminal_host h) of Some (Some grp', k) \<Rightarrow>
        (case short_life grp' (h_world k) of Some (c, v, u) \<Rightarrow> length (w_fds v) = 3 | None \<Rightarrow> False)
      | _ \<Rightarrow> False)
   | _ \<Rightarrow> False"
  by code_simp

theorem accepted_group_life_witness:
  "\<exists>h grp k c v u. ri_server_accept 64 zeros \<lparr>sv_sockfd = 0, sv_path = []\<rparr> None (terminal_host h) = Some (Some grp, k) \<and>
     short_life grp (h_world k) = Some (c, v, u) \<and> length (w_fds v) = 3 \<and> dom (map_of (w_fds u)) = {0}"
proof -
  obtain h grp k c v u where a: "ri_server_accept 64 zeros \<lparr>sv_sockfd = 0, sv_path = []\<rparr> None (terminal_host h) = Some (Some grp, k)"
    and l: "short_life grp (h_world k) = Some (c, v, u)" "length (w_fds v) = 3"
    using accepted_life unfolding connected_case by (auto split: option.splits)
  have "dom (map_of (w_fds u)) = {0}"
    using accepted_group_life [OF a _ short_life_handled(2) [OF l(1)]]
    by (auto simp: same_resources_def same_objects_def terminal_host_def empty_world_def)
  with a l show ?thesis by blast
qed

end
