(* ===== verification/Cxx_Properties.thy ===== *)
theory Cxx_Properties
  imports Cxx Handshake Group_Users
begin

text \<open>
  What the C++ wrapper promises: attributes survive the way through the C structures, and through a connection as well; a typed
  acquisition succeeds exactly when the type fits the message.
\<close>

section \<open>Attributes as values\<close>

text \<open>A table ends at its first channel without message.\<close>

definition effective :: "GroupAttributes \<Rightarrow> GroupAttributes" where
  "effective g = g\<lparr>consumers := takeWhile (\<lambda>a. message_size a \<noteq> 0) (consumers g),
     producers := takeWhile (\<lambda>a. message_size a \<noteq> 0) (producers g)\<rparr>"

text \<open>The length of a vector is a \<open>size_t\<close>.\<close>

definition vectors_fit :: "GroupAttributes \<Rightarrow> bool" where
  "vectors_fit g \<longleftrightarrow> length (group_info g) < 2 ^ 64 \<and> (\<forall>a\<in>set (consumers g @ producers g). length (channel_info a) < 2 ^ 64)"

lemma info_range_to_c: "length info < 2 ^ 64 \<Longrightarrow> info_range (to_c_info info) = Returns info"
  by (cases "info = []") (simp_all add: info_range_def to_c_info_def of_nat_inverse unat_eq_zero [symmetric])

lemma channel_from_to_c: "length (channel_info a) < 2 ^ 64 \<Longrightarrow>
    ChannelAttributes_from_c_attributes (to_c_channel_attributes a) = Returns a"
  by (simp add: ChannelAttributes_from_c_attributes_def to_c_channel_attributes_def info_range_to_c)

lemma table_from_to_c:
  assumes "\<forall>a\<in>set as. length (channel_info a) < 2 ^ 64"
  shows "from_c_channels (map to_c_channel_attributes as @ [channel_attr_zero]) = Returns (takeWhile (\<lambda>a. message_size a \<noteq> 0) as)"
  using assms
proof (induction as)
  case (Cons a as)
  have "a_msg_size (to_c_channel_attributes a) = message_size a" by (simp add: to_c_channel_attributes_def)
  then show ?case using Cons by (simp add: channel_from_to_c word_neq_0_conv)
qed (simp add: channel_attr_zero_def)

text \<open>Reading a C structure gives its content.\<close>

definition channel_of_content :: "u64 \<times> u32 \<times> bool \<times> u8 list \<Rightarrow> ChannelAttributes" where
  "channel_of_content = (\<lambda>(msg_size, add_msgs, eventfd, info).
     \<lparr>message_size = msg_size, additional_messages = add_msgs, with_eventfd = eventfd, channel_info = info\<rparr>)"

lemma and_then_ReturnsE: "and_then m f = Returns y \<Longrightarrow> (\<And>x. m = Returns x \<Longrightarrow> f x = Returns y \<Longrightarrow> P) \<Longrightarrow> P"
  by (cases m) simp_all

lemma info_range_content: "info_range i = Returns b \<Longrightarrow> b = info_bytes i"
  by (auto simp: info_range_def info_bytes_def split: if_splits option.splits)

lemma channel_content_read: "ChannelAttributes_from_c_attributes a = Returns x \<Longrightarrow> x = channel_of_content (channel_content a)"
  by (auto simp: ChannelAttributes_from_c_attributes_def channel_content_def channel_of_content_def
      elim!: and_then_ReturnsE dest: info_range_content)

lemma table_content_read: "from_c_channels as = Returns xs \<Longrightarrow> xs = map (channel_of_content \<circ> channel_content) (channels_of as)"
proof (induction as arbitrary: xs)
  case (Cons a as)
  then show ?case
    by (cases "a_msg_size a = 0") (auto simp: channels_of_def word_neq_0_conv elim!: and_then_ReturnsE dest: channel_content_read)
qed simp

lemma from_c_table_read: "from_c_table t = Returns xs \<Longrightarrow> xs = map (channel_of_content \<circ> channel_content) (table_of t)"
  by (auto simp: from_c_table_def table_of_def split: option.splits dest: table_content_read)

lemma group_content_read:
  assumes "GroupAttributes_from_c_attributes c = Returns g" and "group_content c = (info, cs, ps)"
  shows "g = \<lparr>consumers = map channel_of_content cs, producers = map channel_of_content ps, group_info = info\<rparr>"
  using assms
  by (auto simp: GroupAttributes_from_c_attributes_def group_content_def elim!: and_then_ReturnsE
      dest!: from_c_table_read info_range_content)

text \<open>And the content of the C structure made for a group is the group.\<close>

definition swapped :: "GroupAttributes \<Rightarrow> GroupAttributes" where
  "swapped g = g\<lparr>consumers := producers g, producers := consumers g\<rparr>"

lemma attributes_read:
  assumes "vectors_fit g"
  shows "GroupAttributes_from_c_attributes (CGroupAttributes g) = Returns (effective g)"
  using assms table_from_to_c [of "consumers g"] table_from_to_c [of "producers g"] info_range_to_c [of "group_info g"]
  by (simp add: GroupAttributes_from_c_attributes_def CGroupAttributes_def from_c_table_def vectors_fit_def effective_def)

lemma content_to_c:
  assumes "vectors_fit g" and "group_content (CGroupAttributes g) = (info, cs, ps)"
  shows "\<lparr>consumers = map channel_of_content cs, producers = map channel_of_content ps, group_info = info\<rparr> = effective g"
  using group_content_read [OF _ assms(2)] assms(1) attributes_read by simp

lemma Inr_expect: "Inr x = expect_pointer p \<longleftrightarrow> p = Some x" "expect_pointer p = Inr x \<longleftrightarrow> p = Some x"
  by (auto simp: expect_pointer_def split: option.splits)

section \<open>A new group\<close>

definition transmissible :: "GroupAttributes \<Rightarrow> bool" where
  "transmissible g \<longleftrightarrow> vectors_fit g \<and> portable (CGroupAttributes g) \<and> gapless (all_infos (CGroupAttributes g)) \<and>
     small_infos (all_infos (CGroupAttributes g))"

lemma own_consumer_entry:
  assumes "own_consumers data = Some as" and "unat index < length as"
  shows "\<exists>d. ri_group_data_get_consumer_attr data index = Returns (Some d) \<and> d_msg_size d = a_msg_size (as ! unat index)"
  using assms own_length(2) [OF assms(1)]
  by (auto simp: own_consumers_def table_attrs_def ri_group_data_get_consumer_attr_def attr_of_def word_less_nat_alt word_le_nat_alt
      split: option.splits if_splits)

lemma own_producer_entry:
  assumes "own_producers data = Some as" and "unat index < length as"
  shows "\<exists>d. ri_group_data_get_producer_attr data index = Returns (Some d) \<and> d_msg_size d = a_msg_size (as ! unat index)"
  using assms own_length(1) [OF assms(1)]
  by (auto simp: own_producers_def table_attrs_def ri_group_data_get_producer_attr_def attr_of_def word_less_nat_alt word_le_nat_alt
      split: option.splits if_splits)

text \<open>The channels of a new group: as many as asked for, with the size asked for, owned by the group alone.\<close>

definition new_consumer :: "world \<Rightarrow> nat \<Rightarrow> u64 \<Rightarrow> bool" where
  "new_consumer w c sz \<longleftrightarrow> (\<exists>x. live (w_consumers w) c = Some x \<and> cn_owners x = RI_OWNER_GROUP_FLAG \<and> ri_consumer_msg_size x = sz)"

definition new_producer :: "world \<Rightarrow> nat \<Rightarrow> u64 \<Rightarrow> bool" where
  "new_producer w p sz \<longleftrightarrow> (\<exists>x. live (w_producers w) p = Some x \<and> pr_owners x = RI_OWNER_GROUP_FLAG \<and> ri_producer_msg_size x = sz)"

lemma whole_owners:
  assumes "whole_group w i ps cs grp u"
  shows "c \<in> set cs \<Longrightarrow> \<exists>x. live (w_consumers u) c = Some x \<and> cn_owners x = RI_OWNER_GROUP_FLAG"
    and "p \<in> set ps \<Longrightarrow> \<exists>x. live (w_producers u) p = Some x \<and> pr_owners x = RI_OWNER_GROUP_FLAG"
  using assms unfolding whole_group_def built_def added_def plain_consumer_def plain_producer_def by blast+

lemma new_group_channels:
  assumes "transmissible g" and c: "ri_group_from_attr cls raw (CGroupAttributes g) w = Some (Some grp, w')"
  obtains pattrs cattrs ps cs where "own_producers (gr_data grp) = Some pattrs" and "own_consumers (gr_data grp) = Some cattrs"
    and "map a_msg_size cattrs = map message_size (consumers (effective g))"
    and "map a_msg_size pattrs = map message_size (producers (effective g))"
    and "consumers_of grp = Some (map Some cs)" and "producers_of grp = Some (map Some ps)"
    and "list_all2 (\<lambda>c a. new_consumer w' c (a_msg_size a)) cs cattrs" and "list_all2 (\<lambda>p a. new_producer w' p (a_msg_size a)) ps pattrs"
proof -
  let ?C = "CGroupAttributes g"
  have t: "vectors_fit g" "wf_group_attr ?C" "gapless (all_infos ?C)" "small_infos (all_infos ?C)"
    using assms(1) by (simp_all add: transmissible_def portable_def)
  note a = created_attributes [OF c t(2-4)]
  have "\<exists>pattrs cattrs. own_producers (gr_data grp) = Some pattrs \<and> map channel_content pattrs = map channel_content (table_of (g_producers ?C)) \<and>
      own_consumers (gr_data grp) = Some cattrs \<and> map channel_content cattrs = map channel_content (table_of (g_consumers ?C))"
    by (rule own_tables) (use a table_short [OF t(2)] in \<open>simp_all add: ri_group_get_attr_def group_content_def\<close>)
  then obtain pattrs cattrs where o: "own_producers (gr_data grp) = Some pattrs" "own_consumers (gr_data grp) = Some cattrs"
    "map channel_content pattrs = map channel_content (table_of (g_producers ?C))"
    "map channel_content cattrs = map channel_content (table_of (g_consumers ?C))" by blast
  have sizes: "map message_size (map channel_of_content (map channel_content as)) = map a_msg_size as" for as
    by (simp add: channel_of_content_def channel_content_def)
  have e: "consumers (effective g) = map channel_of_content (map channel_content cattrs)"
    "producers (effective g) = map channel_of_content (map channel_content pattrs)"
    using content_to_c [OF t(1), symmetric] o(3,4) by (simp_all add: group_content_def)
  from a o(1,2) obtain n pfds ps cfds cs where l: "laid_out cls w' grp n 0 pfds ps (shm_sizes cls pattrs) cfds cs" by auto
  obtain i base where p: "placed (producer_at cls i base w') cls pattrs 0 pfds ps"
    "placed (consumer_at cls i base w') cls cattrs (shm_sizes cls pattrs) cfds cs" by (rule laid_outE [OF l o(1,2)])
  note arr = laid_out_arrays [OF l]
  obtain j ps' cs' where g: "whole_group w j ps' cs' grp w'" by (rule creation_whole [OF c])
  then have "ps' = ps" "cs' = cs"
    using arr array_whole unfolding whole_group_def producers_of_def consumers_of_def by (metis inj_map_eq_map inj_Some option.inject)+
  note own = whole_owners [OF g [unfolded this]]
  have "list_all2 (\<lambda>c a. new_consumer w' c (a_msg_size a)) cs cattrs"
  proof (rule list_all2_all_nthI)
    fix k assume k: "k < length cs"
    then have "k < length cattrs" using placed_length [OF p(2)] by simp
    from placed_nth [OF p(2) this] own(1) [of "cs ! k"] k show "new_consumer w' (cs ! k) (a_msg_size (cattrs ! k))"
      by (auto simp: consumer_at_def new_consumer_def ri_consumer_msg_size_def ri_consumer_queue_msg_size_def ri_queue_init_def)
  qed (use placed_length [OF p(2)] in simp)
  moreover have "list_all2 (\<lambda>p a. new_producer w' p (a_msg_size a)) ps pattrs"
  proof (rule list_all2_all_nthI)
    fix k assume k: "k < length ps"
    then have "k < length pattrs" using placed_length [OF p(1)] by simp
    from placed_nth [OF p(1) this] own(2) [of "ps ! k"] k show "new_producer w' (ps ! k) (a_msg_size (pattrs ! k))"
      by (auto simp: producer_at_def new_producer_def ri_producer_msg_size_def ri_producer_queue_msg_size_def ri_queue_init_def)
  qed (use placed_length [OF p(1)] in simp)
  ultimately show ?thesis using that [OF o(1,2) _ _ arr(2,1)] sizes e by simp
qed

section \<open>Properties\<close>

text \<open>
  C29. What \<open>from_c_attributes\<close> reads from the C structure made for a group is the group again, except that each
  table is cut off at its first channel with message size 0.
\<close>

theorem attributes_roundtrip:
  assumes "vectors_fit g"
  shows "GroupAttributes_from_c_attributes (CGroupAttributes g) = Returns (effective g)"
  by (rule attributes_read [OF assms])

text \<open>A group whose second producer has no message.\<close>

definition cut_group :: GroupAttributes where
  "cut_group = \<lparr>consumers = [\<lparr>message_size = 8, additional_messages = 1, with_eventfd = False, channel_info = [7, 8]\<rparr>],
     producers = [\<lparr>message_size = 4, additional_messages = 0, with_eventfd = True, channel_info = []\<rparr>,
       \<lparr>message_size = 0, additional_messages = 0, with_eventfd = False, channel_info = []\<rparr>,
       \<lparr>message_size = 16, additional_messages = 0, with_eventfd = False, channel_info = []\<rparr>],
     group_info = [1, 2, 3]\<rparr>"

theorem attributes_roundtrip_witness:
  "\<exists>g. GroupAttributes_from_c_attributes (CGroupAttributes cut_group) = Returns g \<and> consumers g = consumers cut_group \<and>
     length (producers g) = 1 \<and> group_info g = [1, 2, 3]"
  using attributes_roundtrip [of cut_group] by (simp add: vectors_fit_def cut_group_def effective_def)

text \<open>
  C30. A server whose filter is \<open>f\<close> accepts the message a client has sent only when \<open>f\<close> holds for the attributes the client gave,
  with consumers and producers exchanged: the attributes pass unchanged through the C structures, the request, the
  socket and the group the server makes.
\<close>

theorem filter_sees_client:
  assumes "transmissible g" and "unat cls < 2 ^ 16"
    and "client_connect_socket cls raw g h = Some (Inr grp, h')" and "h_in k = last (h_sent h') # rest"
    and "Server_accept cls raw' server f k = Some (Inr grp', k')"
  shows "f (swapped (effective g))"
proof -
  have c: "ri_client_socket_connect cls raw (CGroupAttributes g) h = Some (Some grp, h')"
    using assms(3) by (auto simp: client_connect_socket_def bind_eq_Some_conv Inr_expect)
  obtain sk k1 where n: "new_socket k = (sk, k1)" by (cases "new_socket k")
  obtain k2 where a: "ri_server_socket_accept cls raw' (Some (filter_callback f)) k1 = Some (Some grp', k2)"
    using assms(5) n by (auto simp: Server_accept_def ri_server_accept_def bind_eq_Some_conv Inr_expect split: if_splits)
  have "h_in k1 = h_in k" using n by (auto simp: new_socket_def ask_host_def Let_def split: if_splits prod.splits)
  then have i: "h_in k1 = last (h_sent h') # rest" using assms(4) by simp
  obtain info cs ps where g: "group_content (CGroupAttributes g) = (info, cs, ps)" by (cases "group_content (CGroupAttributes g)")
  have t: "vectors_fit g" "portable (CGroupAttributes g)" "gapless (all_infos (CGroupAttributes g))" "small_infos (all_infos (CGroupAttributes g))"
    using assms(1) by (simp_all add: transmissible_def)
  have s: "group_content (ri_group_get_attr grp') = (info, ps, cs)"
    using handshake_agrees [OF t(2-4) assms(2) c i a] g by auto
  obtain seen where seen: "GroupAttributes_from_c_attributes (ri_group_get_attr grp') = Returns seen" "f seen"
    using accepted_request [OF a] by (auto simp: filter_accepts_def filter_callback_def split: outcome.splits elim!: and_then_ReturnsE)
  have "seen = swapped (effective g)" using group_content_read [OF seen(1) s] content_to_c [OF t(1) g, symmetric] by (simp add: swapped_def)
  then show ?thesis using seen(2) by simp
qed

text \<open>The filter asks for one consumer of four bytes; the client has a producer like that.\<close>

definition two_way_group :: GroupAttributes where
  "two_way_group = \<lparr>consumers = [\<lparr>message_size = 8, additional_messages = 1, with_eventfd = False, channel_info = []\<rparr>],
     producers = [\<lparr>message_size = 4, additional_messages = 0, with_eventfd = True, channel_info = []\<rparr>], group_info = []\<rparr>"

definition four_byte_filter :: Filter where
  "four_byte_filter g = (map message_size (consumers g) = [4])"

lemma two_way_connects:
  "case client_connect_socket 64 zeros two_way_group client_host of Some (Inr grp, h) \<Rightarrow>
     (case Server_accept 64 zeros \<lparr>sv_sockfd = 0, sv_path = []\<rparr> four_byte_filter (terminal_host h) of Some (Inr grp', k) \<Rightarrow> True | _ \<Rightarrow> False)
   | _ \<Rightarrow> False"
  by code_simp

lemma expected_case: "(case x of Some (Inr a, b) \<Rightarrow> P a b | _ \<Rightarrow> False) \<longleftrightarrow> (\<exists>a b. x = Some (Inr a, b) \<and> P a b)"
  by (auto split: option.splits sum.splits)

lemma two_way_transmissible: "transmissible two_way_group"
proof -
  note defs = two_way_group_def CGroupAttributes_def to_c_channel_attributes_def to_c_info_def channel_attr_zero_def info_zero_def
    table_of_def channels_of_def
  have "vectors_fit two_way_group" by (simp add: vectors_fit_def two_way_group_def)
  moreover have "portable (CGroupAttributes two_way_group)"
    by (simp add: portable_def defs wf_group_attr_def wf_info_def wf_table_def request_len_def table_bytes_def infos_bytes_def info_bytes_def)
  moreover have "gapless (all_infos (CGroupAttributes two_way_group))" by code_simp
  moreover have "small_infos (all_infos (CGroupAttributes two_way_group))" by (simp add: small_infos_def all_infos_def defs)
  ultimately show ?thesis by (simp add: transmissible_def)
qed

theorem filter_sees_client_witness:
  "\<exists>grp h grp' k. client_connect_socket 64 zeros two_way_group client_host = Some (Inr grp, h) \<and>
     Server_accept 64 zeros \<lparr>sv_sockfd = 0, sv_path = []\<rparr> four_byte_filter (terminal_host h) = Some (Inr grp', k) \<and>
     four_byte_filter (swapped (effective two_way_group))"
proof -
  obtain grp h grp' k where c: "client_connect_socket 64 zeros two_way_group client_host = Some (Inr grp, h)"
    "Server_accept 64 zeros \<lparr>sv_sockfd = 0, sv_path = []\<rparr> four_byte_filter (terminal_host h) = Some (Inr grp', k)"
    using two_way_connects unfolding expected_case by blast
  have "h_in (terminal_host h) = last (h_sent h) # []" by (simp add: terminal_host_def)
  from filter_sees_client [OF two_way_transmissible _ c(1) this c(2)] show ?thesis using c by auto
qed


text \<open>The size of the messages of an acquired channel.\<close>

definition consumer_size :: "world \<Rightarrow> nat \<Rightarrow> u64 option" where
  "consumer_size w c = map_option ri_consumer_msg_size (live (w_consumers w) c)"

definition producer_size :: "world \<Rightarrow> nat \<Rightarrow> u64 option" where
  "producer_size w p = map_option ri_producer_msg_size (live (w_producers w) p)"

definition typed_result :: "(world \<Rightarrow> nat \<Rightarrow> u64 option) \<Rightarrow> u64 list \<Rightarrow> u64 \<Rightarrow> u32 \<Rightarrow> world \<Rightarrow> ((Error + nat) \<times> world) option \<Rightarrow> bool" where
  "typed_result size_in sizes size_of_T index w res \<longleftrightarrow>
     (if length sizes \<le> unat index then res = Some (Inl Error_index_out_of_range, w)
      else if sizes ! unat index < size_of_T then res = Some (Inl Error_message_size_mismatch, w)
      else \<exists>c v. res = Some (Inr c, v) \<and> size_in v c = Some (sizes ! unat index))"

lemma owners_new: "\<not> flagged RI_OWNER_GROUP_FLAG RI_OWNER_USER_FLAG"
  by (simp add: owner_flags flagged_def)

lemma consumer_acquired_new: "new_consumer w c sz \<Longrightarrow> \<exists>v. ri_consumer_acquire c w = Some (0, v) \<and> consumer_size v c = Some sz"
  using live_Some_length [of "w_consumers w" c]
  by (auto simp: new_consumer_def ri_consumer_acquire_def consumer_owners_def owners_new consumer_size_def live_update
      ri_consumer_msg_size_def)

lemma producer_acquired_new: "new_producer w p sz \<Longrightarrow> \<exists>v. ri_producer_acquire p w = Some (0, v) \<and> producer_size v p = Some sz"
  using live_Some_length [of "w_producers w" p]
  by (auto simp: new_producer_def ri_producer_acquire_def producer_owners_def owners_new producer_size_def live_update
      ri_producer_msg_size_def)

lemma typed_consumer:
  assumes "transmissible g" and "ChannelGroup_from_attributes cls raw g w = Some (Inr grp, w')"
  shows "typed_result consumer_size (map message_size (consumers (effective g))) size_of_T index w'
    (ChannelGroup_acquire_consumer size_of_T grp index w')"
proof -
  have "ri_group_from_attr cls raw (CGroupAttributes g) w = Some (Some grp, w')"
    using assms(2) by (auto simp: ChannelGroup_from_attributes_def CGroupAttributes_def bind_eq_Some_conv Inr_expect)
  from assms(1) this obtain pattrs cattrs ps cs where o: "own_producers (gr_data grp) = Some pattrs" "own_consumers (gr_data grp) = Some cattrs"
    and m: "map a_msg_size cattrs = map message_size (consumers (effective g))" "map a_msg_size pattrs = map message_size (producers (effective g))"
    and arr: "consumers_of grp = Some (map Some cs)" "producers_of grp = Some (map Some ps)"
    and new: "list_all2 (\<lambda>c a. new_consumer w' c (a_msg_size a)) cs cattrs" "list_all2 (\<lambda>p a. new_producer w' p (a_msg_size a)) ps pattrs"
    by (rule new_group_channels)
  note len = own_length(2) [OF o(2)] own_length(1) [OF o(1)] list_all2_lengthD [OF new(1)] list_all2_lengthD [OF new(2)]
  show ?thesis
  proof (cases "unat index < length cattrs")
    case False
    then show ?thesis unfolding m [symmetric] using len
      by (simp add: typed_result_def ChannelGroup_acquire_consumer_def ChannelGroup_consumer_message_size_def ri_group_get_consumer_attr_def
          ri_group_data_get_consumer_attr_def word_le_nat_alt)
  next
    case True
    obtain d where d: "ri_group_data_get_consumer_attr (gr_data grp) index = Returns (Some d)" "d_msg_size d = a_msg_size (cattrs ! unat index)"
      using own_consumer_entry [OF o(2) True] by blast
    obtain v where v: "ri_consumer_acquire (cs ! unat index) w' = Some (0, v)" "consumer_size v (cs ! unat index) = Some (a_msg_size (cattrs ! unat index))"
      using consumer_acquired_new list_all2_nthD2 [OF new(1) True] by blast
    show ?thesis unfolding m [symmetric] using True d v len arr(1)
      by (simp add: typed_result_def ChannelGroup_acquire_consumer_def ChannelGroup_consumer_message_size_def ri_group_get_consumer_attr_def
          ChannelGroup_acquire_consumer_impl_def ri_group_acquire_consumer_def consumers_of_def word_le_nat_alt)
  qed
qed

lemma typed_producer:
  assumes "transmissible g" and "ChannelGroup_from_attributes cls raw g w = Some (Inr grp, w')"
  shows "typed_result producer_size (map message_size (producers (effective g))) size_of_T index w'
    (ChannelGroup_acquire_producer size_of_T grp index w')"
proof -
  have "ri_group_from_attr cls raw (CGroupAttributes g) w = Some (Some grp, w')"
    using assms(2) by (auto simp: ChannelGroup_from_attributes_def CGroupAttributes_def bind_eq_Some_conv Inr_expect)
  from assms(1) this obtain pattrs cattrs ps cs where o: "own_producers (gr_data grp) = Some pattrs" "own_consumers (gr_data grp) = Some cattrs"
    and m: "map a_msg_size cattrs = map message_size (consumers (effective g))" "map a_msg_size pattrs = map message_size (producers (effective g))"
    and arr: "consumers_of grp = Some (map Some cs)" "producers_of grp = Some (map Some ps)"
    and new: "list_all2 (\<lambda>c a. new_consumer w' c (a_msg_size a)) cs cattrs" "list_all2 (\<lambda>p a. new_producer w' p (a_msg_size a)) ps pattrs"
    by (rule new_group_channels)
  note len = own_length(2) [OF o(2)] own_length(1) [OF o(1)] list_all2_lengthD [OF new(1)] list_all2_lengthD [OF new(2)]
  show ?thesis
  proof (cases "unat index < length pattrs")
    case False
    then show ?thesis unfolding m [symmetric] using len
      by (simp add: typed_result_def ChannelGroup_acquire_producer_def ChannelGroup_producer_message_size_def ri_group_get_producer_attr_def
          ri_group_data_get_producer_attr_def word_le_nat_alt)
  next
    case True
    obtain d where d: "ri_group_data_get_producer_attr (gr_data grp) index = Returns (Some d)" "d_msg_size d = a_msg_size (pattrs ! unat index)"
      using own_producer_entry [OF o(1) True] by blast
    obtain v where v: "ri_producer_acquire (ps ! unat index) w' = Some (0, v)" "producer_size v (ps ! unat index) = Some (a_msg_size (pattrs ! unat index))"
      using producer_acquired_new list_all2_nthD2 [OF new(2) True] by blast
    show ?thesis unfolding m [symmetric] using True d v len arr(2)
      by (simp add: typed_result_def ChannelGroup_acquire_producer_def ChannelGroup_producer_message_size_def ri_group_get_producer_attr_def
          ChannelGroup_acquire_producer_impl_def ri_group_acquire_producer_def producers_of_def word_le_nat_alt)
  qed
qed

text \<open>
  C31. \<open>acquire_consumer<T>\<close> and \<open>acquire_producer<T>\<close> on a new group, for every index and every size of \<open>T\<close>: an index behind the last
  channel and a type larger than the message are refused without an effect; otherwise the channel has messages of the
  size that was asked for, so that \<open>current_message\<close> is large enough for a \<open>T\<close>.
\<close>

theorem typed_acquisition:
  assumes "transmissible g" and "ChannelGroup_from_attributes cls raw g w = Some (Inr grp, w')"
  shows "typed_result consumer_size (map message_size (consumers (effective g))) size_of_T index w'
      (ChannelGroup_acquire_consumer size_of_T grp index w') \<and>
    typed_result producer_size (map message_size (producers (effective g))) size_of_T index w'
      (ChannelGroup_acquire_producer size_of_T grp index w')"
  using typed_consumer [OF assms] typed_producer [OF assms] by blast

lemma two_way_created:
  "case ChannelGroup_from_attributes 64 zeros two_way_group (failing_at 100) of Some (Inr grp, w) \<Rightarrow> True | _ \<Rightarrow> False"
  by code_simp

theorem typed_acquisition_witness:
  "\<exists>grp w c v. ChannelGroup_from_attributes 64 zeros two_way_group (failing_at 100) = Some (Inr grp, w) \<and>
     ChannelGroup_acquire_consumer 8 grp 0 w = Some (Inr c, v) \<and> consumer_size v c = Some 8 \<and>
     ChannelGroup_acquire_consumer 9 grp 0 w = Some (Inl Error_message_size_mismatch, w) \<and>
     ChannelGroup_acquire_producer 4 grp 1 w = Some (Inl Error_index_out_of_range, w)"
proof -
  obtain grp w where g: "ChannelGroup_from_attributes 64 zeros two_way_group (failing_at 100) = Some (Inr grp, w)"
    using two_way_created unfolding expected_case by blast
  note t = typed_acquisition [OF two_way_transmissible g]
  have s: "map message_size (consumers (effective two_way_group)) = [8]" "map message_size (producers (effective two_way_group)) = [4]"
    by (simp_all add: effective_def two_way_group_def)
  show ?thesis using g t [of 8 0] t [of 9 0] t [of 4 1] unfolding s by (auto simp: typed_result_def)
qed

text \<open>
  The loop of \<open>ChannelGroup::deserialize\<close> that is to close the descriptors that are left never closes one: the number of
  descriptors is only read by \<open>ri_group_deserialize\<close>, so that none is left behind it. What the group did not take stays open.
\<close>

lemma close_remaining_none: "ChannelGroup_deserialize cls raw req fds w = do {
    ((p, fds'), v) \<leftarrow> ri_group_deserialize cls raw req (of_nat (length req)) fds (Some (of_nat (length fds))) w;
    Some ((expect_pointer p, fds'), v) }" if "length fds < 2 ^ 32"
proof -
  have n: "unat (of_nat (length fds) :: u32) = length fds" using that by (simp add: of_nat_inverse)
  show ?thesis
    by (cases "ri_group_deserialize cls raw req (of_nat (length req)) fds (Some (of_nat (length fds))) w")
      (auto simp: ChannelGroup_deserialize_def n expect_pointer_def Let_def split: option.splits dest: deserialize_length)
qed

theorem deserialize_closes_nothing:
  assumes "length fds < 2 ^ 32"
    and "ri_group_deserialize cls raw req (of_nat (length req)) fds (Some (of_nat (length fds))) w = Some ((Some grp, fds'), v)"
  shows "ChannelGroup_deserialize cls raw req fds w = Some ((Inr grp, fds'), v)"
  using close_remaining_none [OF assms(1)] assms(2) by (simp add: expect_pointer_def)

text \<open>A descriptor behind those of the group is in the vector and open afterwards.\<close>

lemma two_way_deserialized:
  "case ChannelGroup_from_attributes 64 zeros two_way_group (failing_at 100) of
     Some (Inr grp, w) \<Rightarrow>
       (case ChannelGroup_serialize 64 grp w of
          Some (Inr (req, fds)) \<Rightarrow>
            (case ri_group_deserialize 64 zeros req (of_nat (length req)) (fds @ [0]) (Some (of_nat (length (fds @ [0])))) w of
               Some ((Some grp', fds'), v) \<Rightarrow> length (fds @ [0]) = 3 \<and> fds' = [-1, -1, 0] \<and> map_of (w_fds v) 0 = Some 0
             | _ \<Rightarrow> False)
        | _ \<Rightarrow> False)
   | _ \<Rightarrow> False"
  by code_simp

lemma serialized_case: "(case x of Some (Inr (a, b)) \<Rightarrow> P a b | _ \<Rightarrow> False) \<longleftrightarrow> (\<exists>a b. x = Some (Inr (a, b)) \<and> P a b)"
  by (auto split: option.splits sum.splits)

lemma deserialized_case: "(case x of Some ((Some a, b), c) \<Rightarrow> P a b c | _ \<Rightarrow> False) \<longleftrightarrow> (\<exists>a b c. x = Some ((Some a, b), c) \<and> P a b c)"
  by (auto split: option.splits)

theorem deserialize_closes_nothing_witness:
  "\<exists>req fds w grp v. length fds = 3 \<and> ChannelGroup_deserialize 64 zeros req fds w = Some ((Inr grp, [-1, -1, 0]), v) \<and> map_of (w_fds v) 0 = Some 0"
proof -
  obtain req fds w grp v where "length (fds @ [0]) = 3" "map_of (w_fds v) 0 = Some 0"
    "ri_group_deserialize 64 zeros req (of_nat (length req)) (fds @ [0]) (Some (of_nat (length (fds @ [0])))) w = Some ((Some grp, [-1, -1, 0]), v)"
    using two_way_deserialized unfolding expected_case serialized_case deserialized_case by blast
  moreover from this(1) have "length (fds @ [0 :: int]) < 2 ^ 32" by simp
  ultimately show ?thesis using deserialize_closes_nothing [of "fds @ [0]"] by blast
qed

end
