(* ===== verification/Rpc.thy ===== *)
theory Rpc
  imports Connect Channel_Ops
begin

text \<open>
  The interface of the example programs (\<open>src/examples/rpc.h\<close>, \<open>src/examples/rpc.c\<close>): the messages, the descriptions of the
  channels, the two groups, and the acquisition of a channel, which compares the attributes of the peer with the expected ones.
\<close>

section \<open>Messages\<close>

text \<open>Doubles are their 64 bits. The arguments of a command are a union: a reader chooses the view.\<close>

record send_event_args =
  send_id :: u32
  send_force :: bool
  send_num :: u32

record div_args =
  div_divisor :: u64
  div_divident :: u64

datatype command_args = Args_None | Args_Send send_event_args | Args_Div div_args

record msg_command =
  cmd_id :: u32
  cmd_args :: command_args

text \<open>\<open>sizeof\<close> of the three messages: 4 bytes, padding, 16 bytes of arguments; 8 bytes and a double; 8 bytes.\<close>

definition sizeof_msg_command :: u64 where
  "sizeof_msg_command = 24"

definition sizeof_msg_response :: u64 where
  "sizeof_msg_response = 16"

definition sizeof_msg_event :: u64 where
  "sizeof_msg_event = 8"

section \<open>Descriptions\<close>

definition info_of_bytes :: "u8 list \<Rightarrow> ri_info" where
  "info_of_bytes bytes = \<lparr>i_size = of_nat (length bytes), i_data = Some bytes\<rparr>"

definition channel_send_event_args_info :: ri_info where
  "channel_send_event_args_info = info_of_bytes
     [2, 3, 2, 105, 100, 1, 19, 5, 102, 111, 114, 99, 101, 1, 0, 3, 110, 117, 109, 1, 19]"

definition channel_div_args_info :: ri_info where
  "channel_div_args_info = info_of_bytes
     [2, 2, 7, 100, 105, 118, 105, 115, 111, 114, 1, 36, 8, 100, 105, 118, 105, 100, 101, 110, 116, 1, 36]"

definition channel_command_args_info :: ri_info where
  "channel_command_args_info = info_of_bytes
     [3, 2, 3, 100, 105, 118, 2, 2, 7, 100, 105, 118, 105, 115, 111, 114, 1, 36, 8, 100, 105, 118, 105, 100, 101,
      110, 116, 1, 36, 4, 115, 101, 110, 100, 2, 3, 2, 105, 100, 1, 19, 5, 102, 111, 114, 99, 101, 1, 0, 3, 110,
      117, 109, 1, 19]"

definition channel_msg_command_info :: ri_info where
  "channel_msg_command_info = info_of_bytes
     [2, 2, 2, 105, 100, 1, 19, 4, 97, 114, 103, 115, 3, 2, 3, 100, 105, 118, 2, 2, 7, 100, 105, 118, 105, 115,
      111, 114, 1, 36, 8, 100, 105, 118, 105, 100, 101, 110, 116, 1, 36, 4, 115, 101, 110, 100, 2, 3, 2, 105, 100,
      1, 19, 5, 102, 111, 114, 99, 101, 1, 0, 3, 110, 117, 109, 1, 19]"

definition channel_response_data_info :: ri_info where
  "channel_response_data_info = info_of_bytes
     [3, 1, 8, 113, 117, 111, 116, 105, 101, 110, 116, 1, 36]"

definition channel_msg_response_info :: ri_info where
  "channel_msg_response_info = info_of_bytes
     [2, 3, 2, 105, 100, 1, 19, 6, 114, 101, 115, 117, 108, 116, 1, 3, 4, 100, 97, 116, 97, 3, 1, 8, 113, 117, 111,
      116, 105, 101, 110, 116, 1, 36]"

definition channel_msg_event_info :: ri_info where
  "channel_msg_event_info = info_of_bytes
     [2, 2, 2, 105, 100, 1, 19, 2, 110, 114, 1, 19]"

definition group_rpc_info :: ri_info where
  "group_rpc_info = info_of_bytes
     [3, 82, 80, 67, 7, 99, 111, 109, 109, 97, 110, 100, 8, 114, 101, 115, 112, 111, 110, 115, 101, 5, 101, 118,
      101, 110, 116]"

section \<open>Groups\<close>

definition group_rpc_c2s_channels :: "ri_channel_attr list" where
  "group_rpc_c2s_channels =
     [\<lparr>a_msg_size = sizeof_msg_command, a_add_msgs = 0, a_eventfd = True, a_info = channel_msg_command_info\<rparr>,
      channel_attr_zero]"

definition group_rpc_s2c_channels :: "ri_channel_attr list" where
  "group_rpc_s2c_channels =
     [\<lparr>a_msg_size = sizeof_msg_response, a_add_msgs = 0, a_eventfd = True, a_info = channel_msg_response_info\<rparr>,
      \<lparr>a_msg_size = sizeof_msg_event, a_add_msgs = 10, a_eventfd = True, a_info = channel_msg_event_info\<rparr>,
      channel_attr_zero]"

definition client_group_rpc :: ri_group_attr where
  "client_group_rpc = \<lparr>g_consumers = Some group_rpc_s2c_channels, g_producers = Some group_rpc_c2s_channels, g_info = group_rpc_info\<rparr>"

definition server_group_rpc :: ri_group_attr where
  "server_group_rpc = \<lparr>g_consumers = Some group_rpc_c2s_channels, g_producers = Some group_rpc_s2c_channels, g_info = group_rpc_info\<rparr>"

section \<open>Acquisition\<close>

text \<open>The body the six functions share; \<open>None\<close> in the result is \<open>NULL\<close>.\<close>

definition acquire_expected ::
    "(ri_group \<Rightarrow> u32 \<Rightarrow> channel_data option outcome) \<Rightarrow> (ri_group \<Rightarrow> u32 \<Rightarrow> world \<Rightarrow> (nat option \<times> world) option)
      \<Rightarrow> ri_channel_attr \<Rightarrow> u32 \<Rightarrow> ri_group \<Rightarrow> world \<Rightarrow> (nat option \<times> world) option" where
  "acquire_expected get_attr acquire expect_attr index grp w =
     (case get_attr grp index of
        Returns None \<Rightarrow> Some (None, w)
      | Returns (Some remote_attr) \<Rightarrow>
          (case ri_channel_attr_equal expect_attr (attr_of (gd_mem_infos (gr_data grp)) remote_attr) of
             Returns True \<Rightarrow> acquire grp index w
           | Returns False \<Rightarrow> Some (None, w)
           | _ \<Rightarrow> None)
      | _ \<Rightarrow> None)"

definition client_rpc_acquire_response :: "ri_group \<Rightarrow> world \<Rightarrow> (nat option \<times> world) option" where
  "client_rpc_acquire_response = acquire_expected ri_group_get_consumer_attr ri_group_acquire_consumer (group_rpc_s2c_channels ! 0) 0"

definition client_rpc_acquire_event :: "ri_group \<Rightarrow> world \<Rightarrow> (nat option \<times> world) option" where
  "client_rpc_acquire_event = acquire_expected ri_group_get_consumer_attr ri_group_acquire_consumer (group_rpc_s2c_channels ! 1) 1"

definition client_rpc_acquire_command :: "ri_group \<Rightarrow> world \<Rightarrow> (nat option \<times> world) option" where
  "client_rpc_acquire_command = acquire_expected ri_group_get_producer_attr ri_group_acquire_producer (group_rpc_c2s_channels ! 0) 0"

definition server_rpc_acquire_command :: "ri_group \<Rightarrow> world \<Rightarrow> (nat option \<times> world) option" where
  "server_rpc_acquire_command = acquire_expected ri_group_get_consumer_attr ri_group_acquire_consumer (group_rpc_c2s_channels ! 0) 0"

definition server_rpc_acquire_response :: "ri_group \<Rightarrow> world \<Rightarrow> (nat option \<times> world) option" where
  "server_rpc_acquire_response = acquire_expected ri_group_get_producer_attr ri_group_acquire_producer (group_rpc_s2c_channels ! 0) 0"

definition server_rpc_acquire_event :: "ri_group \<Rightarrow> world \<Rightarrow> (nat option \<times> world) option" where
  "server_rpc_acquire_event = acquire_expected ri_group_get_producer_attr ri_group_acquire_producer (group_rpc_s2c_channels ! 1) 1"

section \<open>Messages in shared memory\<close>

text \<open>The bytes at an address of memory object \<open>i\<close>, and overwriting them.\<close>

definition mem_load :: "nat \<Rightarrow> u64 option \<Rightarrow> nat \<Rightarrow> nat \<Rightarrow> world \<Rightarrow> u8 list option" where
  "mem_load i msg pos len w = do {
     addr \<leftarrow> msg;
     shm \<leftarrow> live (w_shms w) i;
     (case w_files w ! s_file shm of
        Memfd sz words bytes \<Rightarrow>
          (let off = unat (addr - s_mem shm) + pos in
           if off + len \<le> unat (s_size shm) then Some (map bytes [off..<off + len]) else None)
      | _ \<Rightarrow> None)
   }"

definition mem_store :: "nat \<Rightarrow> u64 option \<Rightarrow> nat \<Rightarrow> u8 list \<Rightarrow> world \<Rightarrow> world option" where
  "mem_store i msg pos src w = do {
     addr \<leftarrow> msg;
     shm \<leftarrow> live (w_shms w) i;
     (case w_files w ! s_file shm of
        Memfd sz words bytes \<Rightarrow>
          (let off = unat (addr - s_mem shm) + pos in
           if off + length src \<le> unat (s_size shm) then
             Some (w\<lparr>w_files := (w_files w)[s_file shm := Memfd sz words
               (\<lambda>k. if off \<le> k \<and> k < off + length src then src ! (k - off) else bytes k)]\<rparr>)
           else None)
      | _ \<Rightarrow> None)
   }"

text \<open>A field of the message of consumer \<open>c\<close>.\<close>

definition read_field :: "nat \<Rightarrow> nat \<Rightarrow> nat \<Rightarrow> world \<Rightarrow> 'a::len word option" where
  "read_field c pos len w = do {
     consumer \<leftarrow> live (w_consumers w) c;
     bytes \<leftarrow> mem_load (cn_shm consumer) (ri_consumer_msg consumer) pos len w;
     Some (of_le bytes)
   }"

text \<open>Bytes of the message of producer \<open>p\<close>, in its cache or in the queue.\<close>

definition write_bytes :: "nat \<Rightarrow> nat \<Rightarrow> u8 list \<Rightarrow> world \<Rightarrow> world option" where
  "write_bytes p pos src w = do {
     producer \<leftarrow> live (w_producers w) p;
     (case ri_producer_msg producer of
        In_Queue msg \<Rightarrow> mem_store (pr_shm producer) msg pos src w
      | In_Cache c \<Rightarrow> do {
          cache \<leftarrow> live (w_caches w) c;
          if pos + length src \<le> length cache then Some (w\<lparr>w_caches := (w_caches w)[c := Some (overwrite cache pos src)]\<rparr>) else None
        })
   }"

definition write_field :: "nat \<Rightarrow> nat \<Rightarrow> nat \<Rightarrow> 'a::len word \<Rightarrow> world \<Rightarrow> world option" where
  "write_field p pos len val w = write_bytes p pos (le_bytes len val) w"

section \<open>Commands\<close>

definition CMDID_UNKNOWN :: u32 where
  "CMDID_UNKNOWN = 0"

definition CMDID_HELLO :: u32 where
  "CMDID_HELLO = 1"

definition CMDID_STOP :: u32 where
  "CMDID_STOP = 2"

definition CMDID_SENDEVENT :: u32 where
  "CMDID_SENDEVENT = 3"

definition CMDID_DIV :: u32 where
  "CMDID_DIV = 4"

end
