(* ===== verification/Rpc_Life.thy ===== *)
theory Rpc_Life
  imports Group_Users Rpc
begin

text \<open>
  What the example programs do with their channels, on the life of a group (\<open>Group_Users\<close>): the acquisitions of \<open>Rpc\<close>, releasing
  what has been acquired, and writing messages.
\<close>

section \<open>Acquiring and releasing\<close>

lemma acquire_expected_result: "acquire_expected get_attr acquire e k grp u = Some (res, v) \<Longrightarrow>
    (res = None \<and> v = u) \<or> acquire grp k u = Some (res, v)"
  by (auto simp: acquire_expected_def split: outcome.splits option.splits bool.splits)

lemma expected_consumer:
  assumes "handled grp u0 True P C E u" and "acquire_expected get_attr ri_group_acquire_consumer e k grp u = Some (res, v)"
  shows "handled grp u0 True P (C \<union> set_option res) E v"
  using acquire_expected_result [OF assms(2)] assms(1) by (auto intro: consumer_acquired)

lemma expected_producer:
  assumes "handled grp u0 True P C E u" and "acquire_expected get_attr ri_group_acquire_producer e k grp u = Some (res, v)"
  shows "handled grp u0 True (P \<union> set_option res) C E v"
  using acquire_expected_result [OF assms(2)] assms(1) by (auto intro: producer_acquired)

lemma expected_producer_fresh:
  assumes "whole_group w i ps cs grp u0" and "handled grp u0 True P C E u"
    and "acquire_expected get_attr ri_group_acquire_producer e k grp u = Some (res, v)"
  shows "set_option res \<inter> P = {}"
proof -
  have "calls_defined grp True P C u" using handled_group [OF assms(1,2)] by blast
  then obtain r x where "ri_group_acquire_producer grp k u = Some (r, x)" "set_option r \<inter> P = {}" unfolding calls_defined_def by blast
  then show ?thesis using acquire_expected_result [OF assms(3)] by auto
qed

lemma expected_consumer_fresh:
  assumes "whole_group w i ps cs grp u0" and "handled grp u0 True P C E u"
    and "acquire_expected get_attr ri_group_acquire_consumer e k grp u = Some (res, v)"
  shows "set_option res \<inter> C = {}"
proof -
  have "calls_defined grp True P C u" using handled_group [OF assms(1,2)] by blast
  then obtain r x where "ri_group_acquire_consumer grp k u = Some (r, x)" "set_option r \<inter> C = {}" unfolding calls_defined_def by blast
  then show ?thesis using acquire_expected_result [OF assms(3)] by auto
qed

text \<open>Releasing what is there.\<close>

lemma release_held_consumer:
  assumes "whole_group w i ps cs grp u0" and "handled grp u0 g P C E u" and "set_option c \<subseteq> C"
  shows "\<exists>v. (case c of None \<Rightarrow> Some u | Some c \<Rightarrow> ri_consumer_release c u) = Some v \<and> handled grp u0 g P (C - set_option c) E v"
proof (cases c)
  case (Some c')
  then have "ri_consumer_release c' u \<noteq> None" using handled_group [OF assms(1,2)] assms(3) by (auto simp: calls_defined_def)
  then show ?thesis using Some assms(2,3) consumer_released by fastforce
qed (use assms in simp)

lemma release_held_producer:
  assumes "whole_group w i ps cs grp u0" and "handled grp u0 g P C E u" and "set_option p \<subseteq> P"
  shows "\<exists>v. (case p of None \<Rightarrow> Some u | Some p \<Rightarrow> ri_producer_release p u) = Some v \<and> handled grp u0 g (P - set_option p) C E v"
proof (cases p)
  case (Some p')
  then have "ri_producer_release p' u \<noteq> None" using handled_group [OF assms(1,2)] assms(3) by (auto simp: calls_defined_def)
  then show ?thesis using Some assms(2,3) producer_released by fastforce
qed (use assms in simp)

lemma group_deleted_held:
  assumes "whole_group w i ps cs grp u0" and "handled grp u0 True P C E u"
  shows "\<exists>v. ri_group_delete grp u = Some v \<and> handled grp u0 False P C E v"
  using handled_group [OF assms] assms(2) group_deleted by (fastforce simp: calls_defined_def)

lemma whole_ask: "whole_group w i ps cs grp u \<Longrightarrow> ask u = (ok, v) \<Longrightarrow> whole_group w i ps cs grp v"
  by (erule whole_frame) (auto simp: ask_def calm_def)

text \<open>The group of a connection, relative to the process before the server was made.\<close>

lemma whole_without:
  assumes "whole_group w0 i ps cs grp u" and "map_of (w_fds w0) = (map_of (w_fds w))(sk \<mapsto> n)" "map_of (w_fds w) sk = None"
    and "w_shms w0 = w_shms w" "w_producers w0 = w_producers w" "w_consumers w0 = w_consumers w" "w_caches w0 = w_caches w" "calm w w0"
  shows "whole_group w i ps cs grp (close_fd sk u)"
  using assms(1) built_without [OF _ assms(2-7)] calm_trans [OF assms(8)] unfolding whole_group_def by simp

section \<open>Writing messages\<close>

lemma mem_store_files:
  assumes "mem_store i msg pos src u = Some v"
  shows "files_only u v"
proof -
  from assms obtain addr s where "msg = Some addr" "live (w_shms u) i = Some s" by (auto simp: mem_store_def bind_eq_Some_conv)
  then show ?thesis using assms by (cases "w_files u ! s_file s") (auto simp: mem_store_def Let_def split: if_splits)
qed

lemma bytes_written:
  assumes "whole_group w i ps cs grp u0" and "handled grp u0 g P C E u" and "p \<in> P" and "write_bytes p pos src u = Some v"
  shows "handled grp u0 g P C E v"
proof -
  obtain x where "live (w_producers u) p = Some x" "pr_cache x = None" using handled_uncached [OF assms(1-3)] by blast
  then show ?thesis using assms(4) handled_files [OF assms(2)] by (auto simp: write_bytes_def ri_producer_msg_def dest: mem_store_files)
qed

lemma write_held:
  assumes "whole_group w i ps cs grp u0" and "handled grp u0 g P C E u" and "p \<in> P" and "write_field p pos len val u = Some v"
  shows "handled grp u0 g P C E v"
  by (rule bytes_written [OF assms(1-3)]) (use assms(4) in \<open>simp add: write_field_def\<close>)

end
