(* ===== verification/Server_Example.thy ===== *)
theory Server_Example
  imports Handshake Rpc_Life
begin

text \<open>
  The example server (\<open>src/examples/server.c\<close>): it accepts one client, takes its three channels and answers commands until it is told to
  stop. Messages are read and written as bytes of the shared memory; arithmetic on doubles is a parameter, and so is what the client
  writes into the files before each cycle. Log output is left out.
\<close>

section \<open>Creation and deletion\<close>

record server_t =
  sv_command :: "nat option"
  sv_response :: "nat option"
  sv_event :: "nat option"

definition server_app_delete :: "server_t \<Rightarrow> world \<Rightarrow> world option" where
  "server_app_delete server w = do {
     w \<leftarrow> (case sv_command server of None \<Rightarrow> Some w | Some c \<Rightarrow> ri_consumer_release c w);
     w \<leftarrow> (case sv_response server of None \<Rightarrow> Some w | Some p \<Rightarrow> ri_producer_release p w);
     (case sv_event server of None \<Rightarrow> Some w | Some p \<Rightarrow> ri_producer_release p w)
   }"

definition server_check :: ri_filter_fn where
  "server_check attr n_consumers n_producers = ri_group_attr_equal attr server_group_rpc"

text \<open>The label \<open>fail_channel\<close>, and what follows it.\<close>

definition fail_channel :: "server_t \<Rightarrow> ri_group \<Rightarrow> world \<Rightarrow> (server_t option \<times> world) option" where
  "fail_channel server grp w = do {
     w \<leftarrow> server_app_delete server w;
     w \<leftarrow> ri_group_delete grp w;
     Some (None, w)
   }"

text \<open>From the acquisition of the event channel on, of the response channel, and from the allocation.\<close>

definition server_take_event :: "server_t \<Rightarrow> ri_group \<Rightarrow> world \<Rightarrow> (server_t option \<times> world) option" where
  "server_take_event server grp w = do {
     (event, w) \<leftarrow> server_rpc_acquire_event grp w;
     if event = None then fail_channel (server\<lparr>sv_event := event\<rparr>) grp w else do {
       w \<leftarrow> ri_group_delete grp w;
       Some (Some (server\<lparr>sv_event := event\<rparr>), w)
     }
   }"

definition server_take_response :: "server_t \<Rightarrow> ri_group \<Rightarrow> world \<Rightarrow> (server_t option \<times> world) option" where
  "server_take_response server grp w = do {
     (response, w) \<leftarrow> server_rpc_acquire_response grp w;
     if response = None then fail_channel (server\<lparr>sv_response := response\<rparr>) grp w
     else server_take_event (server\<lparr>sv_response := response\<rparr>) grp w
   }"

definition server_empty :: server_t where
  "server_empty = \<lparr>sv_command = None, sv_response = None, sv_event = None\<rparr>"

definition server_channels :: "ri_group \<Rightarrow> world \<Rightarrow> (server_t option \<times> world) option" where
  "server_channels grp w =
     (let (ok, w) = ask w in
      if \<not> ok then do { w \<leftarrow> ri_group_delete grp w; Some (None, w) } else
      do {
        (command, w) \<leftarrow> server_rpc_acquire_command grp w;
        if command = None then fail_channel (server_empty\<lparr>sv_command := command\<rparr>) grp w
        else server_take_response (server_empty\<lparr>sv_command := command\<rparr>) grp w
      })"

definition server_app_new :: "u64 \<Rightarrow> (nat \<Rightarrow> u8) \<Rightarrow> string \<Rightarrow> host \<Rightarrow> (server_t option \<times> host) option" where
  "server_app_new cls raw path h =
     (case ri_server_new path h of
        (None, h) \<Rightarrow> Some (None, h)
      | (Some ri_server, h) \<Rightarrow> do {
          (grp, h) \<leftarrow> ri_server_accept cls raw ri_server (Some server_check) h;
          let h = ri_server_delete ri_server h;
          (case grp of None \<Rightarrow> Some (None, h) | Some grp \<Rightarrow> on_world (server_channels grp) h)
        })"

section \<open>Commands\<close>

text \<open>The loop over \<open>i\<close>; the result is an \<open>int32_t\<close>.\<close>

fun send_events_loop :: "nat \<Rightarrow> u32 \<Rightarrow> u32 \<Rightarrow> bool \<Rightarrow> nat list \<Rightarrow> world \<Rightarrow> (u32 \<times> world) option" where
  "send_events_loop producer idn num force [] w = Some (num, w)"
| "send_events_loop producer idn num force (i # is) w = do {
     w \<leftarrow> write_field producer 0 4 idn w;
     w \<leftarrow> write_field producer 4 4 (of_nat i :: u32) w;
     if force then do {
       (_, w) \<leftarrow> ri_producer_force_push producer w;
       send_events_loop producer idn num force is w
     } else do {
       (r, w) \<leftarrow> ri_producer_try_push producer w;
       if r = RI_TRY_PUSH_RESULT_FAIL then Some (of_nat i, w) else send_events_loop producer idn num force is w
     }
   }"

definition server_send_events :: "nat \<Rightarrow> u32 \<Rightarrow> u32 \<Rightarrow> bool \<Rightarrow> world \<Rightarrow> (u32 \<times> world) option" where
  "server_send_events producer idn num force w = send_events_loop producer idn num force [0..<unat num] w"

text \<open>Both zeros are equal to 0; \<open>fdiv\<close> is what the hardware computes. \<open>None\<close>: nothing is written.\<close>

definition server_div :: "(u64 \<Rightarrow> u64 \<Rightarrow> u64) \<Rightarrow> u64 \<Rightarrow> u64 \<Rightarrow> u32 \<times> u64 option" where
  "server_div fdiv a b = (if b AND mask 63 = 0 then (- 1, None) else (0, Some (fdiv a b)))"

text \<open>The \<open>switch\<close>: what is put into the response.\<close>

definition execute_command :: "(u64 \<Rightarrow> u64 \<Rightarrow> u64) \<Rightarrow> nat \<Rightarrow> nat \<Rightarrow> nat \<Rightarrow> u32 \<Rightarrow> world \<Rightarrow> world option" where
  "execute_command fdiv command response event cmdid w =
     (if cmdid = CMDID_HELLO then write_field response 4 4 (0 :: u32) w
      else if cmdid = CMDID_STOP then write_field response 4 4 (0 :: u32) w
      else if cmdid = CMDID_SENDEVENT then do {
        idn \<leftarrow> read_field command 8 4 w;
        num \<leftarrow> read_field command 16 4 w;
        force \<leftarrow> read_field command 12 1 w;
        (r, w) \<leftarrow> server_send_events event idn num ((force :: u8) \<noteq> 0) w;
        write_field response 4 4 r w
      }
      else if cmdid = CMDID_DIV then do {
        divisor \<leftarrow> read_field command 8 8 w;
        divident \<leftarrow> read_field command 16 8 w;
        (case server_div fdiv divisor divident of
           (r, None) \<Rightarrow> write_field response 4 4 r w
         | (r, Some res) \<Rightarrow> do { w \<leftarrow> write_field response 8 8 res w; write_field response 4 4 r w })
      }
      else write_field response 4 4 (- 1 :: u32) w)"

text \<open>The body of the loop for a command: whether to go on.\<close>

definition handle_command :: "(u64 \<Rightarrow> u64 \<Rightarrow> u64) \<Rightarrow> nat \<Rightarrow> nat \<Rightarrow> nat \<Rightarrow> world \<Rightarrow> (bool \<times> world) option" where
  "handle_command fdiv command response event w = do {
     cmdid \<leftarrow> read_field command 0 4 w;
     w \<leftarrow> write_field response 0 4 (cmdid :: u32) w;
     w \<leftarrow> execute_command fdiv command response event cmdid w;
     (_, w) \<leftarrow> ri_producer_force_push response w;
     Some (cmdid \<noteq> CMDID_STOP, w)
   }"

definition MAX_CYCLES :: nat where
  "MAX_CYCLES = 10000"

text \<open>\<open>n\<close> cycles are left; \<open>peer n\<close> is what the client does to the files before this one.\<close>

fun server_cycles :: "(nat \<Rightarrow> kernel_file list \<Rightarrow> kernel_file list) \<Rightarrow> (u64 \<Rightarrow> u64 \<Rightarrow> u64) \<Rightarrow> nat \<Rightarrow> nat \<Rightarrow> nat \<Rightarrow> nat \<Rightarrow> world \<Rightarrow> world option" where
  "server_cycles peer fdiv command response event 0 w = Some w"
| "server_cycles peer fdiv command response event (Suc n) w = do {
     (r, w) \<leftarrow> ri_consumer_pop command (w\<lparr>w_files := peer n (w_files w)\<rparr>);
     if r = RI_POP_RESULT_NO_MSG \<or> r = RI_POP_RESULT_NO_UPDATE then server_cycles peer fdiv command response event n w
     else do {
       (run, w) \<leftarrow> handle_command fdiv command response event w;
       if \<not> run then Some w else server_cycles peer fdiv command response event n w
     }
   }"

definition server_app_run ::
    "(nat \<Rightarrow> kernel_file list \<Rightarrow> kernel_file list) \<Rightarrow> (u64 \<Rightarrow> u64 \<Rightarrow> u64) \<Rightarrow> server_t \<Rightarrow> world \<Rightarrow> world option" where
  "server_app_run peer fdiv server w = do {
     command \<leftarrow> sv_command server;
     response \<leftarrow> sv_response server;
     event \<leftarrow> sv_event server;
     server_cycles peer fdiv command response event MAX_CYCLES w
   }"

text \<open>The result is the exit status.\<close>

definition server_main :: "u64 \<Rightarrow> (nat \<Rightarrow> u8) \<Rightarrow> (nat \<Rightarrow> kernel_file list \<Rightarrow> kernel_file list) \<Rightarrow> (u64 \<Rightarrow> u64 \<Rightarrow> u64)
    \<Rightarrow> host \<Rightarrow> (int \<times> host) option" where
  "server_main cls raw peer fdiv h = do {
     (server, h) \<leftarrow> server_app_new cls raw ''rtipc.sock'' h;
     (case server of
        None \<Rightarrow> Some (-1, h)
      | Some server \<Rightarrow> do {
          w \<leftarrow> server_app_run peer fdiv server (h_world h);
          w \<leftarrow> server_app_delete server w;
          Some (0, h\<lparr>h_world := w\<rparr>)
        })
   }"

section \<open>The channels of the server\<close>

definition has_channels :: "server_t \<Rightarrow> nat set \<Rightarrow> nat set \<Rightarrow> bool" where
  "has_channels server P C \<longleftrightarrow> C = set_option (sv_command server) \<and> P = set_option (sv_response server) \<union> set_option (sv_event server) \<and>
     set_option (sv_response server) \<inter> set_option (sv_event server) = {}"

lemma app_delete_held:
  assumes g: "whole_group w i ps cs grp u0" and h: "handled grp u0 a P C E u" and s: "has_channels server P C"
  shows "\<exists>v. server_app_delete server u = Some v \<and> handled grp u0 a {} {} E v"
proof -
  obtain u1 where u1: "(case sv_command server of None \<Rightarrow> Some u | Some c \<Rightarrow> ri_consumer_release c u) = Some u1" "handled grp u0 a P {} E u1"
    using release_held_consumer [OF g h, of "sv_command server"] s by (auto simp: has_channels_def)
  obtain u2 where u2: "(case sv_response server of None \<Rightarrow> Some u1 | Some p \<Rightarrow> ri_producer_release p u1) = Some u2"
    "handled grp u0 a (set_option (sv_event server)) {} E u2"
    using release_held_producer [OF g u1(2), of "sv_response server"] s by (auto simp: has_channels_def Un_Diff Diff_triv Int_commute)
  obtain u3 where u3: "(case sv_event server of None \<Rightarrow> Some u2 | Some p \<Rightarrow> ri_producer_release p u2) = Some u3" "handled grp u0 a {} {} E u3"
    using release_held_producer [OF g u2(2), of "sv_event server"] by auto
  show ?thesis using u1(1) u2(1) u3 by (simp add: server_app_delete_def)
qed

lemma fail_channel_held:
  assumes "whole_group w i ps cs grp u0" and "handled grp u0 True P C {} u" and "has_channels server P C"
  shows "\<exists>v. fail_channel server grp u = Some (None, v) \<and> same_resources w v"
proof -
  obtain u1 where u1: "server_app_delete server u = Some u1" "handled grp u0 True {} {} {} u1" using app_delete_held [OF assms] by blast
  obtain v where v: "ri_group_delete grp u1 = Some v" "handled grp u0 False {} {} {} v" using group_deleted_held [OF assms(1) u1(2)] by blast
  then show ?thesis using u1(1) handled_group [OF assms(1) v(2)] by (simp add: fail_channel_def)
qed

text \<open>
  What the creation leaves: nothing (but for the mapping of a failed \<open>mlock\<close>), or a server with the channels of a group that has been deleted.
\<close>

definition left_behind :: "world \<Rightarrow> server_t option \<times> world \<Rightarrow> bool" where
  "left_behind w res \<longleftrightarrow> (case res of (None, v) \<Rightarrow> given_back w v
     | (Some server, v) \<Rightarrow> \<exists>i ps cs grp u P C. whole_group w i ps cs grp u \<and> handled grp u False P C {} v \<and> has_channels server P C)"

lemma take_event_held:
  assumes g: "whole_group w i ps cs grp u0" and h: "handled grp u0 True P C {} u"
    and s: "has_channels server P C" "sv_event server = None" and r: "server_take_event server grp u = Some res"
  shows "left_behind w res"
proof -
  obtain e u1 where e: "server_rpc_acquire_event grp u = Some (e, u1)" using r by (auto simp: server_take_event_def bind_eq_Some_conv)
  let ?s = "server\<lparr>sv_event := e\<rparr>" and ?P = "P \<union> set_option e"
  note e' = e [unfolded server_rpc_acquire_event_def]
  have h1: "handled grp u0 True ?P C {} u1" using expected_producer [OF h e'] .
  have s1: "has_channels ?s ?P C" using s expected_producer_fresh [OF g h e'] by (auto simp: has_channels_def)
  show ?thesis
  proof (cases "e = None")
    case True
    then show ?thesis using r e fail_channel_held [OF g h1 s1] by (auto simp: server_take_event_def left_behind_def same_given_back)
  next
    case False
    then obtain v where "ri_group_delete grp u1 = Some v" "res = (Some ?s, v)" using r e by (auto simp: server_take_event_def bind_eq_Some_conv)
    then have "handled grp u0 False ?P C {} v" "res = (Some ?s, v)" using group_deleted [OF h1] by simp_all
    then show ?thesis unfolding left_behind_def using g s1 by simp blast
  qed
qed

lemma take_response_held:
  assumes g: "whole_group w i ps cs grp u0" and h: "handled grp u0 True {} C {} u"
    and s: "has_channels server {} C" "sv_event server = None" and r: "server_take_response server grp u = Some res"
  shows "left_behind w res"
proof -
  obtain p u1 where p: "server_rpc_acquire_response grp u = Some (p, u1)" using r by (auto simp: server_take_response_def bind_eq_Some_conv)
  let ?s = "server\<lparr>sv_response := p\<rparr>"
  have h1: "handled grp u0 True (set_option p) C {} u1" using expected_producer [OF h p [unfolded server_rpc_acquire_response_def]] by simp
  have s1: "has_channels ?s (set_option p) C" "sv_event ?s = None" using s by (auto simp: has_channels_def)
  show ?thesis using r p fail_channel_held [OF g h1 s1(1)] take_event_held [OF g h1 s1]
    by (cases "p = None") (auto simp: server_take_response_def left_behind_def same_given_back)
qed

lemma server_channels_held:
  assumes g: "whole_group w i ps cs grp u" and r: "server_channels grp u = Some res"
  shows "left_behind w res"
proof -
  obtain ok u0 where a: "ask u = (ok, u0)" by (cases "ask u")
  note g0 = whole_ask [OF g a]
  show ?thesis
  proof (cases ok)
    case False
    then obtain v where "ri_group_delete grp u0 = Some v" "res = (None, v)" using r a by (auto simp: server_channels_def bind_eq_Some_conv)
    then show ?thesis using delete_whole [OF g0] by (auto simp: left_behind_def same_given_back)
  next
    case True
    obtain c u1 where c: "server_rpc_acquire_command grp u0 = Some (c, u1)" using r a True by (auto simp: server_channels_def bind_eq_Some_conv)
    have h1: "handled grp u0 True {} (set_option c) {} u1"
      using expected_consumer [OF created c [unfolded server_rpc_acquire_command_def]] by simp
    have s1: "has_channels (server_empty\<lparr>sv_command := c\<rparr>) {} (set_option c)" "sv_event (server_empty\<lparr>sv_command := c\<rparr>) = None"
      by (simp_all add: has_channels_def server_empty_def)
    show ?thesis using r a True c fail_channel_held [OF g0 h1 s1(1)] take_response_held [OF g0 h1 s1]
      by (cases "c = None") (auto simp: server_channels_def left_behind_def same_given_back)
  qed
qed

section \<open>Running\<close>

lemma send_events_held:
  assumes "whole_group w i ps cs grp u0" and "p \<in> P"
  shows "handled grp u0 g P C E u \<Longrightarrow> send_events_loop p idn num force is u = Some (r, v) \<Longrightarrow> handled grp u0 g P C E v"
proof (induction "is" arbitrary: u)
  case (Cons k ks)
  from Cons.prems(2) obtain u1 u2 where u: "write_field p 0 4 idn u = Some u1" "write_field p 4 4 (of_nat k :: u32) u1 = Some u2" and
    r: "(if force then do { (_, w) \<leftarrow> ri_producer_force_push p u2; send_events_loop p idn num force ks w }
      else do { (r, w) \<leftarrow> ri_producer_try_push p u2;
        if r = RI_TRY_PUSH_RESULT_FAIL then Some (of_nat k, w) else send_events_loop p idn num force ks w }) = Some (r, v)"
    by (auto simp: bind_eq_Some_conv)
  have h: "handled grp u0 g P C E u2" using write_held [OF assms(1) write_held [OF assms(1) Cons.prems(1) assms(2) u(1)] assms(2) u(2)] .
  then show ?case using r Cons.IH assms(2)
    by (auto simp: bind_eq_Some_conv split: if_splits intro: force_pushed tried_push)
qed simp

lemma execute_command_held:
  assumes g: "whole_group w i ps cs grp u0" and h: "handled grp u0 a P C E u" and P: "response \<in> P" "event \<in> P"
    and r: "execute_command fdiv command response event cmdid u = Some v"
  shows "handled grp u0 a P C E v"
proof -
  note W = write_held [OF g _ P(1)]
  consider "cmdid \<noteq> CMDID_SENDEVENT \<and> cmdid \<noteq> CMDID_DIV \<or> cmdid = CMDID_HELLO \<or> cmdid = CMDID_STOP"
    | "cmdid = CMDID_SENDEVENT" "cmdid \<noteq> CMDID_HELLO" "cmdid \<noteq> CMDID_STOP"
    | "cmdid = CMDID_DIV" "cmdid \<noteq> CMDID_HELLO" "cmdid \<noteq> CMDID_STOP" "cmdid \<noteq> CMDID_SENDEVENT" by blast
  then show ?thesis
  proof cases
    case 1
    then show ?thesis using r W [OF h] by (auto simp: execute_command_def split: if_splits)
  next
    case 2
    then obtain idn num force n u1 where "server_send_events event idn num force u = Some (n, u1)" "write_field response 4 4 n u1 = Some v"
      using r by (auto simp: execute_command_def bind_eq_Some_conv)
    then show ?thesis using W [OF send_events_held [OF g P(2) h]] by (auto simp: server_send_events_def)
  next
    case 3
    then obtain a b where d: "(case server_div fdiv a b of (n, None) \<Rightarrow> write_field response 4 4 n u
       | (n, Some res) \<Rightarrow> do { w \<leftarrow> write_field response 8 8 res u; write_field response 4 4 n w }) = Some v"
      using r by (auto simp: execute_command_def bind_eq_Some_conv)
    obtain n res where "server_div fdiv a b = (n, res)" by (cases "server_div fdiv a b")
    then show ?thesis using d W [OF h] W [OF W [OF h]] by (cases res) (auto simp: bind_eq_Some_conv)
  qed
qed

lemma handle_command_held:
  assumes g: "whole_group w i ps cs grp u0" and h: "handled grp u0 a P C E u" and P: "response \<in> P" "event \<in> P"
    and r: "handle_command fdiv command response event u = Some (go, v)"
  shows "handled grp u0 a P C E v"
proof -
  from r obtain cmdid u1 u2 x where u: "write_field response 0 4 (cmdid :: u32) u = Some u1"
    "execute_command fdiv command response event cmdid u1 = Some u2" "ri_producer_force_push response u2 = Some (x, v)"
    by (auto simp: handle_command_def bind_eq_Some_conv)
  show ?thesis by (rule force_pushed [OF execute_command_held [OF g write_held [OF g h P(1) u(1)] P u(2)] P(1) u(3)])
qed

lemma server_cycles_held:
  assumes g: "whole_group w i ps cs grp u0" and P: "response \<in> P" "event \<in> P" "command \<in> C"
  shows "handled grp u0 a P C E u \<Longrightarrow> server_cycles peer fdiv command response event n u = Some v \<Longrightarrow> handled grp u0 a P C E v"
proof (induction n arbitrary: u)
  case (Suc n)
  from Suc.prems(2) obtain r u1 where p: "ri_consumer_pop command (u\<lparr>w_files := peer n (w_files u)\<rparr>) = Some (r, u1)" and
    k: "(if r = RI_POP_RESULT_NO_MSG \<or> r = RI_POP_RESULT_NO_UPDATE then server_cycles peer fdiv command response event n u1
     else do {
       (run, w) \<leftarrow> handle_command fdiv command response event u1;
       if \<not> run then Some w else server_cycles peer fdiv command response event n w
     }) = Some v" by (auto simp: bind_eq_Some_conv)
  have h: "handled grp u0 a P C E u1" by (rule popped [OF peer_wrote [OF Suc.prems(1)] P(3) p])
  show ?case
  proof (cases "r = RI_POP_RESULT_NO_MSG \<or> r = RI_POP_RESULT_NO_UPDATE")
    case True
    then show ?thesis using k Suc.IH [OF h] by simp
  next
    case False
    then obtain go u2 where c: "handle_command fdiv command response event u1 = Some (go, u2)"
      "(if \<not> go then Some u2 else server_cycles peer fdiv command response event n u2) = Some v" using k by (auto simp: bind_eq_Some_conv)
    show ?thesis using Suc.IH [OF handle_command_held [OF g h P(1,2) c(1)]] handle_command_held [OF g h P(1,2) c(1)] c(2)
      by (cases go) auto
  qed
qed simp

lemma server_app_new_held:
  assumes r: "server_app_new cls raw path h = Some (res, h')" and z: "map_of (w_fds (h_world h)) 0 \<noteq> None"
  shows "left_behind (h_world h) (res, h_world h')"
proof -
  obtain s h1 where n: "ri_server_new path h = (s, h1)" by (cases "ri_server_new path h")
  note N = server_new_resources [OF n] and K = calm_server_new [OF n]
  show ?thesis
  proof (cases s)
    case None
    then show ?thesis using r n N K by (simp add: server_app_new_def left_behind_def same_objects_def given_back_leaky calm_leaky)
  next
    case (Some server)
    then obtain grp h2 where a: "ri_server_accept cls raw server (Some server_check) h1 = Some (grp, h2)" and
      k: "(case grp of None \<Rightarrow> Some (None, ri_server_delete server h2) | Some grp \<Rightarrow> on_world (server_channels grp) (ri_server_delete server h2)) =
        Some (res, h')" using r n by (auto simp: server_app_new_def bind_eq_Some_conv Let_def)
    obtain m where m: "map_of (w_fds (h_world h1)) = (map_of (w_fds (h_world h)))(sv_sockfd server \<mapsto> m)"
      "map_of (w_fds (h_world h)) (sv_sockfd server) = None" using N Some by auto
    have z1: "map_of (w_fds (h_world h1)) 0 \<noteq> None" using m z by simp
    have d: "h_world (ri_server_delete server h2) = close_fd (sv_sockfd server) (h_world h2)"
      by (simp add: ri_server_delete_def Let_def close_host_def)
    show ?thesis
    proof (cases grp)
      case None
      then have "same_objects (h_world h1) (h_world h2)" using accept_failed [OF _ z1] a by blast
      then have "same_objects (h_world h) (close_fd (sv_sockfd server) (h_world h2))" using m N Some
        by (auto simp: same_objects_def close_fd_map) (simp_all add: close_fd_def)
      moreover have "leaky (h_world h) (close_fd (sv_sockfd server) (h_world h2))"
        by (rule leaky_before [OF leaky_after [OF K lossy_leaky [OF lossy_accept [OF a]]]]) simp
      ultimately show ?thesis using k None d by (auto simp: left_behind_def given_back_leaky)
    next
      case g: (Some g)
      obtain i ps cs where "whole_group (h_world h1) i ps cs g (h_world h2)"
        using whole_mapped [OF accepted_mapped [OF a [unfolded g] z1] accepted_calm [OF a [unfolded g]] accept_complete [OF a [unfolded g]]] by blast
      from whole_without [OF this m] N K Some have "whole_group (h_world h) i ps cs g (h_world (ri_server_delete server h2))"
        unfolding d by simp
      then show ?thesis using server_channels_held k g by (fastforce simp: on_world_def)
    qed
  qed
qed

text \<open>
  The result of the pop is not compared with an error. When the client has written a tail that names no message before the first
  command, there is no message, and the server reads through a null pointer.
\<close>

lemma null_command_undefined:
  assumes "ri_consumer_pop command (w\<lparr>w_files := peer n (w_files w)\<rparr>) = Some (RI_POP_RESULT_ERROR, v)"
    and "live (w_consumers v) command = Some x" and "ri_consumer_msg x = None"
  shows "server_cycles peer fdiv command response event (Suc n) w = None"
  using assms by (simp add: handle_command_def read_field_def ri_consumer_msg_def mem_load_def)

section \<open>Properties\<close>

text \<open>
  C26. When the example server returns, it has what it had before: when it could not be set up (no socket, no client, a group
  with other attributes, a channel that is missing, no memory; then only the mapping of a failed \<open>mlock\<close> may be left), and when it ran,
  with commands and shared memory of any content, without any exception. Descriptor 0 must be open. Runs that are undefined do not return:
  \<open>null_command_undefined\<close> is one the client can bring about.
\<close>

theorem server_gives_back:
  assumes "server_main cls raw peer fdiv h = Some (status, h')" and "map_of (w_fds (h_world h)) 0 \<noteq> None"
  shows "given_back (h_world h) (h_world h') \<and> (status = 0 \<longrightarrow> same_resources (h_world h) (h_world h'))"
proof -
  from assms(1) obtain res h1 where n: "server_app_new cls raw ''rtipc.sock'' h = Some (res, h1)"
    by (auto simp: server_main_def bind_eq_Some_conv)
  note L = server_app_new_held [OF n assms(2)]
  show ?thesis
  proof (cases res)
    case None
    then show ?thesis using assms(1) n L by (auto simp: server_main_def left_behind_def)
  next
    case (Some server)
    with L obtain i ps cs grp u P C where g: "whole_group (h_world h) i ps cs grp u" and h: "handled grp u False P C {} (h_world h1)"
      and s: "has_channels server P C" by (auto simp: left_behind_def)
    from assms(1) n Some obtain v v' where r: "server_app_run peer fdiv server (h_world h1) = Some v" and
      d: "server_app_delete server v = Some v'" and h': "h_world h' = v'"
      by (auto simp: server_main_def bind_eq_Some_conv)
    obtain c p e where c: "sv_command server = Some c" "sv_response server = Some p" "sv_event server = Some e"
      "server_cycles peer fdiv c p e MAX_CYCLES (h_world h1) = Some v" using r by (auto simp: server_app_run_def bind_eq_Some_conv)
    have "handled grp u False P C {} v" by (rule server_cycles_held [OF g _ _ _ h c(4)]) (use s c in \<open>simp_all add: has_channels_def\<close>)
    from app_delete_held [OF g this s] d have "handled grp u False {} {} {} v'" by auto
    then show ?thesis using handled_group [OF g] h' same_given_back by blast
  qed
qed

text \<open>A client with other channels is refused, after its group was mapped.\<close>

lemma other_client_refused:
  "case ri_client_socket_connect 64 zeros two_channels client_host of Some (Some grp, h) \<Rightarrow>
     (case server_main 64 zeros (\<lambda>n fs. fs) (\<lambda>a b. 0) (terminal_host h) of Some (status, k) \<Rightarrow>
        status = -1 \<and> length (w_shms (h_world k)) = 1 \<and> map mg_data (h_sent k) = [[255, 255, 255, 255]]
      | None \<Rightarrow> False)
   | _ \<Rightarrow> False"
  by code_simp

theorem server_gives_back_witness:
  "\<exists>h k. server_main 64 zeros (\<lambda>n fs. fs) (\<lambda>a b. 0) (terminal_host h) = Some (-1, k) \<and>
     map mg_data (h_sent k) = [[255, 255, 255, 255]] \<and> dom (map_of (w_fds (h_world k))) = {0}"
proof -
  obtain h k where r: "server_main 64 zeros (\<lambda>n fs. fs) (\<lambda>a b. 0) (terminal_host h) = Some (-1, k)"
    "map mg_data (h_sent k) = [[255, 255, 255, 255]]"
    using other_client_refused unfolding connected_case by (auto split: option.splits)
  from server_gives_back [OF r(1)] have "dom (map_of (w_fds (h_world k))) = {0}"
    by (simp add: given_back_def same_objects_def terminal_host_def empty_world_def)
  with r show ?thesis by (intro exI conjI)
qed

end
