(* ===== verification/Client_Example.thy ===== *)
theory Client_Example
  imports Connect_Properties Rpc_Life
begin

text \<open>
  The example client (\<open>src/examples/client.c\<close>): it connects, takes its three channels, starts a listener for the events and sends its
  commands, each time waiting for the response. What the listener, whose channel no other code of the client uses, and the server do
  while the client waits is a parameter of the run.
\<close>

section \<open>Commands\<close>

definition commands :: "msg_command list" where
  "commands =
     [\<lparr>cmd_id = CMDID_HELLO, cmd_args = Args_None\<rparr>,
      \<lparr>cmd_id = CMDID_SENDEVENT, cmd_args = Args_Send \<lparr>send_id = 11, send_force = (20 :: int) \<noteq> 0, send_num = 0\<rparr>\<rparr>,
      \<lparr>cmd_id = CMDID_SENDEVENT, cmd_args = Args_Send \<lparr>send_id = 12, send_force = (20 :: int) \<noteq> 0, send_num = 1\<rparr>\<rparr>,
      \<lparr>cmd_id = CMDID_DIV, cmd_args = Args_Div \<lparr>div_divisor = 0x4059000000000000, div_divident = 0x401C000000000000\<rparr>\<rparr>,
      \<lparr>cmd_id = CMDID_DIV, cmd_args = Args_Div \<lparr>div_divisor = 0x4059000000000000, div_divident = 0\<rparr>\<rparr>,
      \<lparr>cmd_id = CMDID_STOP, cmd_args = Args_None\<rparr>,
      \<lparr>cmd_id = CMDID_UNKNOWN, cmd_args = Args_None\<rparr>]"

text \<open>The bytes of a command; padding and what the view does not use are zero.\<close>

definition args_bytes :: "command_args \<Rightarrow> u8 list" where
  "args_bytes args =
     (case args of
        Args_None \<Rightarrow> replicate 16 0
      | Args_Send a \<Rightarrow> le_bytes 4 (send_id a) @ [if send_force a then 1 else 0] @ replicate 3 0 @ le_bytes 4 (send_num a) @ replicate 4 0
      | Args_Div a \<Rightarrow> le_bytes 8 (div_divisor a) @ le_bytes 8 (div_divident a))"

definition command_bytes :: "msg_command \<Rightarrow> u8 list" where
  "command_bytes cmd = le_bytes 4 (cmd_id cmd) @ replicate 4 0 @ args_bytes (cmd_args cmd)"

section \<open>Creation and deletion\<close>

record client_t =
  cl_command :: "nat option"
  cl_response :: "nat option"
  cl_event :: "nat option"
  cl_run :: bool

definition client_app_delete :: "client_t \<Rightarrow> world \<Rightarrow> world option" where
  "client_app_delete client w = do {
     w \<leftarrow> (case cl_command client of None \<Rightarrow> Some w | Some p \<Rightarrow> ri_producer_release p w);
     w \<leftarrow> (case cl_response client of None \<Rightarrow> Some w | Some c \<Rightarrow> ri_consumer_release c w);
     (case cl_event client of None \<Rightarrow> Some w | Some c \<Rightarrow> ri_consumer_release c w)
   }"

text \<open>The labels \<open>fail_thread\<close> and \<open>fail_channel\<close>, and what follows them.\<close>

definition client_fail :: "client_t \<Rightarrow> ri_group \<Rightarrow> world \<Rightarrow> (client_t option \<times> world) option" where
  "client_fail client grp w = do {
     w \<leftarrow> client_app_delete client w;
     w \<leftarrow> ri_group_delete grp w;
     Some (None, w)
   }"

text \<open>From the acquisition of the event channel on, of the response channel, and from the allocation.\<close>

definition client_take_event :: "client_t \<Rightarrow> ri_group \<Rightarrow> world \<Rightarrow> (client_t option \<times> world) option" where
  "client_take_event client grp w = do {
     (event, w) \<leftarrow> client_rpc_acquire_event grp w;
     let client = client\<lparr>cl_event := event\<rparr>;
     if event = None then client_fail client grp w else do {
       let client = client\<lparr>cl_run := True\<rparr>;
       let (created, w) = ask w;
       if \<not> created then client_fail client grp w else do {
         w \<leftarrow> ri_group_delete grp w;
         Some (Some client, w)
       }
     }
   }"

definition client_take_response :: "client_t \<Rightarrow> ri_group \<Rightarrow> world \<Rightarrow> (client_t option \<times> world) option" where
  "client_take_response client grp w = do {
     (response, w) \<leftarrow> client_rpc_acquire_response grp w;
     let client = client\<lparr>cl_response := response\<rparr>;
     if response = None then client_fail client grp w else client_take_event client grp w
   }"

definition client_empty :: client_t where
  "client_empty = \<lparr>cl_command = None, cl_response = None, cl_event = None, cl_run = False\<rparr>"

definition client_channels :: "ri_group \<Rightarrow> world \<Rightarrow> (client_t option \<times> world) option" where
  "client_channels grp w =
     (let (ok, w) = ask w in
      if \<not> ok then do { w \<leftarrow> ri_group_delete grp w; Some (None, w) } else
      do {
        (command, w) \<leftarrow> client_rpc_acquire_command grp w;
        let client = client_empty\<lparr>cl_command := command\<rparr>;
        if command = None then client_fail client grp w else client_take_response client grp w
      })"

definition client_app_new :: "u64 \<Rightarrow> (nat \<Rightarrow> u8) \<Rightarrow> string \<Rightarrow> ri_group_attr \<Rightarrow> host \<Rightarrow> (client_t option \<times> host) option" where
  "client_app_new cls raw path grp_attr h = do {
     (grp, h) \<leftarrow> ri_client_connect cls raw path grp_attr h;
     (case grp of None \<Rightarrow> Some (None, h) | Some grp \<Rightarrow> on_world (client_channels grp) h)
   }"

section \<open>The listener\<close>

text \<open>What a call of \<open>poll\<close> gives: an error, nothing in time, or the eventfd is readable.\<close>

datatype poll_result = Poll_Error | Poll_Timeout | Poll_In

definition msg_event_print :: "nat \<Rightarrow> world \<Rightarrow> (u32 \<times> u32) option" where
  "msg_event_print event w = do {
     idn \<leftarrow> read_field event 0 4 w;
     nr \<leftarrow> read_field event 4 4 w;
     Some (idn, nr)
   }"

text \<open>One turn of the loop, the flag \<open>run\<close> being set: whether the listener goes on.\<close>

definition listener_turn :: "nat \<Rightarrow> poll_result \<Rightarrow> world \<Rightarrow> (bool \<times> world) option" where
  "listener_turn event r w =
     (case r of
        Poll_Error \<Rightarrow> Some (False, w)
      | Poll_Timeout \<Rightarrow> Some (True, w)
      | Poll_In \<Rightarrow> do {
          (_, w) \<leftarrow> ri_consumer_pop event w;
          _ \<leftarrow> msg_event_print event w;
          Some (True, w)
        })"

text \<open>The thread over some turns; before each of them the server may write into the files. \<open>running\<close>: it has not ended.\<close>

fun event_listen :: "nat \<Rightarrow> ((kernel_file list \<Rightarrow> kernel_file list) \<times> poll_result) list \<Rightarrow> bool \<Rightarrow> world \<Rightarrow> (bool \<times> world) option" where
  "event_listen event [] running w = Some (running, w)"
| "event_listen event ((peer, r) # turns) running w = do {
     let w = w\<lparr>w_files := peer (w_files w)\<rparr>;
     (running, w) \<leftarrow> (if running then listener_turn event r w else Some (False, w));
     event_listen event turns running w
   }"

section \<open>Running\<close>

text \<open>\<open>others n\<close>: the turns of the listener and the writes of the server before the \<open>n\<close>th pop of the client.\<close>

type_synonym schedule = "nat \<Rightarrow> ((kernel_file list \<Rightarrow> kernel_file list) \<times> poll_result) list"

definition msg_response_print :: "nat \<Rightarrow> world \<Rightarrow> (u32 \<times> u32) option" where
  "msg_response_print response w = do {
     idn \<leftarrow> read_field response 0 4 w;
     result \<leftarrow> read_field response 4 4 w;
     Some (idn, result)
   }"

partial_function (option) client_wait ::
    "schedule \<Rightarrow> nat \<Rightarrow> nat \<Rightarrow> nat \<Rightarrow> bool \<Rightarrow> world \<Rightarrow> ((ri_pop_result \<times> nat \<times> bool) \<times> world) option" where
  "client_wait others response event n running w = do {
     (running, w) \<leftarrow> event_listen event (others n) running w;
     (r, w) \<leftarrow> ri_consumer_pop response w;
     if r = RI_POP_RESULT_NO_MSG \<or> r = RI_POP_RESULT_NO_UPDATE then client_wait others response event (Suc n) running w
     else Some ((r, Suc n, running), w)
   }"

text \<open>Reading past the end of the table is undefined.\<close>

fun client_commands :: "schedule \<Rightarrow> nat \<Rightarrow> nat \<Rightarrow> nat \<Rightarrow> msg_command list \<Rightarrow> nat \<Rightarrow> bool \<Rightarrow> world \<Rightarrow> (bool \<times> world) option" where
  "client_commands others command response event [] n running w = None"
| "client_commands others command response event (cmd # cmds) n running w =
     (if cmd_id cmd = CMDID_UNKNOWN then Some (running, w) else do {
        w \<leftarrow> write_bytes command 0 (command_bytes cmd) w;
        (_, w) \<leftarrow> ri_producer_force_push command w;
        ((r, n, running), w) \<leftarrow> client_wait others response event n running w;
        if r = RI_POP_RESULT_ERROR then Some (running, w) else do {
          _ \<leftarrow> msg_response_print response w;
          client_commands others command response event cmds n running w
        }
      })"

text \<open>The listener ends at once when its channel has no eventfd. The result is whether it still runs: nothing stops it, since the code after the endless loop is not reached.\<close>

definition client_run :: "schedule \<Rightarrow> client_t \<Rightarrow> msg_command list \<Rightarrow> world \<Rightarrow> (bool \<times> world) option" where
  "client_run others client cmds w = do {
     command \<leftarrow> cl_command client;
     response \<leftarrow> cl_response client;
     event \<leftarrow> cl_event client;
     x \<leftarrow> live (w_consumers w) event;
     client_commands others command response event cmds 0 (cl_run client \<and> ri_consumer_eventfd x \<ge> 0) w
   }"

text \<open>
  \<open>main\<close>, with the attributes and the commands as parameters; the result is the exit status, and the event channel of the listener when
  it still runs.
\<close>

definition client_session ::
    "u64 \<Rightarrow> (nat \<Rightarrow> u8) \<Rightarrow> schedule \<Rightarrow> string \<Rightarrow> ri_group_attr \<Rightarrow> msg_command list \<Rightarrow> host \<Rightarrow>
      ((int \<times> nat option) \<times> host) option" where
  "client_session cls raw others path grp_attr cmds h = do {
     (client, h) \<leftarrow> client_app_new cls raw path grp_attr h;
     (case client of
        None \<Rightarrow> Some ((-1, None), h)
      | Some client \<Rightarrow> do {
          (running, w) \<leftarrow> client_run others client cmds (h_world h);
          w \<leftarrow> client_app_delete client w;
          Some ((0, if running then cl_event client else None), h\<lparr>h_world := w\<rparr>)
        })
   }"

definition client_main :: "u64 \<Rightarrow> (nat \<Rightarrow> u8) \<Rightarrow> schedule \<Rightarrow> host \<Rightarrow> ((int \<times> nat option) \<times> host) option" where
  "client_main cls raw others h = client_session cls raw others ''rtipc.sock'' client_group_rpc commands h"

section \<open>The channels of the client\<close>

definition holds_channels :: "client_t \<Rightarrow> nat set \<Rightarrow> nat set \<Rightarrow> bool" where
  "holds_channels client P C \<longleftrightarrow> P = set_option (cl_command client) \<and> C = set_option (cl_response client) \<union> set_option (cl_event client) \<and>
     set_option (cl_response client) \<inter> set_option (cl_event client) = {}"

lemma client_delete_held:
  assumes g: "whole_group w i ps cs grp u0" and h: "handled grp u0 a P C E u" and s: "holds_channels client P C"
  shows "\<exists>v. client_app_delete client u = Some v \<and> handled grp u0 a {} {} E v"
proof -
  obtain u1 where u1: "(case cl_command client of None \<Rightarrow> Some u | Some p \<Rightarrow> ri_producer_release p u) = Some u1" "handled grp u0 a {} C E u1"
    using release_held_producer [OF g h, of "cl_command client"] s by (auto simp: holds_channels_def)
  obtain u2 where u2: "(case cl_response client of None \<Rightarrow> Some u1 | Some c \<Rightarrow> ri_consumer_release c u1) = Some u2"
    "handled grp u0 a {} (set_option (cl_event client)) E u2"
    using release_held_consumer [OF g u1(2), of "cl_response client"] s by (auto simp: holds_channels_def Un_Diff Diff_triv Int_commute)
  obtain u3 where "(case cl_event client of None \<Rightarrow> Some u2 | Some c \<Rightarrow> ri_consumer_release c u2) = Some u3" "handled grp u0 a {} {} E u3"
    using release_held_consumer [OF g u2(2), of "cl_event client"] by auto
  then show ?thesis using u1(1) u2(1) by (simp add: client_app_delete_def)
qed

lemma client_fail_held:
  assumes "whole_group w i ps cs grp u0" and "handled grp u0 True P C {} u" and "holds_channels client P C"
  shows "\<exists>v. client_fail client grp u = Some (None, v) \<and> same_resources w v"
proof -
  obtain u1 where u1: "client_app_delete client u = Some u1" "handled grp u0 True {} {} {} u1" using client_delete_held [OF assms] by blast
  obtain v where v: "ri_group_delete grp u1 = Some v" "handled grp u0 False {} {} {} v" using group_deleted_held [OF assms(1) u1(2)] by blast
  then show ?thesis using u1(1) handled_group [OF assms(1) v(2)] by (simp add: client_fail_def)
qed

text \<open>
  What the creation leaves: nothing (but for the mapping of a failed \<open>mlock\<close>), or a client with the channels of a group that has been deleted.
\<close>

definition client_left :: "world \<Rightarrow> client_t option \<times> world \<Rightarrow> bool" where
  "client_left w res \<longleftrightarrow> (case res of (None, v) \<Rightarrow> given_back w v
     | (Some client, v) \<Rightarrow> \<exists>i ps cs grp u P C. whole_group w i ps cs grp u \<and> handled grp u False P C {} v \<and> holds_channels client P C)"

lemma client_take_event_held:
  assumes g: "whole_group w i ps cs grp u0" and h: "handled grp u0 True P C {} u"
    and s: "holds_channels client P C" "cl_event client = None" and r: "client_take_event client grp u = Some res"
  shows "client_left w res"
proof -
  obtain e u1 where e: "client_rpc_acquire_event grp u = Some (e, u1)" using r by (auto simp: client_take_event_def bind_eq_Some_conv)
  let ?s = "client\<lparr>cl_event := e\<rparr>" and ?C = "C \<union> set_option e"
  note e' = e [unfolded client_rpc_acquire_event_def]
  have h1: "handled grp u0 True P ?C {} u1" using expected_consumer [OF h e'] .
  have s1: "holds_channels ?s P ?C" using s expected_consumer_fresh [OF g h e'] by (auto simp: holds_channels_def)
  show ?thesis
  proof (cases "e = None")
    case True
    then show ?thesis using r e client_fail_held [OF g h1 s1] by (auto simp: client_take_event_def client_left_def same_given_back)
  next
    case False
    obtain ok u2 where a: "ask u1 = (ok, u2)" by (cases "ask u1")
    have h2: "handled grp u0 True P ?C {} u2" by (rule called [OF h1 a])
    have s2: "holds_channels (?s\<lparr>cl_run := True\<rparr>) P ?C" using s1 by (simp add: holds_channels_def)
    show ?thesis
    proof (cases ok)
      case True
      then obtain v where "ri_group_delete grp u2 = Some v" "res = (Some (?s\<lparr>cl_run := True\<rparr>), v)"
        using r e a False by (auto simp: client_take_event_def bind_eq_Some_conv)
      then have "handled grp u0 False P ?C {} v" "res = (Some (?s\<lparr>cl_run := True\<rparr>), v)" using group_deleted [OF h2] by simp_all
      then show ?thesis unfolding client_left_def using g s2 by simp blast
    qed (use r e a False client_fail_held [OF g h2 s2] in \<open>auto simp: client_take_event_def client_left_def same_given_back\<close>)
  qed
qed

lemma client_take_response_held:
  assumes g: "whole_group w i ps cs grp u0" and h: "handled grp u0 True P {} {} u"
    and s: "holds_channels client P {}" "cl_event client = None" and r: "client_take_response client grp u = Some res"
  shows "client_left w res"
proof -
  obtain c u1 where c: "client_rpc_acquire_response grp u = Some (c, u1)" using r by (auto simp: client_take_response_def bind_eq_Some_conv)
  let ?s = "client\<lparr>cl_response := c\<rparr>"
  have h1: "handled grp u0 True P (set_option c) {} u1" using expected_consumer [OF h c [unfolded client_rpc_acquire_response_def]] by simp
  have s1: "holds_channels ?s P (set_option c)" "cl_event ?s = None" using s by (auto simp: holds_channels_def)
  show ?thesis using r c client_fail_held [OF g h1 s1(1)] client_take_event_held [OF g h1 s1]
    by (cases "c = None") (auto simp: client_take_response_def client_left_def same_given_back)
qed

lemma client_channels_held:
  assumes g: "whole_group w i ps cs grp u" and r: "client_channels grp u = Some res"
  shows "client_left w res"
proof -
  obtain ok u0 where a: "ask u = (ok, u0)" by (cases "ask u")
  note g0 = whole_ask [OF g a]
  show ?thesis
  proof (cases ok)
    case False
    then obtain v where "ri_group_delete grp u0 = Some v" "res = (None, v)" using r a by (auto simp: client_channels_def bind_eq_Some_conv)
    then show ?thesis using delete_whole [OF g0] by (auto simp: client_left_def same_given_back)
  next
    case True
    obtain c u1 where c: "client_rpc_acquire_command grp u0 = Some (c, u1)" using r a True by (auto simp: client_channels_def bind_eq_Some_conv)
    have h1: "handled grp u0 True (set_option c) {} {} u1"
      using expected_producer [OF created c [unfolded client_rpc_acquire_command_def]] by simp
    have s1: "holds_channels (client_empty\<lparr>cl_command := c\<rparr>) (set_option c) {}" "cl_event (client_empty\<lparr>cl_command := c\<rparr>) = None"
      by (simp_all add: holds_channels_def client_empty_def)
    show ?thesis using r a True c client_fail_held [OF g0 h1 s1(1)] client_take_response_held [OF g0 h1 s1]
      by (cases "c = None") (auto simp: client_channels_def client_left_def same_given_back)
  qed
qed

text \<open>A client that has connected holds a group and, until it is closed, the socket.\<close>

lemma exchanged_whole:
  assumes "ri_client_socket_connect cls raw attr h = Some (Some grp, h')"
  shows "\<exists>i ps cs. whole_group (h_world h) i ps cs grp (h_world h')"
proof -
  from assms obtain g h1 where on: "on_world (ri_group_from_attr cls raw attr) h = Some (Some g, h1)" and
    k: "do {
          (req, h) \<leftarrow> uxmsg_from_group cls raw g h1;
          (case req of
             None \<Rightarrow> do { h \<leftarrow> delete_group g h; Some (None, h) }
           | Some req \<Rightarrow> do {
               (r, h) \<leftarrow> exchange req h;
               h \<leftarrow> ri_uxmsg_delete req h;
               if r < 0 then do { h \<leftarrow> delete_group g h; Some (None, h) } else Some (Some g, h)
             })
        } = Some (Some grp, h')"
    by (auto simp: ri_client_socket_connect_def bind_eq_Some_conv split: option.splits)
  then obtain m h2 where u: "uxmsg_from_group cls raw g h1 = Some (Some m, h2)"
    by (auto simp: bind_eq_Some_conv split: option.splits)
  note U = quiet_from_group [OF u]
  obtain r h3 where e: "exchange m h2 = Some (r, h3)" "g = grp" "h' = h3"
    using k u U delete_sent by (auto simp: bind_eq_Some_conv split: if_splits)
  have q: "quiet h1 h'" using U quiet_exchange [OF e(1)] e(3) quiet_trans by blast
  obtain w1 where w1: "ri_group_from_attr cls raw attr (h_world h) = Some (Some g, w1)" "h_world h1 = w1" using on by (auto simp: on_world_def)
  show ?thesis
    by (rule creation_whole [OF w1(1)]) (use whole_frame quietD [OF q] w1(2) e(2) in blast)
qed

lemma connected_whole:
  assumes "ri_client_connect cls raw path attr h = Some (Some grp, h')"
  shows "\<exists>i ps cs. whole_group (h_world h) i ps cs grp (h_world h')"
proof -
  obtain fd h1 where p: "connect_path path h = (fd, h1)" by (cases "connect_path path h")
  with assms obtain h2 where c: "\<not> fd < 0" "ri_client_socket_connect cls raw attr h1 = Some (Some grp, h2)" "h' = close_host fd h2"
    by (auto simp: ri_client_connect_def bind_eq_Some_conv split: if_splits)
  obtain i ps cs where g: "whole_group (h_world h1) i ps cs grp (h_world h2)" using exchanged_whole [OF c(2)] by blast
  have "h_world h' = close_fd fd (h_world h2)" by (simp add: c(3) close_host_def)
  moreover have "whole_group (h_world h) i ps cs grp (close_fd fd (h_world h2))"
    by (rule whole_without [OF g]) (use connect_path_resources [OF p] calm_connect_path [OF p] c(1) in simp_all)
  ultimately show ?thesis by (intro exI) simp
qed

lemma client_app_new_held:
  assumes "client_app_new cls raw path attr h = Some (res, h')"
  shows "client_left (h_world h) (res, h_world h')"
proof -
  from assms obtain grp h1 where c: "ri_client_connect cls raw path attr h = Some (grp, h1)" by (auto simp: client_app_new_def bind_eq_Some_conv)
  show ?thesis
  proof (cases grp)
    case None
    have "given_back (h_world h) (h_world h1)" by (rule given_backI [OF connect_failed lossy_connect]) (use c None in simp_all)
    then show ?thesis using assms c None by (simp add: client_app_new_def client_left_def)
  qed (use assms c connected_whole client_channels_held in \<open>fastforce simp: client_app_new_def on_world_def\<close>)
qed

section \<open>The channels in use\<close>

lemma listener_turn_held:
  assumes "handled grp u0 a P C E u" and "event \<in> C" and "listener_turn event r u = Some (go, v)"
  shows "handled grp u0 a P C E v"
  using assms by (cases r) (auto simp: listener_turn_def bind_eq_Some_conv intro: popped)

lemma event_listen_held:
  assumes "event \<in> C"
  shows "handled grp u0 a P C E u \<Longrightarrow> event_listen event turns running u = Some (go, v) \<Longrightarrow> handled grp u0 a P C E v"
proof (induction turns arbitrary: running u)
  case (Cons turn turns)
  obtain peer r where t: "turn = (peer, r)" by (cases turn)
  let ?u = "u\<lparr>w_files := peer (w_files u)\<rparr>"
  from Cons.prems(2) obtain run1 u1 where
    l: "(if running then listener_turn event r ?u else Some (False, ?u)) = Some (run1, u1)" and
    k: "event_listen event turns run1 u1 = Some (go, v)" by (auto simp: t bind_eq_Some_conv Let_def)
  have "handled grp u0 a P C E u1"
    using l listener_turn_held [OF peer_wrote [OF Cons.prems(1)] assms] peer_wrote [OF Cons.prems(1)] by (auto split: if_splits)
  then show ?case by (rule Cons.IH [OF _ k])
qed simp

lemma client_wait_held:
  assumes c: "event \<in> C" "response \<in> C" and h: "handled grp u0 a P C E u"
    and r: "client_wait others response event n running u = Some (res, v)"
  shows "handled grp u0 a P C E v"
proof -
  have "event \<in> C \<and> response \<in> C \<and> handled grp u0 a P C E u \<longrightarrow> handled grp u0 a P C E (snd (res, v))"
  proof (rule client_wait.raw_induct [where P = "\<lambda>others response event n running u y.
      event \<in> C \<and> response \<in> C \<and> handled grp u0 a P C E u \<longrightarrow> handled grp u0 a P C E (snd y)", OF _ r], intro impI, elim conjE)
    fix rec others response event n running u and y :: "(ri_pop_result \<times> nat \<times> bool) \<times> world"
    assume IH: "\<And>others response event n running u y. rec others response event n running u = Some y \<Longrightarrow>
        event \<in> C \<and> response \<in> C \<and> handled grp u0 a P C E u \<longrightarrow> handled grp u0 a P C E (snd y)"
      and b: "event_listen event (others n) running u \<bind> (\<lambda>(running, w). ri_consumer_pop response w \<bind> (\<lambda>(r, w).
        if r = RI_POP_RESULT_NO_MSG \<or> r = RI_POP_RESULT_NO_UPDATE then rec others response event (Suc n) running w
        else Some ((r, Suc n, running), w))) = Some y"
      and c: "event \<in> C" "response \<in> C" and h: "handled grp u0 a P C E u"
    from b obtain run1 u1 r1 u2 where e: "event_listen event (others n) running u = Some (run1, u1)" "ri_consumer_pop response u1 = Some (r1, u2)"
      and k: "(if r1 = RI_POP_RESULT_NO_MSG \<or> r1 = RI_POP_RESULT_NO_UPDATE then rec others response event (Suc n) run1 u2
        else Some ((r1, Suc n, run1), u2)) = Some y" by (auto simp: bind_eq_Some_conv)
    have "handled grp u0 a P C E u2" by (rule popped [OF event_listen_held [OF c(1) h e(1)] c(2) e(2)])
    then show "handled grp u0 a P C E (snd y)" using k IH c by (auto split: if_splits)
  qed
  then show ?thesis using c h by simp
qed

lemma client_commands_held:
  assumes g: "whole_group w i ps cs grp u0" and c: "command \<in> P" "response \<in> C" "event \<in> C"
  shows "handled grp u0 a P C E u \<Longrightarrow> client_commands others command response event cmds n running u = Some (go, v) \<Longrightarrow>
    handled grp u0 a P C E v"
proof (induction cmds arbitrary: n running u)
  case (Cons cmd cmds)
  show ?case
  proof (cases "cmd_id cmd = CMDID_UNKNOWN")
    case False
    with Cons.prems(2) obtain u1 x u2 r n3 run3 u3 where u: "write_bytes command 0 (command_bytes cmd) u = Some u1"
      "ri_producer_force_push command u1 = Some (x, u2)" "client_wait others response event n running u2 = Some ((r, n3, run3), u3)" and
      k: "(if r = RI_POP_RESULT_ERROR then Some (run3, u3) else do {
          _ \<leftarrow> msg_response_print response u3;
          client_commands others command response event cmds n3 run3 u3
        }) = Some (go, v)" by (auto simp: bind_eq_Some_conv)
    have h: "handled grp u0 a P C E u3"
      by (rule client_wait_held [OF c(3,2) force_pushed [OF bytes_written [OF g Cons.prems(1) c(1) u(1)] c(1) u(2)] u(3)])
    show ?thesis using k h Cons.IH [OF h] by (auto simp: bind_eq_Some_conv split: if_splits)
  qed (use Cons.prems in simp)
qed simp

text \<open>The channels of the users are new, and a listener whose channel has been freed cannot go on.\<close>

lemma handled_fresh:
  assumes "whole_group w i ps cs grp w'" and "handled grp w' a P C E u" and "c \<in> C"
  shows "live (w_consumers w) c = None"
proof -
  have "held w i (of_bool a) P (if a then set ps else {}) C (if a then set cs else {}) E u"
    using handled_held [OF assms(1,2)] by (simp add: life_inv_def)
  then show ?thesis
    using shared_outD [of "consumer_side.uses i" cn_owners _ "shares_of C (if a then set cs else {})" "w_consumers u" c]
      shares_of_user [OF assms(3)] unfolding held_def by blast
qed

lemma freed_listener: "live (w_consumers v) e = None \<Longrightarrow> event_listen e ((peer, Poll_In) # turns) True v = None"
  by (simp add: listener_turn_def ri_consumer_pop_def Let_def)

section \<open>Properties\<close>

text \<open>
  C27. When the example client returns, it has what it had before: when it could not be set up (no server, another group, a channel that
  is missing, no memory, no thread; then only the mapping of a failed \<open>mlock\<close> may be left), and when it ran, whatever it was answered, without
  any exception. But nothing stops the listener: when it still runs, its channel has been freed, and the next event it is told of makes it
  use the channel.
\<close>

theorem client_gives_back:
  assumes "client_session cls raw others path attr cmds h = Some ((status, listener), h')"
  shows "given_back (h_world h) (h_world h') \<and> (status = 0 \<longrightarrow> same_resources (h_world h) (h_world h')) \<and>
    (\<forall>e peer turns. listener = Some e \<longrightarrow> event_listen e ((peer, Poll_In) # turns) True (h_world h') = None)"
proof -
  from assms obtain res h1 where n: "client_app_new cls raw path attr h = Some (res, h1)" by (auto simp: client_session_def bind_eq_Some_conv)
  note L = client_app_new_held [OF n]
  show ?thesis
  proof (cases res)
    case None
    then show ?thesis using assms n L by (auto simp: client_session_def client_left_def)
  next
    case (Some client)
    with L obtain i ps cs grp u P C where g: "whole_group (h_world h) i ps cs grp u" and h: "handled grp u False P C {} (h_world h1)"
      and s: "holds_channels client P C" by (auto simp: client_left_def)
    from assms n Some obtain go v v' where r: "client_run others client cmds (h_world h1) = Some (go, v)" and
      d: "client_app_delete client v = Some v'" and h': "h_world h' = v'" "listener = (if go then cl_event client else None)"
      by (auto simp: client_session_def bind_eq_Some_conv)
    obtain p c e on where c: "cl_command client = Some p" "cl_response client = Some c" "cl_event client = Some e"
      "client_commands others p c e cmds 0 on (h_world h1) = Some (go, v)" using r by (auto simp: client_run_def bind_eq_Some_conv)
    have hv: "handled grp u False P C {} v"
      by (rule client_commands_held [OF g _ _ _ h c(4)]) (use s c in \<open>simp_all add: holds_channels_def\<close>)
    from client_delete_held [OF g this s] d have "handled grp u False {} {} {} v'" by auto
    then have over: "same_resources (h_world h) v'" using handled_group [OF g] by blast
    have "e \<in> C" using s c by (simp add: holds_channels_def)
    then have "live (w_consumers v') e = None" using handled_fresh [OF g hv] over by (simp add: same_resources_def same_objects_def)
    then have "event_listen e ((peer, Poll_In) # turns) True v' = None" for peer turns by (rule freed_listener)
    then show ?thesis using over h' c(3) same_given_back by (auto simp del: event_listen.simps split: if_splits)
  qed
qed

text \<open>A client that is accepted and has no command to send: its listener runs when it returns.\<close>

lemma listener_left_running:
  "case client_session 64 zeros (\<lambda>n. []) ''/tmp/s'' client_group_rpc [last commands] client_host of
     Some ((status, listener), k) \<Rightarrow> status = 0 \<and> listener = Some 1 \<and> length (h_sent k) = 1
   | None \<Rightarrow> False"
  by code_simp

theorem client_gives_back_witness:
  "\<exists>k. client_session 64 zeros (\<lambda>n. []) ''/tmp/s'' client_group_rpc [last commands] client_host = Some ((0, Some 1), k) \<and>
     length (h_sent k) = 1 \<and> w_fds (h_world k) = [] \<and> w_lost (h_world k) = 0 \<and>
     event_listen 1 [(\<lambda>fs. fs, Poll_In)] True (h_world k) = None"
proof -
  obtain k where r: "client_session 64 zeros (\<lambda>n. []) ''/tmp/s'' client_group_rpc [last commands] client_host = Some ((0, Some 1), k)"
    "length (h_sent k) = 1"
    using listener_left_running by (auto split: option.splits prod.splits)
  note G = client_gives_back [OF r(1)]
  have "map_of (w_fds (h_world k)) = Map.empty \<and> w_lost (h_world k) = 0"
    using G by (simp add: same_resources_def same_objects_def client_host_def empty_world_def)
  moreover have "event_listen 1 [(\<lambda>fs. fs, Poll_In)] True (h_world k) = None" using G by blast
  ultimately show ?thesis using r by auto
qed

text \<open>
  The initialisers of the two commands for events name the number before the flag, the structure has them the other way round: the
  numbers the server reads are 0 and 1, and both are forced.
\<close>

lemma events_asked_for:
  "map (\<lambda>cmd. (of_le (take 4 (drop 8 (command_bytes cmd))) :: u32, command_bytes cmd ! 12 \<noteq> 0, of_le (take 4 (drop 16 (command_bytes cmd))) :: u32))
     (filter (\<lambda>cmd. cmd_id cmd = CMDID_SENDEVENT) commands) = [(11, True, 0), (12, True, 1)]"
  by code_simp

end
