(* ===== verification/Cxx_Examples.thy ===== *)
theory Cxx_Examples
  imports Cxx Server_Example Client_Example
begin

text \<open>
  The C++ examples (\<open>src/cxx/examples/\<close>): the same client and server on the C++ wrapper. Handles give their object back when their
  scope ends, in the reverse order of their declarations; an exception that leaves \<open>main\<close> ends the program. Messages, padding and the
  work of the other process are represented as for the C examples; output is left out.
\<close>

section \<open>The description of the channels\<close>

definition c_channel_send_event_args_info :: Info where
  "c_channel_send_event_args_info =
     [0x2, 0x3, 0x2, 0x69, 0x64, 0x1, 0x13, 0x5, 0x66, 0x6f, 0x72, 0x63, 0x65, 0x1, 0x0, 0x3, 0x6e, 0x75, 0x6d, 0x1, 0x13]"

definition c_channel_div_args_info :: Info where
  "c_channel_div_args_info =
     [0x2, 0x2, 0x7, 0x64, 0x69, 0x76, 0x69, 0x73, 0x6f, 0x72, 0x1, 0x24, 0x8, 0x64, 0x69, 0x76, 0x69, 0x64, 0x65, 0x6e, 0x74, 0x1, 0x24]"

definition c_channel_command_args_info :: Info where
  "c_channel_command_args_info =
     [0x3, 0x2, 0x3, 0x64, 0x69, 0x76, 0x2, 0x2, 0x7, 0x64, 0x69, 0x76, 0x69, 0x73, 0x6f, 0x72, 0x1, 0x24, 0x8, 0x64, 0x69, 0x76, 0x69,
      0x64, 0x65, 0x6e, 0x74, 0x1, 0x24, 0x4, 0x73, 0x65, 0x6e, 0x64, 0x2, 0x3, 0x2, 0x69, 0x64, 0x1, 0x13, 0x5, 0x66, 0x6f, 0x72,
      0x63, 0x65, 0x1, 0x0, 0x3, 0x6e, 0x75, 0x6d, 0x1, 0x13]"

definition c_channel_msg_command_info :: Info where
  "c_channel_msg_command_info =
     [0x2, 0x2, 0x2, 0x69, 0x64, 0x1, 0x13, 0x4, 0x61, 0x72, 0x67, 0x73, 0x3, 0x2, 0x3, 0x64, 0x69, 0x76, 0x2, 0x2, 0x7, 0x64, 0x69,
      0x76, 0x69, 0x73, 0x6f, 0x72, 0x1, 0x24, 0x8, 0x64, 0x69, 0x76, 0x69, 0x64, 0x65, 0x6e, 0x74, 0x1, 0x24, 0x4, 0x73, 0x65,
      0x6e, 0x64, 0x2, 0x3, 0x2, 0x69, 0x64, 0x1, 0x13, 0x5, 0x66, 0x6f, 0x72, 0x63, 0x65, 0x1, 0x0, 0x3, 0x6e, 0x75, 0x6d, 0x1,
      0x13]"

definition c_channel_response_data_info :: Info where
  "c_channel_response_data_info = [0x3, 0x1, 0x8, 0x71, 0x75, 0x6f, 0x74, 0x69, 0x65, 0x6e, 0x74, 0x1, 0x24]"

definition c_channel_msg_response_info :: Info where
  "c_channel_msg_response_info =
     [0x2, 0x3, 0x2, 0x69, 0x64, 0x1, 0x13, 0x6, 0x72, 0x65, 0x73, 0x75, 0x6c, 0x74, 0x1, 0x3, 0x4, 0x64, 0x61, 0x74, 0x61, 0x3, 0x1,
      0x8, 0x71, 0x75, 0x6f, 0x74, 0x69, 0x65, 0x6e, 0x74, 0x1, 0x24]"

definition c_channel_msg_event_info :: Info where
  "c_channel_msg_event_info = [0x2, 0x2, 0x2, 0x69, 0x64, 0x1, 0x13, 0x2, 0x6e, 0x72, 0x1, 0x13]"

definition c_group_rpc_info :: Info where
  "c_group_rpc_info =
     [0x3, 0x52, 0x50, 0x43, 0x7, 0x63, 0x6f, 0x6d, 0x6d, 0x61, 0x6e, 0x64, 0x8, 0x72, 0x65, 0x73, 0x70, 0x6f, 0x6e, 0x73, 0x65, 0x5,
      0x65, 0x76, 0x65, 0x6e, 0x74]"

definition c_rpc_c2s_channels :: "ChannelAttributes list" where
  "c_rpc_c2s_channels =
     [\<lparr>message_size = sizeof_msg_command, additional_messages = 0, with_eventfd = True, channel_info = c_channel_msg_command_info\<rparr>]"

definition c_rpc_s2c_channels :: "ChannelAttributes list" where
  "c_rpc_s2c_channels =
     [\<lparr>message_size = sizeof_msg_response, additional_messages = 0, with_eventfd = True, channel_info = c_channel_msg_response_info\<rparr>,
      \<lparr>message_size = sizeof_msg_event, additional_messages = 10, with_eventfd = True, channel_info = c_channel_msg_event_info\<rparr>]"

definition cxx_client_group_rpc :: GroupAttributes where
  "cxx_client_group_rpc = \<lparr>consumers = c_rpc_s2c_channels, producers = c_rpc_c2s_channels, group_info = c_group_rpc_info\<rparr>"

definition cxx_server_group_rpc :: GroupAttributes where
  "cxx_server_group_rpc = \<lparr>consumers = c_rpc_c2s_channels, producers = c_rpc_s2c_channels, group_info = c_group_rpc_info\<rparr>"

section \<open>Acquisition\<close>

text \<open>
  The body the six functions share. Attributes that could not be read are an \<open>expected\<close> without value, which is equal to no attributes.
\<close>

definition cxx_acquire_expected ::
    "(ri_group \<Rightarrow> u32 \<Rightarrow> (Error + ChannelAttributes) outcome) \<Rightarrow> (ri_group \<Rightarrow> u32 \<Rightarrow> world \<Rightarrow> ((Error + nat) \<times> world) option)
      \<Rightarrow> ChannelAttributes \<Rightarrow> u32 \<Rightarrow> ri_group \<Rightarrow> world \<Rightarrow> ((Error + nat) \<times> world) option" where
  "cxx_acquire_expected get_attributes acquire expect_attr index grp w =
     (case get_attributes grp index of
        Returns remote_attr \<Rightarrow>
          if remote_attr \<noteq> Inr expect_attr then Some (Inl Error_attribute_mismatch, w) else acquire grp index w
      | _ \<Rightarrow> None)"

definition cxx_client_rpc_acquire_response :: "ri_group \<Rightarrow> world \<Rightarrow> ((Error + nat) \<times> world) option" where
  "cxx_client_rpc_acquire_response = cxx_acquire_expected ChannelGroup_get_consumer_attributes
     (ChannelGroup_acquire_consumer sizeof_msg_response) (consumers cxx_client_group_rpc ! 0) 0"

definition cxx_client_rpc_acquire_event :: "ri_group \<Rightarrow> world \<Rightarrow> ((Error + nat) \<times> world) option" where
  "cxx_client_rpc_acquire_event = cxx_acquire_expected ChannelGroup_get_consumer_attributes
     (ChannelGroup_acquire_consumer sizeof_msg_event) (consumers cxx_client_group_rpc ! 1) 1"

definition cxx_client_rpc_acquire_command :: "ri_group \<Rightarrow> world \<Rightarrow> ((Error + nat) \<times> world) option" where
  "cxx_client_rpc_acquire_command = cxx_acquire_expected ChannelGroup_get_producer_attributes
     (ChannelGroup_acquire_producer sizeof_msg_command) (producers cxx_client_group_rpc ! 0) 0"

definition cxx_server_rpc_acquire_command :: "ri_group \<Rightarrow> world \<Rightarrow> ((Error + nat) \<times> world) option" where
  "cxx_server_rpc_acquire_command = cxx_acquire_expected ChannelGroup_get_consumer_attributes
     (ChannelGroup_acquire_consumer sizeof_msg_command) (consumers cxx_server_group_rpc ! 0) 0"

definition cxx_server_rpc_acquire_response :: "ri_group \<Rightarrow> world \<Rightarrow> ((Error + nat) \<times> world) option" where
  "cxx_server_rpc_acquire_response = cxx_acquire_expected ChannelGroup_get_producer_attributes
     (ChannelGroup_acquire_producer sizeof_msg_response) (producers cxx_server_group_rpc ! 0) 0"

definition cxx_server_rpc_acquire_event :: "ri_group \<Rightarrow> world \<Rightarrow> ((Error + nat) \<times> world) option" where
  "cxx_server_rpc_acquire_event = cxx_acquire_expected ChannelGroup_get_producer_attributes
     (ChannelGroup_acquire_producer sizeof_msg_event) (producers cxx_server_group_rpc ! 1) 1"

section \<open>The client\<close>

datatype ClientError = ClientError_error | ClientError_again

record Client =
  m_command :: nat
  m_response :: nat
  m_event :: nat

text \<open>The members are destroyed in the reverse order.\<close>

definition Client_destroy :: "Client \<Rightarrow> world \<Rightarrow> world option" where
  "Client_destroy client w = do {
     w \<leftarrow> consumer_release (Some (m_event client)) w;
     w \<leftarrow> consumer_release (Some (m_response client)) w;
     producer_release (Some (m_command client)) w
   }"

text \<open>From the acquisition of the first channel on; the group is a local of the function.\<close>

definition Client_channels :: "ri_group \<Rightarrow> world \<Rightarrow> ((Error + Client) \<times> world) option" where
  "Client_channels grp w = do {
     (command, w) \<leftarrow> cxx_client_rpc_acquire_command grp w;
     (case command of
        Inl e \<Rightarrow> do { w \<leftarrow> group_delete (Some grp) w; Some (Inl e, w) }
      | Inr command \<Rightarrow> do {
          (response, w) \<leftarrow> cxx_client_rpc_acquire_response grp w;
          (case response of
             Inl e \<Rightarrow> do { w \<leftarrow> producer_release (Some command) w; w \<leftarrow> group_delete (Some grp) w; Some (Inl e, w) }
           | Inr response \<Rightarrow> do {
               (event, w) \<leftarrow> cxx_client_rpc_acquire_event grp w;
               (case event of
                  Inl e \<Rightarrow> do {
                    w \<leftarrow> consumer_release (Some response) w; w \<leftarrow> producer_release (Some command) w;
                    w \<leftarrow> group_delete (Some grp) w; Some (Inl e, w)
                  }
                | Inr event \<Rightarrow> do {
                    w \<leftarrow> group_delete (Some grp) w;
                    Some (Inr \<lparr>m_command = command, m_response = response, m_event = event\<rparr>, w)
                  })
             })
        })
   }"

text \<open>The path is not used.\<close>

definition Client_connect :: "u64 \<Rightarrow> (nat \<Rightarrow> u8) \<Rightarrow> string \<Rightarrow> host \<Rightarrow> ((Error + Client) \<times> host) option" where
  "Client_connect cls raw path h = do {
     (grp, h) \<leftarrow> client_connect cls raw ''rtipc.sock'' cxx_client_group_rpc h;
     (case grp of Inl e \<Rightarrow> Some (Inl e, h) | Inr grp \<Rightarrow> on_world (Client_channels grp) h)
   }"

text \<open>\<open>k\<close> rounds are left; \<open>peer k\<close> is what the server does to the files before.\<close>

fun await_loop :: "(nat \<Rightarrow> kernel_file list \<Rightarrow> kernel_file list) \<Rightarrow> Client \<Rightarrow> nat \<Rightarrow> world \<Rightarrow> ((ClientError + unit) \<times> world) option" where
  "await_loop peer client 0 w = Some (Inl ClientError_error, w)"
| "await_loop peer client (Suc k) w = do {
     (result, w) \<leftarrow> ConsumerBase_pop (m_response client) (w\<lparr>w_files := peer k (w_files w)\<rparr>);
     (case result of
        Inl e \<Rightarrow> Some (Inl ClientError_error, w)
      | Inr r \<Rightarrow>
          if r = PopResult_no_message \<or> r = PopResult_no_update then await_loop peer client k w
          else do { _ \<leftarrow> msg_response_print (m_response client) w; Some (Inr (), w) })
   }"

definition await_response :: "(nat \<Rightarrow> kernel_file list \<Rightarrow> kernel_file list) \<Rightarrow> Client \<Rightarrow> world \<Rightarrow> ((ClientError + unit) \<times> world) option" where
  "await_response peer client w = await_loop peer client 30000 w"

definition send_command ::
    "(nat \<Rightarrow> kernel_file list \<Rightarrow> kernel_file list) \<Rightarrow> msg_command \<Rightarrow> Client \<Rightarrow> world \<Rightarrow> ((ClientError + unit) \<times> world) option" where
  "send_command peer cmd client w = do {
     w \<leftarrow> write_bytes (m_command client) 0 (command_bytes cmd) w;
     (result, w) \<leftarrow> ProducerBase_force_push (m_command client) w;
     (case result of Inl e \<Rightarrow> Some (Inl ClientError_error, w) | Inr r \<Rightarrow> await_response peer client w)
   }"

definition cxx_commands :: "msg_command list" where
  "cxx_commands =
     [\<lparr>cmd_id = CMDID_HELLO, cmd_args = Args_None\<rparr>,
      \<lparr>cmd_id = CMDID_SENDEVENT, cmd_args = Args_Send \<lparr>send_id = 11, send_force = False, send_num = 20\<rparr>\<rparr>,
      \<lparr>cmd_id = CMDID_SENDEVENT, cmd_args = Args_Send \<lparr>send_id = 12, send_force = True, send_num = 20\<rparr>\<rparr>,
      \<lparr>cmd_id = CMDID_DIV, cmd_args = Args_Div \<lparr>div_divisor = 0x4059000000000000, div_divident = 0x401C000000000000\<rparr>\<rparr>,
      \<lparr>cmd_id = CMDID_DIV, cmd_args = Args_Div \<lparr>div_divisor = 0x4059000000000000, div_divident = 0\<rparr>\<rparr>,
      \<lparr>cmd_id = CMDID_STOP, cmd_args = Args_None\<rparr>]"

text \<open>The loop of \<open>main\<close>: the exit status.\<close>

fun send_all :: "(nat \<Rightarrow> nat \<Rightarrow> kernel_file list \<Rightarrow> kernel_file list) \<Rightarrow> msg_command list \<Rightarrow> Client \<Rightarrow> world \<Rightarrow> (int \<times> world) option" where
  "send_all peer [] client w = Some (0, w)"
| "send_all peer (cmd # cmds) client w = do {
     (result, w) \<leftarrow> send_command (peer (length cmds)) cmd client w;
     (case result of Inl e \<Rightarrow> Some (-1, w) | Inr r \<Rightarrow> send_all peer cmds client w)
   }"

text \<open>The result of \<open>connect\<close> is used without a test.\<close>

definition cxx_client_main ::
    "u64 \<Rightarrow> (nat \<Rightarrow> u8) \<Rightarrow> (nat \<Rightarrow> nat \<Rightarrow> kernel_file list \<Rightarrow> kernel_file list) \<Rightarrow> host \<Rightarrow> (int \<times> host) option" where
  "cxx_client_main cls raw peer h = do {
     (client, h) \<leftarrow> Client_connect cls raw ''rtipc.sock'' h;
     (case client of
        Inl e \<Rightarrow> None
      | Inr client \<Rightarrow> do {
          (status, w) \<leftarrow> send_all peer cxx_commands client (h_world h);
          w \<leftarrow> Client_destroy client w;
          Some (status, h\<lparr>h_world := w\<rparr>)
        })
   }"

section \<open>The server\<close>

datatype ServerError = ServerError_error | ServerError_again

datatype runtime_error = runtime_error

record Server =
  s_command :: nat
  s_response :: nat
  s_event :: nat

definition Server_destroy :: "Server \<Rightarrow> world \<Rightarrow> world option" where
  "Server_destroy server w = do {
     w \<leftarrow> producer_release (Some (s_event server)) w;
     w \<leftarrow> producer_release (Some (s_response server)) w;
     consumer_release (Some (s_command server)) w
   }"

definition cxx_filter :: Filter where
  "cxx_filter attr \<longleftrightarrow> attr = cxx_server_group_rpc"

definition Server_channels :: "ri_group \<Rightarrow> world \<Rightarrow> ((Error + Server) \<times> world) option" where
  "Server_channels grp w = do {
     (command, w) \<leftarrow> cxx_server_rpc_acquire_command grp w;
     (case command of
        Inl e \<Rightarrow> do { w \<leftarrow> group_delete (Some grp) w; Some (Inl e, w) }
      | Inr command \<Rightarrow> do {
          (response, w) \<leftarrow> cxx_server_rpc_acquire_response grp w;
          (case response of
             Inl e \<Rightarrow> do { w \<leftarrow> consumer_release (Some command) w; w \<leftarrow> group_delete (Some grp) w; Some (Inl e, w) }
           | Inr response \<Rightarrow> do {
               (event, w) \<leftarrow> cxx_server_rpc_acquire_event grp w;
               (case event of
                  Inl e \<Rightarrow> do {
                    w \<leftarrow> producer_release (Some response) w; w \<leftarrow> consumer_release (Some command) w;
                    w \<leftarrow> group_delete (Some grp) w; Some (Inl e, w)
                  }
                | Inr event \<Rightarrow> do {
                    w \<leftarrow> group_delete (Some grp) w;
                    Some (Inr \<lparr>s_command = command, s_response = response, s_event = event\<rparr>, w)
                  })
             })
        })
   }"

text \<open>The path is not used, and neither is the error of \<open>accept\<close>.\<close>

definition Server_connect :: "u64 \<Rightarrow> (nat \<Rightarrow> u8) \<Rightarrow> string \<Rightarrow> host \<Rightarrow> ((Error + Server) \<times> host) option" where
  "Server_connect cls raw path h =
     (case Server_listen ''rtipc.sock'' h of
        (Inl e, h) \<Rightarrow> Some (Inl e, h)
      | (Inr server, h) \<Rightarrow> do {
          (grp, h) \<leftarrow> Server_accept cls raw server cxx_filter h;
          (case grp of
             Inl e \<Rightarrow> None
           | Inr grp \<Rightarrow> do {
               (res, h) \<leftarrow> on_world (Server_channels grp) h;
               Some (res, server_delete (Some server) h)
             })
        })"

text \<open>The left side is the exception.\<close>

fun cxx_events_loop :: "nat \<Rightarrow> u32 \<Rightarrow> u32 \<Rightarrow> bool \<Rightarrow> nat list \<Rightarrow> world \<Rightarrow> ((runtime_error + u32) \<times> world) option" where
  "cxx_events_loop producer idn num force [] w = Some (Inr num, w)"
| "cxx_events_loop producer idn num force (i # is) w = do {
     w \<leftarrow> write_field producer 0 4 idn w;
     w \<leftarrow> write_field producer 4 4 (of_nat i :: u32) w;
     if force then do {
       (result, w) \<leftarrow> ProducerBase_force_push producer w;
       (case result of Inl e \<Rightarrow> Some (Inl runtime_error, w) | Inr r \<Rightarrow> cxx_events_loop producer idn num force is w)
     } else do {
       (result, w) \<leftarrow> ProducerBase_try_push producer w;
       (case result of
          Inl e \<Rightarrow> Some (Inl runtime_error, w)
        | Inr r \<Rightarrow> if r = TryPushResult_fail then Some (Inr (of_nat i), w) else cxx_events_loop producer idn num force is w)
     }
   }"

definition send_events :: "nat \<Rightarrow> u32 \<Rightarrow> u32 \<Rightarrow> bool \<Rightarrow> world \<Rightarrow> ((runtime_error + u32) \<times> world) option" where
  "send_events producer idn num force w = cxx_events_loop producer idn num force [0..<unat num] w"

definition cxx_server_div :: "(u64 \<Rightarrow> u64 \<Rightarrow> u64) \<Rightarrow> u64 \<Rightarrow> u64 \<Rightarrow> u32 \<times> u64 option" where
  "cxx_server_div fdiv a b = (if b AND mask 63 = 0 then (- 1, None) else (0, Some (fdiv a b)))"

text \<open>The \<open>switch\<close>; \<open>False\<close> when an exception was thrown.\<close>

definition cxx_execute :: "(u64 \<Rightarrow> u64 \<Rightarrow> u64) \<Rightarrow> Server \<Rightarrow> u32 \<Rightarrow> world \<Rightarrow> (bool \<times> world) option" where
  "cxx_execute fdiv server cmdid w =
     (let command = s_command server; response = s_response server in
      if cmdid = CMDID_HELLO then do { w \<leftarrow> write_field response 4 4 (0 :: u32) w; Some (True, w) }
      else if cmdid = CMDID_STOP then do { w \<leftarrow> write_field response 4 4 (0 :: u32) w; Some (True, w) }
      else if cmdid = CMDID_SENDEVENT then do {
        idn \<leftarrow> read_field command 8 4 w;
        num \<leftarrow> read_field command 16 4 w;
        force \<leftarrow> read_field command 12 1 w;
        (r, w) \<leftarrow> send_events (s_event server) idn num ((force :: u8) \<noteq> 0) w;
        (case r of Inl e \<Rightarrow> Some (False, w) | Inr r \<Rightarrow> do { w \<leftarrow> write_field response 4 4 r w; Some (True, w) })
      }
      else if cmdid = CMDID_DIV then do {
        divisor \<leftarrow> read_field command 8 8 w;
        divident \<leftarrow> read_field command 16 8 w;
        (case cxx_server_div fdiv divisor divident of
           (r, None) \<Rightarrow> do { w \<leftarrow> write_field response 4 4 r w; Some (True, w) }
         | (r, Some res) \<Rightarrow> do { w \<leftarrow> write_field response 8 8 res w; w \<leftarrow> write_field response 4 4 r w; Some (True, w) })
      }
      else do { w \<leftarrow> write_field response 4 4 (- 1 :: u32) w; Some (True, w) })"

definition proccess :: "(u64 \<Rightarrow> u64 \<Rightarrow> u64) \<Rightarrow> Server \<Rightarrow> world \<Rightarrow> ((runtime_error + (ServerError + u32)) \<times> world) option" where
  "proccess fdiv server w = do {
     (pop_result, w) \<leftarrow> ConsumerBase_pop (s_command server) w;
     (case pop_result of
        Inl e \<Rightarrow> Some (Inr (Inl ServerError_error), w)
      | Inr r \<Rightarrow>
          if r = PopResult_no_message \<or> r = PopResult_no_update then Some (Inr (Inl ServerError_again), w)
          else do {
            cmdid \<leftarrow> read_field (s_command server) 0 4 w;
            w \<leftarrow> write_field (s_response server) 0 4 cmdid w;
            (ok, w) \<leftarrow> cxx_execute fdiv server cmdid w;
            if \<not> ok then Some (Inl runtime_error, w) else do {
              (push_result, w) \<leftarrow> ProducerBase_force_push (s_response server) w;
              Some (Inr (case push_result of Inl e \<Rightarrow> Inl ServerError_error | Inr r \<Rightarrow> Inr cmdid), w)
            }
          })
   }"

text \<open>The loop of \<open>main\<close>, with \<open>n\<close> cycles left: the exit status, or \<open>None\<close> when an exception ends the program.\<close>

fun cxx_server_cycles ::
    "(nat \<Rightarrow> kernel_file list \<Rightarrow> kernel_file list) \<Rightarrow> (u64 \<Rightarrow> u64 \<Rightarrow> u64) \<Rightarrow> Server \<Rightarrow> nat \<Rightarrow> world \<Rightarrow> (int option \<times> world) option" where
  "cxx_server_cycles peer fdiv server 0 w = Some (Some 0, w)"
| "cxx_server_cycles peer fdiv server (Suc n) w = do {
     (result, w) \<leftarrow> proccess fdiv server (w\<lparr>w_files := peer n (w_files w)\<rparr>);
     (case result of
        Inl e \<Rightarrow> Some (None, w)
      | Inr (Inl e) \<Rightarrow> if e = ServerError_again then cxx_server_cycles peer fdiv server n w else Some (Some (-1), w)
      | Inr (Inr cmdid) \<Rightarrow> if cmdid = CMDID_STOP then Some (Some 0, w) else cxx_server_cycles peer fdiv server n w)
   }"

definition cxx_server_main ::
    "u64 \<Rightarrow> (nat \<Rightarrow> u8) \<Rightarrow> (nat \<Rightarrow> kernel_file list \<Rightarrow> kernel_file list) \<Rightarrow> (u64 \<Rightarrow> u64 \<Rightarrow> u64) \<Rightarrow> host \<Rightarrow> (int option \<times> host) option" where
  "cxx_server_main cls raw peer fdiv h = do {
     (server, h) \<leftarrow> Server_connect cls raw ''rticp.sock'' h;
     (case server of
        Inl e \<Rightarrow> Some (Some (-1), h)
      | Inr server \<Rightarrow> do {
          (status, w) \<leftarrow> cxx_server_cycles peer fdiv server MAX_CYCLES (h_world h);
          (case status of
             None \<Rightarrow> Some (None, h\<lparr>h_world := w\<rparr>)
           | Some s \<Rightarrow> do { w \<leftarrow> Server_destroy server w; Some (Some s, h\<lparr>h_world := w\<rparr>) })
        })
   }"

end
