(* ===== verification/Cxx_Examples_Properties.thy ===== *)
theory Cxx_Examples_Properties
  imports Cxx_Examples Cxx_Properties
begin

text \<open>
  The C++ examples beside the C examples: they describe the same groups, their servers do the same with a command, and client and server
  keep nothing of a group.
\<close>

section \<open>The same groups\<close>

lemma examples_agree:
  "group_content (CGroupAttributes cxx_client_group_rpc) = group_content client_group_rpc"
  "group_content (CGroupAttributes cxx_server_group_rpc) = group_content server_group_rpc"
  "GroupAttributes_from_c_attributes server_group_rpc = Returns cxx_server_group_rpc"
  by code_simp+

section \<open>The same server\<close>

lemma not_Inl [simp]: "(\<forall>x. s \<noteq> Inl x) \<longleftrightarrow> (\<exists>y. s = Inr y)"
  by (cases s) auto

lemma events_same: "cxx_events_loop p idn num force is w = Some (Inr n, v) \<Longrightarrow> send_events_loop p idn num force is w = Some (n, v)"
proof (induction "is" arbitrary: w)
  case (Cons i "is")
  then obtain w1 w2 where w: "write_field p 0 4 idn w = Some w1" "write_field p 4 4 (of_nat i :: u32) w1 = Some w2"
    by (auto simp: bind_eq_Some_conv)
  show ?case
  proof (cases force)
    case True
    with Cons.prems w obtain x w3 where "ri_producer_force_push p w2 = Some (x, w3)" "cxx_events_loop p idn num force is w3 = Some (Inr n, v)"
      by (auto simp: bind_eq_Some_conv ProducerBase_force_push_def split: sum.splits)
    then show ?thesis using Cons.IH w True by simp
  next
    case False
    with Cons.prems w obtain x w3 where t: "ri_producer_try_push p w2 = Some (x, w3)" and
      k: "(case try_push_expected x of Inl e \<Rightarrow> Some (Inl runtime_error, w3)
        | Inr r \<Rightarrow> if r = TryPushResult_fail then Some (Inr (of_nat i), w3) else cxx_events_loop p idn num False is w3) = Some (Inr n, v)"
      by (auto simp: bind_eq_Some_conv ProducerBase_try_push_def)
    then show ?thesis using Cons.IH w False by (cases x) auto
  qed
qed simp

lemma execute_same:
  assumes "cxx_execute fdiv server cmdid w = Some (True, v)"
  shows "execute_command fdiv (s_command server) (s_response server) (s_event server) cmdid w = Some v"
proof -
  have d: "cxx_server_div = server_div" by (intro ext) (simp add: cxx_server_div_def server_div_def)
  note defs = cxx_execute_def execute_command_def send_events_def server_send_events_def Let_def
  consider "cmdid = CMDID_SENDEVENT" | "cmdid = CMDID_DIV" | "cmdid \<noteq> CMDID_SENDEVENT" "cmdid \<noteq> CMDID_DIV" by blast
  then show ?thesis
  proof cases
    case 1
    then show ?thesis using assms
      by (auto simp: defs CMDID_HELLO_def CMDID_STOP_def CMDID_SENDEVENT_def bind_eq_Some_conv split: sum.splits dest!: events_same)
  next
    case 2
    then have n: "cmdid \<noteq> CMDID_HELLO" "cmdid \<noteq> CMDID_STOP" "cmdid \<noteq> CMDID_SENDEVENT" "cmdid = CMDID_DIV"
      by (simp_all add: CMDID_HELLO_def CMDID_STOP_def CMDID_SENDEVENT_def CMDID_DIV_def)
    then obtain x y :: u64 where xy: "read_field (s_command server) 8 8 w = Some x" "read_field (s_command server) 16 8 w = Some y"
      using assms by (auto simp: defs bind_eq_Some_conv)
    obtain r q where q: "server_div fdiv x y = (r, q)" by (cases "server_div fdiv x y")
    show ?thesis using assms n xy q unfolding defs d by (cases q) (auto simp: bind_eq_Some_conv)
  qed (use assms in \<open>auto simp: defs bind_eq_Some_conv split: if_splits\<close>)
qed

section \<open>Nothing is kept\<close>

definition pointer_of :: "Error + nat \<Rightarrow> nat option" where
  "pointer_of res = (case res of Inl e \<Rightarrow> None | Inr p \<Rightarrow> Some p)"

lemma cxx_acquired_consumer:
  assumes "cxx_acquire_expected attrs (ChannelGroup_acquire_consumer sz) e k grp u = Some (res, v)"
  shows "(pointer_of res = None \<and> v = u) \<or> ri_group_acquire_consumer grp k u = Some (pointer_of res, v)"
  using assms
  by (auto simp: cxx_acquire_expected_def ChannelGroup_acquire_consumer_def ChannelGroup_acquire_consumer_impl_def pointer_of_def
      bind_eq_Some_conv split: outcome.splits sum.splits if_splits option.splits)

lemma cxx_acquired_producer:
  assumes "cxx_acquire_expected attrs (ChannelGroup_acquire_producer sz) e k grp u = Some (res, v)"
  shows "(pointer_of res = None \<and> v = u) \<or> ri_group_acquire_producer grp k u = Some (pointer_of res, v)"
  using assms
  by (auto simp: cxx_acquire_expected_def ChannelGroup_acquire_producer_def ChannelGroup_acquire_producer_impl_def pointer_of_def
      bind_eq_Some_conv split: outcome.splits sum.splits if_splits option.splits)

lemma cxx_consumer_held:
  assumes g: "whole_group w i ps cs grp u0" and h: "handled grp u0 True P C E u"
    and r: "cxx_acquire_expected attrs (ChannelGroup_acquire_consumer sz) e k grp u = Some (res, v)"
  shows "handled grp u0 True P (C \<union> set_option (pointer_of res)) E v" and "set_option (pointer_of res) \<inter> C = {}"
proof -
  show "handled grp u0 True P (C \<union> set_option (pointer_of res)) E v"
    using cxx_acquired_consumer [OF r] h consumer_acquired [OF h] by auto
  have "calls_defined grp True P C u" using handled_group [OF g h] by blast
  then obtain x y where "ri_group_acquire_consumer grp k u = Some (x, y)" "set_option x \<inter> C = {}" unfolding calls_defined_def by blast
  then show "set_option (pointer_of res) \<inter> C = {}" using cxx_acquired_consumer [OF r] by auto
qed

lemma cxx_producer_held:
  assumes g: "whole_group w i ps cs grp u0" and h: "handled grp u0 True P C E u"
    and r: "cxx_acquire_expected attrs (ChannelGroup_acquire_producer sz) e k grp u = Some (res, v)"
  shows "handled grp u0 True (P \<union> set_option (pointer_of res)) C E v" and "set_option (pointer_of res) \<inter> P = {}"
proof -
  show "handled grp u0 True (P \<union> set_option (pointer_of res)) C E v"
    using cxx_acquired_producer [OF r] h producer_acquired [OF h] by auto
  have "calls_defined grp True P C u" using handled_group [OF g h] by blast
  then obtain x y where "ri_group_acquire_producer grp k u = Some (x, y)" "set_option x \<inter> P = {}" unfolding calls_defined_def by blast
  then show "set_option (pointer_of res) \<inter> P = {}" using cxx_acquired_producer [OF r] by auto
qed

lemma released_consumer:
  assumes "handled grp u0 g P C E u" and "c \<in> C" and "consumer_release (Some c) u = Some v"
  shows "handled grp u0 g P (C - {c}) E v"
  using consumer_released [OF assms(1,2)] assms(3) by (simp add: consumer_release_def)

lemma released_producer:
  assumes "handled grp u0 g P C E u" and "p \<in> P" and "producer_release (Some p) u = Some v"
  shows "handled grp u0 g (P - {p}) C E v"
  using producer_released [OF assms(1,2)] assms(3) by (simp add: producer_release_def)

lemma deleted_group:
  assumes "handled grp u0 True P C E u" and "group_delete (Some grp) u = Some v"
  shows "handled grp u0 False P C E v"
  using group_deleted [OF assms(1)] assms(2) by (simp add: group_delete_def)

text \<open>What \<open>connect\<close> leaves: nothing, or the channels of a group that has been deleted.\<close>

definition client_keeps :: "world \<Rightarrow> ri_group \<Rightarrow> world \<Rightarrow> Error + Client \<Rightarrow> world \<Rightarrow> bool" where
  "client_keeps w grp u0 res v \<longleftrightarrow> (case res of
       Inl e \<Rightarrow> same_resources w v
     | Inr c \<Rightarrow> m_response c \<noteq> m_event c \<and> handled grp u0 False {m_command c} {m_response c, m_event c} {} v)"

lemma Client_channels_held:
  assumes g: "whole_group w i ps cs grp u0" and r: "Client_channels grp u0 = Some (res, v)"
  shows "client_keeps w grp u0 res v"
proof -
  have over: "same_resources w x" if "handled grp u0 False {} {} {} x" for x using handled_group [OF g that] by simp
  obtain c u1 where c: "cxx_client_rpc_acquire_command grp u0 = Some (c, u1)" using r by (auto simp: Client_channels_def bind_eq_Some_conv)
  note h1 = cxx_producer_held [OF g created c [unfolded cxx_client_rpc_acquire_command_def]]
  show ?thesis
  proof (cases c)
    case (Inl e)
    then show ?thesis using r c deleted_group [OF h1(1)] over
      by (auto simp: Client_channels_def client_keeps_def pointer_of_def bind_eq_Some_conv)
  next
    case command: (Inr command)
    obtain a u2 where a: "cxx_client_rpc_acquire_response grp u1 = Some (a, u2)" using r c command by (auto simp: Client_channels_def bind_eq_Some_conv)
    note h2 = cxx_consumer_held [OF g h1(1) a [unfolded cxx_client_rpc_acquire_response_def]]
    show ?thesis
    proof (cases a)
      case (Inl e)
      with r c command a obtain u3 where "producer_release (Some command) u2 = Some u3" "group_delete (Some grp) u3 = Some v" "res = Inl e"
        by (auto simp: Client_channels_def bind_eq_Some_conv)
      then show ?thesis using over deleted_group [OF released_producer [OF h2(1)]] command Inl by (auto simp: client_keeps_def pointer_of_def)
    next
      case response: (Inr response)
      obtain e u3 where e: "cxx_client_rpc_acquire_event grp u2 = Some (e, u3)"
        using r c command a response by (auto simp: Client_channels_def bind_eq_Some_conv)
      note h3 = cxx_consumer_held [OF g h2(1) e [unfolded cxx_client_rpc_acquire_event_def]]
      show ?thesis
      proof (cases e)
        case (Inl x)
        with r c command a response e obtain u4 u5 where u: "consumer_release (Some response) u3 = Some u4" "producer_release (Some command) u4 = Some u5"
          "group_delete (Some grp) u5 = Some v" "res = Inl x"
          by (auto simp: Client_channels_def bind_eq_Some_conv)
        have "handled grp u0 True {command} {response} {} u3" using h3(1) command response Inl by (simp add: pointer_of_def)
        from deleted_group [OF released_producer [OF released_consumer [OF this _ u(1)] _ u(2)] u(3)]
        show ?thesis using over u(4) by (simp add: client_keeps_def)
      next
        case event: (Inr event)
        with r c command a response e have d: "group_delete (Some grp) u3 = Some v"
          "res = Inr \<lparr>m_command = command, m_response = response, m_event = event\<rparr>"
          by (auto simp: Client_channels_def bind_eq_Some_conv)
        have "handled grp u0 False {command} {response, event} {} v"
          using deleted_group [OF h3(1) d(1)] command response event by (simp add: pointer_of_def insert_commute)
        then show ?thesis using d(2) h3(2) response event by (simp add: client_keeps_def pointer_of_def)
      qed
    qed
  qed
qed

lemma await_held:
  assumes "m_response client \<in> C"
  shows "handled grp u0 g P C E u \<Longrightarrow> await_loop peer client k u = Some (res, v) \<Longrightarrow> handled grp u0 g P C E v"
proof (induction k arbitrary: u)
  case (Suc k)
  from Suc.prems(2) obtain r u1 where p: "ri_consumer_pop (m_response client) (u\<lparr>w_files := peer k (w_files u)\<rparr>) = Some (r, u1)" and
    k: "(case pop_expected r of Inl e \<Rightarrow> Some (Inl ClientError_error, u1)
      | Inr r \<Rightarrow> if r = PopResult_no_message \<or> r = PopResult_no_update then await_loop peer client k u1
          else do { _ \<leftarrow> msg_response_print (m_response client) u1; Some (Inr (), u1) }) = Some (res, v)"
    by (auto simp: ConsumerBase_pop_def bind_eq_Some_conv)
  have h: "handled grp u0 g P C E u1" by (rule popped [OF peer_wrote [OF Suc.prems(1)] assms p])
  show ?case using k h Suc.IH [OF h] by (cases r) (auto simp: bind_eq_Some_conv)
qed simp

lemma send_command_held:
  assumes g: "whole_group w i ps cs grp u0" and c: "m_command client \<in> P" "m_response client \<in> C"
    and h: "handled grp u0 a P C E u" and r: "send_command peer cmd client u = Some (res, v)"
  shows "handled grp u0 a P C E v"
proof -
  from r obtain u1 x u2 where u: "write_bytes (m_command client) 0 (command_bytes cmd) u = Some u1" "ri_producer_force_push (m_command client) u1 = Some (x, u2)" and
    k: "(case force_push_expected x of Inl e \<Rightarrow> Some (Inl ClientError_error, u2) | Inr r \<Rightarrow> await_response peer client u2) = Some (res, v)"
    by (auto simp: send_command_def ProducerBase_force_push_def bind_eq_Some_conv)
  have h2: "handled grp u0 a P C E u2" by (rule force_pushed [OF bytes_written [OF g h c(1) u(1)] c(1) u(2)])
  show ?thesis using k h2 await_held [OF c(2) h2] by (cases x) (auto simp: await_response_def)
qed

lemma send_all_held:
  assumes g: "whole_group w i ps cs grp u0" and c: "m_command client \<in> P" "m_response client \<in> C"
  shows "handled grp u0 a P C E u \<Longrightarrow> send_all peer cmds client u = Some (s, v) \<Longrightarrow> handled grp u0 a P C E v"
proof (induction cmds arbitrary: u)
  case (Cons cmd cmds)
  from Cons.prems(2) obtain res u1 where p: "send_command (peer (length cmds)) cmd client u = Some (res, u1)" and
    k: "(case res of Inl e \<Rightarrow> Some (-1, u1) | Inr r \<Rightarrow> send_all peer cmds client u1) = Some (s, v)" by (auto simp: bind_eq_Some_conv)
  have h: "handled grp u0 a P C E u1" by (rule send_command_held [OF g c Cons.prems(1) p])
  then show ?case using k Cons.IH [OF h] by (cases res) auto
qed simp

text \<open>The client gives back everything when it returns from \<open>main\<close>.\<close>

lemma cxx_client_gives_back:
  assumes "cxx_client_main cls raw peer h = Some (status, h')"
  shows "same_resources (h_world h) (h_world h')"
proof -
  from assms obtain client h1 v w' where n: "Client_connect cls raw ''rtipc.sock'' h = Some (Inr client, h1)" and
    r: "send_all peer cxx_commands client (h_world h1) = Some (status, v)" "Client_destroy client v = Some w'" "h_world h' = w'"
    by (auto simp: cxx_client_main_def bind_eq_Some_conv split: sum.splits)
  from n obtain grp h2 where c: "ri_client_connect cls raw ''rtipc.sock'' (CGroupAttributes cxx_client_group_rpc) h = Some (Some grp, h2)"
    and k: "on_world (Client_channels grp) h2 = Some (Inr client, h1)"
    by (auto simp: Client_connect_def client_connect_def expect_pointer_def bind_eq_Some_conv split: option.splits sum.splits)
  obtain i ps cs where g: "whole_group (h_world h) i ps cs grp (h_world h2)" using connected_whole [OF c] by blast
  have "client_keeps (h_world h) grp (h_world h2) (Inr client) (h_world h1)" using k Client_channels_held [OF g] by (auto simp: on_world_def)
  then have m: "m_response client \<noteq> m_event client" and
    h: "handled grp (h_world h2) False {m_command client} {m_response client, m_event client} {} (h_world h1)" by (simp_all add: client_keeps_def)
  have hv: "handled grp (h_world h2) False {m_command client} {m_response client, m_event client} {} v" by (rule send_all_held [OF g _ _ h r(1)]) simp_all
  from r(2) obtain u1 u2 where u: "consumer_release (Some (m_event client)) v = Some u1" "consumer_release (Some (m_response client)) u1 = Some u2"
    "producer_release (Some (m_command client)) u2 = Some w'" by (auto simp: Client_destroy_def bind_eq_Some_conv)
  have "handled grp (h_world h2) False ({m_command client} - {m_command client})
      ({m_response client, m_event client} - {m_event client} - {m_response client}) {} w'"
    by (rule released_producer [OF released_consumer [OF released_consumer [OF hv _ u(1)] _ u(2)] _ u(3)]) (use m in auto)
  moreover have "{m_response client, m_event client} - {m_event client} - {m_response client} = {}" by blast
  ultimately show ?thesis using handled_group [OF g] r(3) by (metis Diff_cancel)
qed

section \<open>Properties\<close>

text \<open>
  C32. A command that the C++ server handles without a queue error is handled as by the C server: the same bytes are written, the same
  messages pushed, and both go on or stop.
\<close>

theorem proccess_as_in_c:
  assumes "proccess fdiv server w = Some (Inr (Inr cmdid), w')"
  shows "\<exists>r w1. ri_consumer_pop (s_command server) w = Some (r, w1) \<and> (r = RI_POP_RESULT_SUCCESS \<or> r = RI_POP_RESULT_DISCARDED) \<and>
    handle_command fdiv (s_command server) (s_response server) (s_event server) w1 = Some (cmdid \<noteq> CMDID_STOP, w')"
proof -
  from assms obtain r w1 where p: "ri_consumer_pop (s_command server) w = Some (r, w1)"
    by (auto simp: proccess_def ConsumerBase_pop_def bind_eq_Some_conv)
  with assms have r: "r = RI_POP_RESULT_SUCCESS \<or> r = RI_POP_RESULT_DISCARDED" by (cases r) (auto simp: proccess_def ConsumerBase_pop_def)
  then have "\<exists>x. pop_expected r = Inr x \<and> x \<noteq> PopResult_no_message \<and> x \<noteq> PopResult_no_update" by auto
  with assms p obtain id w2 ok w3 where u: "read_field (s_command server) 0 4 w1 = Some id" "write_field (s_response server) 0 4 id w1 = Some w2"
    "cxx_execute fdiv server id w2 = Some (ok, w3)" and
    k: "(if \<not> ok then Some (Inl runtime_error, w3) else do {
          (push_result, w) \<leftarrow> ProducerBase_force_push (s_response server) w3;
          Some (Inr (case push_result of Inl e \<Rightarrow> Inl ServerError_error | Inr r \<Rightarrow> Inr id), w)
        }) = Some (Inr (Inr cmdid), w')"
    by (auto simp: proccess_def ConsumerBase_pop_def bind_eq_Some_conv)
  obtain x where "ok" "ri_producer_force_push (s_response server) w3 = Some (x, w')" "id = cmdid"
    using k by (auto simp: ProducerBase_force_push_def bind_eq_Some_conv split: if_splits sum.splits)
  then have "handle_command fdiv (s_command server) (s_response server) (s_event server) w1 = Some (cmdid \<noteq> CMDID_STOP, w')"
    using u execute_same by (auto simp: handle_command_def)
  then show ?thesis using p r by blast
qed

text \<open>A group and its copy in one process, and a first command in the queue.\<close>

definition hello_group :: GroupAttributes where
  "hello_group = \<lparr>consumers = [\<lparr>message_size = 16, additional_messages = 0, with_eventfd = False, channel_info = []\<rparr>],
     producers = [\<lparr>message_size = 24, additional_messages = 0, with_eventfd = False, channel_info = []\<rparr>], group_info = []\<rparr>"

definition hello_sent :: "(Server \<times> world) option" where
  "hello_sent = do {
     (grp, w) \<leftarrow> ri_group_from_attr 64 zeros (CGroupAttributes hello_group) (failing_at 100);
     grp \<leftarrow> grp;
     r \<leftarrow> ChannelGroup_serialize 64 grp w;
     (req, fds) \<leftarrow> (case r of Inl e \<Rightarrow> None | Inr x \<Rightarrow> Some x);
     ((copy, fds), w) \<leftarrow> ri_group_deserialize 64 zeros req (of_nat (length req)) fds (Some (of_nat (length fds))) w;
     copy \<leftarrow> copy;
     (p, w) \<leftarrow> ri_group_acquire_producer grp 0 w;
     p \<leftarrow> p;
     w \<leftarrow> write_bytes p 0 (command_bytes (hd cxx_commands)) w;
     (_, w) \<leftarrow> ri_producer_force_push p w;
     (c, w) \<leftarrow> ri_group_acquire_consumer copy 0 w;
     c \<leftarrow> c;
     (r, w) \<leftarrow> ri_group_acquire_producer copy 0 w;
     r \<leftarrow> r;
     Some (\<lparr>s_command = c, s_response = r, s_event = r\<rparr>, w)
   }"

lemma hello_processed:
  "case hello_sent of
     Some (server, w) \<Rightarrow> (case proccess (\<lambda>a b. 0) server w of Some (Inr (Inr cmdid), v) \<Rightarrow> cmdid = CMDID_HELLO | _ \<Rightarrow> False)
   | None \<Rightarrow> False"
  by code_simp

theorem proccess_as_in_c_witness:
  "\<exists>server w r w1 w2. hello_sent = Some (server, w) \<and> ri_consumer_pop (s_command server) w = Some (r, w1) \<and>
     handle_command (\<lambda>a b. 0) (s_command server) (s_response server) (s_event server) w1 = Some (True, w2)"
proof -
  obtain server w where s: "hello_sent = Some (server, w)"
    and p: "case proccess (\<lambda>a b. 0) server w of Some (Inr (Inr cmdid), v) \<Rightarrow> cmdid = CMDID_HELLO | _ \<Rightarrow> False"
    using hello_processed by (auto split: option.splits)
  then obtain v where "proccess (\<lambda>a b. 0) server w = Some (Inr (Inr CMDID_HELLO), v)" by (auto split: option.splits sum.splits)
  from proccess_as_in_c [OF this] obtain r w1 where "ri_consumer_pop (s_command server) w = Some (r, w1)"
    "handle_command (\<lambda>a b. 0) (s_command server) (s_response server) (s_event server) w1 = Some (CMDID_HELLO \<noteq> CMDID_STOP, v)" by blast
  then show ?thesis using s by (intro exI conjI) (auto simp: CMDID_HELLO_def CMDID_STOP_def)
qed

end
