(* ===== verification/Benchmark.thy ===== *)
theory Benchmark
  imports Liveness Rpc_Life
begin

text \<open>
  The benchmark (\<open>src/examples/benchmark.c\<close>): a client that sends numbered messages as fast as it can and a server that checks the
  numbers and counts what it has received and lost. Processes, affinity, clocks and output are left out; what the other process does to the
  files is a parameter.
\<close>

section \<open>Statistics\<close>

definition COUNTER_INIT :: u64 where
  "COUNTER_INIT = - 1"

record server_stat =
  st_received :: u64
  st_overflowed :: u64
  st_dropped :: u64

record client_stat =
  ct_sent :: u64
  ct_dropped :: u64

definition server_stat_zero :: server_stat where
  "server_stat_zero = \<lparr>st_received = 0, st_overflowed = 0, st_dropped = 0\<rparr>"

definition client_stat_zero :: client_stat where
  "client_stat_zero = \<lparr>ct_sent = 0, ct_dropped = 0\<rparr>"

section \<open>The server\<close>

text \<open>The \<open>switch\<close> of \<open>consume\<close>; the message is its counter and its flag, reading it through a null pointer is undefined.\<close>

definition consume_switch :: "ri_pop_result \<Rightarrow> (u64 \<times> bool) option \<Rightarrow> u64 \<Rightarrow> server_stat \<Rightarrow> (int \<times> u64 \<times> server_stat) option" where
  "consume_switch result msg counter stat =
     (case result of
        RI_POP_RESULT_ERROR \<Rightarrow> Some (-1, counter, stat)
      | RI_POP_RESULT_NO_MSG \<Rightarrow> Some (if counter \<noteq> COUNTER_INIT then -1 else 1, counter, stat)
      | RI_POP_RESULT_NO_UPDATE \<Rightarrow> Some (1, counter, stat)
      | RI_POP_RESULT_SUCCESS \<Rightarrow> (case msg of
          None \<Rightarrow> None
        | Some (msg_counter, stop) \<Rightarrow>
            (let stat = stat\<lparr>st_received := st_received stat + 1\<rparr>;
                 r = (if counter \<noteq> COUNTER_INIT \<and> msg_counter \<noteq> counter + 1 then -1 else 1)
             in Some (if stop then 0 else r, msg_counter, stat)))
      | RI_POP_RESULT_DISCARDED \<Rightarrow> (case msg of
          None \<Rightarrow> None
        | Some (msg_counter, stop) \<Rightarrow>
            (let stat = stat\<lparr>st_received := st_received stat + 1, st_overflowed := st_overflowed stat + 1\<rparr> in
             if counter \<noteq> COUNTER_INIT \<and> msg_counter \<le> counter + 1 then Some (-1, counter, stat)
             else Some (if stop then 0 else 1, msg_counter,
               stat\<lparr>st_dropped := st_dropped stat + (if counter = COUNTER_INIT then msg_counter else msg_counter - counter - 1)\<rparr>))))"

definition consume :: "nat \<Rightarrow> u64 \<Rightarrow> server_stat \<Rightarrow> world \<Rightarrow> ((int \<times> u64 \<times> server_stat) \<times> world) option" where
  "consume consumer counter stat w = do {
     (result, w) \<leftarrow> ri_consumer_pop consumer w;
     msg \<leftarrow> (if result = RI_POP_RESULT_SUCCESS \<or> result = RI_POP_RESULT_DISCARDED then do {
         c \<leftarrow> read_field consumer 0 8 w;
         s \<leftarrow> read_field consumer 8 1 w;
         Some (Some (c, (s :: u8) \<noteq> 0))
       } else Some None);
     (r, counter, stat) \<leftarrow> consume_switch result msg counter stat;
     Some ((r, counter, stat), w)
   }"

text \<open>The loop of \<open>server_entry\<close>; before its \<open>n\<close>th turn the client does \<open>peer n\<close> to the files.\<close>

partial_function (option) consume_loop ::
    "(nat \<Rightarrow> kernel_file list \<Rightarrow> kernel_file list) \<Rightarrow> nat \<Rightarrow> nat \<Rightarrow> u64 \<Rightarrow> server_stat \<Rightarrow> world \<Rightarrow> (server_stat \<times> world) option" where
  "consume_loop peer consumer n counter stat w = do {
     ((state, counter, stat), w) \<leftarrow> consume consumer counter stat (w\<lparr>w_files := peer n (w_files w)\<rparr>);
     if state > 0 then consume_loop peer consumer (Suc n) counter stat w else Some (stat, w)
   }"

definition server_body :: "(nat \<Rightarrow> kernel_file list \<Rightarrow> kernel_file list) \<Rightarrow> ri_group \<Rightarrow> world \<Rightarrow> ((int \<times> server_stat option) \<times> world) option" where
  "server_body peer vec w = do {
     (consumer, w) \<leftarrow> ri_group_acquire_consumer vec 0 w;
     (case consumer of
        None \<Rightarrow> do { w \<leftarrow> ri_group_delete vec w; Some ((-1, None), w) }
      | Some consumer \<Rightarrow> do {
          w \<leftarrow> ri_group_delete vec w;
          (stat, w) \<leftarrow> consume_loop peer consumer 0 COUNTER_INIT server_stat_zero w;
          w \<leftarrow> ri_consumer_release consumer w;
          Some ((0, Some stat), w)
        })
   }"

definition server_entry ::
    "u64 \<Rightarrow> (nat \<Rightarrow> u8) \<Rightarrow> (nat \<Rightarrow> kernel_file list \<Rightarrow> kernel_file list) \<Rightarrow> host \<Rightarrow> ((int \<times> server_stat option) \<times> host) option" where
  "server_entry cls raw peer h = do {
     (vec, h) \<leftarrow> ri_server_socket_accept cls raw None h;
     (case vec of None \<Rightarrow> Some ((-1, None), h) | Some vec \<Rightarrow> on_world (server_body peer vec) h)
   }"

section \<open>The client\<close>

definition produce_switch :: "ri_force_push_result \<Rightarrow> client_stat \<Rightarrow> int \<times> client_stat" where
  "produce_switch result stat =
     (case result of
        RI_FORCE_PUSH_RESULT_ERROR \<Rightarrow> (-1, stat)
      | RI_FORCE_PUSH_RESULT_SUCCESS \<Rightarrow> (1, stat\<lparr>ct_sent := ct_sent stat + 1\<rparr>)
      | RI_FORCE_PUSH_RESULT_DISCARDED \<Rightarrow> (1, stat\<lparr>ct_sent := ct_sent stat + 1, ct_dropped := ct_dropped stat + 1\<rparr>))"

definition produce :: "nat \<Rightarrow> u64 \<Rightarrow> client_stat \<Rightarrow> world \<Rightarrow> ((int \<times> client_stat) \<times> world) option" where
  "produce producer counter stat w = do {
     w \<leftarrow> write_field producer 0 8 counter w;
     (result, w) \<leftarrow> ri_producer_force_push producer w;
     Some (produce_switch result stat, w)
   }"

definition ADDITIONAL_MSGS :: u32 where
  "ADDITIONAL_MSGS = 100"

definition SEND_NUM_MSGS :: nat where
  "SEND_NUM_MSGS = 10000000"

definition bench_attr :: ri_group_attr where
  "bench_attr = \<lparr>g_consumers = None,
     g_producers = Some [\<lparr>a_msg_size = 16, a_add_msgs = ADDITIONAL_MSGS, a_eventfd = False, a_info = info_zero\<rparr>, channel_attr_zero],
     g_info = info_zero\<rparr>"

text \<open>\<open>k\<close> messages are left.\<close>

fun produce_loop ::
    "(nat \<Rightarrow> kernel_file list \<Rightarrow> kernel_file list) \<Rightarrow> nat \<Rightarrow> nat \<Rightarrow> u64 \<Rightarrow> client_stat \<Rightarrow> world \<Rightarrow> (client_stat \<times> world) option" where
  "produce_loop peer producer 0 counter stat w = Some (stat, w)"
| "produce_loop peer producer (Suc k) counter stat w = do {
     ((r, stat), w) \<leftarrow> produce producer counter stat (w\<lparr>w_files := peer k (w_files w)\<rparr>);
     if r < 0 then Some (stat, w) else produce_loop peer producer k (counter + 1) stat w
   }"

text \<open>When the producer is not there the group is kept, as in the code.\<close>

definition client_body :: "(nat \<Rightarrow> kernel_file list \<Rightarrow> kernel_file list) \<Rightarrow> ri_group \<Rightarrow> world \<Rightarrow> ((int \<times> client_stat option) \<times> world) option" where
  "client_body peer vec w = do {
     (producer, w) \<leftarrow> ri_group_acquire_producer vec 0 w;
     (case producer of
        None \<Rightarrow> Some ((-1, None), w)
      | Some producer \<Rightarrow> do {
          w \<leftarrow> ri_group_delete vec w;
          (stat, w) \<leftarrow> produce_loop peer producer SEND_NUM_MSGS 0 client_stat_zero w;
          w \<leftarrow> write_field producer 0 8 (of_nat SEND_NUM_MSGS :: u64) w;
          w \<leftarrow> write_field producer 8 1 (1 :: u8) w;
          (_, w) \<leftarrow> ri_producer_force_push producer w;
          w \<leftarrow> ri_producer_release producer w;
          Some ((0, Some stat), w)
        })
   }"

definition client_entry ::
    "u64 \<Rightarrow> (nat \<Rightarrow> u8) \<Rightarrow> (nat \<Rightarrow> kernel_file list \<Rightarrow> kernel_file list) \<Rightarrow> host \<Rightarrow> ((int \<times> client_stat option) \<times> host) option" where
  "client_entry cls raw peer h = do {
     (vec, h) \<leftarrow> ri_client_socket_connect cls raw bench_attr h;
     (case vec of None \<Rightarrow> Some ((-1, None), h) | Some vec \<Rightarrow> on_world (client_body peer vec) h)
   }"

section \<open>The two on a queue\<close>

text \<open>Message \<open>i\<close> of a run that ends with message \<open>z\<close>, and what the two do: \<open>True\<close> for a push.\<close>

definition bench_msg :: "nat \<Rightarrow> nat \<Rightarrow> u64 \<times> bool" where
  "bench_msg z i = (of_nat i, i = z)"

fun bench_ops :: "nat \<Rightarrow> bool list \<Rightarrow> nat \<Rightarrow> (u64 \<times> bool) queue_op list" where
  "bench_ops z [] c = []"
| "bench_ops z (True # bs) c = Force_Push (bench_msg z c) # bench_ops z bs (Suc c)"
| "bench_ops z (False # bs) c = Pop_Msg # bench_ops z bs c"

text \<open>
  What they make of one operation and its result. The last push, the one with the flag, is made outside the loop of the client and its
  result is not looked at; a server that has seen the end, or a fault, pops no more. \<open>None\<close> is a failure of \<open>produce\<close>, or a message read
  through a null pointer.
\<close>

definition tally_one :: "(u64 \<times> bool) queue_op \<Rightarrow> (u64 \<times> bool) queue_result \<Rightarrow> client_stat \<Rightarrow> int \<times> u64 \<times> server_stat \<Rightarrow>
    (client_stat \<times> int \<times> u64 \<times> server_stat) option" where
  "tally_one op result ct s =
     (case (op, result) of
        (Force_Push (_, stop), Forced r) \<Rightarrow>
          (if stop then Some (ct, s) else case produce_switch r ct of (x, ct) \<Rightarrow> if x < 0 then None else Some (ct, s))
      | (Pop_Msg, Popped r m) \<Rightarrow>
          (case s of (state, counter, stat) \<Rightarrow>
             if state > 0 then map_option (Pair ct) (consume_switch r m counter stat) else Some (ct, s))
      | _ \<Rightarrow> Some (ct, s))"

fun tally :: "(u64 \<times> bool) queue_op list \<Rightarrow> (u64 \<times> bool) queue_result list \<Rightarrow> client_stat \<Rightarrow> int \<times> u64 \<times> server_stat \<Rightarrow>
    (client_stat \<times> int \<times> u64 \<times> server_stat) option" where
  "tally (op # ops) (r # rs) ct s = (case tally_one op r ct s of None \<Rightarrow> None | Some (ct, s) \<Rightarrow> tally ops rs ct s)"
| "tally _ _ ct s = Some (ct, s)"

lemma tally_append: "length ops = length rs \<Longrightarrow> tally (ops @ ops') (rs @ rs') ct s =
    (case tally ops rs ct s of None \<Rightarrow> None | Some (ct, s) \<Rightarrow> tally ops' rs' ct s)"
  by (induction ops rs arbitrary: ct s rule: list_induct2) (simp_all split: option.split)

text \<open>
  \<open>c\<close> messages have been pushed, the oldest one in the queue is \<open>a\<close>, the next one the server would like to see is \<open>e\<close>; it has received
  \<open>R\<close> and missed \<open>S\<close>. The client has not counted \<open>d\<close> of the messages that were lost.
\<close>

definition server_at :: "nat \<Rightarrow> nat \<Rightarrow> nat \<Rightarrow> nat \<Rightarrow> int \<times> u64 \<times> server_stat \<Rightarrow> bool" where
  "server_at z e R S s \<longleftrightarrow> (case s of (state, counter, stat) \<Rightarrow> state = (if e = Suc z then 0 else 1) \<and> counter = of_nat e - 1 \<and>
     st_received stat = of_nat R \<and> st_dropped stat = of_nat S)"

definition tallied :: "nat \<Rightarrow> nat \<Rightarrow> u64 \<Rightarrow> (u64 \<times> bool) fifo \<Rightarrow> client_stat \<Rightarrow> int \<times> u64 \<times> server_stat \<Rightarrow> bool" where
  "tallied z c d f ct s \<longleftrightarrow> (\<exists>a e R S. e \<le> a \<and> a \<le> c \<and> c \<le> Suc z \<and> (a = c \<longrightarrow> e = c) \<and>
     f_pending f = map (bench_msg z) [a..<c] \<and> (f_gap f \<longleftrightarrow> e < a) \<and> (f_held f = None \<longleftrightarrow> e = 0) \<and> R + S = e \<and>
     ct_sent ct = of_nat (min c z) \<and> ct_dropped ct + d = of_nat (S + (a - e)) \<and> server_at z e R S s)"

lemma spec_trace_Cons: "spec_trace step (op # ops) a =
    (fst (spec_trace step ops (fst (step op a))), snd (step op a) # snd (spec_trace step ops (fst (step op a))))"
  by (simp split: prod.splits)

declare spec_trace.simps(2) [simp del]

text \<open>A push, with what it adds to the losses: counted by the client, except for the last one.\<close>

lemma tallied_push:
  assumes "3 \<le> n" and "tallied z c d f ct s" and "c \<le> z"
  shows "\<exists>r ct'. snd (fifo_step n (Force_Push (bench_msg z c)) f) = Forced r \<and>
    tally_one (Force_Push (bench_msg z c)) (Forced r) ct s = Some (ct', s) \<and>
    tallied z (Suc c) (if c = z \<and> r = RI_FORCE_PUSH_RESULT_DISCARDED then d + 1 else d) (fst (fifo_step n (Force_Push (bench_msg z c)) f)) ct' s"
proof -
  from assms(2) obtain a e R S where t: "e \<le> a" "a \<le> c" "a = c \<longrightarrow> e = c" "f_pending f = map (bench_msg z) [a..<c]" "f_gap f \<longleftrightarrow> e < a"
    "f_held f = None \<longleftrightarrow> e = 0" "R + S = e" "ct_sent ct = of_nat (min c z)" "ct_dropped ct + d = of_nat (S + (a - e))"
    "server_at z e R S s" unfolding tallied_def by (elim exE conjE) (rule that)
  let ?ct = "\<lambda>k. if c = z then ct else ct\<lparr>ct_sent := ct_sent ct + 1, ct_dropped := ct_dropped ct + k\<rparr>"
  have sent: "ct_sent (?ct k) = of_nat (min (Suc c) z)" for k using t(8) assms(3) by (cases "c = z") (simp_all add: min_def)
  show ?thesis
  proof (cases "fifo_room n f")
    case True
    have p: "f_pending f @ [bench_msg z c] = map (bench_msg z) [a..<Suc c]" using t(2,4) by simp
    have dr: "ct_dropped (?ct 0) + d = of_nat (S + (a - e))" using t(9) by simp
    have "tallied z (Suc c) d (f\<lparr>f_pending := f_pending f @ [bench_msg z c]\<rparr>) (?ct 0) s"
      unfolding tallied_def p
      by (rule exI [of _ a], rule exI [of _ e], rule exI [of _ R], rule exI [of _ S]) (use t sent [of 0] dr assms(3) in simp)
    then show ?thesis using True by (auto simp: produce_switch_def tally_one_def bench_msg_def)
  next
    case False
    then have "f_pending f \<noteq> []" using assms(1) by (auto simp: fifo_room_def fifo_count_def split: if_splits)
    then have a: "a < c" using t(2,4) by auto
    have p: "tl (f_pending f) @ [bench_msg z c] = map (bench_msg z) [Suc a..<Suc c]" using t(4) a by (simp add: upt_conv_Cons)
    have "S + (Suc a - e) = Suc (S + (a - e))" using t(1) by simp
    then have dr: "ct_dropped (?ct 1) + (if c = z then d + 1 else d) = of_nat (S + (Suc a - e))"
      using t(9) by (simp only: of_nat_Suc) (simp add: algebra_simps)
    have "tallied z (Suc c) (if c = z then d + 1 else d) (f\<lparr>f_pending := tl (f_pending f) @ [bench_msg z c], f_gap := True\<rparr>) (?ct 1) s"
      unfolding tallied_def p
      by (rule exI [of _ "Suc a"], rule exI [of _ e], rule exI [of _ R], rule exI [of _ S]) (use t sent [of 1] dr assms(3) a in simp)
    then show ?thesis using False by (auto simp: produce_switch_def tally_one_def bench_msg_def)
  qed
qed

text \<open>The numbers are exact below \<open>2 ^ 64\<close>.\<close>

lemma of_nat_u64: "m < 2 ^ 64 \<Longrightarrow> unat (of_nat m :: u64) = m"
  by (simp add: unsigned_of_nat take_bit_nat_eq_self)

lemma counter_at: "e < 2 ^ 64 \<Longrightarrow> (of_nat e - 1 :: u64) = COUNTER_INIT \<longleftrightarrow> e = 0"
  using of_nat_u64 [of e] by (auto simp: COUNTER_INIT_def)

lemma tallied_pop:
  assumes "tallied z c d f ct (state, counter, stat)" and "c < 2 ^ 64" and "0 < state"
  shows "\<exists>r m s. snd (fifo_step n Pop_Msg f) = Popped r m \<and> consume_switch r m counter stat = Some s \<and>
    tallied z c d (fst (fifo_step n Pop_Msg f)) ct s"
proof -
  from assms(1) obtain a e R S where t: "e \<le> a" "a \<le> c" "c \<le> Suc z" "a = c \<longrightarrow> e = c" "f_pending f = map (bench_msg z) [a..<c]"
    "f_gap f \<longleftrightarrow> e < a" "f_held f = None \<longleftrightarrow> e = 0" "R + S = e" "ct_sent ct = of_nat (min c z)" "ct_dropped ct + d = of_nat (S + (a - e))"
    "state = (if e = Suc z then 0 else 1)" "counter = of_nat e - 1" "st_received stat = of_nat R" "st_dropped stat = of_nat S"
    unfolding tallied_def server_at_def by (elim exE conjE) simp
  have one: "state = 1" using assms(3) t(11) by (auto split: if_splits)
  have e: "counter = COUNTER_INIT \<longleftrightarrow> e = 0" using counter_at [of e] t(1,2,12) assms(2) by simp
  show ?thesis
  proof (cases "a = c")
    case True
    then have p: "f_pending f = []" using t(5) by simp
    then show ?thesis using assms(1) e t(7) one by (cases "e = 0") (auto simp: consume_switch_def)
  next
    case False
    then have p: "f_pending f = bench_msg z a # map (bench_msg z) [Suc a..<c]" and ac: "a < c" using t(2,5) by (simp_all add: upt_conv_Cons)
    have le: "(of_nat a :: u64) \<le> of_nat e \<longleftrightarrow> a \<le> e"
      using of_nat_u64 [of a] of_nat_u64 [of e] t(1,2) assms(2) by (simp add: word_le_nat_alt)
    let ?g = "\<lparr>f_held = Some (bench_msg z a), f_pending = map (bench_msg z) [Suc a..<c], f_gap = False\<rparr>"
    have step: "fst (fifo_step n Pop_Msg f) = ?g"
      "snd (fifo_step n Pop_Msg f) = Popped (if f_gap f then RI_POP_RESULT_DISCARDED else RI_POP_RESULT_SUCCESS) (Some (bench_msg z a))"
      using p by simp_all
    have got: "tallied z c d ?g ct (if a = z then 0 else 1, of_nat a, stat')"
      if "st_received stat' = of_nat (Suc R)" and "st_dropped stat' = of_nat (S + (a - e))" for stat'
      unfolding tallied_def server_at_def
      by (rule exI [of _ "Suc a"], rule exI [of _ "Suc a"], rule exI [of _ "Suc R"], rule exI [of _ "S + (a - e)"]) (use that t ac in auto)
    show ?thesis
    proof (cases "f_gap f")
      case gap: False
      then have "a = e" using t(1,6) by simp
      then show ?thesis unfolding step using gap t(12-14) got [of "stat\<lparr>st_received := st_received stat + 1\<rparr>"] e
        by (cases "e = z") (simp_all add: consume_switch_def bench_msg_def)
    next
      case True
      let ?d = "if counter = COUNTER_INIT then of_nat a else of_nat a - counter - 1 :: u64"
      have dd: "?d = of_nat (a - e)" using e t(1,12) by (simp add: of_nat_diff)
      let ?stat = "stat\<lparr>st_received := st_received stat + 1, st_overflowed := st_overflowed stat + 1, st_dropped := st_dropped stat + ?d\<rparr>"
      have "\<not> (counter \<noteq> COUNTER_INIT \<and> of_nat a \<le> counter + 1)" using le True t(6,12) by simp
      then have "consume_switch RI_POP_RESULT_DISCARDED (Some (bench_msg z a)) counter stat = Some (if a = z then 0 else 1, of_nat a, ?stat)"
        by (auto simp: consume_switch_def bench_msg_def Let_def)
      moreover have "tallied z c d ?g ct (if a = z then 0 else 1, of_nat a, ?stat)" by (rule got) (use t(13,14) dd in simp_all)
      ultimately show ?thesis unfolding step using True by simp
    qed
  qed
qed

lemma tallied_over:
  assumes "tallied z c d f ct (state, counter, stat)" and "\<not> 0 < state"
  shows "\<exists>r m. fifo_step n Pop_Msg f = (f, Popped r m)"
proof -
  from assms obtain a where "f_pending f = map (bench_msg z) [a..<c]" "c \<le> Suc z" "Suc z \<le> a" unfolding tallied_def server_at_def by (auto split: if_splits)
  then show ?thesis by simp
qed

lemma bench_tallied:
  assumes "3 \<le> n" and "z < 2 ^ 63"
  shows "tallied z c d f ct s \<Longrightarrow> count_list bs True = 0 \<or> c + count_list bs True \<le> z \<Longrightarrow>
    \<exists>ct' s'. tally (bench_ops z bs c) (snd (spec_trace (fifo_step n) (bench_ops z bs c) f)) ct s = Some (ct', s') \<and>
      tallied z (c + count_list bs True) d (fst (spec_trace (fifo_step n) (bench_ops z bs c) f)) ct' s'"
proof (induction bs arbitrary: c f ct s)
  case (Cons b bs)
  show ?case
  proof (cases b)
    case True
    then have c: "c < z" using Cons.prems(2) by simp
    obtain r ct' where p: "snd (fifo_step n (Force_Push (bench_msg z c)) f) = Forced r"
      "tally_one (Force_Push (bench_msg z c)) (Forced r) ct s = Some (ct', s)"
      "tallied z (Suc c) d (fst (fifo_step n (Force_Push (bench_msg z c)) f)) ct' s"
      using tallied_push [OF assms(1) Cons.prems(1)] c by auto
    then show ?thesis using Cons.IH [OF p(3)] Cons.prems(2) True by (simp add: spec_trace_Cons del: fifo_step.simps)
  next
    case False
    obtain state counter stat where s: "s = (state, counter, stat)" by (cases s)
    have "c \<le> Suc z" using Cons.prems(1) unfolding tallied_def by blast
    then have c: "c < 2 ^ 64" using assms(2) by simp
    show ?thesis
    proof (cases "0 < state")
      case True
      obtain r m s' where p: "snd (fifo_step n Pop_Msg f) = Popped r m" "consume_switch r m counter stat = Some s'"
        "tallied z c d (fst (fifo_step n Pop_Msg f)) ct s'"
        using tallied_pop [OF Cons.prems(1) [unfolded s] c True] by blast
      then show ?thesis using Cons.IH [OF p(3)] Cons.prems(2) False True s
        by (simp add: spec_trace_Cons tally_one_def del: fifo_step.simps)
    next
      case over: False
      obtain r m where "fifo_step n Pop_Msg f = (f, Popped r m)" using tallied_over [OF Cons.prems(1) [unfolded s] over] by blast
      then show ?thesis using Cons.IH [OF Cons.prems(1)] Cons.prems(2) False over s
        by (simp add: spec_trace_Cons tally_one_def del: fifo_step.simps)
    qed
  qed
qed simp

lemma length_bench_ops: "length (bench_ops z bs c) = length bs"
  by (induction z bs c rule: bench_ops.induct) simp_all

lemma length_spec_trace: "length (snd (spec_trace step ops a)) = length ops"
  by (induction ops arbitrary: a) (simp_all add: spec_trace_Cons)

lemma bench_ops_append: "bench_ops z (xs @ ys) c = bench_ops z xs c @ bench_ops z ys (c + count_list xs True)"
  by (induction z xs c rule: bench_ops.induct) simp_all

lemma bench_ops_pops: "bench_ops z (replicate k False) c = replicate k Pop_Msg"
  by (induction k) simp_all

section \<open>Neither keeps anything of its group\<close>

lemma consume_held: "handled grp u0 g P C E u \<Longrightarrow> c \<in> C \<Longrightarrow> consume c counter stat u = Some (res, v) \<Longrightarrow> handled grp u0 g P C E v"
  by (auto simp: consume_def bind_eq_Some_conv intro: popped)

lemma consume_loop_held:
  assumes c: "c \<in> C" and h: "handled grp u0 g P C E u" and r: "consume_loop peer c n counter stat u = Some (res, v)"
  shows "handled grp u0 g P C E v"
proof -
  have "c \<in> C \<and> handled grp u0 g P C E u \<longrightarrow> handled grp u0 g P C E (snd (res, v))"
  proof (rule consume_loop.raw_induct [where P = "\<lambda>peer c n counter stat u y. c \<in> C \<and> handled grp u0 g P C E u \<longrightarrow> handled grp u0 g P C E (snd y)",
        OF _ r], intro impI, elim conjE)
    fix rec peer c n counter stat u and y :: "server_stat \<times> world"
    assume IH: "\<And>peer c n counter stat u y. rec peer c n counter stat u = Some y \<Longrightarrow>
        c \<in> C \<and> handled grp u0 g P C E u \<longrightarrow> handled grp u0 g P C E (snd y)"
      and b: "consume c counter stat (u\<lparr>w_files := peer n (w_files u)\<rparr>) \<bind> (\<lambda>((state, counter, stat), w).
        if state > 0 then rec peer c (Suc n) counter stat w else Some (stat, w)) = Some y"
      and c: "c \<in> C" and h: "handled grp u0 g P C E u"
    from b obtain s k st u1 where e: "consume c counter stat (u\<lparr>w_files := peer n (w_files u)\<rparr>) = Some ((s, k, st), u1)"
      and k: "(if s > 0 then rec peer c (Suc n) k st u1 else Some (st, u1)) = Some y" by (auto simp: bind_eq_Some_conv)
    have "handled grp u0 g P C E u1" by (rule consume_held [OF peer_wrote [OF h] c e])
    then show "handled grp u0 g P C E (snd y)" using k IH c by (auto split: if_splits)
  qed
  then show ?thesis using c h by simp
qed

lemma server_body_gives_back:
  assumes g: "whole_group w i ps cs grp u" and r: "server_body peer grp u = Some (res, v)"
  shows "same_resources w v"
proof -
  from r obtain c u1 where c: "ri_group_acquire_consumer grp 0 u = Some (c, u1)" by (auto simp: server_body_def bind_eq_Some_conv)
  have h1: "handled grp u True {} (set_option c) {} u1" using consumer_acquired [OF created c] by simp
  obtain u2 where d: "ri_group_delete grp u1 = Some u2" "handled grp u False {} (set_option c) {} u2" using group_deleted_held [OF g h1] by blast
  show ?thesis
  proof (cases c)
    case None
    then show ?thesis using r c d handled_group [OF g d(2)] by (simp add: server_body_def)
  next
    case (Some c')
    then obtain st u3 where u3: "consume_loop peer c' 0 COUNTER_INIT server_stat_zero u2 = Some (st, u3)" "ri_consumer_release c' u3 = Some v"
      using r c d(1) by (auto simp: server_body_def bind_eq_Some_conv)
    have h2: "handled grp u False {} {c'} {} u2" using d(2) Some by simp
    have "handled grp u False {} ({c'} - {c'}) {} v" by (rule consumer_released [OF consume_loop_held [OF _ h2 u3(1)] _ u3(2)]) simp_all
    then show ?thesis using handled_group [OF g] by fastforce
  qed
qed

lemma produce_held:
  assumes "whole_group w i ps cs grp u0" and "handled grp u0 g P C E u" and "p \<in> P" and "produce p counter stat u = Some (res, v)"
  shows "handled grp u0 g P C E v"
proof -
  from assms(4) obtain u1 x where "write_field p 0 8 counter u = Some u1" "ri_producer_force_push p u1 = Some (x, v)"
    by (auto simp: produce_def bind_eq_Some_conv)
  then show ?thesis using force_pushed [OF write_held [OF assms(1-3)] assms(3)] by blast
qed

lemma produce_loop_held:
  assumes "whole_group w i ps cs grp u0" and "p \<in> P"
  shows "handled grp u0 g P C E u \<Longrightarrow> produce_loop peer p k counter stat u = Some (res, v) \<Longrightarrow> handled grp u0 g P C E v"
proof (induction k arbitrary: counter stat u)
  case (Suc k)
  from Suc.prems(2) obtain r st u1 where e: "produce p counter stat (u\<lparr>w_files := peer k (w_files u)\<rparr>) = Some ((r, st), u1)"
    and k: "(if r < 0 then Some (st, u1) else produce_loop peer p k (counter + 1) st u1) = Some (res, v)" by (auto simp: bind_eq_Some_conv)
  have "handled grp u0 g P C E u1" by (rule produce_held [OF assms(1) peer_wrote [OF Suc.prems(1)] assms(2) e])
  then show ?case using k Suc.IH by (auto split: if_splits)
qed simp

lemma client_body_gives_back:
  assumes g: "whole_group w i ps cs grp u" and r: "client_body peer grp u = Some ((0, stat), v)"
  shows "same_resources w v"
proof -
  from r obtain p u1 where p: "ri_group_acquire_producer grp 0 u = Some (Some p, u1)" and
    k: "do {
          w \<leftarrow> ri_group_delete grp u1;
          (stat, w) \<leftarrow> produce_loop peer p SEND_NUM_MSGS 0 client_stat_zero w;
          w \<leftarrow> write_field p 0 8 (of_nat SEND_NUM_MSGS :: u64) w;
          w \<leftarrow> write_field p 8 1 (1 :: u8) w;
          (_, w) \<leftarrow> ri_producer_force_push p w;
          w \<leftarrow> ri_producer_release p w;
          Some ((0, Some stat), w)
        } = Some ((0, stat), v)"
    by (auto simp: client_body_def bind_eq_Some_conv split: option.splits)
  from k obtain u2 st u3 u4 u5 x u6 where u: "ri_group_delete grp u1 = Some u2" "produce_loop peer p SEND_NUM_MSGS 0 client_stat_zero u2 = Some (st, u3)"
    "write_field p 0 8 (of_nat SEND_NUM_MSGS :: u64) u3 = Some u4" "write_field p 8 1 (1 :: u8) u4 = Some u5"
    "ri_producer_force_push p u5 = Some (x, u6)" "ri_producer_release p u6 = Some v" by (auto simp: bind_eq_Some_conv)
  have h1: "handled grp u False {p} {} {} u2" using group_deleted [OF producer_acquired [OF created p] u(1)] by simp
  have p: "p \<in> {p}" by simp
  note h3 = produce_loop_held [OF g p h1 u(2)]
  note h5 = write_held [OF g write_held [OF g h3 p u(3)] p u(4)]
  have "handled grp u False ({p} - {p}) {} {} v" by (rule producer_released [OF force_pushed [OF h5 p u(5)] p u(6)])
  then show ?thesis using handled_group [OF g] by fastforce
qed

section \<open>Properties\<close>

text \<open>
  C28. However the pushes of the client and the pops of the server follow each other, on a queue of any length whose messages do not reach
  into the chain: the checks of the server never fail, it sees the last message within \<open>n\<close> pops after it was pushed and stops, what it has
  received and what it has counted as lost add up to what was sent, the last message included, which the client does not count. Both
  sides have counted the same number of lost messages, except that the client does not see whether its last push discarded one.
\<close>

theorem benchmark_adds_up:
  assumes "unat (ri_channel_queue_len attr) = n" and "3 \<le> n" and "n < 2 ^ 30" and "length (sh_chain sh) = n"
    and "run (ri_producer_queue_new cls True raw (Some addr) attr) sh = Some (sh1, Some producer)"
    and "ri_consumer_queue_new cls True (Some addr) attr = Some consumer" and "slots_apart cls attr addr"
    and "z = count_list order True" and "z < 2 ^ 63" and "ops = bench_ops z (order @ True # replicate n False) 0"
  shows "\<exists>s rs ct stat r. trace queue_step ops \<lparr>qs_shared = ri_producer_queue_init_shm sh1,
      qs_producer = producer, qs_consumer = consumer, qs_mem = mem\<rparr> = Some (s, rs) \<and>
    tally ops rs client_stat_zero (1, COUNTER_INIT, server_stat_zero) = Some (ct, 0, of_nat z, stat) \<and>
    ct_sent ct = of_nat z \<and> st_received stat + st_dropped stat = ct_sent ct + 1 \<and> rs ! length order = Forced r \<and>
    st_dropped stat = ct_dropped ct + (if r = RI_FORCE_PUSH_RESULT_DISCARDED then 1 else 0)"
proof -
  let ?s = "(1, COUNTER_INIT, server_stat_zero) :: int \<times> u64 \<times> server_stat"
  let ?ops1 = "bench_ops z order 0" and ?ops3 = "bench_ops z (replicate n False) (Suc z)"
  let ?op = "Force_Push (bench_msg z z)"
  have ops: "ops = ?ops1 @ ?op # ?ops3" using assms(8,10) by (simp add: bench_ops_append)
  define f1 rs1 where "f1 = fst (spec_trace (fifo_step n) ?ops1 fifo_new)" and "rs1 = snd (spec_trace (fifo_step n) ?ops1 fifo_new)"
  have l1: "length ?ops1 = length rs1" "length rs1 = length order" by (simp_all add: rs1_def length_spec_trace length_bench_ops)
  have "tallied z 0 0 fifo_new client_stat_zero ?s"
    unfolding tallied_def server_at_def
    by (intro exI [of _ 0]) (simp add: fifo_new_def client_stat_zero_def server_stat_zero_def COUNTER_INIT_def)
  then obtain ct1 s1 where t1: "tally ?ops1 rs1 client_stat_zero ?s = Some (ct1, s1)" "tallied z z 0 f1 ct1 s1"
    using bench_tallied [OF assms(2,9), of 0 0 fifo_new client_stat_zero ?s order] assms(8) unfolding f1_def rs1_def by auto
  let ?f2 = "fst (fifo_step n ?op f1)"
  from tallied_push [OF assms(2) t1(2) order.refl] obtain r ct where
    t2: "snd (fifo_step n ?op f1) = Forced r" "tally_one ?op (Forced r) ct1 s1 = Some (ct, s1)" and
    last: "tallied z (Suc z) (if z = z \<and> r = RI_FORCE_PUSH_RESULT_DISCARDED then 0 + 1 else 0) ?f2 ct s1" by blast
  note t2 = t2 last [simplified add_0 simp_thms]
  let ?last = "spec_trace (fifo_step n) ?ops3 ?f2"
  obtain ct3 state counter stat where t3: "tally ?ops3 (snd ?last) ct s1 = Some (ct3, state, counter, stat)"
    "tallied z (Suc z) (if r = RI_FORCE_PUSH_RESULT_DISCARDED then 1 else 0) (fst ?last) ct3 (state, counter, stat)"
    using bench_tallied [OF assms(2,9) t2(3), of "replicate n False"] by auto
  have all: "spec_trace (fifo_step n) ops fifo_new = (fst ?last, rs1 @ Forced r # snd ?last)"
    unfolding ops spec_trace_append f1_def [symmetric] rs1_def [symmetric] by (simp add: spec_trace_Cons t2(1) del: fifo_step.simps)
  have "f_pending (fst ?last) = []"
    using pops_empty [OF less_imp_le [OF pending_bounded [OF assms(2)]], of n "?ops1 @ [?op]"]
    by (simp add: bench_ops_pops spec_trace_append spec_trace_Cons f1_def del: fifo_step.simps)
  then obtain R S where e: "R + S = Suc z" "server_at z (Suc z) R S (state, counter, stat)" "ct_sent ct3 = of_nat z"
    "ct_dropped ct3 + (if r = RI_FORCE_PUSH_RESULT_DISCARDED then 1 else 0) = of_nat S"
    using t3(2) unfolding tallied_def by auto
  have "of_nat R + of_nat S = (of_nat z + 1 :: u64)" using arg_cong [OF e(1), of "of_nat :: nat \<Rightarrow> u64"] by simp
  then have "state = 0 \<and> counter = of_nat z \<and> st_received stat + st_dropped stat = ct_sent ct3 + 1 \<and>
      st_dropped stat = ct_dropped ct3 + (if r = RI_FORCE_PUSH_RESULT_DISCARDED then 1 else 0)"
    using e(2-4) by (simp add: server_at_def)
  moreover have "tally ops (rs1 @ Forced r # snd ?last) client_stat_zero ?s = Some (ct3, state, counter, stat)"
    unfolding ops tally_append [OF l1(1)] using t1(1) t2(2) t3(1) by simp
  moreover have "(rs1 @ Forced r # snd ?last) ! length order = Forced r" using l1(2) by (simp add: nth_append)
  ultimately show ?thesis using new_queue_trace [OF assms(1-6), of ops mem] e(3) unfolding all snd_conv by blast
qed

text \<open>Seven messages to a queue of five slots, of which some are taken in between.\<close>

theorem benchmark_adds_up_witness:
  "\<exists>sh1 producer consumer s rs ct stat. run (ri_producer_queue_new 64 True (\<lambda>_. 9) (Some 4096) five_slots) raw_words = Some (sh1, Some producer) \<and>
     trace queue_step (bench_ops 7 ([True, False, True, True, True, True, True, False, False, True] @ True # replicate 5 False) 0)
       \<lparr>qs_shared = ri_producer_queue_init_shm sh1, qs_producer = producer, qs_consumer = consumer, qs_mem = (\<lambda>_. (0, False))\<rparr> = Some (s, rs) \<and>
     tally (bench_ops 7 ([True, False, True, True, True, True, True, False, False, True] @ True # replicate 5 False) 0) rs
       client_stat_zero (1, COUNTER_INIT, server_stat_zero) = Some (ct, 0, 7, stat) \<and>
     st_received stat + st_dropped stat = 8"
proof -
  obtain sh1 producer where new:
    "run (ri_producer_queue_new 64 True (\<lambda>_. 9) (Some 4096) five_slots) raw_words = Some (sh1, Some producer)"
    using five_slots_new by (auto split: option.splits prod.splits)
  obtain consumer where c: "ri_consumer_queue_new 64 True (Some 4096) five_slots = Some consumer"
    by (simp add: ri_consumer_queue_new_def)
  let ?order = "[True, False, True, True, True, True, True, False, False, True]"
  have z: "7 = count_list ?order True" by simp
  from benchmark_adds_up [OF five_slots_len _ _ _ new c five_slots_apart z _ refl, of "\<lambda>_. (0, False)"] new show ?thesis
    by (fastforce simp: raw_words_def simp del: append.simps bench_ops.simps tally.simps)
qed

end
