(* ===== verification/Log.thy ===== *)
theory Log
  imports Rtipc_Types
begin

text \<open>
  Logging (\<open>src/log.c\<close>, \<open>include/rtipc/log.h\<close>): the level a build keeps, the handler, and what the standard handler
  writes. The text \<open>msg\<close> of a message is what the format and its arguments give; a handler is the function from its
  arguments to what it writes.
\<close>

section \<open>Levels\<close>

definition RI_LOG_LEVEL_NONE :: int where "RI_LOG_LEVEL_NONE = 0"
definition RI_LOG_LEVEL_ERR :: int where "RI_LOG_LEVEL_ERR = 1"
definition RI_LOG_LEVEL_WRN :: int where "RI_LOG_LEVEL_WRN = 2"
definition RI_LOG_LEVEL_INF :: int where "RI_LOG_LEVEL_INF = 3"
definition RI_LOG_LEVEL_DBG :: int where "RI_LOG_LEVEL_DBG = 4"

lemmas log_levels = RI_LOG_LEVEL_NONE_def RI_LOG_LEVEL_ERR_def RI_LOG_LEVEL_WRN_def RI_LOG_LEVEL_INF_def
  RI_LOG_LEVEL_DBG_def

section \<open>Handlers\<close>

datatype stream = Stdout | Stderr

type_synonym ri_log_fn = "int \<Rightarrow> string \<Rightarrow> string \<Rightarrow> string \<Rightarrow> string \<Rightarrow> (stream \<times> string) list"

record log_state =
  m_log_min_level :: int
  ri_log_handler :: ri_log_fn

text \<open>The conversion \<open>%d\<close>.\<close>

fun decimal :: "nat \<Rightarrow> string" where
  "decimal n = (if n < 10 then [char_of (48 + n)] else decimal (n div 10) @ [char_of (48 + n mod 10)])"

definition signed_decimal :: "int \<Rightarrow> string" where
  "signed_decimal i = (if i < 0 then CHR ''-'' # decimal (nat (- i)) else decimal (nat i))"

definition log_dummy :: ri_log_fn where
  "log_dummy priority file_name line func msg = []"

definition log_std :: "int \<Rightarrow> ri_log_fn" where
  "log_std min_level priority file_name line func msg =
     (if priority > min_level then []
      else [(if priority = RI_LOG_LEVEL_ERR then Stderr else Stdout,
        ''['' @ signed_decimal priority @ ''] '' @ file_name @ '':'' @ line @ '' in '' @ func @ '': '' @ msg)])"

definition log_init :: log_state where
  "log_init = \<lparr>m_log_min_level = RI_LOG_LEVEL_DBG, ri_log_handler = log_std RI_LOG_LEVEL_DBG\<rparr>"

definition ri_log :: "log_state \<Rightarrow> ri_log_fn" where
  "ri_log st priority file_name line func msg = ri_log_handler st priority file_name line func msg"

definition ri_set_log_handler :: "ri_log_fn option \<Rightarrow> log_state \<Rightarrow> log_state" where
  "ri_set_log_handler handler st = st\<lparr>ri_log_handler := (case handler of Some f \<Rightarrow> f | None \<Rightarrow> log_dummy)\<rparr>"

text \<open>The macros \<open>LOG_ERR\<close> to \<open>LOG_DBG\<close>, in a build that keeps messages up to \<open>max_level\<close>.\<close>

definition log_macro :: "int \<Rightarrow> log_state \<Rightarrow> ri_log_fn" where
  "log_macro max_level st level file_name line func msg =
     (if level \<le> max_level then ri_log st level file_name line func (msg @ [char_of (10 :: nat)]) else [])"

section \<open>What is written\<close>

lemma log_example: "log_macro RI_LOG_LEVEL_INF log_init RI_LOG_LEVEL_ERR ''a.c'' ''12'' ''f'' ''m'' =
    [(Stderr, ''[1] a.c:12 in f: m'' @ [char_of (10 :: nat)])]"
  by code_simp

text \<open>
  Without a handler of the user the library writes one line for every message of a level the build keeps, errors to the
  error stream and the others to the standard stream: level, file, line, function and text; after \<open>ri_set_log_handler\<close> with a null pointer it writes nothing at all,
  although the interface promises the default behaviour back.
\<close>

theorem null_handler_silences:
  assumes "RI_LOG_LEVEL_ERR \<le> level" and "level \<le> max_level" and "max_level \<le> RI_LOG_LEVEL_DBG"
  shows "log_macro max_level log_init level file_name line func msg =
      [(if level = RI_LOG_LEVEL_ERR then Stderr else Stdout,
        ''['' @ signed_decimal level @ ''] '' @ file_name @ '':'' @ line @ '' in '' @ func @ '': '' @ msg @ [char_of (10 :: nat)])] \<and>
    log_macro max_level (ri_set_log_handler None log_init) level file_name line func msg = []"
  using assms by (simp add: log_macro_def log_init_def ri_log_def ri_set_log_handler_def log_std_def log_dummy_def log_levels)

theorem null_handler_silences_witness:
  "\<exists>txt. log_macro 3 log_init 1 ''a.c'' ''12'' ''f'' ''m'' = [(Stderr, txt)]"
  using null_handler_silences [of 1 3 "''a.c''" "''12''" "''f''" "''m''"] by (auto simp: log_levels)

end
