(* ===== verification/Spec2Isabelle.thy ===== *)
theory Spec2Isabelle
  imports Delivery Hostile Liveness Layout Attr_Properties Request_Safety Channel_Properties Cxx_Properties Server_Example Client_Example Cxx_Examples_Properties Benchmark Log
begin

text \<open>
  rtipc is a C library for zero-copy communication between two processes: a client creates a group of channels in
  a shared memory file, describes them in a request it sends over a Unix domain socket together with the
  descriptors, and the server maps the same channels with the roles exchanged. A channel is a wait-free queue with
  one producer and one consumer; the producer may overwrite the oldest message, but never the one the consumer holds.

  \<^bold>\<open>Layers and theories\<close>

  The development follows the layers of \<open>src/\<close>; every theory names the file it models in its own header.

  \<^item> \<open>Prelude\<close>: machine integers of an LP64 platform, lemmas on words and lists. \<open>Rtipc_Types\<close>: the public structures and
    result enumerations of \<open>include/rtipc/rtipc.h\<close>.
  \<^item> \<open>Index\<close> (\<open>index.h\<close>), \<open>Mem_Utils\<close> (\<open>mem_utils.h\<close>, \<open>mem_utils.c\<close>), \<open>Queue\<close> (\<open>queue.h\<close>, \<open>queue.c\<close>, the sizes of
    \<open>channel.h\<close>): the words of a queue, their layout and the atomic accesses.
  \<^item> \<open>Producer\<close> (\<open>producer.c\<close>) and \<open>Consumer\<close> (\<open>consumer.c\<close>): every operation is a value of type \<open>prog\<close>, a tree of single atomic
    accesses. \<open>run\<close> executes it without interference; \<open>astep\<close> executes one access, so that the other process can act between two.
  \<^item> \<open>Protocol\<close>: the abstract specification of the queue, as transitions of producer (\<open>ptrans\<close>) and consumer (\<open>ctrans\<close>)
    on a \<open>view\<close> that knows who owns which slot. \<open>Rely_Guarantee\<close>: the predicate \<open>safe\<close> and the locale \<open>rg\<close> of its rules,
    interpreted for the producer in \<open>Producer_Safe\<close> and for the consumer in \<open>Consumer_Safe\<close>, where every operation is shown to
    follow the protocol whatever the other side does. \<open>Ring\<close>: what the creation of a queue writes. \<open>Concurrency\<close>: the two
    processes as a step relation and the proof that every reachable state is explained by the protocol. \<open>Runs\<close>: executable schedules.
    \<open>Delivery\<close>: the resulting theorems. \<open>Sequential\<close>: the queue without interference. \<open>Fifo\<close>: the
    locale \<open>refinement\<close> and its interpretation: without interference the queue refines a bounded queue of messages.
    \<open>Liveness\<close>: what a consumer that keeps popping gets. \<open>Hostile\<close>: the two sides when the other one does not follow the protocol.
    \<open>Layout\<close>: the queue in memory, and when its messages lie behind its chain (\<open>slots_apart\<close>).
  \<^item> \<open>Attr\<close>, \<open>Attr_Copy\<close>, \<open>Attr_Properties\<close> (\<open>attr.c\<close>): comparison and copy of attributes. \<open>Request\<close>, \<open>Request_Encode\<close>,
    \<open>Request_Decode\<close>, \<open>Request_Roundtrip\<close>, \<open>Request_Safety\<close> (\<open>request.c\<close>, \<open>header.c\<close>): the request, its writer and parser.
  \<^item> \<open>World\<close> (the descriptor part of \<open>unix.c\<close>): a process with its descriptors, the files of the kernel, and the objects
    the library has allocated. \<open>Shm\<close> (\<open>shm.c\<close>), \<open>Channel\<close> and \<open>Channel_Ops\<close> (\<open>channel.c\<close>), \<open>Group\<close> (\<open>group.c\<close>).
    \<open>Ownership\<close>: the locale \<open>owned\<close> of a channel with two owners, interpreted for consumers and producers.
    \<open>Lost_Mappings\<close>: which operations can lose a mapping, by a failed \<open>mlock\<close>.
    \<open>Group_Resources\<close>, \<open>Group_Life\<close>: what the creation of a group takes and a failed one gives back. \<open>Channel_Side\<close>: the locale
    \<open>channel_side\<close> of the channels of one kind that group and users share, interpreted for consumers and producers;
    \<open>Group_Handles\<close>: what group and users hold together; \<open>Group_Users\<close>: the calls of the users as the inductive relation
    \<open>handled\<close>, and what holds after any number of them. \<open>Group_Layout\<close>: where the channels lie.
    \<open>Channel_Properties\<close>: eventfd and cache.
  \<^item> \<open>Unix\<close> (the messages of \<open>unix.c\<close>), \<open>Connect\<close> (\<open>connect.c\<close>): a process with one connection. \<open>Exchange\<close>, \<open>Handshake\<close>: client and
    server together. \<open>Connect_Properties\<close>, \<open>Accept_Properties\<close>: what client and server keep of
    a connection that fails, and of a group that was accepted. \<open>Log\<close> (\<open>log.c\<close>, \<open>log.h\<close>).
  \<^item> \<open>Cxx\<close>, \<open>Cxx_Properties\<close> (\<open>cxx/src/rtipc.cpp\<close>, \<open>cxx/include/rtipc/rtipc.hpp\<close>): the C++ wrapper.
  \<^item> \<open>Rpc\<close> (\<open>examples/rpc.c\<close>, \<open>rpc.h\<close>, \<open>messages.h\<close>), \<open>Rpc_Life\<close>, \<open>Server_Example\<close> (\<open>server.c\<close>), \<open>Client_Example\<close> (\<open>client.c\<close>),
    \<open>Benchmark\<close> (\<open>benchmark.c\<close>): the C examples, on the life of a group of \<open>Group_Users\<close>. \<open>Cxx_Examples\<close>, \<open>Cxx_Examples_Properties\<close>
    (\<open>cxx/examples/\<close>): the C++ examples.

  \<^bold>\<open>How the code is represented\<close>

  Structures are records with the fields of the code, machine integers have their width, arrays are lists. The result \<open>None\<close>
  of a step, \<open>Fault\<close> of a program and \<open>Undefined\<close> of an \<open>outcome\<close> are accesses that are undefined in C: out of bounds, after
  free, through a null pointer. Error codes are ordinary results. Pointers to objects with a lifetime are positions in a table of
  the \<open>world\<close>, in which freed objects are \<open>None\<close>. What the environment decides is a parameter: whether the \<open>k\<close>-th call that may
  fail succeeds (\<open>w_ok\<close>), the error numbers, the addresses of mappings, the content of fresh memory, the files of sysfs, the
  messages that arrive. A theorem without a hypothesis about them holds for all of them.

  Atomic accesses are sequentially consistent and interleave one at a time; the private structures of the
  two sides are not shared. Steps of the producer's client that fill a message are single steps too. The contents of messages are kept
  apart from the words of the queue. In the code they are apart exactly when \<open>slots_apart\<close> holds of the attributes and the address
  (\<open>slots_apart_iff\<close>: for 13 of 16 lengths with lines of 64 bytes); the theorems about queues and their messages have it as a
  hypothesis, and \<open>chain_reaches_into_messages\<close> says when it fails.

  \<^bold>\<open>What is shown\<close>

  Under every interleaving of pushes, pops and queries a consumer gets messages in the order they were sent, the slot it holds is
  not written, no operation faults or reports an error, and each makes a bounded number of accesses. A new queue of \<open>n\<close> slots
  takes \<open>n - 1\<close> messages; every sequence of pushes, pops, flushes and
  counts on it has the results of a bounded queue of messages. The request is read back as it was written; a client and the server
  that accepted it hold the two ends of the same channels. A creation or connection that fails, on
  either side, gives back what it took, but for the one mapping that stays when \<open>mlock\<close> has failed (\<open>given_back\<close>). However the channels of a
  group are acquired, used and released and whenever the group is
  deleted, the calls for that are defined and in the end all is as before (\<open>same_resources\<close>); each channel is freed once, by its last owner. A consumer that pops
  \<open>n\<close> times reaches the newest message, and without forced pushes it misses none; it never leaves the chain, whatever the producer
  writes (a producer can be led out of its private chain: \<open>hostile_tail_breaks_producer\<close>). The C++ wrapper passes attributes through unchanged and
  gives out channels only for types that fit. The example programs give back what they took when they return,
  whatever their peer does, the C++ server does with a
  command what the C server does, and the checks and statistics of the benchmark are right. The theorems that exhibit errors of the code (\<open>ri_consumer_queue_flush\<close>,
  \<open>ri_producer_queue_full\<close>, the overlap of chain and messages, the copy behind an empty info, the parser of a malformed request,
  the twice freed table, the lost cache and mapping, the response of the wrong size, descriptor 0, the failed \<open>listen\<close>) state exactly
  when they happen, or a run in which they do.

  \<^bold>\<open>Fuel and bounds\<close>

  The loop of \<open>ri_consumer_queue_flush\<close> has a number of rounds as argument; one is enough without interference
  (\<open>flush_one_round\<close>), and no number is with it. All other loops of the library are structural recursions or recurse on the number of iterations
  their C counter allows. The concrete runs use queues of three slots, the shortest there are.

  \<^bold>\<open>Not modelled\<close>

  Weaker memory orders than sequential consistency; \<open>ri_queue_dump\<close>, which only prints; the build in which
  \<open>RI_CACHELINE_SIZE\<close> fixes the line size. Calls of the log macros in the other components have no effect on their state. Of the C++
  wrapper: handles that were moved from, and allocations of the standard containers that fail. Of the examples: printing, clocks, \<open>fork\<close> and
  affinity of the benchmark, and \<open>cnt.c\<close>, which prints the results of a fixed sequence of pushes and pops. Arithmetic on doubles is a
  parameter. The loops of the example client and of the server of the benchmark wait for the other process and need not
  end; they are partial functions, and the theorems about them are about the runs that return.
\<close>

end
